(* ===== verification/Prelude.thy ===== *)
theory Prelude
  imports Main "HOL-Library.Word" "HOL-Library.Multiset"
begin

text \<open>
  Shared vocabulary of the development: the named theorem collections, the reading of
  \<^verbatim>\<open>cl_uint\<close> as natural numbers modulo \<open>2 ^ 32\<close>, and the generic
  facts on sums, powers of two and functions that the component theories use.
\<close>

named_theorems u32_simps
named_theorems cfg_simps

section \<open>32-bit unsigned arithmetic on nat\<close>

text \<open>
  \<^verbatim>\<open>cl_uint\<close> values are naturals below \<open>2 ^ 32\<close>. A conversion from
  \<^verbatim>\<open>size_t\<close> and an addition or product that may leave the range are written with
  \<open>u32\<close>; \<open>u64\<close> does the same for \<^verbatim>\<open>size_t\<close>.
\<close>

definition u32 :: "nat \<Rightarrow> nat" where
  "u32 x = x mod 2 ^ 32"

definition u64 :: "nat \<Rightarrow> nat" where
  "u64 x = x mod 2 ^ 64"

lemma u32_small [u32_simps]: "x < 2 ^ 32 \<Longrightarrow> u32 x = x"
  by (simp add: u32_def)

lemma u64_small [u32_simps]: "x < 2 ^ 64 \<Longrightarrow> u64 x = x"
  by (simp add: u64_def)

lemma u32_bound: "u32 x < 2 ^ 32"
  by (simp add: u32_def)

lemma u64_bound: "u64 x < 2 ^ 64"
  by (simp add: u64_def)

section \<open>Powers of two\<close>

text \<open>The preprocessor test \<^verbatim>\<open>IS_POWER2\<close> of the kernels.\<close>

definition is_power2 :: "nat \<Rightarrow> bool" where
  "is_power2 x \<longleftrightarrow> 0 < x \<and> and x (x - 1) = 0"

definition pow2 :: "nat \<Rightarrow> bool" where
  "pow2 x \<longleftrightarrow> (\<exists>k. x = 2 ^ k)"

lemma pow2_power [simp, intro]: "pow2 (2 ^ k)"
  by (auto simp: pow2_def)

lemma pow2_pos: "pow2 x \<Longrightarrow> 0 < x"
  by (auto simp: pow2_def)

lemma pow2_E:
  assumes "pow2 x" obtains k where "x = 2 ^ k"
  using assms by (auto simp: pow2_def)

lemma pow2_one [simp]: "pow2 1" "pow2 (Suc 0)"
  by (metis power_0 pow2_power, metis One_nat_def power_0 pow2_power)

lemma pow2_div_dvd:
  assumes "pow2 a" "pow2 b" "a \<le> b"
  shows "a dvd b" and "pow2 (b div a)"
proof -
  obtain i j where ab: "a = 2 ^ i" "b = 2 ^ j" using assms by (auto simp: pow2_def)
  with assms(3) have "i \<le> j" by simp
  then show "a dvd b" by (simp add: ab le_imp_power_dvd)
  from \<open>i \<le> j\<close> show "pow2 (b div a)" by (simp add: ab power_diff [symmetric])
qed

lemma and_pred_even_odd:
  fixes n :: nat
  assumes "0 < n"
  shows "and (2 * n) (2 * n - 1) = 2 * and n (n - 1)"
proof -
  have "2 * n - 1 = Suc (2 * (n - 1))" using assms by simp
  then show ?thesis by (simp add: and_nat_rec [of "2 * n"])
qed

lemma is_power2_double: "0 < n \<Longrightarrow> is_power2 (2 * n) \<longleftrightarrow> is_power2 n"
  using and_pred_even_odd [of n] by (simp add: is_power2_def)

lemma is_power2_odd: "is_power2 (Suc (2 * n)) \<longleftrightarrow> n = 0"
proof -
  have "and (Suc (2 * n)) (2 * n) = 2 * n"
    by (simp add: and_nat_rec [of "Suc (2 * n)"])
  then show ?thesis by (simp add: is_power2_def)
qed

text \<open>The preprocessor test accepts exactly the powers of two.\<close>

lemma is_power2_iff: "is_power2 x \<longleftrightarrow> pow2 x"
proof (induction x rule: less_induct)
  case (less x)
  show ?case
  proof (cases "even x")
    case True
    then obtain n where n: "x = 2 * n" by blast
    show ?thesis
    proof (cases "n = 0")
      case True
      then show ?thesis using n by (simp add: is_power2_def pow2_def)
    next
      case False
      then have "pow2 x \<longleftrightarrow> pow2 n"
        unfolding n pow2_def
        by (metis bit_eq_rec even_mult_iff even_numeral gr0I mult_left_cancel nat_power_eq_Suc_0_iff
            odd_one power_0 power_Suc power_eq_0_iff zero_neq_numeral not0_implies_Suc
            dvd_triv_left nonzero_mult_div_cancel_left)
      then show ?thesis using less.IH [of n] False n by (simp add: is_power2_double)
    qed
  next
    case False
    then obtain n where n: "x = Suc (2 * n)" using oddE by fastforce
    have "pow2 x \<longleftrightarrow> n = 0"
    proof
      assume "pow2 x"
      then obtain k where "x = 2 ^ k" by (rule pow2_E)
      then show "n = 0" using False by (cases k) (auto simp: n)
    next
      assume "n = 0" then show "pow2 x" by (simp add: n)
    qed
    then show ?thesis by (simp add: n is_power2_odd)
  qed
qed

lemma and_pred_mod: "pow2 w \<Longrightarrow> and l (w - 1) = l mod w" for l w :: nat
  by (auto elim!: pow2_E simp: take_bit_eq_mask mask_eq_exp_minus_1 simp flip: take_bit_eq_mod)

section \<open>Sums\<close>

lemma sum_split_at:
  fixes f :: "nat \<Rightarrow> 'a::comm_monoid_add"
  assumes "a \<le> b" "b \<le> c"
  shows "sum f {a..<b} + sum f {b..<c} = sum f {a..<c}"
  using assms by (rule sum.atLeastLessThan_concat)

lemma sum_shift_start:
  fixes f :: "nat \<Rightarrow> 'a::comm_monoid_add"
  shows "(\<Sum>j<m. f (a + j)) = sum f {a..<a + m}"
proof -
  have "sum f {a..<a + m} = sum f {0 + a..<m + a}" by (simp add: add.commute)
  also have "\<dots> = (\<Sum>j = 0..<m. f (j + a))" by (rule sum.shift_bounds_nat_ivl)
  finally show ?thesis by (simp add: add.commute atLeast0LessThan)
qed

lemma sum_block:
  fixes f :: "nat \<Rightarrow> 'a::comm_monoid_add"
  shows "(\<Sum>i<n. \<Sum>j<m. f (i * m + j)) = sum f {..<n * m}"
  by (simp add: sum.nat_group [symmetric] sum_shift_start)

lemma sum_swap_stride:
  fixes f :: "nat \<Rightarrow> 'a::comm_monoid_add"
  shows "(\<Sum>l<w. \<Sum>k<n. f (k * w + l)) = sum f {..<n * w}"
proof -
  have "(\<Sum>l<w. \<Sum>k<n. f (k * w + l)) = (\<Sum>k<n. \<Sum>l<w. f (k * w + l))"
    by (rule sum.swap)
  then show ?thesis by (simp add: sum_block)
qed

section \<open>Strided addresses\<close>

lemma stride_inj:
  fixes i j k l w :: nat
  assumes "i < w" "j < w" "i + k * w = j + l * w"
  shows "i = j \<and> k = l"
proof -
  have "i = (i + k * w) mod w" using assms(1) by simp
  also have "\<dots> = j" using assms(2,3) by simp
  finally show ?thesis using assms by auto
qed

lemma stride_less: "b < n \<Longrightarrow> r < w \<Longrightarrow> b * w + r < n * w" for b n r w :: nat
proof -
  assume "b < n" "r < w"
  have "Suc b * w \<le> n * w" by (rule mult_right_mono, rule Suc_leI, rule \<open>b < n\<close>, simp)
  then show ?thesis using \<open>r < w\<close> unfolding mult_Suc by linarith
qed

lemma stride_split:
  fixes a w n :: nat
  assumes "a < n * w"
  obtains i k where "i < w" "k < n" "a = i + k * w"
proof
  have "0 < w" using assms by (cases w) auto
  then show "a mod w < w" "a div w < n" "a = a mod w + a div w * w"
    using assms by (simp_all add: less_mult_imp_div_less)
qed

end
