(* ===== verification/Utils.thy ===== *)
theory Utils
  imports Prelude
begin

text \<open>
  src/utils.h: rounding, the translation between exceptions and error codes at the ABI boundary,
  and event lists (reference counts are in theory Exports). Exceptions are values of \<open>exn\<close>, one
  constructor per class that the library throws.
\<close>

section \<open>Exceptions\<close>

datatype exn =
    ClError int string
  | InternalError string
  | CacheError string
  | TuneError string
  | InvalidArgument string
  | LogicError string
  | RuntimeError string

type_synonym 'a result = "exn + 'a"

text \<open>\<^verbatim>\<open>catch (InternalError &)\<close> also catches the two derived classes.\<close>

fun is_internal :: "exn \<Rightarrow> bool" where
  "is_internal (InternalError m) = True"
| "is_internal (CacheError m) = True"
| "is_internal (TuneError m) = True"
| "is_internal e = False"

fun is_cl_error :: "exn \<Rightarrow> bool" where
  "is_cl_error (ClError c m) = True"
| "is_cl_error e = False"

definition bind_result :: "'a result \<Rightarrow> ('a \<Rightarrow> 'b result) \<Rightarrow> 'b result" where
  "bind_result r f = (case r of Inl e \<Rightarrow> Inl e | Inr x \<Rightarrow> f x)"

lemma bind_result_simps [simp]:
  "bind_result (Inl e) f = Inl e" "bind_result (Inr x) f = f x"
  by (simp_all add: bind_result_def)

lemma bind_result_Inr: "bind_result r f = Inr y \<longleftrightarrow> (\<exists>x. r = Inr x \<and> f x = Inr y)"
  by (cases r) auto

definition CL_SUCCESS :: int where "CL_SUCCESS = 0"
definition CL_INVALID_VALUE :: int where "CL_INVALID_VALUE = -30"
definition CL_INVALID_BINARY :: int where "CL_INVALID_BINARY = -42"
definition CL_INVALID_GLOBAL_WORK_SIZE :: int where "CL_INVALID_GLOBAL_WORK_SIZE = -63"

section \<open>Rounding\<close>

text \<open>
  The loop of \<^verbatim>\<open>roundDownPower2\<close> on arguments below half of the range of its type,
  where \<^verbatim>\<open>y * 2\<close> does not wrap (at \<open>2 ^ 63\<close> and above the loop of the source does not
  end). The guard \<open>0 < y\<close> only serves termination.
\<close>

function roundDownPower2_loop :: "nat \<Rightarrow> nat \<Rightarrow> nat" where
  "roundDownPower2_loop x y = (if 0 < y \<and> y * 2 \<le> x then roundDownPower2_loop x (y * 2) else y)"
  by pat_completeness auto
termination
  by (relation "measure (\<lambda>(x, y). x - y)") auto

declare roundDownPower2_loop.simps [simp del]

definition roundDownPower2 :: "nat \<Rightarrow> nat" where
  "roundDownPower2 x = roundDownPower2_loop x 1"

definition roundDown :: "nat \<Rightarrow> nat \<Rightarrow> nat" where
  "roundDown x y = x div y * y"

text \<open>On \<^verbatim>\<open>size_t\<close>: the sum is taken modulo \<open>2 ^ 64\<close>.\<close>

definition roundUp :: "nat \<Rightarrow> nat \<Rightarrow> nat" where
  "roundUp x y = u64 (x + y - 1) div y * y"

lemma roundDownPower2_loop_pow2:
  "2 ^ k \<le> max 1 x \<Longrightarrow> \<exists>j. roundDownPower2_loop x (2 ^ k) = 2 ^ j \<and> 2 ^ j \<le> max 1 x \<and> x < 2 * 2 ^ j"
proof (induction "x - 2 ^ k" arbitrary: k rule: less_induct)
  case less
  show ?case
  proof (cases "2 ^ k * 2 \<le> x")
    case True
    have "x - 2 ^ Suc k < x - 2 ^ k" using True less_le_trans [of "2 ^ k" "2 ^ k * 2" x] by (intro diff_less_mono2) auto
    moreover have "2 ^ Suc k \<le> max 1 x" using True by auto
    ultimately obtain j where "roundDownPower2_loop x (2 ^ Suc k) = 2 ^ j \<and> 2 ^ j \<le> max 1 x \<and> x < 2 * 2 ^ j"
      using less.hyps by blast
    moreover have "roundDownPower2_loop x (2 ^ k) = roundDownPower2_loop x (2 ^ Suc k)"
      using True by (subst roundDownPower2_loop.simps) (simp add: mult.commute)
    ultimately show ?thesis by auto
  next
    case False
    then show ?thesis using less.prems by (intro exI [of _ k]) (simp add: roundDownPower2_loop.simps)
  qed
qed

lemma roundDown_dvd: "y dvd roundDown x y"
  by (simp add: roundDown_def)

lemma roundDown_le: "roundDown x y \<le> x"
  by (simp add: roundDown_def)

lemma roundUp_dvd: "y dvd roundUp x y"
  by (simp add: roundUp_def)

lemma roundUp_bounds:
  assumes "0 < y" "x + y \<le> 2 ^ 64"
  shows "x \<le> roundUp x y" and "roundUp x y < x + y"
proof -
  have u: "u64 (x + y - 1) = x + y - 1" using assms by (intro u64_small) simp
  have "x + y - 1 < (x + y - 1) div y * y + y"
    using dividend_less_div_times [OF assms(1), of "x + y - 1"] by (simp add: add.commute)
  then show "x \<le> roundUp x y" using assms(1) unfolding roundUp_def u by linarith
  have "(x + y - 1) div y * y \<le> x + y - 1" by simp
  then show "roundUp x y < x + y" using assms(1) unfolding roundUp_def u by linarith
qed

text \<open>
  The rounding helpers: the power of two is the largest one that fits, \<^verbatim>\<open>roundDown\<close>
  and \<^verbatim>\<open>roundUp\<close> give the nearest multiples below and above, as long as the doubling in
  the first and the addition in \<^verbatim>\<open>roundUp\<close> do not leave \<^verbatim>\<open>size_t\<close>.
\<close>

lemma rounding_correct:
  assumes "0 < x" and "x < 2 ^ 63" and "0 < y" and "x + y \<le> 2 ^ 64"
  shows "pow2 (roundDownPower2 x) \<and> roundDownPower2 x \<le> x \<and> x < 2 * roundDownPower2 x
    \<and> y dvd roundDown x y \<and> roundDown x y \<le> x \<and> x < roundDown x y + y
    \<and> y dvd roundUp x y \<and> x \<le> roundUp x y \<and> roundUp x y < x + y"
proof -
  have "\<exists>j. roundDownPower2 x = 2 ^ j \<and> 2 ^ j \<le> max 1 x \<and> x < 2 * 2 ^ j"
    using roundDownPower2_loop_pow2 [of 0 x] by (simp add: roundDownPower2_def)
  then have "pow2 (roundDownPower2 x) \<and> roundDownPower2 x \<le> x \<and> x < 2 * roundDownPower2 x"
    using assms(1) by (auto simp: max_def split: if_splits)
  moreover have "x < roundDown x y + y"
    using dividend_less_div_times [OF assms(3), of x] by (simp add: roundDown_def add.commute)
  ultimately show ?thesis
    using roundUp_bounds [OF assms(3,4)] roundUp_dvd roundDown_dvd roundDown_le by blast
qed

lemma rounding_example:
  "roundDownPower2 100 = 64 \<and> roundDown 100 48 = 96 \<and> roundUp 100 48 = 144
   \<and> 100 < 2 * roundDownPower2 100"
  using rounding_correct [of 100 48]
  by (simp add: roundDownPower2_def roundDownPower2_loop.simps roundDown_def roundUp_def u64_def)

section \<open>Errors at the ABI boundary\<close>

text \<open>
  The library entry points turn a \<^verbatim>\<open>cl::Error\<close> into a code and a message, and the
  inline wrappers of the headers turn it back into an exception; every other exception passes
  through.
\<close>

definition clearError :: "int \<times> string option" where
  "clearError = (CL_SUCCESS, None)"

definition setError :: "int \<Rightarrow> string \<Rightarrow> int \<times> string option" where
  "setError code what = (code, Some what)"

definition handleError :: "int \<Rightarrow> string option \<Rightarrow> unit result" where
  "handleError err errStr =
     (if err \<noteq> CL_SUCCESS then Inl (ClError err (case errStr of None \<Rightarrow> [] | Some s \<Rightarrow> s)) else Inr ())"

definition checkNull :: "'p option \<Rightarrow> unit result" where
  "checkNull p = (if p = None then Inl (LogicError ''Uninitialized object'') else Inr ())"

text \<open>
  The two sides of the boundary: \<open>abi_catch\<close> is the try block of an exported function, whose
  results are the value, the code and the message; \<open>abi_wrap\<close> is the inline function of the
  header that calls it.
\<close>

definition abi_catch :: "'a result \<Rightarrow> ('a option \<times> int \<times> string option) result" where
  "abi_catch r = (case r of
       Inr x \<Rightarrow> Inr (Some x, clearError)
     | Inl (ClError c m) \<Rightarrow> Inr (None, setError c m)
     | Inl e \<Rightarrow> Inl e)"

definition abi_wrap :: "('a option \<times> int \<times> string option) result \<Rightarrow> 'a result" where
  "abi_wrap r = bind_result r (\<lambda>(x, err, errStr). bind_result (handleError err errStr) (\<lambda>_. Inr (the x)))"

lemma abi_wrap_catch: "(\<And>m. r \<noteq> Inl (ClError CL_SUCCESS m)) \<Longrightarrow> abi_wrap (abi_catch r) = r"
  by (auto simp: abi_wrap_def abi_catch_def handleError_def setError_def clearError_def split: sum.splits exn.splits)

text \<open>
  C40. The boundary is transparent: a value, a \<^verbatim>\<open>cl::Error\<close> with its code and message, and
  every other exception come out of the inline wrapper as they were inside the library. The
  only hypothesis is that no \<^verbatim>\<open>cl::Error\<close> carries the code of success.
\<close>

theorem abi_transparent:
  assumes "\<And>m. r \<noteq> Inl (ClError CL_SUCCESS m)"
  shows "abi_wrap (abi_catch r) = r"
  using assms by (rule abi_wrap_catch)

theorem abi_transparent_witness:
  "abi_wrap (abi_catch (Inl (ClError CL_INVALID_VALUE ''m'') :: nat result)) = Inl (ClError CL_INVALID_VALUE ''m'')
   \<and> abi_catch (Inl (TuneError ''t'') :: nat result) = Inl (TuneError ''t'')"
  using abi_transparent [of "Inl (ClError CL_INVALID_VALUE ''m'') :: nat result"]
  by (simp add: CL_INVALID_VALUE_def CL_SUCCESS_def abi_catch_def)

text \<open>
  Event lists: \<^verbatim>\<open>UnwrapArray\<close> turns the optional vector of the C++ interface into a count
  and a pointer (null for an empty vector), \<^verbatim>\<open>retainWrap\<close> turns them back.
\<close>

definition UnwrapArray :: "nat list option \<Rightarrow> nat \<times> nat list option" where
  "UnwrapArray i = (case i of None \<Rightarrow> (0, None)
     | Some es \<Rightarrow> if es = [] then (0, None) else (u32 (length es), Some es))"

definition retainWrap_array :: "nat \<Rightarrow> nat list option \<Rightarrow> nat list result" where
  "retainWrap_array n obj =
     (case obj of
        None \<Rightarrow> if 0 < n then Inl (ClError CL_INVALID_VALUE ''length must be zero for null arrays'') else Inr []
      | Some es \<Rightarrow> Inr (take n es))"

lemma retainWrap_UnwrapArray:
  assumes "length (case events of None \<Rightarrow> [] | Some es \<Rightarrow> es) < 2 ^ 32"
  shows "retainWrap_array (fst (UnwrapArray events)) (snd (UnwrapArray events))
    = Inr (case events of None \<Rightarrow> [] | Some es \<Rightarrow> es)"
  using assms by (auto simp: retainWrap_array_def UnwrapArray_def u32_small split: option.splits)

end
