(* ===== verification/Device.thy ===== *)
theory Device
  imports Utils
begin

text \<open>
  What the library reads of an OpenCL device (\<^verbatim>\<open>device.getInfo\<close>), and the three functions
  of src/utils.cpp that interpret it: \<^verbatim>\<open>deviceHasExtension\<close>, \<^verbatim>\<open>getWarpSizeMem\<close> and
  \<^verbatim>\<open>getWarpSizeSchedule\<close>; from src/cache_types.cpp also \<^verbatim>\<open>deviceKey\<close>. The search for an
  extension is shown to find exactly the space-separated words of the extension string.
\<close>

record device =
  extensions :: string
  warp_size_nv :: nat
  platform_name :: string
  is_gpu :: bool
  is_cpu :: bool
  device_name :: string
  vendor_id :: nat
  driver_version :: string
  max_work_group_size :: nat
  local_mem_size :: nat
  global_mem_size :: nat
  max_compute_units :: nat

section \<open>Searching a string\<close>

text \<open>\<^verbatim>\<open>s.find(t, i)\<close>; \<open>None\<close> is \<^verbatim>\<open>npos\<close>.\<close>

function find_from :: "string \<Rightarrow> string \<Rightarrow> nat \<Rightarrow> nat option" where
  "find_from s t i =
     (if i + length t \<le> length s
      then if take (length t) (drop i s) = t then Some i else find_from s t (i + 1)
      else None)"
  by pat_completeness auto
termination
  by (relation "measure (\<lambda>(s, t, i). length s + 1 - i)") auto

declare find_from.simps [simp del]

definition occurs_at :: "string \<Rightarrow> string \<Rightarrow> nat \<Rightarrow> bool" where
  "occurs_at s t i \<longleftrightarrow> i + length t \<le> length s \<and> take (length t) (drop i s) = t"

lemma find_from_Some: "find_from s t i = Some p \<Longrightarrow> i \<le> p \<and> occurs_at s t p"
proof (induction s t i rule: find_from.induct)
  case (1 s t i)
  then show ?case
    by (subst (asm) (2) find_from.simps) (fastforce simp: occurs_at_def split: if_splits)
qed

lemma find_from_first:
  "occurs_at s t q \<Longrightarrow> i \<le> q \<Longrightarrow> \<exists>p. find_from s t i = Some p \<and> p \<le> q"
proof (induction s t i rule: find_from.induct)
  case (1 s t i)
  show ?case
  proof (cases "take (length t) (drop i s) = t \<or> i = q")
    case True
    then show ?thesis using 1 by (subst find_from.simps) (auto simp: occurs_at_def)
  next
    case False
    then show ?thesis using 1 by (subst find_from.simps) (auto simp: occurs_at_def)
  qed
qed

text \<open>The test in the loop of \<^verbatim>\<open>deviceHasExtension\<close>: a blank or the end on both sides.\<close>

definition ext_bounded :: "string \<Rightarrow> string \<Rightarrow> nat \<Rightarrow> bool" where
  "ext_bounded exts ext pos \<longleftrightarrow>
     (pos = 0 \<or> exts ! (pos - 1) = CHR '' '')
     \<and> (pos + length ext = length exts \<or> exts ! (pos + length ext) = CHR '' '')"

function ext_loop :: "string \<Rightarrow> string \<Rightarrow> nat option \<Rightarrow> bool" where
  "ext_loop exts ext None = False"
| "ext_loop exts ext (Some pos) =
     (if pos \<le> length exts
      then if ext_bounded exts ext pos then True else ext_loop exts ext (find_from exts ext (pos + 1))
      else False)"
  by pat_completeness auto
termination
  by (relation "measure (\<lambda>(exts, ext, p). case p of None \<Rightarrow> 0 | Some i \<Rightarrow> Suc (length exts + 1 - i))")
    (auto split: option.split dest: find_from_Some)

definition deviceHasExtension :: "device \<Rightarrow> string \<Rightarrow> bool" where
  "deviceHasExtension d ext = ext_loop (extensions d) ext (find_from (extensions d) ext 0)"

lemma ext_loop_iff:
  "(case p of None \<Rightarrow> \<forall>q. \<not> (occurs_at exts ext q \<and> ext_bounded exts ext q)
    | Some i \<Rightarrow> occurs_at exts ext i \<and> (\<forall>q<i. \<not> (occurs_at exts ext q \<and> ext_bounded exts ext q)))
   \<Longrightarrow> ext_loop exts ext p \<longleftrightarrow> (\<exists>q. occurs_at exts ext q \<and> ext_bounded exts ext q)"
proof (induction exts ext p rule: ext_loop.induct)
  case (1 exts ext)
  then show ?case by simp
next
  case (2 exts ext pos)
  have le: "pos \<le> length exts" using 2(2) by (auto simp: occurs_at_def)
  show ?case
  proof (cases "ext_bounded exts ext pos")
    case True
    then show ?thesis using 2 le by auto
  next
    case False
    have none: "\<not> (occurs_at exts ext q \<and> ext_bounded exts ext q)" if "q \<le> pos" for q
      using that 2(2) False by (cases "q = pos") auto
    have "case find_from exts ext (pos + 1) of
        None \<Rightarrow> \<forall>q. \<not> (occurs_at exts ext q \<and> ext_bounded exts ext q)
      | Some i \<Rightarrow> occurs_at exts ext i \<and> (\<forall>q<i. \<not> (occurs_at exts ext q \<and> ext_bounded exts ext q))"
    proof (cases "find_from exts ext (pos + 1)")
      case None
      then have "\<not> (occurs_at exts ext q \<and> ext_bounded exts ext q)" for q
        using find_from_first [of exts ext q "pos + 1"] none [of q] by (cases "q \<le> pos") auto
      then show ?thesis using None by simp
    next
      case (Some i)
      then have "\<not> (occurs_at exts ext q \<and> ext_bounded exts ext q)" if "q < i" for q
        using find_from_first [of exts ext q "pos + 1"] none [of q] that by (cases "q \<le> pos") auto
      then show ?thesis using Some find_from_Some [of exts ext "pos + 1" i] by simp
    qed
    then show ?thesis using 2(1) [OF le False] le False by simp
  qed
qed

lemma deviceHasExtension_iff:
  "deviceHasExtension d ext \<longleftrightarrow>
     (\<exists>q. occurs_at (extensions d) ext q \<and> ext_bounded (extensions d) ext q)"
  unfolding deviceHasExtension_def
proof (rule ext_loop_iff)
  show "case find_from (extensions d) ext 0 of
      None \<Rightarrow> \<forall>q. \<not> (occurs_at (extensions d) ext q \<and> ext_bounded (extensions d) ext q)
    | Some i \<Rightarrow> occurs_at (extensions d) ext i \<and>
        (\<forall>q<i. \<not> (occurs_at (extensions d) ext q \<and> ext_bounded (extensions d) ext q))"
    using find_from_first [of "extensions d" ext _ 0] find_from_Some [of "extensions d" ext 0]
    by (cases "find_from (extensions d) ext 0") fastforce+
qed

section \<open>The words of the extension string\<close>

fun words_of :: "string \<Rightarrow> string list" where
  "words_of [] = [[]]"
| "words_of (c # cs) =
     (if c = CHR '' '' then [] # words_of cs
      else case words_of cs of [] \<Rightarrow> [[c]] | w # ws \<Rightarrow> (c # w) # ws)"

lemma words_of_ne: "words_of s \<noteq> []"
  by (cases s) (auto split: list.splits)

lemma words_of_no_blank: "w \<in> set (words_of s) \<Longrightarrow> CHR '' '' \<notin> set w"
  by (induction s arbitrary: w) (auto split: if_splits list.splits)

lemma words_of_append_blank:
  "CHR '' '' \<notin> set w \<Longrightarrow> words_of (w @ CHR '' '' # r) = w # words_of r"
  by (induction w) auto

lemma words_of_single: "CHR '' '' \<notin> set w \<Longrightarrow> words_of w = [w]"
  by (induction w) auto

lemma words_of_between:
  assumes "CHR '' '' \<notin> set t" "pre = [] \<or> last pre = CHR '' ''" "post = [] \<or> hd post = CHR '' ''"
  shows "t \<in> set (words_of (pre @ t @ post))"
  using assms(2)
proof (induction "length pre" arbitrary: pre rule: less_induct)
  case less
  show ?case
  proof (cases "pre = []")
    case True
    then show ?thesis
      using assms by (cases post) (auto simp: words_of_append_blank words_of_single)
  next
    case False
    then have "CHR '' '' \<in> set pre" using less.prems by (metis last_in_set)
    then obtain u v where pre: "pre = u @ CHR '' '' # v" "CHR '' '' \<notin> set u" by (meson split_list_first)
    then have "t \<in> set (words_of (v @ t @ post))"
      using less.hyps [of v] less.prems by (cases "v = []") auto
    then show ?thesis using pre by (simp add: words_of_append_blank)
  qed
qed

lemma words_of_split:
  "t \<in> set (words_of s) \<Longrightarrow>
   \<exists>pre post. s = pre @ t @ post \<and> (pre = [] \<or> last pre = CHR '' '') \<and> (post = [] \<or> hd post = CHR '' '')"
proof (induction "length s" arbitrary: s rule: less_induct)
  case less
  show ?case
  proof (cases "CHR '' '' \<in> set s")
    case False
    then show ?thesis using less.prems by (intro exI [of _ "[]"]) (simp add: words_of_single)
  next
    case True
    then obtain u v where s: "s = u @ CHR '' '' # v" "CHR '' '' \<notin> set u" by (meson split_list_first)
    then have "t = u \<or> t \<in> set (words_of v)" using less.prems by (simp add: words_of_append_blank)
    then show ?thesis
    proof
      assume "t = u"
      then show ?thesis using s by (intro exI [of _ "[]"] exI [of _ "CHR '' '' # v"]) simp
    next
      assume "t \<in> set (words_of v)"
      then obtain pre post where v: "v = pre @ t @ post" "pre = [] \<or> last pre = CHR '' ''" "post = [] \<or> hd post = CHR '' ''"
        using less.hyps [of v] s by auto
      then show ?thesis using s
        by (intro exI [of _ "u @ CHR '' '' # pre"] exI [of _ post]) auto
    qed
  qed
qed

lemma occurrence_iff:
  "(\<exists>q. occurs_at s t q \<and> ext_bounded s t q) \<longleftrightarrow>
   (\<exists>pre post. s = pre @ t @ post \<and> (pre = [] \<or> last pre = CHR '' '') \<and> (post = [] \<or> hd post = CHR '' ''))"
proof (intro iffI; elim exE conjE)
  fix q assume o: "occurs_at s t q" "ext_bounded s t q"
  let ?pre = "take q s" and ?post = "drop (q + length t) s"
  have "drop q s = t @ ?post"
    using o(1) by (metis occurs_at_def append_take_drop_id drop_drop add.commute)
  then have "s = ?pre @ t @ ?post" by (metis append_take_drop_id)
  moreover have "?pre = [] \<or> last ?pre = CHR '' ''"
  proof (cases "q = 0")
    case False
    have "q \<le> length s" using o(1) by (simp add: occurs_at_def)
    with False have "last ?pre = s ! (q - 1)" by (subst last_conv_nth) auto
    then show ?thesis using o(2) False by (auto simp: ext_bounded_def)
  qed simp
  moreover have "?post = [] \<or> hd ?post = CHR '' ''"
  proof (cases "q + length t = length s")
    case False
    then have "q + length t < length s" using o(1) by (simp add: occurs_at_def)
    then show ?thesis using o(2) by (simp add: ext_bounded_def hd_drop_conv_nth)
  qed simp
  ultimately show "\<exists>pre post. s = pre @ t @ post \<and> (pre = [] \<or> last pre = CHR '' '') \<and> (post = [] \<or> hd post = CHR '' '')"
    by blast
next
  fix pre post
  assume s: "s = pre @ t @ post" and b: "pre = [] \<or> last pre = CHR '' ''" "post = [] \<or> hd post = CHR '' ''"
  have "ext_bounded s t (length pre)"
    using b by (cases "pre = []"; cases post) (auto simp: s ext_bounded_def nth_append last_conv_nth)
  then show "\<exists>q. occurs_at s t q \<and> ext_bounded s t q"
    by (intro exI [of _ "length pre"]) (simp add: s occurs_at_def)
qed

text \<open>
  C36. \<^verbatim>\<open>deviceHasExtension\<close> answers true exactly for the words of the space-separated
  extension string; an extension name that is only a part of a longer word is not found.
\<close>

theorem deviceHasExtension_words:
  assumes "CHR '' '' \<notin> set ext"
  shows "deviceHasExtension d ext \<longleftrightarrow> ext \<in> set (words_of (extensions d))"
  unfolding deviceHasExtension_iff occurrence_iff
proof
  assume "ext \<in> set (words_of (extensions d))"
  then show "\<exists>pre post. extensions d = pre @ ext @ post \<and> (pre = [] \<or> last pre = CHR '' '')
      \<and> (post = [] \<or> hd post = CHR '' '')"
    by (rule words_of_split)
next
  assume "\<exists>pre post. extensions d = pre @ ext @ post \<and> (pre = [] \<or> last pre = CHR '' '')
      \<and> (post = [] \<or> hd post = CHR '' '')"
  then obtain pre post where e: "extensions d = pre @ ext @ post"
    "pre = [] \<or> last pre = CHR '' ''" "post = [] \<or> hd post = CHR '' ''" by blast
  show "ext \<in> set (words_of (extensions d))"
    unfolding e(1) by (rule words_of_between [OF assms e(2,3)])
qed

section \<open>Warp sizes\<close>

definition getWarpSizeMem :: "device \<Rightarrow> nat" where
  "getWarpSizeMem d =
     (if deviceHasExtension d ''cl_nv_device_attribute_query'' then warp_size_nv d else 1)"

definition getWarpSizeSchedule :: "device \<Rightarrow> nat" where
  "getWarpSizeSchedule d =
     (if deviceHasExtension d ''cl_nv_device_attribute_query'' then warp_size_nv d
      else if platform_name d = ''AMD Accelerated Parallel Processing''
      then if is_gpu d then 64 else 1
      else 1)"

definition example_device :: device where
  "example_device = \<lparr>extensions = ''cl_khr_fp16_x cl_khr_fp64'', warp_size_nv = 32,
     platform_name = ''P'', is_gpu = True, is_cpu = False, device_name = ''D'', vendor_id = 1,
     driver_version = ''1'', max_work_group_size = 256, local_mem_size = 32768,
     global_mem_size = 1073741824, max_compute_units = 8\<rparr>"

theorem deviceHasExtension_words_witness:
  "deviceHasExtension example_device ''cl_khr_fp64'' \<and> \<not> deviceHasExtension example_device ''cl_khr_fp16''"
proof -
  have w: "words_of (extensions example_device) = [''cl_khr_fp16_x'', ''cl_khr_fp64'']"
    by (simp add: example_device_def)
  show ?thesis
    using deviceHasExtension_words [of "''cl_khr_fp64''" example_device, unfolded w]
      deviceHasExtension_words [of "''cl_khr_fp16''" example_device, unfolded w]
    by auto
qed

end
