(* ===== verification/CoreTypes.thy ===== *)
theory CoreTypes
  imports Device
begin

text \<open>
  The element types of src/core.cpp and include/clogs/core.h: \<^verbatim>\<open>BaseType\<close>,
  \<^verbatim>\<open>Type\<close> with its checked constructor, the predicates and sizes, the name of the
  OpenCL C type, and the list of all types. The header file's documentation is turned into
  theorems: the constructor accepts exactly the listed types, and names identify them.
\<close>

datatype base_type =
    TYPE_VOID | TYPE_UCHAR | TYPE_CHAR | TYPE_USHORT | TYPE_SHORT | TYPE_UINT | TYPE_INT
  | TYPE_ULONG | TYPE_LONG | TYPE_HALF | TYPE_FLOAT | TYPE_DOUBLE

record cl_type =
  baseType :: base_type
  veclen :: nat

section \<open>Constructors\<close>

definition void_type :: cl_type where
  "void_type = \<lparr>baseType = TYPE_VOID, veclen = 0\<rparr>"

definition make_type :: "base_type \<Rightarrow> nat \<Rightarrow> cl_type result" where
  "make_type b n =
     (if b = TYPE_VOID
      then Inl (InvalidArgument ''clogs::Type cannot be explicitly constructed with void type'')
      else if n \<in> set [1, 2, 3, 4, 8, 16] then Inr \<lparr>baseType = b, veclen = n\<rparr>
      else Inl (InvalidArgument ''length is not a valid value''))"

section \<open>Predicates\<close>

fun base_integral :: "base_type \<Rightarrow> bool" where
  "base_integral TYPE_VOID = False"
| "base_integral TYPE_HALF = False"
| "base_integral TYPE_FLOAT = False"
| "base_integral TYPE_DOUBLE = False"
| "base_integral b = True"

definition isIntegral :: "cl_type \<Rightarrow> bool" where
  "isIntegral t = base_integral (baseType t)"

fun base_signed :: "base_type \<Rightarrow> bool" where
  "base_signed TYPE_UCHAR = False"
| "base_signed TYPE_USHORT = False"
| "base_signed TYPE_UINT = False"
| "base_signed TYPE_ULONG = False"
| "base_signed TYPE_VOID = False"
| "base_signed b = True"

definition isSigned :: "cl_type \<Rightarrow> bool" where
  "isSigned t = base_signed (baseType t)"

definition isStorable :: "cl_type \<Rightarrow> device \<Rightarrow> bool" where
  "isStorable t d = (case baseType t of
       TYPE_VOID \<Rightarrow> False
     | TYPE_UCHAR \<Rightarrow> 3 \<le> veclen t \<or> deviceHasExtension d ''cl_khr_byte_addressable_store''
     | TYPE_CHAR \<Rightarrow> 3 \<le> veclen t \<or> deviceHasExtension d ''cl_khr_byte_addressable_store''
     | TYPE_USHORT \<Rightarrow> 2 \<le> veclen t \<or> deviceHasExtension d ''cl_khr_byte_addressable_store''
     | TYPE_SHORT \<Rightarrow> 2 \<le> veclen t \<or> deviceHasExtension d ''cl_khr_byte_addressable_store''
     | TYPE_HALF \<Rightarrow> deviceHasExtension d ''cl_khr_fp16''
     | TYPE_DOUBLE \<Rightarrow> deviceHasExtension d ''cl_khr_fp64''
     | _ \<Rightarrow> True)"

definition isComputable :: "cl_type \<Rightarrow> device \<Rightarrow> bool" where
  "isComputable t d = (case baseType t of
       TYPE_VOID \<Rightarrow> False
     | TYPE_HALF \<Rightarrow> deviceHasExtension d ''cl_khr_fp16''
     | TYPE_DOUBLE \<Rightarrow> deviceHasExtension d ''cl_khr_fp64''
     | _ \<Rightarrow> True)"

section \<open>Sizes\<close>

text \<open>The sizes of the \<^verbatim>\<open>cl_\<close> types, fixed by the OpenCL standard.\<close>

fun base_size :: "base_type \<Rightarrow> nat" where
  "base_size TYPE_VOID = 0"
| "base_size TYPE_UCHAR = 1"
| "base_size TYPE_CHAR = 1"
| "base_size TYPE_USHORT = 2"
| "base_size TYPE_SHORT = 2"
| "base_size TYPE_UINT = 4"
| "base_size TYPE_INT = 4"
| "base_size TYPE_ULONG = 8"
| "base_size TYPE_LONG = 8"
| "base_size TYPE_HALF = 2"
| "base_size TYPE_FLOAT = 4"
| "base_size TYPE_DOUBLE = 8"

definition getBaseSize :: "cl_type \<Rightarrow> nat" where
  "getBaseSize t = base_size (baseType t)"

definition getSize :: "cl_type \<Rightarrow> nat" where
  "getSize t = getBaseSize t * (if veclen t = 3 then 4 else veclen t)"

section \<open>Names\<close>

text \<open>Decimal output of an unsigned number in the classic locale.\<close>

definition digit :: "nat \<Rightarrow> char" where
  "digit n = ''0123456789'' ! n"

fun show_nat :: "nat \<Rightarrow> string" where
  "show_nat n = (if n < 10 then [digit n] else show_nat (n div 10) @ [digit (n mod 10)])"

declare show_nat.simps [simp del]

fun base_name :: "base_type \<Rightarrow> string" where
  "base_name TYPE_VOID = ''void''"
| "base_name TYPE_UCHAR = ''uchar''"
| "base_name TYPE_CHAR = ''char''"
| "base_name TYPE_USHORT = ''ushort''"
| "base_name TYPE_SHORT = ''short''"
| "base_name TYPE_UINT = ''uint''"
| "base_name TYPE_INT = ''int''"
| "base_name TYPE_ULONG = ''ulong''"
| "base_name TYPE_LONG = ''long''"
| "base_name TYPE_HALF = ''half''"
| "base_name TYPE_FLOAT = ''float''"
| "base_name TYPE_DOUBLE = ''double''"

definition getName :: "cl_type \<Rightarrow> string" where
  "getName t = (if veclen t \<le> 1 then base_name (baseType t)
                else base_name (baseType t) @ show_nat (veclen t))"

section \<open>All types\<close>

definition scalar_bases :: "base_type list" where
  "scalar_bases = [TYPE_UCHAR, TYPE_CHAR, TYPE_USHORT, TYPE_SHORT, TYPE_UINT, TYPE_INT,
     TYPE_ULONG, TYPE_LONG, TYPE_HALF, TYPE_FLOAT, TYPE_DOUBLE]"

definition vec_sizes :: "nat list" where
  "vec_sizes = [1, 2, 3, 4, 8, 16]"

text \<open>The two loops push types that the constructor checks; the first error would end them.\<close>

fun push_types :: "(base_type \<times> nat) list \<Rightarrow> cl_type list \<Rightarrow> cl_type list result" where
  "push_types [] ans = Inr ans"
| "push_types ((b, n) # ps) ans = bind_result (make_type b n) (\<lambda>t. push_types ps (ans @ [t]))"

definition allTypes :: "cl_type list result" where
  "allTypes = push_types [(b, n). b \<leftarrow> scalar_bases, n \<leftarrow> vec_sizes] [void_type]"

text \<open>The list that \<^verbatim>\<open>allTypes\<close> returns.\<close>

definition type_table :: "cl_type list" where
  "type_table = void_type # [\<lparr>baseType = b, veclen = n\<rparr>. b \<leftarrow> scalar_bases, n \<leftarrow> vec_sizes]"

lemma push_types_ok:
  "\<forall>(b, n)\<in>set ps. b \<noteq> TYPE_VOID \<and> n \<in> set [1, 2, 3, 4, 8, 16] \<Longrightarrow>
   push_types ps ans = Inr (ans @ map (\<lambda>(b, n). \<lparr>baseType = b, veclen = n\<rparr>) ps)"
  by (induction ps ans rule: push_types.induct) (auto simp: make_type_def)

lemma allTypes_table: "allTypes = Inr type_table"
  unfolding allTypes_def
  by (subst push_types_ok) (auto simp: scalar_bases_def vec_sizes_def type_table_def)

lemma scalar_bases_all: "b \<in> set scalar_bases \<longleftrightarrow> b \<noteq> TYPE_VOID"
  by (cases b) (simp_all add: scalar_bases_def)

lemma type_table_iff:
  "t \<in> set type_table \<longleftrightarrow> t = void_type \<or> (baseType t \<noteq> TYPE_VOID \<and> veclen t \<in> set vec_sizes)"
  unfolding type_table_def
  by (cases t) (auto simp: scalar_bases_all)

lemma make_type_iff:
  "make_type b n = Inr t \<longleftrightarrow> t = \<lparr>baseType = b, veclen = n\<rparr> \<and> t \<in> set type_table \<and> t \<noteq> void_type"
  by (auto simp: make_type_def type_table_iff void_type_def vec_sizes_def)

section \<open>Properties of the types\<close>

text \<open>
  C38. The constructor accepts a base type and a length exactly when the result is one of the
  non-void types of \<^verbatim>\<open>allTypes\<close>, and every other call throws
  \<^verbatim>\<open>std::invalid_argument\<close>; \<^verbatim>\<open>allTypes\<close> itself never throws and lists each
  type once.
\<close>

theorem types_constructible:
  "\<exists>ts. allTypes = Inr ts \<and> distinct ts \<and> length ts = 67 \<and> void_type \<in> set ts
     \<and> (make_type b n = Inr t) = (t = \<lparr>baseType = b, veclen = n\<rparr> \<and> t \<in> set ts - {void_type})
     \<and> ((\<exists>m. make_type b n = Inl (InvalidArgument m)) = (\<lparr>baseType = b, veclen = n\<rparr> \<notin> set ts - {void_type}))"
proof (intro exI conjI)
  show "allTypes = Inr type_table" by (rule allTypes_table)
  show "distinct type_table" "length type_table = 67"
    by (simp_all add: type_table_def scalar_bases_def vec_sizes_def void_type_def)
  show "void_type \<in> set type_table" by (simp add: type_table_def)
  show "(make_type b n = Inr t) = (t = \<lparr>baseType = b, veclen = n\<rparr> \<and> t \<in> set type_table - {void_type})"
    by (auto simp: make_type_iff)
  show "(\<exists>m. make_type b n = Inl (InvalidArgument m)) = (\<lparr>baseType = b, veclen = n\<rparr> \<notin> set type_table - {void_type})"
    by (auto simp: make_type_def type_table_iff void_type_def vec_sizes_def)
qed

lemma names_distinct: "distinct (map getName type_table)"
  by code_simp

lemma getName_inj: "inj_on getName (set type_table)"
  using names_distinct by (simp add: distinct_map)

text \<open>
  C37. The OpenCL C name identifies a type: two different types of \<^verbatim>\<open>allTypes\<close> have
  different names, which is what makes the name a sound part of a tuning key.
\<close>

theorem names_identify:
  assumes "allTypes = Inr ts" and "s \<in> set ts" and "t \<in> set ts" and "getName s = getName t"
  shows "s = t"
  using assms getName_inj by (auto simp: allTypes_table dest: inj_onD)

theorem names_identify_witness:
  "{t \<in> set type_table. getName t = ''uint16''} = {\<lparr>baseType = TYPE_UINT, veclen = 16\<rparr>}"
proof -
  let ?u = "\<lparr>baseType = TYPE_UINT, veclen = 16\<rparr>"
  have n: "getName ?u = ''uint16''" by (simp add: getName_def show_nat.simps digit_def)
  have u: "?u \<in> set type_table" by (simp add: type_table_iff vec_sizes_def)
  then have "t = ?u" if "t \<in> set type_table" "getName t = ''uint16''" for t
    by (rule names_identify [OF allTypes_table that(1)]) (simp only: that(2) n)
  with n u show ?thesis by blast
qed

lemma storable_computable: "isStorable t d \<Longrightarrow> isComputable t d"
  by (cases "baseType t") (auto simp: isStorable_def isComputable_def)

text \<open>
  C39. Sizes and predicates of the non-void types: the size is a positive multiple of the base
  size, with room for the padded fourth component of a 3-vector and at most 128 bytes; a type
  that a device can store it can compute with; integral types are exactly those that are
  neither floating point nor void.
\<close>

theorem type_predicates:
  assumes "t \<in> set type_table" and "t \<noteq> void_type"
  shows "0 < getSize t \<and> getBaseSize t dvd getSize t \<and> pow2 (getSize t) \<and> getSize t \<le> 128
    \<and> veclen t * getBaseSize t \<le> getSize t
    \<and> (isIntegral t \<longleftrightarrow> baseType t \<notin> {TYPE_HALF, TYPE_FLOAT, TYPE_DOUBLE})
    \<and> (\<not> isIntegral t \<longrightarrow> isSigned t)
    \<and> (isStorable t d \<longrightarrow> isComputable t d)"
proof -
  have p: "pow2 (2 ^ 0 :: nat)" "pow2 (2 ^ 1 :: nat)" "pow2 (2 ^ 2 :: nat)" "pow2 (2 ^ 3 :: nat)" "pow2 (2 ^ 4 :: nat)"
    "pow2 (2 ^ 5 :: nat)" "pow2 (2 ^ 6 :: nat)" "pow2 (2 ^ 7 :: nat)" by (rule pow2_power)+
  have "baseType t \<noteq> TYPE_VOID" "veclen t \<in> set vec_sizes" using assms by (auto simp: type_table_iff)
  then show ?thesis using storable_computable [of t d]
    by (cases "baseType t") (auto simp: vec_sizes_def getSize_def getBaseSize_def isIntegral_def isSigned_def
        simp del: power.simps intro: p [simplified])
qed

theorem type_predicates_witness:
  "getSize \<lparr>baseType = TYPE_SHORT, veclen = 3\<rparr> = 8 \<and> pow2 (getSize \<lparr>baseType = TYPE_SHORT, veclen = 3\<rparr>)"
  using type_predicates [of "\<lparr>baseType = TYPE_SHORT, veclen = 3\<rparr>" example_device]
  by (simp add: type_table_iff vec_sizes_def void_type_def getSize_def getBaseSize_def)

end
