(* ===== verification/StdMap.thy ===== *)
theory StdMap
  imports CoreTypes "HOL-Library.Char_ord" "HOL-Library.List_Lexorder"
begin

text \<open>
  \<^verbatim>\<open>std::map\<close> with string keys, as the host code uses it for the preprocessor
  definitions of a program: an association list in the order of the keys (the order in which
  the map is iterated), with \<^verbatim>\<open>m[k] = v\<close> as \<open>map_put\<close>.
\<close>

type_synonym 'v std_map = "(string \<times> 'v) list"

fun map_put :: "string \<Rightarrow> 'v \<Rightarrow> 'v std_map \<Rightarrow> 'v std_map" where
  "map_put k v [] = [(k, v)]"
| "map_put k v ((k', v') # m) =
     (if k < k' then (k, v) # (k', v') # m
      else if k = k' then (k, v) # m
      else (k', v') # map_put k v m)"

definition std_map_ok :: "'v std_map \<Rightarrow> bool" where
  "std_map_ok m \<longleftrightarrow> sorted_wrt (<) (map fst m)"

lemma map_of_put [simp]: "map_of (map_put k v m) = (map_of m)(k \<mapsto> v)"
  by (induction m) (auto simp: fun_eq_iff)

lemma set_map_put: "fst ` set (map_put k v m) = insert k (fst ` set m)"
  by (simp add: dom_map_of_conv_image_fst [symmetric])

lemma map_put_ok: "std_map_ok m \<Longrightarrow> std_map_ok (map_put k v m)"
proof (induction m)
  case (Cons p m)
  obtain k' v' where p: "p = (k', v')" by fastforce
  have IH: "std_map_ok (map_put k v m)" using Cons by (simp add: std_map_ok_def)
  have below: "\<forall>x\<in>set m. k' < fst x" using Cons.prems by (auto simp: std_map_ok_def p)
  show ?case
  proof (cases "k' < k")
    case True
    then have "\<forall>x\<in>fst ` set (map_put k v m). k' < x" using below by (auto simp: set_map_put)
    then show ?thesis using True IH by (auto simp: p std_map_ok_def)
  next
    case False
    then show ?thesis using Cons.prems below
      by (auto simp: p std_map_ok_def not_less le_less dest: order.strict_trans)
  qed
qed (simp add: std_map_ok_def)

text \<open>A map built by assignments only, such as the definitions of a program.\<close>

definition puts :: "(string \<times> 'v) list \<Rightarrow> 'v std_map" where
  "puts kvs = fold (\<lambda>(k, v) m. map_put k v m) kvs []"

lemma puts_ok: "std_map_ok (puts kvs)"
proof -
  have "std_map_ok m \<Longrightarrow> std_map_ok (fold (\<lambda>(k, v) m. map_put k v m) kvs m)" for m :: "'a std_map"
    by (induction kvs arbitrary: m) (auto simp: map_put_ok)
  then show ?thesis by (simp add: puts_def std_map_ok_def)
qed

lemma map_of_puts: "map_of (puts kvs) k = map_of (rev kvs) k"
proof -
  have "map_of (fold (\<lambda>(k, v) m. map_put k v m) kvs m) k = (map_of m ++ map_of (rev kvs)) k"
    for m :: "'a std_map"
    by (induction kvs arbitrary: m) (auto simp: map_add_def split: option.splits)
  then show ?thesis by (simp add: puts_def)
qed

end
