(* ===== verification/Algorithm.thy ===== *)
theory Algorithm
  imports CoreTypes
begin

text \<open>
  The algorithm objects of the public interface and the event callback. A public object
  (\<^verbatim>\<open>clogs::Scan\<close>, \<^verbatim>\<open>clogs::Reduce\<close>, \<^verbatim>\<open>clogs::Radixsort\<close>) is a handle that owns a
  pointer to a \<^verbatim>\<open>detail\<close> object; construction, moves, swap and destruction work on the
  pointers (\<^verbatim>\<open>src/core.cpp\<close> and the ends of \<^verbatim>\<open>src/scan.cpp\<close> and its siblings). The
  \<^verbatim>\<open>detail\<close> object holds the callback, its user data and the function that frees it
  (\<^verbatim>\<open>src/utils.cpp\<close>). Shown: no sequence of operations deletes an object twice, no object
  is leaked, and the user data of every registered callback is freed exactly once.
\<close>

section \<open>The callback of a detail object\<close>

record alg =
  eventCallback :: "nat option"
  eventCallbackFree :: "nat option"
  eventCallbackUserData :: nat

text \<open>Calls that leave the library: a callback with its event, or a free function.\<close>

datatype call = CallEvent nat nat nat | CallFree nat nat

definition new_alg :: alg where
  "new_alg = \<lparr>eventCallback = None, eventCallbackFree = None, eventCallbackUserData = 0\<rparr>"

definition doEventCallback :: "alg \<Rightarrow> nat \<Rightarrow> call list" where
  "doEventCallback a event =
     (case eventCallback a of None \<Rightarrow> [] | Some f \<Rightarrow> [CallEvent f event (eventCallbackUserData a)])"

definition call_free :: "alg \<Rightarrow> call list" where
  "call_free a =
     (case eventCallbackFree a of None \<Rightarrow> [] | Some f \<Rightarrow> [CallFree f (eventCallbackUserData a)])"

definition set_callback :: "nat option \<Rightarrow> nat \<Rightarrow> nat option \<Rightarrow> alg \<Rightarrow> alg \<times> call list" where
  "set_callback cb ud fr a =
     (a\<lparr>eventCallback := cb, eventCallbackUserData := ud, eventCallbackFree := fr\<rparr>, call_free a)"

section \<open>Handles\<close>

text \<open>
  Handles live at addresses; \<open>handles a\<close> is \<open>None\<close> outside the lifetime of an object there,
  else its \<^verbatim>\<open>detail_\<close> pointer (\<open>Some None\<close> is the null pointer). \<open>details\<close> is
  the heap of detail objects, \<open>fresh\<close> the next allocation, \<open>calls\<close> the calls made so far.
\<close>

record astate =
  handles :: "nat \<Rightarrow> nat option option"
  details :: "nat \<Rightarrow> alg option"
  fresh :: nat
  calls :: "call list"

definition detail_of :: "nat \<Rightarrow> astate \<Rightarrow> nat option" where
  "detail_of h s = (case handles s h of None \<Rightarrow> None | Some p \<Rightarrow> p)"

definition setDetail :: "nat \<Rightarrow> nat option \<Rightarrow> astate \<Rightarrow> astate" where
  "setDetail h p s = s\<lparr>handles := (handles s)(h \<mapsto> p)\<rparr>"

text \<open>\<^verbatim>\<open>delete\<close>: nothing for a null pointer, \<open>None\<close> (undefined behaviour) for a dead object.\<close>

definition delete_detail :: "nat option \<Rightarrow> astate \<Rightarrow> astate option" where
  "delete_detail p s = (case p of None \<Rightarrow> Some s
     | Some d \<Rightarrow> (case details s d of None \<Rightarrow> None
         | Some a \<Rightarrow> Some (s\<lparr>details := (details s)(d := None), calls := calls s @ call_free a\<rparr>)))"

definition moveConstruct :: "nat \<Rightarrow> nat \<Rightarrow> astate \<Rightarrow> astate" where
  "moveConstruct this other s = setDetail other None (setDetail this (detail_of other s) s)"

text \<open>The result is the old pointer, which the subclass deletes.\<close>

definition moveAssign :: "nat \<Rightarrow> nat \<Rightarrow> astate \<Rightarrow> astate \<times> nat option" where
  "moveAssign this other s =
     (if this \<noteq> other
      then (setDetail other None (setDetail this (detail_of other s) s), detail_of this s)
      else (s, None))"

definition swap_handles :: "nat \<Rightarrow> nat \<Rightarrow> astate \<Rightarrow> astate" where
  "swap_handles a b s = setDetail b (detail_of a s) (setDetail a (detail_of b s) s)"

definition getDetailNonNull :: "nat \<Rightarrow> astate \<Rightarrow> nat result" where
  "getDetailNonNull h s = bind_result (checkNull (detail_of h s)) (\<lambda>_. Inr (the (detail_of h s)))"

text \<open>The operations of a program on its objects.\<close>

datatype op =
    OpDefault nat
  | OpConstruct nat
  | OpMoveConstruct nat nat
  | OpMoveAssign nat nat
  | OpSwap nat nat
  | OpSetCallback nat "nat option" nat "nat option"
  | OpDestroy nat

text \<open>Object lifetimes as the language has them: constructors on dead storage, the rest on live objects.\<close>

fun legal :: "op \<Rightarrow> astate \<Rightarrow> bool" where
  "legal (OpDefault h) s = (handles s h = None)"
| "legal (OpConstruct h) s = (handles s h = None)"
| "legal (OpMoveConstruct h g) s = (handles s h = None \<and> handles s g \<noteq> None)"
| "legal (OpMoveAssign h g) s = (handles s h \<noteq> None \<and> handles s g \<noteq> None)"
| "legal (OpSwap h g) s = (handles s h \<noteq> None \<and> handles s g \<noteq> None)"
| "legal (OpSetCallback h cb ud fr) s = (handles s h \<noteq> None)"
| "legal (OpDestroy h) s = (handles s h \<noteq> None)"

text \<open>
  \<^verbatim>\<open>setEventCallback\<close> on a null handle throws and changes nothing. The destructor deletes
  the detail object and ends the lifetime.
\<close>

fun step :: "op \<Rightarrow> astate \<Rightarrow> astate option" where
  "step (OpDefault h) s = Some (setDetail h None s)"
| "step (OpConstruct h) s =
     Some (setDetail h (Some (fresh s)) (s\<lparr>details := (details s)(fresh s \<mapsto> new_alg), fresh := Suc (fresh s)\<rparr>))"
| "step (OpMoveConstruct h g) s = Some (moveConstruct h g (setDetail h None s))"
| "step (OpMoveAssign h g) s = (let (s', old) = moveAssign h g s in delete_detail old s')"
| "step (OpSwap h g) s = Some (swap_handles h g s)"
| "step (OpSetCallback h cb ud fr) s =
     (case getDetailNonNull h s of
        Inl e \<Rightarrow> Some s
      | Inr d \<Rightarrow> (case details s d of None \<Rightarrow> None
          | Some a \<Rightarrow> (let (a', cs) = set_callback cb ud fr a
                      in Some (s\<lparr>details := (details s)(d \<mapsto> a'), calls := calls s @ cs\<rparr>))))"
| "step (OpDestroy h) s =
     map_option (\<lambda>s. s\<lparr>handles := (handles s)(h := None)\<rparr>) (delete_detail (detail_of h s) s)"

definition no_objects :: astate where
  "no_objects = \<lparr>handles = (\<lambda>_. None), details = (\<lambda>_. None), fresh = 0, calls = []\<rparr>"

text \<open>A run of legal operations; the registrations that name a free function are recorded.\<close>

fun registration :: "op \<Rightarrow> astate \<Rightarrow> call list" where
  "registration (OpSetCallback h cb ud (Some f)) s = (if detail_of h s = None then [] else [CallFree f ud])"
| "registration _ s = []"

inductive run :: "op list \<Rightarrow> astate \<Rightarrow> call list \<Rightarrow> bool" where
  run_start: "run [] no_objects []"
| run_step: "run ops s regs \<Longrightarrow> legal p s \<Longrightarrow> step p s = Some t \<Longrightarrow>
    run (ops @ [p]) t (regs @ registration p s)"

section \<open>Ownership\<close>

definition owner :: "astate \<Rightarrow> nat \<Rightarrow> nat \<Rightarrow> bool" where
  "owner s d h \<longleftrightarrow> handles s h = Some (Some d)"

definition owned :: "astate \<Rightarrow> bool" where
  "owned s \<longleftrightarrow>
     (\<forall>h d. owner s d h \<longrightarrow> details s d \<noteq> None)
     \<and> (\<forall>d. details s d \<noteq> None \<longrightarrow> (\<exists>h. owner s d h))
     \<and> (\<forall>d h g. owner s d h \<longrightarrow> owner s d g \<longrightarrow> h = g)
     \<and> (\<forall>d. details s d \<noteq> None \<longrightarrow> d < fresh s)"

lemma ownedD:
  assumes "owned s"
  shows "owner s d h \<Longrightarrow> details s d \<noteq> None"
    and "details s d = Some a \<Longrightarrow> \<exists>h. owner s d h"
    and "owner s d h \<Longrightarrow> owner s d g \<Longrightarrow> h = g"
    and "details s d = Some a \<Longrightarrow> d < fresh s"
  using assms unfolding owned_def by blast+

lemma owner_simps [simp]:
  "owner (setDetail k p s) d h \<longleftrightarrow> (if h = k then p = Some d else owner s d h)"
  "details (setDetail k p s) = details s" "fresh (setDetail k p s) = fresh s"
  "calls (setDetail k p s) = calls s"
  by (auto simp: owner_def setDetail_def)

lemma owner_detail_of: "handles s h \<noteq> None \<Longrightarrow> detail_of h s = Some d \<longleftrightarrow> owner s d h"
  by (auto simp: owner_def detail_of_def)

lemma owned_no_objects: "owned no_objects"
  by (simp add: owned_def owner_def no_objects_def)

lemma fresh_not_owned: "owned s \<Longrightarrow> \<not> owner s (fresh s) h"
  using ownedD(1,4) by fastforce

text \<open>Every move of a pointer permutes the owners.\<close>

lemma owned_perm:
  assumes o: "owned s" and f: "\<And>x. f (f x) = x"
    and w: "\<And>d x. owner t d x \<longleftrightarrow> owner s d (f x)"
    and t: "details t = details s" "fresh t = fresh s"
  shows "owned t"
  unfolding owned_def
proof (intro conjI allI impI)
  fix d h g
  show "owner t d h \<Longrightarrow> details t d \<noteq> None" using ownedD(1) [OF o] w t by simp
  show "owner t d h \<Longrightarrow> owner t d g \<Longrightarrow> h = g" using ownedD(3) [OF o] w f by metis
  show "details t d \<noteq> None \<Longrightarrow> d < fresh t" using ownedD(4) [OF o] t by auto
  assume "details t d \<noteq> None"
  then obtain x where "owner s d x" using ownedD(2) [OF o] t by auto
  then have "owner t d (f x)" using w f by simp
  then show "\<exists>h. owner t d h" ..
qed

definition other_of :: "nat \<Rightarrow> nat \<Rightarrow> nat \<Rightarrow> nat" where
  "other_of h g x = (if x = h then g else if x = g then h else x)"

lemma other_of_twice [simp]: "other_of h g (other_of h g x) = x"
  by (simp add: other_of_def)

lemma owned_transfer:
  assumes o: "owned s" and l: "handles s g \<noteq> None" and n: "\<And>d. \<not> owner s d h" and ne: "h \<noteq> g"
  shows "owned (setDetail g None (setDetail h (detail_of g s) s))"
  by (rule owned_perm [OF o, of "other_of h g"])
    (use n ne owner_detail_of [OF l] in \<open>auto simp: other_of_def\<close>)

lemma owned_swap:
  assumes o: "owned s" and l: "handles s g \<noteq> None" "handles s h \<noteq> None"
  shows "owned (swap_handles h g s)"
  by (rule owned_perm [OF o, of "other_of h g"])
    (use owner_detail_of [OF l(1)] owner_detail_of [OF l(2)] in \<open>auto simp: other_of_def swap_handles_def\<close>)

lemma owned_drop:
  assumes o: "owned s" and h: "owner s d h"
    and w: "\<And>e x. owner t e x \<longleftrightarrow> owner s e x \<and> x \<noteq> h"
    and t: "details t = (details s)(d := None)" "fresh t = fresh s"
  shows "owned t"
  unfolding owned_def
proof (intro conjI allI impI)
  fix e x y
  show "owner t e x \<Longrightarrow> details t e \<noteq> None" using ownedD(1,3) [OF o] w t h by (auto simp: owner_def)
  show "owner t e x \<Longrightarrow> owner t e y \<Longrightarrow> x = y" using ownedD(3) [OF o] w by blast
  show "details t e \<noteq> None \<Longrightarrow> e < fresh t" using ownedD(4) [OF o] t by (auto split: if_splits)
  assume "details t e \<noteq> None"
  then have "e \<noteq> d" "details s e \<noteq> None" using t by (auto split: if_splits)
  then obtain x where "owner s e x" using ownedD(2) [OF o] by auto
  moreover from this have "x \<noteq> h" using h \<open>e \<noteq> d\<close> by (auto simp: owner_def)
  ultimately show "\<exists>h. owner t e h" using w by blast
qed

section \<open>Every step keeps the ownership\<close>

lemma delete_detail_owned:
  assumes "owned s" "handles s h \<noteq> None"
  obtains t where "delete_detail (detail_of h s) s = Some t" "handles t = handles s" "fresh t = fresh s"
    "owned (setDetail h None t)"
proof (cases "detail_of h s")
  case None
  then have h: "\<not> owner s d h" for d using owner_detail_of [OF assms(2)] by auto
  have "owned (setDetail h None s)"
    by (rule owned_perm [OF assms(1), of "\<lambda>x. x"]) (use h in auto)
  then show thesis using that [of s] None by (simp add: delete_detail_def)
next
  case (Some d)
  then have h: "owner s d h" using owner_detail_of [OF assms(2)] by auto
  then obtain a where a: "details s d = Some a" using ownedD(1) [OF assms(1)] by blast
  let ?t = "s\<lparr>details := (details s)(d := None), calls := calls s @ call_free a\<rparr>"
  have "owner ?t = owner s" by (auto simp: owner_def fun_eq_iff)
  then have "owned (setDetail h None ?t)"
    by (intro owned_drop [OF assms(1) h]) auto
  then show thesis using that [of ?t] Some a by (simp add: delete_detail_def)
qed

lemma owned_details_upd:
  assumes "owned s" "details s d \<noteq> None"
  shows "owned (s\<lparr>details := (details s)(d \<mapsto> a), calls := cs\<rparr>)"
proof -
  have "owner (s\<lparr>details := (details s)(d \<mapsto> a), calls := cs\<rparr>) = owner s" by (auto simp: owner_def fun_eq_iff)
  then show ?thesis using assms unfolding owned_def by auto
qed

lemma owned_construct:
  assumes o: "owned s" and h: "handles s h = None"
  shows "owned (setDetail h (Some (fresh s)) (s\<lparr>details := (details s)(fresh s \<mapsto> new_alg), fresh := Suc (fresh s)\<rparr>))"
    (is "owned ?t")
  unfolding owned_def
proof (intro conjI allI impI)
  have w: "owner ?t d x \<longleftrightarrow> (if x = h then d = fresh s else owner s d x)" for d x
    by (auto simp: owner_def setDetail_def)
  have dt: "details ?t d \<noteq> None \<longleftrightarrow> d = fresh s \<or> details s d \<noteq> None" for d by simp
  fix d x y
  show "details ?t d \<noteq> None" if "owner ?t d x"
    using that ownedD(1) [OF o, of d x] unfolding w dt by (cases "x = h") auto
  show "x = y" if "owner ?t d x" "owner ?t d y"
    using that ownedD(3) [OF o, of d x y] fresh_not_owned [OF o] unfolding w
    by (cases "x = h"; cases "y = h") auto
  show "d < fresh ?t" if "details ?t d \<noteq> None"
    using that ownedD(4) [OF o, of d] unfolding dt by (cases "d = fresh s") auto
  assume d: "details ?t d \<noteq> None"
  show "\<exists>x. owner ?t d x"
  proof (cases "d = fresh s")
    case False
    then obtain x where "owner s d x" using d ownedD(2) [OF o] by auto
    moreover from this have "x \<noteq> h" using h by (auto simp: owner_def)
    ultimately have "owner ?t d x" unfolding w by simp
    then show ?thesis ..
  next
    case True
    then have "owner ?t d h" unfolding w by simp
    then show ?thesis ..
  qed
qed

lemma owned_null:
  assumes "owned s" "\<And>d. \<not> owner s d h"
  shows "owned (setDetail h None s)"
  by (rule owned_perm [OF assms(1), of "\<lambda>x. x"]) (use assms(2) in auto)

lemma not_owner: "handles s h = None \<Longrightarrow> \<not> owner s d h"
  by (simp add: owner_def)

lemma setDetail_twice [simp]: "setDetail h p (setDetail h q s) = setDetail h p s"
  by (simp add: setDetail_def)

lemma handles_setDetail [simp]: "handles (setDetail h p s) = (handles s)(h \<mapsto> p)"
  by (simp add: setDetail_def)

lemma detail_of_setDetail [simp]: "detail_of g (setDetail h p s) = (if g = h then p else detail_of g s)"
  by (simp add: detail_of_def)

text \<open>Deleting the old object of the target of a move, before or after the pointers move, is the same.\<close>

lemma delete_setDetail:
  "delete_detail p (setDetail h q s) = map_option (setDetail h q) (delete_detail p s)"
  by (auto simp: delete_detail_def setDetail_def split: option.splits)

lemma step_owned:
  assumes o: "owned s" and l: "legal p s"
  shows "\<exists>t. step p s = Some t \<and> owned t"
proof (cases p)
  case (OpDefault h)
  then show ?thesis using owned_null [OF o not_owner] l by auto
next
  case (OpConstruct h)
  then show ?thesis using owned_construct [OF o] l by auto
next
  case (OpMoveConstruct h g)
  then have hg: "handles s h = None" "handles s g \<noteq> None" "h \<noteq> g" using l by auto
  have "owned (setDetail g None (setDetail h (detail_of g (setDetail h None s)) (setDetail h None s)))"
    using hg by (intro owned_transfer owned_null [OF o]) (auto simp: not_owner)
  then show ?thesis using OpMoveConstruct by (simp add: moveConstruct_def)
next
  case (OpMoveAssign h g)
  show ?thesis
  proof (cases "h = g")
    case True
    then show ?thesis using o OpMoveAssign by (simp add: moveAssign_def delete_detail_def)
  next
    case False
    have hg: "handles s h \<noteq> None" "handles s g \<noteq> None" using l OpMoveAssign by auto
    obtain t where t: "delete_detail (detail_of h s) s = Some t" "handles t = handles s" "fresh t = fresh s"
      "owned (setDetail h None t)"
      using delete_detail_owned [OF o hg(1)] by blast
    have "owned (setDetail g None (setDetail h (detail_of g (setDetail h None t)) (setDetail h None t)))"
      using hg False t(2) by (intro owned_transfer t(4)) auto
    moreover have "detail_of g t = detail_of g s" using t(2) by (simp add: detail_of_def)
    ultimately show ?thesis
      using OpMoveAssign False t(1) by (simp add: moveAssign_def delete_setDetail)
  qed
next
  case (OpSwap h g)
  then show ?thesis using owned_swap [OF o] l by auto
next
  case (OpSetCallback h cb ud fr)
  show ?thesis
  proof (cases "detail_of h s")
    case None
    then show ?thesis using OpSetCallback o by (simp add: getDetailNonNull_def checkNull_def)
  next
    case (Some d)
    then have "owner s d h" using owner_detail_of l OpSetCallback by auto
    then obtain a where a: "details s d = Some a" using ownedD(1) [OF o] by blast
    then show ?thesis using OpSetCallback Some owned_details_upd [OF o, of d]
      by (auto simp: getDetailNonNull_def checkNull_def set_callback_def)
  qed
next
  case (OpDestroy h)
  have h: "handles s h \<noteq> None" using l OpDestroy by simp
  obtain t where t: "delete_detail (detail_of h s) s = Some t" "handles t = handles s" "fresh t = fresh s"
    "owned (setDetail h None t)"
    using delete_detail_owned [OF o h] by blast
  have "owned (t\<lparr>handles := (handles t)(h := None)\<rparr>)"
    by (rule owned_perm [OF t(4), of "\<lambda>x. x"]) (auto simp: owner_def)
  then show ?thesis using OpDestroy t(1) by auto
qed

lemma run_owned: "run ops s regs \<Longrightarrow> owned s"
proof (induction rule: run.induct)
  case (run_step ops s regs p t)
  then show ?case using step_owned [of s p] by auto
qed (rule owned_no_objects)

text \<open>
  C13. No double delete: after any sequence of legal operations, the next legal operation is
  carried out without deleting a dead object, and every detail object that exists is owned by
  exactly one handle.
\<close>

theorem handles_never_double_delete:
  assumes "run ops s regs" and "legal p s"
  shows "(\<exists>t. step p s = Some t) \<and> (\<forall>d. (details s d \<noteq> None) = (\<exists>!h. handles s h = Some (Some d)))"
proof
  have o: "owned s" using assms(1) by (rule run_owned)
  then show "\<exists>t. step p s = Some t" using step_owned assms(2) by blast
  show "\<forall>d. (details s d \<noteq> None) = (\<exists>!h. handles s h = Some (Some d))"
    using ownedD [OF o] unfolding owner_def by (metis option.exhaust)
qed

section \<open>Callbacks are freed once\<close>

definition pending :: "(nat \<Rightarrow> alg option) \<Rightarrow> nat \<Rightarrow> call multiset" where
  "pending D n = (\<Sum>d<n. case D d of None \<Rightarrow> {#} | Some a \<Rightarrow> mset (call_free a))"

lemma pending_upd:
  assumes "d < n"
  shows "pending (D(d := x)) n + (case D d of None \<Rightarrow> {#} | Some a \<Rightarrow> mset (call_free a))
    = pending D n + (case x of None \<Rightarrow> {#} | Some a \<Rightarrow> mset (call_free a))"
proof -
  have e: "pending E n = (\<Sum>e\<in>{..<n} - {d}. case E e of None \<Rightarrow> {#} | Some a \<Rightarrow> mset (call_free a))
      + (case E d of None \<Rightarrow> {#} | Some a \<Rightarrow> mset (call_free a))" for E
    unfolding pending_def using assms by (subst sum.remove [of _ d]) (auto simp: add.commute)
  have "(\<Sum>e\<in>{..<n} - {d}. case (D(d := x)) e of None \<Rightarrow> {#} | Some a \<Rightarrow> mset (call_free a))
      = (\<Sum>e\<in>{..<n} - {d}. case D e of None \<Rightarrow> {#} | Some a \<Rightarrow> mset (call_free a))"
    by (intro sum.cong) auto
  then show ?thesis unfolding e [of D] e [of "D(d := x)"] by (simp add: add_ac)
qed

definition accounted :: "call list \<Rightarrow> astate \<Rightarrow> bool" where
  "accounted regs s \<longleftrightarrow> mset regs = mset (calls s) + pending (details s) (fresh s)"

lemma accounted_cong:
  "calls t = calls s \<Longrightarrow> details t = details s \<Longrightarrow> fresh t = fresh s \<Longrightarrow> accounted regs t = accounted regs s"
  by (simp add: accounted_def)

lemma accounted_setDetail [simp]: "accounted regs (setDetail h p s) = accounted regs s"
  by (rule accounted_cong) simp_all

lemma delete_detail_accounted:
  assumes "accounted regs s" "owned s" "delete_detail p s = Some t"
  shows "accounted regs t"
proof (cases p)
  case (Some d)
  then obtain a where a: "details s d = Some a"
    and t: "t = s\<lparr>details := (details s)(d := None), calls := calls s @ call_free a\<rparr>"
    using assms(3) by (auto simp: delete_detail_def split: option.splits)
  have "d < fresh s" using ownedD(4) [OF assms(2) a] .
  from pending_upd [OF this, of "details s" None] show ?thesis
    using assms(1) by (simp add: accounted_def t a add.assoc add.commute)
qed (use assms in \<open>simp add: delete_detail_def\<close>)

lemma step_accounted:
  assumes "owned s" "accounted regs s" "legal p s" "step p s = Some t"
  shows "accounted (regs @ registration p s) t"
proof (cases p)
  case (OpConstruct h)
  have "pending ((details s)(fresh s \<mapsto> new_alg)) (Suc (fresh s)) = pending (details s) (fresh s)"
    unfolding pending_def by (simp add: new_alg_def call_free_def)
  then show ?thesis using assms OpConstruct by (auto simp: accounted_def)
next
  case (OpMoveAssign h g)
  show ?thesis
  proof (cases "h = g")
    case True
    then show ?thesis using assms OpMoveAssign by (simp add: moveAssign_def delete_detail_def)
  next
    case False
    then obtain u where "delete_detail (detail_of h s) s = Some u"
      "t = setDetail g None (setDetail h (detail_of g s) u)"
      using assms OpMoveAssign by (auto simp: moveAssign_def delete_setDetail)
    then show ?thesis using delete_detail_accounted [OF assms(2,1)] OpMoveAssign by simp
  qed
next
  case (OpSetCallback h cb ud fr)
  show ?thesis
  proof (cases "detail_of h s")
    case None
    then show ?thesis using OpSetCallback assms by (cases fr) (auto simp: getDetailNonNull_def checkNull_def)
  next
    case (Some d)
    then obtain a where a: "details s d = Some a"
      and t: "t = s\<lparr>details := (details s)(d \<mapsto> fst (set_callback cb ud fr a)), calls := calls s @ call_free a\<rparr>"
      using assms(4) OpSetCallback
      by (auto simp: getDetailNonNull_def checkNull_def set_callback_def split: option.splits)
    have "d < fresh s" using ownedD(4) [OF assms(1) a] .
    from pending_upd [OF this, of "details s" "Some (fst (set_callback cb ud fr a))"]
    have "pending (details t) (fresh t) + mset (call_free a)
        = pending (details s) (fresh s) + mset (registration p s)"
      using Some OpSetCallback by (cases fr) (simp_all add: t a set_callback_def call_free_def)
    then show ?thesis using assms(2) by (simp add: accounted_def t add_ac)
  qed
next
  case (OpDestroy h)
  then obtain u where u: "delete_detail (detail_of h s) s = Some u" "t = u\<lparr>handles := (handles u)(h := None)\<rparr>"
    using assms by auto
  have "accounted regs u" using assms u by (blast intro: delete_detail_accounted)
  then show ?thesis using u(2) OpDestroy by (simp add: accounted_def)
qed (use assms in \<open>auto simp: moveConstruct_def swap_handles_def\<close>)

lemma run_accounted: "run ops s regs \<Longrightarrow> accounted regs s"
proof (induction rule: run.induct)
  case run_start
  show ?case by (simp add: accounted_def no_objects_def pending_def)
qed (auto intro: step_accounted run_owned)

text \<open>
  C14. No leak: once every object has been destroyed, no detail object is left, and the free
  functions that were called are exactly those registered with callbacks, each once, with its
  own user data.
\<close>

theorem callbacks_freed_once:
  assumes "run ops s regs" and "\<forall>h. handles s h = None"
  shows "(\<forall>d. details s d = None) \<and> mset (calls s) = mset regs"
proof -
  have o: "owned s" using assms(1) by (rule run_owned)
  have none: "details s d = None" for d
    using ownedD(2) [OF o, of d] assms(2) by (cases "details s d") (auto simp: owner_def)
  then have "pending (details s) (fresh s) = {#}" by (simp add: pending_def)
  then show ?thesis using none run_accounted [OF assms(1)] by (simp add: accounted_def)
qed

section \<open>Witnesses\<close>

fun exec_ops :: "op list \<Rightarrow> astate \<Rightarrow> call list \<Rightarrow> (astate \<times> call list) option" where
  "exec_ops [] s regs = Some (s, regs)"
| "exec_ops (p # ps) s regs =
     (if legal p s
      then (case step p s of None \<Rightarrow> None | Some t \<Rightarrow> exec_ops ps t (regs @ registration p s))
      else None)"

lemma exec_ops_run:
  "run ops s regs \<Longrightarrow> exec_ops ps s regs = Some (t, regs') \<Longrightarrow> run (ops @ ps) t regs'"
proof (induction ps arbitrary: ops s regs)
  case (Cons p ps)
  then obtain u where "legal p s" "step p s = Some u" "exec_ops ps u (regs @ registration p s) = Some (t, regs')"
    by (auto split: if_splits option.splits)
  then have "run ((ops @ [p]) @ ps) t regs'" by (intro Cons.IH [OF run_step [OF Cons.prems(1)]])
  then show ?case by simp
qed simp

definition example_ops :: "op list" where
  "example_ops = [OpConstruct 0, OpSetCallback 0 (Some 7) 42 (Some 8), OpMoveConstruct 1 0, OpDefault 2,
     OpMoveAssign 2 1, OpSetCallback 2 None 0 None, OpDestroy 1, OpDestroy 0]"

definition example_state :: astate where
  "example_state = fst (the (exec_ops example_ops no_objects []))"

lemmas exec_simps = example_state_def example_ops_def no_objects_def setDetail_def moveConstruct_def
  moveAssign_def delete_detail_def getDetailNonNull_def checkNull_def detail_of_def set_callback_def
  call_free_def new_alg_def

lemma example_run: "run example_ops example_state [CallFree 8 42]"
  using exec_ops_run [OF run_start, of example_ops example_state "[CallFree 8 42]"]
  by (simp add: exec_simps)

theorem handles_never_double_delete_witness:
  "\<exists>t. step (OpMoveAssign 2 2) example_state = Some t"
proof -
  have "legal (OpMoveAssign 2 2) example_state" by (simp add: exec_simps)
  from handles_never_double_delete [OF example_run this] show ?thesis by blast
qed

theorem callbacks_freed_once_witness:
  "\<exists>s. run (example_ops @ [OpDestroy 2]) s [CallFree 8 42] \<and> mset (calls s) = {#CallFree 8 42#}"
proof -
  obtain s where s: "exec_ops [OpDestroy 2] example_state [CallFree 8 42] = Some (s, [CallFree 8 42])"
      "\<forall>h. handles s h = None"
    by (simp add: exec_simps)
  have "run (example_ops @ [OpDestroy 2]) s [CallFree 8 42]"
    by (rule exec_ops_run [OF example_run s(1)])
  with callbacks_freed_once [OF this s(2)] show ?thesis by auto
qed

end
