(* ===== verification/Workgroup.thy ===== *)
theory Workgroup
  imports Prelude
begin

text \<open>
  Execution of OpenCL work-groups. The code of a kernel between two barriers is a phase:
  every work-item runs its body once, in an order that the device chooses. \<open>par\<close> runs a
  phase in a given order; the orders come from a scheduler \<open>S\<close> that is asked with a label
  for every dynamic phase, and \<open>valid n S\<close> says that each answer is a permutation of the
  \<open>n\<close> work-items. A kernel is a composition of phases over the memories it touches;
  theorems about kernels hold for every valid scheduler.

  The locale \<open>race_free\<close> is the contract of a phase: a work-item writes its own set of
  locations and reads no location that another one writes. Under the contract the result does
  not depend on the order (\<open>par_own\<close>, \<open>par_frame\<close>, \<open>par_deterministic\<close>), which
  is why running the bodies one after the other is a faithful picture of running them at the
  same time. \<open>single_write\<close> and \<open>store_loop\<close> are the two common forms.
\<close>

section \<open>Phases and schedules\<close>

type_synonym sched = "nat list \<Rightarrow> nat list"

definition par :: "nat list \<Rightarrow> (nat \<Rightarrow> 's \<Rightarrow> 's) \<Rightarrow> 's \<Rightarrow> 's" where
  "par ord body s = fold body ord s"

definition schedule :: "nat \<Rightarrow> nat list \<Rightarrow> bool" where
  "schedule n ord \<longleftrightarrow> distinct ord \<and> set ord = {..<n}"

definition valid :: "nat \<Rightarrow> sched \<Rightarrow> bool" where
  "valid n S \<longleftrightarrow> (\<forall>l. schedule n (S l))"

text \<open>The scheduler seen by a part of a kernel: its labels are prefixed.\<close>

definition sub :: "sched \<Rightarrow> nat list \<Rightarrow> sched" where
  "sub S p = (\<lambda>l. S (p @ l))"

text \<open>The order of the work-item numbers, for witnesses and evaluation.\<close>

definition in_order :: "nat \<Rightarrow> sched" where
  "in_order n = (\<lambda>_. [0..<n])"

lemma valid_schedule [intro]: "valid n S \<Longrightarrow> schedule n (S l)"
  by (simp add: valid_def)

lemma valid_sub [intro]: "valid n S \<Longrightarrow> valid n (sub S p)"
  by (simp add: valid_def sub_def)

lemma valid_in_order [simp, intro]: "valid n (in_order n)"
  by (auto simp: valid_def schedule_def in_order_def)

lemma schedule_upt [simp, intro]: "schedule n [0..<n]"
  by (auto simp: schedule_def)

lemma schedule_rev_upt [simp, intro]: "schedule n (rev [0..<n])"
  by (auto simp: schedule_def)

lemma schedule_mem: "schedule n ord \<Longrightarrow> i \<in> set ord \<longleftrightarrow> i < n"
  by (simp add: schedule_def)

lemma par_Nil [simp]: "par [] b s = s"
  by (simp add: par_def)

lemma par_Cons [simp]: "par (x # xs) b s = par xs b (b x s)"
  by (simp add: par_def)

lemma par_append: "par (xs @ ys) b s = par ys b (par xs b s)"
  by (simp add: par_def)

lemma par_cong:
  "(\<And>i s. i \<in> set ord \<Longrightarrow> b i s = b' i s) \<Longrightarrow> par ord b s = par ord b' s"
  unfolding par_def by (rule fold_cong) auto

lemma schedule_ordE:
  assumes "schedule n ord" "i < n"
  obtains xs ys where "ord = xs @ i # ys" "i \<notin> set xs" "i \<notin> set ys"
    "set xs \<subseteq> {..<n}" "set ys \<subseteq> {..<n}"
proof -
  from assms have "i \<in> set ord" by (auto simp: schedule_def)
  then obtain xs ys where o: "ord = xs @ i # ys" by (meson split_list)
  with assms show ?thesis using that [of xs ys] by (auto simp: schedule_def)
qed

section \<open>The contract of a phase\<close>

locale race_free =
  fixes n :: nat
    and body :: "nat \<Rightarrow> ('l \<Rightarrow> 'v) \<Rightarrow> 'l \<Rightarrow> 'v"
    and W :: "nat \<Rightarrow> 'l set"
  assumes frame: "i < n \<Longrightarrow> a \<notin> W i \<Longrightarrow> body i m a = m a"
    and reads: "i < n \<Longrightarrow> a \<in> W i \<Longrightarrow>
      (\<And>b. (\<forall>j<n. j \<noteq> i \<longrightarrow> b \<notin> W j) \<Longrightarrow> m b = m' b) \<Longrightarrow> body i m a = body i m' a"
    and disjoint: "i < n \<Longrightarrow> j < n \<Longrightarrow> i \<noteq> j \<Longrightarrow> a \<in> W i \<Longrightarrow> a \<notin> W j"
begin

lemma fold_frame:
  "set ord \<subseteq> {..<n} \<Longrightarrow> (\<forall>i\<in>set ord. a \<notin> W i) \<Longrightarrow> par ord body m a = m a"
  by (induction ord arbitrary: m) (auto simp: frame)

lemma par_frame:
  "schedule n ord \<Longrightarrow> (\<And>i. i < n \<Longrightarrow> a \<notin> W i) \<Longrightarrow> par ord body m a = m a"
  by (rule fold_frame) (auto simp: schedule_def)

lemma par_own:
  assumes "schedule n ord" "i < n" "a \<in> W i"
  shows "par ord body m a = body i m a"
proof -
  from assms obtain xs ys where o: "ord = xs @ i # ys" "i \<notin> set xs" "i \<notin> set ys"
    and s: "set xs \<subseteq> {..<n}" "set ys \<subseteq> {..<n}"
    by (elim schedule_ordE)
  let ?m = "par xs body m"
  have "par ord body m a = par ys body (body i ?m) a" by (simp add: o par_append)
  also have "\<dots> = body i ?m a"
    using assms o s disjoint [of i _ a] by (intro fold_frame) (auto simp: subset_iff)
  also have "\<dots> = body i m a"
  proof (rule reads [OF assms(2,3)])
    fix b assume b: "\<forall>j<n. j \<noteq> i \<longrightarrow> b \<notin> W j"
    then show "?m b = m b" using o s by (intro fold_frame) (auto simp: subset_iff)
  qed
  finally show ?thesis .
qed

lemma par_deterministic:
  assumes "schedule n o1" "schedule n o2"
  shows "par o1 body m = par o2 body m"
proof
  fix a
  show "par o1 body m a = par o2 body m a"
  proof (cases "\<exists>i<n. a \<in> W i")
    case True
    then obtain i where "i < n" "a \<in> W i" by blast
    then show ?thesis using assms by (simp add: par_own)
  next
    case False
    then have "\<And>i. i < n \<Longrightarrow> a \<notin> W i" by blast
    then show ?thesis using assms by (simp add: par_frame)
  qed
qed

end

text \<open>At most one write per work-item: if \<open>c i\<close> then \<open>m(adr i) := val i m\<close>.\<close>

locale single_write =
  fixes n :: nat
    and c :: "nat \<Rightarrow> bool"
    and adr :: "nat \<Rightarrow> 'l"
    and val :: "nat \<Rightarrow> ('l \<Rightarrow> 'v) \<Rightarrow> 'v"
  assumes inj: "i < n \<Longrightarrow> j < n \<Longrightarrow> c i \<Longrightarrow> c j \<Longrightarrow> adr i = adr j \<Longrightarrow> i = j"
    and val_reads: "i < n \<Longrightarrow> c i \<Longrightarrow>
      (\<And>b. (\<forall>j<n. j \<noteq> i \<longrightarrow> c j \<longrightarrow> b \<noteq> adr j) \<Longrightarrow> m b = m' b) \<Longrightarrow> val i m = val i m'"

sublocale single_write \<subseteq> rf: race_free n "\<lambda>i m. if c i then m(adr i := val i m) else m"
  "\<lambda>i. if c i then {adr i} else {}"
proof (unfold_locales, goal_cases)
  case (1 i a m)
  then show ?case by (auto split: if_splits)
next
  case (2 i a m m')
  then have "val i m = val i m'"
    by (intro val_reads) (auto split: if_splits)
  with 2 show ?case by (auto split: if_splits)
next
  case (3 i j a)
  then show ?case using inj [of i j] by (auto split: if_splits)
qed

context single_write
begin

lemma at:
  assumes "schedule n ord" "i < n" "c i"
  shows "par ord (\<lambda>i m. if c i then m(adr i := val i m) else m) m (adr i) = val i m"
  using rf.par_own [OF assms(1,2), of "adr i"] assms(3) by simp

lemma off:
  assumes "schedule n ord" "\<And>i. i < n \<Longrightarrow> c i \<Longrightarrow> a \<noteq> adr i"
  shows "par ord (\<lambda>i m. if c i then m(adr i := val i m) else m) m a = m a"
  using rf.par_frame [OF assms(1), of a] assms(2) by (auto split: if_splits)

end

section \<open>One cell per work-item\<close>

interpretation ra: single_write n "\<lambda>_. True" "\<lambda>lid. lid" "\<lambda>lid m. f lid :: 'a" for n f
  by unfold_locales auto

lemma par_assign:
  assumes "schedule n ord"
  shows "par ord (\<lambda>lid m. m(lid := f lid)) m a = (if a < n then f a else m a)"
  using ra.at [OF assms, of a f m] ra.off [OF assms, of a f m] by auto

section \<open>Loops of stores\<close>

text \<open>
  A work-item that stores \<open>f l k\<close> at \<open>adr l k\<close> for \<open>k = 0, \<dots>, w - 1\<close>, with a guard,
  reading nothing of the memory it writes.
\<close>

definition stores :: "nat \<Rightarrow> (nat \<Rightarrow> bool) \<Rightarrow> (nat \<Rightarrow> 'l) \<Rightarrow> (nat \<Rightarrow> 'v) \<Rightarrow> ('l \<Rightarrow> 'v) \<Rightarrow> 'l \<Rightarrow> 'v" where
  "stores w g adr f m = fold (\<lambda>k m. if g k then m(adr k := f k) else m) [0..<w] m"

lemma stores_frame: "(\<And>k. k < w \<Longrightarrow> g k \<Longrightarrow> a \<noteq> adr k) \<Longrightarrow> stores w g adr f m a = m a"
  by (induction w) (auto simp: stores_def)

lemma stores_at:
  assumes "k < w" "g k" "\<And>j. j < w \<Longrightarrow> g j \<Longrightarrow> adr j = adr k \<Longrightarrow> j = k"
  shows "stores w g adr f m (adr k) = f k"
  using assms
proof (induction w)
  case 0
  then show ?case by simp
next
  case (Suc w)
  show ?case
  proof (cases "k = w")
    case True
    then show ?thesis using Suc.prems by (simp add: stores_def)
  next
    case False
    with Suc.prems have k: "k < w" by simp
    then have IH: "stores w g adr f m (adr k) = f k" using Suc by auto
    have "\<not> (g w \<and> adr w = adr k)" using Suc.prems(3) [of w] k by auto
    then show ?thesis using IH by (auto simp: stores_def)
  qed
qed

locale store_loop =
  fixes n w :: nat
    and g :: "nat \<Rightarrow> nat \<Rightarrow> bool"
    and adr :: "nat \<Rightarrow> nat \<Rightarrow> 'l"
    and f :: "nat \<Rightarrow> nat \<Rightarrow> 'v"
  assumes inj: "i < n \<Longrightarrow> j < n \<Longrightarrow> k < w \<Longrightarrow> l < w \<Longrightarrow> adr i k = adr j l \<Longrightarrow> i = j \<and> k = l"

sublocale store_loop \<subseteq> rf: race_free n "\<lambda>i. stores w (g i) (adr i) (f i)"
  "\<lambda>i. {adr i k |k. k < w \<and> g i k}"
proof (unfold_locales, goal_cases)
  case (1 i a m)
  then show ?case by (auto intro: stores_frame)
next
  case (2 i a m m')
  then obtain k where k: "a = adr i k" "k < w" "g i k" by blast
  with 2 inj [of i i _ k] show ?case by (simp add: stores_at)
next
  case (3 i j a)
  then show ?case using inj by blast
qed

context store_loop
begin

lemma at:
  assumes "schedule n ord" "i < n" "k < w" "g i k"
  shows "par ord (\<lambda>i. stores w (g i) (adr i) (f i)) m (adr i k) = f i k"
proof -
  have "par ord (\<lambda>i. stores w (g i) (adr i) (f i)) m (adr i k) = stores w (g i) (adr i) (f i) m (adr i k)"
    using assms by (intro rf.par_own) auto
  then show ?thesis using assms inj [of i i _ k] by (simp add: stores_at)
qed

lemma off:
  assumes "schedule n ord" "\<And>i k. i < n \<Longrightarrow> k < w \<Longrightarrow> g i k \<Longrightarrow> a \<noteq> adr i k"
  shows "par ord (\<lambda>i. stores w (g i) (adr i) (f i)) m a = m a"
  using assms by (intro rf.par_frame) auto

end

section \<open>Work-items with areas of their own\<close>

text \<open>
  A phase whose work-item \<open>i\<close> rewrites its own area \<open>W i\<close> to \<open>F\<close>, reading only that area of
  the memory it started from.
\<close>

lemma par_areas:
  assumes "distinct ord"
    and "\<And>i m' a. i \<in> set ord \<Longrightarrow> (\<And>b. b \<in> W i \<Longrightarrow> m' b = m b) \<Longrightarrow>
      body i m' a = (if a \<in> W i then F a else m' a)"
    and "\<And>i j a. i \<in> set ord \<Longrightarrow> j \<in> set ord \<Longrightarrow> a \<in> W i \<Longrightarrow> a \<in> W j \<Longrightarrow> i = j"
  shows "par ord body m a = (if \<exists>i\<in>set ord. a \<in> W i then F a else m a)"
proof -
  have "par xs body m' a = (if \<exists>i\<in>set xs. a \<in> W i then F a else m' a)"
    if "distinct xs" "set xs \<subseteq> set ord" "\<And>i b. i \<in> set xs \<Longrightarrow> b \<in> W i \<Longrightarrow> m' b = m b" for xs m'
    using that
  proof (induction xs arbitrary: m')
    case (Cons x xs)
    have x: "body x m' b = (if b \<in> W x then F b else m' b)" for b
      using Cons.prems by (intro assms(2)) auto
    have "body x m' b = m b" if "i \<in> set xs" "b \<in> W i" for i b
    proof -
      have "b \<notin> W x" using assms(3) [of x i b] that Cons.prems by auto
      then show ?thesis using x [of b] Cons.prems(3) [of i b] that by simp
    qed
    then have "par xs body (body x m') a = (if \<exists>i\<in>set xs. a \<in> W i then F a else body x m' a)"
      using Cons.prems by (intro Cons.IH) auto
    then show ?case using x [of a] by auto
  qed simp
  from this [OF assms(1) subset_refl] show ?thesis by simp
qed

section \<open>Phases that may write a location more than once\<close>

text \<open>When all writes to a location agree, the order does not matter.\<close>

lemma par_consistent:
  assumes "\<And>i m' a. i \<in> set ord \<Longrightarrow> a \<in> W i \<Longrightarrow> body i m' a = F a"
    and "\<And>i m' a. i \<in> set ord \<Longrightarrow> a \<notin> W i \<Longrightarrow> body i m' a = m' a"
  shows "par ord body m a = (if \<exists>i\<in>set ord. a \<in> W i then F a else m a)"
  using assms
proof (induction ord arbitrary: m)
  case (Cons x xs)
  have "par (x # xs) body m a = (if \<exists>i\<in>set xs. a \<in> W i then F a else body x m a)"
    using Cons.IH [of "body x m"] Cons.prems by simp
  then show ?case using Cons.prems by auto
qed simp

lemma stores_consistent:
  assumes "\<And>k. k < w \<Longrightarrow> g k \<Longrightarrow> f k = F (adr k)"
  shows "stores w g adr f m a = (if \<exists>k<w. g k \<and> a = adr k then F a else m a)"
  using assms
proof (induction w)
  case (Suc w)
  have "stores (Suc w) g adr f m a = (if g w \<and> a = adr w then f w else stores w g adr f m a)"
    by (simp add: stores_def)
  then show ?case using Suc by (auto simp: less_Suc_eq)
qed (simp add: stores_def)

lemma par_stores:
  assumes "\<And>i k. i \<in> set ord \<Longrightarrow> k < w \<Longrightarrow> g i k \<Longrightarrow> f i k = F (adr i k)"
  shows "par ord (\<lambda>i. stores w (g i) (adr i) (f i)) m a =
    (if \<exists>i\<in>set ord. \<exists>k<w. g i k \<and> a = adr i k then F a else m a)"
proof -
  have "par ord (\<lambda>i. stores w (g i) (adr i) (f i)) m a =
      (if \<exists>i\<in>set ord. a \<in> {a. \<exists>k<w. g i k \<and> a = adr i k} then F a else m a)"
  proof (rule par_consistent)
    fix i m' a assume i: "i \<in> set ord"
    have st: "stores w (g i) (adr i) (f i) m' a = (if \<exists>k<w. g i k \<and> a = adr i k then F a else m' a)"
      by (rule stores_consistent) (rule assms [OF i])
    show "a \<in> {a. \<exists>k<w. g i k \<and> a = adr i k} \<Longrightarrow> stores w (g i) (adr i) (f i) m' a = F a"
      "a \<notin> {a. \<exists>k<w. g i k \<and> a = adr i k} \<Longrightarrow> stores w (g i) (adr i) (f i) m' a = m' a"
      unfolding st by auto
  qed
  then show ?thesis by simp
qed

end
