(* ===== verification/OpenCL.thy ===== *)
theory OpenCL
  imports StdMap Algorithm Workgroup
begin

text \<open>
  What the host code uses of the OpenCL interface: buffers with a size and access flags, program
  objects with their preprocessor definitions, kernel objects with their argument slots, and a
  command queue that records launches with the events they wait for and the event they signal.
  A launch takes a snapshot of the kernel object's arguments. The queue may run commands out of
  order; the only constraint is that a command starts after the events it waits for. The result
  code of a launch comes from the driver and is a parameter.
\<close>

section \<open>Buffers\<close>

record buffer =
  buf_id :: nat
  buf_size :: nat
  buf_flags :: nat

definition CL_MEM_READ_WRITE :: nat where "CL_MEM_READ_WRITE = 1"
definition CL_MEM_WRITE_ONLY :: nat where "CL_MEM_WRITE_ONLY = 2"
definition CL_MEM_READ_ONLY :: nat where "CL_MEM_READ_ONLY = 4"
definition CL_MEM_COPY_HOST_PTR :: nat where "CL_MEM_COPY_HOST_PTR = 32"

definition readable :: "buffer \<Rightarrow> bool" where
  "readable b \<longleftrightarrow> and (buf_flags b) (or CL_MEM_READ_WRITE CL_MEM_READ_ONLY) \<noteq> 0"

definition writable :: "buffer \<Rightarrow> bool" where
  "writable b \<longleftrightarrow> and (buf_flags b) (or CL_MEM_READ_WRITE CL_MEM_WRITE_ONLY) \<noteq> 0"

definition read_write :: "buffer \<Rightarrow> bool" where
  "read_write b \<longleftrightarrow> and (buf_flags b) CL_MEM_READ_WRITE \<noteq> 0"

section \<open>Kernel objects\<close>

record program =
  pfile :: string
  pdefs :: "int std_map"
  psdefs :: "string std_map"

datatype 'a arg = ABuf nat | AUint nat | AElem 'a | ALocal nat

record 'a kernel =
  kprogram :: program
  kname :: string
  kargs :: "nat \<Rightarrow> 'a arg option"

definition new_kernel :: "program \<Rightarrow> string \<Rightarrow> 'a kernel" where
  "new_kernel p n = \<lparr>kprogram = p, kname = n, kargs = (\<lambda>_. None)\<rparr>"

definition setArg :: "nat \<Rightarrow> 'a arg \<Rightarrow> 'a kernel \<Rightarrow> 'a kernel" where
  "setArg i v k = k\<lparr>kargs := (kargs k)(i \<mapsto> v)\<rparr>"

lemma setArg_simps [simp]:
  "kname (setArg i v k) = kname k" "kprogram (setArg i v k) = kprogram k"
  "kargs (setArg i v k) = (kargs k)(i \<mapsto> v)"
  by (simp_all add: setArg_def)

lemma new_kernel_simps [simp]:
  "kname (new_kernel p n) = n" "kprogram (new_kernel p n) = p" "kargs (new_kernel p n) = (\<lambda>_. None)"
  by (simp_all add: new_kernel_def)

text \<open>The value of a numeric macro in the program of a kernel; 0 if it is not defined.\<close>

definition macro :: "'a kernel \<Rightarrow> string \<Rightarrow> nat" where
  "macro k n = (case map_of (pdefs (kprogram k)) n of None \<Rightarrow> 0 | Some v \<Rightarrow> nat v)"

lemma macro_setArg [simp]: "macro (setArg i v k) = macro k"
  by (simp add: macro_def fun_eq_iff)

text \<open>The same for the definitions themselves, and what is known of a kernel object.\<close>

definition def_nat :: "int std_map \<Rightarrow> string \<Rightarrow> nat" where
  "def_nat d n = (case map_of d n of None \<Rightarrow> 0 | Some v \<Rightarrow> nat v)"

definition kernel_is :: "'a kernel \<Rightarrow> string \<Rightarrow> (string \<times> nat) list \<Rightarrow> (nat \<times> 'a arg) list \<Rightarrow> bool" where
  "kernel_is k name macros args \<longleftrightarrow> kname k = name \<and> list_all (\<lambda>(m, v). macro k m = v) macros
     \<and> list_all (\<lambda>(i, a). kargs k i = Some a) args"

lemma macro_def_nat: "macro k = def_nat (pdefs (kprogram k))"
  by (simp add: macro_def def_nat_def fun_eq_iff)

section \<open>The command queue\<close>

text \<open>
  A command is a launch (kernel object with its arguments, global size, local size), a read of
  a byte range of a buffer into host memory (buffer, blocking flag, offset, size), or a copy of
  the first bytes of a buffer to the start of another (source, destination, size).
\<close>

datatype 'a action = Launch "'a kernel" nat nat | ReadBuf nat bool nat nat | CopyBuf nat nat nat

record 'a command =
  act :: "'a action"
  waits :: "nat list"
  ev :: nat

record 'a queue =
  cmds :: "'a command list"
  next_ev :: nat
  trace :: "call list"

definition wait_list :: "nat list option \<Rightarrow> nat list" where
  "wait_list w = (case w of None \<Rightarrow> [] | Some es \<Rightarrow> es)"

lemma wait_list_simps [simp]: "wait_list None = []" "wait_list (Some es) = es"
  by (simp_all add: wait_list_def)

text \<open>
  \<^verbatim>\<open>enqueueNDRangeKernel\<close>, \<^verbatim>\<open>enqueueReadBuffer\<close> and
  \<^verbatim>\<open>enqueueCopyBuffer\<close>: the driver's code decides; on
  success the command is recorded and its event returned.
\<close>

definition enqueue_action ::
  "('a command \<Rightarrow> int) \<Rightarrow> string \<Rightarrow> 'a action \<Rightarrow> nat list option \<Rightarrow> 'a queue \<Rightarrow> nat result \<times> 'a queue" where
  "enqueue_action drv what a w q =
     (let c = \<lparr>act = a, waits = wait_list w, ev = next_ev q\<rparr>; code = drv c
      in if code \<noteq> CL_SUCCESS then (Inl (ClError code what), q)
         else (Inr (ev c), q\<lparr>cmds := cmds q @ [c], next_ev := Suc (next_ev q)\<rparr>))"

definition enqueueNDRange ::
  "('a command \<Rightarrow> int) \<Rightarrow> 'a kernel \<Rightarrow> nat \<Rightarrow> nat \<Rightarrow> nat list option \<Rightarrow> 'a queue \<Rightarrow> nat result \<times> 'a queue" where
  "enqueueNDRange drv k g l w q = enqueue_action drv ''clEnqueueNDRangeKernel'' (Launch k g l) w q"

definition enqueueReadBuffer ::
  "('a command \<Rightarrow> int) \<Rightarrow> nat \<Rightarrow> bool \<Rightarrow> nat \<Rightarrow> nat \<Rightarrow> nat list option \<Rightarrow> 'a queue \<Rightarrow> nat result \<times> 'a queue" where
  "enqueueReadBuffer drv b blocking offset len w q =
     enqueue_action drv ''clEnqueueReadBuffer'' (ReadBuf b blocking offset len) w q"

definition enqueueCopyBuffer ::
  "('a command \<Rightarrow> int) \<Rightarrow> nat \<Rightarrow> nat \<Rightarrow> nat \<Rightarrow> nat list option \<Rightarrow> 'a queue \<Rightarrow> nat result \<times> 'a queue" where
  "enqueueCopyBuffer drv src dst len w q =
     enqueue_action drv ''clEnqueueCopyBuffer'' (CopyBuf src dst len) w q"

definition notify :: "alg \<Rightarrow> nat \<Rightarrow> 'a queue \<Rightarrow> 'a queue" where
  "notify a e q = q\<lparr>trace := trace q @ doEventCallback a e\<rparr>"

text \<open>Sequencing of host operations that may throw.\<close>

definition bind_op :: "('s \<Rightarrow> 'a result \<times> 's) \<Rightarrow> ('a \<Rightarrow> 's \<Rightarrow> 'b result \<times> 's) \<Rightarrow> 's \<Rightarrow> 'b result \<times> 's" where
  "bind_op m f s = (case m s of (Inl e, s') \<Rightarrow> (Inl e, s') | (Inr x, s') \<Rightarrow> f x s')"

definition return_op :: "'a \<Rightarrow> 's \<Rightarrow> 'a result \<times> 's" where
  "return_op x s = (Inr x, s)"

definition throw_op :: "exn \<Rightarrow> 's \<Rightarrow> 'a result \<times> 's" where
  "throw_op e s = (Inl e, s)"

definition update_op :: "('s \<Rightarrow> 's) \<Rightarrow> 's \<Rightarrow> unit result \<times> 's" where
  "update_op f s = (Inr (), f s)"

text \<open>
  The three \<^verbatim>\<open>initialize\<close> functions prepare their kernels in a try block: a
  \<^verbatim>\<open>cl::Error\<close> becomes an \<^verbatim>\<open>InternalError\<close>, any other exception passes.
\<close>

fun wrap_prepare :: "string \<Rightarrow> 'r result \<Rightarrow> 'r result" where
  "wrap_prepare what (Inl (ClError c m)) = Inl (InternalError (what @ m))"
| "wrap_prepare what r = r"

lemma wrap_prepare_Inr [simp]: "wrap_prepare what r = Inr x \<longleftrightarrow> r = Inr x"
  by (induction what r rule: wrap_prepare.induct) auto

section \<open>The exported enqueue functions\<close>

text \<open>
  The exported functions of the three algorithms have the same shape: wrap the events, check
  the handle, call the detail object, catch \<^verbatim>\<open>cl::Error\<close>; \<open>op\<close> is the call of the detail
  object. The inline function of the header unwraps the events before and turns the code into
  an exception after. The state is the detail object of the handle and the queue.
\<close>

definition abi_enqueue ::
  "(nat list option \<Rightarrow> 'd \<times> 'q \<Rightarrow> nat result \<times> 'd \<times> 'q) \<Rightarrow> nat \<Rightarrow> nat list option \<Rightarrow>
   'd option \<times> 'q \<Rightarrow> (nat option \<times> int \<times> string option) result \<times> 'd option \<times> 'q" where
  "abi_enqueue op numEvents events st =
     (case retainWrap_array numEvents events of
        Inl e \<Rightarrow> (abi_catch (Inl e), st)
      | Inr es \<Rightarrow>
          (case st of
             (None, q) \<Rightarrow> (abi_catch (Inl (LogicError ''Uninitialized object'')), st)
           | (Some d, q) \<Rightarrow>
               (case op (if events = None then None else Some es) (d, q) of
                  (r, d', q') \<Rightarrow> (abi_catch r, Some d', q'))))"

definition public_enqueue ::
  "(nat list option \<Rightarrow> 'd \<times> 'q \<Rightarrow> nat result \<times> 'd \<times> 'q) \<Rightarrow> nat list option \<Rightarrow>
   'd option \<times> 'q \<Rightarrow> nat result \<times> 'd option \<times> 'q" where
  "public_enqueue op events st =
     (case abi_enqueue op (fst (UnwrapArray events)) (snd (UnwrapArray events)) st of
        (r, st') \<Rightarrow> (abi_wrap r, st'))"

text \<open>An empty vector of events arrives as a null pointer.\<close>

definition norm_events :: "nat list option \<Rightarrow> nat list option" where
  "norm_events events = (if events = Some [] then None else events)"

lemma wait_list_norm [simp]: "wait_list (norm_events events) = wait_list events"
  by (simp add: norm_events_def)

lemma UnwrapArray_norm:
  "(if snd (UnwrapArray events) = None then None else Some (wait_list events)) = norm_events events"
  by (cases events) (auto simp: UnwrapArray_def norm_events_def)

text \<open>
  The contract of an operation behind the boundary: it fails only with a \<^verbatim>\<open>cl::Error\<close> whose
  code is not that of success. Under the contract the public function behaves as the
  operation itself.
\<close>

locale cl_operation =
  fixes op :: "nat list option \<Rightarrow> 'd \<times> 'q \<Rightarrow> nat result \<times> 'd \<times> 'q"
  assumes fails_cl: "op events st = (Inl e, st') \<Longrightarrow> \<exists>c m. e = ClError c m \<and> c \<noteq> CL_SUCCESS"
begin

lemma public_result:
  assumes "length (wait_list events) < 2 ^ 32" and "op (norm_events events) (d, q) = (r, d', q')"
  shows "public_enqueue op events (Some d, q) = (r, Some d', q')"
proof -
  have "abi_wrap (abi_catch r) = r"
    using fails_cl [of _ "(d, q)"] assms(2) by (intro abi_wrap_catch) blast
  then show ?thesis
    using assms(2)
    by (simp add: public_enqueue_def abi_enqueue_def UnwrapArray_norm
        retainWrap_UnwrapArray [folded wait_list_def, OF assms(1)])
qed

lemma public_null: "\<exists>m. public_enqueue op events (None, q) = (Inl (LogicError m), None, q)"
  if "length (wait_list events) < 2 ^ 32"
  using that
  by (simp add: public_enqueue_def abi_enqueue_def abi_wrap_def abi_catch_def
      retainWrap_UnwrapArray [folded wait_list_def])

end

lemma enqueue_action_error:
  "enqueue_action drv what a w q = (Inl e, q') \<Longrightarrow> \<exists>c m. e = ClError c m \<and> c \<noteq> CL_SUCCESS"
  by (auto simp: enqueue_action_def Let_def split: if_splits)

lemmas enqueue_error = enqueue_action_error [of _ "''clEnqueueNDRangeKernel''" "Launch _ _ _", folded enqueueNDRange_def]
  enqueue_action_error [of _ "''clEnqueueReadBuffer''" "ReadBuf _ _ _ _", folded enqueueReadBuffer_def]
  enqueue_action_error [of _ "''clEnqueueCopyBuffer''" "CopyBuf _ _ _", folded enqueueCopyBuffer_def]

section \<open>Legal orders of execution\<close>

text \<open>
  An order in which the queue may run a list of commands: every command once, and each after
  those commands of the list whose events it waits for.
\<close>

fun respects_waits :: "nat set \<Rightarrow> 'a command list \<Rightarrow> bool" where
  "respects_waits E [] = True"
| "respects_waits E (c # cs) \<longleftrightarrow> (\<forall>e\<in>set (waits c). e \<notin> E) \<and> respects_waits (E - {ev c}) cs"

definition legal_order :: "'a command list \<Rightarrow> 'a command list \<Rightarrow> bool" where
  "legal_order cs ord \<longleftrightarrow> mset ord = mset cs \<and> respects_waits (ev ` set cs) ord"

text \<open>Commands in a chain: each waits for the event of the one before it.\<close>

fun chained :: "'a command list \<Rightarrow> bool" where
  "chained [] = True"
| "chained [c] = True"
| "chained (c # d # cs) \<longleftrightarrow> ev c \<in> set (waits d) \<and> chained (d # cs)"

lemma chained_waits:
  "chained (c # cs) \<Longrightarrow> d \<in> set cs \<Longrightarrow> \<exists>e\<in>set (waits d). e \<in> ev ` set (c # cs)"
proof (induction cs arbitrary: c)
  case (Cons a cs)
  then show ?case by (cases "d = a") auto
qed simp

lemma chained_waits_butlast:
  "chained (c # cs) \<Longrightarrow> d \<in> set cs \<Longrightarrow> distinct (map ev (c # cs)) \<Longrightarrow>
   \<exists>e\<in>set (waits d). e \<in> ev ` set (c # cs)"
  using chained_waits by blast

text \<open>A chain of commands has only one legal order: the one in which they were enqueued.\<close>

lemma respects_waits_chain:
  assumes "chained cs" "distinct (map ev cs)" "mset ord = mset cs" "respects_waits (ev ` set cs) ord"
  shows "ord = cs"
  using assms
proof (induction cs arbitrary: ord)
  case (Cons c cs)
  from Cons.prems(3) obtain d ds where ord: "ord = d # ds" by (cases ord) auto
  have "d = c"
  proof (rule ccontr)
    assume "d \<noteq> c"
    then have "d \<in> set cs" using Cons.prems(3) ord by (metis mset_eq_setD list.set_intros(1) set_ConsD)
    then obtain e where "e \<in> set (waits d)" "e \<in> ev ` set (c # cs)"
      using chained_waits [OF Cons.prems(1)] by blast
    then show False using Cons.prems(4) ord by simp
  qed
  have "ev ` set (c # cs) - {ev c} = ev ` set cs" using Cons.prems(2) by auto
  then have "respects_waits (ev ` set cs) ds" using Cons.prems(4) ord \<open>d = c\<close> by (simp only: respects_waits.simps)
  moreover have "chained cs" using Cons.prems(1) by (cases cs) auto
  moreover have "mset ds = mset cs" using Cons.prems(3) ord \<open>d = c\<close> by simp
  ultimately have "ds = cs" using Cons.IH Cons.prems(2) by simp
  then show ?case using ord \<open>d = c\<close> by simp
qed simp

lemma chain_unique_order:
  "chained cs \<Longrightarrow> distinct (map ev cs) \<Longrightarrow> legal_order cs ord \<Longrightarrow> ord = cs"
  unfolding legal_order_def by (blast intro: respects_waits_chain)

section \<open>The device\<close>

text \<open>
  The choices of the device for one launch: the order of the work-groups, and for each
  work-group the order of its work-items in every phase.
\<close>

record dsched =
  dgroups :: "nat \<Rightarrow> nat list"
  ditems :: "nat \<Rightarrow> nat \<Rightarrow> sched"

fun lsize :: "'a action \<Rightarrow> nat" where
  "lsize (Launch k g l) = l"
| "lsize (ReadBuf b bl off n) = 0"
| "lsize (CopyBuf src dst n) = 0"

fun ngroups :: "'a action \<Rightarrow> nat" where
  "ngroups (Launch k g l) = g div l"
| "ngroups (ReadBuf b bl off n) = 0"
| "ngroups (CopyBuf src dst n) = 0"

text \<open>A launch is well-formed when the global size is a positive multiple of the local size.\<close>

definition range_ok :: "nat \<Rightarrow> nat \<Rightarrow> bool" where
  "range_ok g l \<longleftrightarrow> 0 < l \<and> 0 < g \<and> l dvd g"

definition dsched_ok :: "dsched \<Rightarrow> 'a command \<Rightarrow> bool" where
  "dsched_ok D c \<longleftrightarrow> schedule (ngroups (act c)) (dgroups D (ev c))
     \<and> (\<forall>g. valid (lsize (act c)) (ditems D (ev c) g))"

lemma dsched_groups:
  assumes "dsched_ok D c" "act c = Launch k (l * n) l" "0 < l" "0 < n"
  shows "range_ok (l * n) l" "schedule n (dgroups D (ev c))" "\<And>g. valid l (ditems D (ev c) g)"
  using assms by (auto simp: dsched_ok_def range_ok_def)

fun run_all :: "('a command \<Rightarrow> 'm \<Rightarrow> 'm option) \<Rightarrow> 'a command list \<Rightarrow> 'm \<Rightarrow> 'm option" where
  "run_all f [] m = Some m"
| "run_all f (c # cs) m = (case f c m of None \<Rightarrow> None | Some m' \<Rightarrow> run_all f cs m')"

lemma run_all_append:
  "run_all f (cs @ ds) m = (case run_all f cs m of None \<Rightarrow> None | Some m' \<Rightarrow> run_all f ds m')"
  by (induction cs arbitrary: m) (auto split: option.splits)

text \<open>Every work-group in order, for witnesses.\<close>

definition plain_sched :: "'a command list \<Rightarrow> dsched" where
  "plain_sched cs =
     \<lparr>dgroups = (\<lambda>e. case find (\<lambda>c. ev c = e) cs of None \<Rightarrow> [] | Some c \<Rightarrow> [0..<ngroups (act c)]),
      ditems = (\<lambda>e g. case find (\<lambda>c. ev c = e) cs of None \<Rightarrow> in_order 0 | Some c \<Rightarrow> in_order (lsize (act c)))\<rparr>"

lemma plain_sched_ok:
  assumes "distinct (map ev cs)" "c \<in> set cs"
  shows "dsched_ok (plain_sched cs) c"
proof -
  have "find (\<lambda>d. ev d = ev c) cs = Some c"
    using assms by (induction cs) (auto simp: rev_image_eqI)
  then show ?thesis by (auto simp: dsched_ok_def plain_sched_def)
qed

end
