(* ===== verification/TunePolicy.thy ===== *)
theory TunePolicy
  imports CoreTypes
begin

text \<open>
  The tuning policy of src/tune.h and src/tune.cpp: whether tuning is allowed, and what is
  written to the log while it runs.
\<close>

section \<open>The policy and its log\<close>

definition TUNE_VERBOSITY_SILENT :: nat where "TUNE_VERBOSITY_SILENT = 0"
definition TUNE_VERBOSITY_TERSE :: nat where "TUNE_VERBOSITY_TERSE = 1"
definition TUNE_VERBOSITY_NORMAL :: nat where "TUNE_VERBOSITY_NORMAL = 2"
definition TUNE_VERBOSITY_DEBUG :: nat where "TUNE_VERBOSITY_DEBUG = 3"

text \<open>Output streams are numbered; \<open>0\<close> is \<^verbatim>\<open>std::cout\<close>.\<close>

record tune_policy =
  tp_enabled :: bool
  tp_verbosity :: nat
  tp_out :: nat

definition TunePolicy_new :: tune_policy where
  "TunePolicy_new = \<lparr>tp_enabled = True, tp_verbosity = TUNE_VERBOSITY_NORMAL, tp_out = 0\<rparr>"

definition setEnabled :: "bool \<Rightarrow> tune_policy \<Rightarrow> tune_policy" where
  "setEnabled e p = p\<lparr>tp_enabled := e\<rparr>"

definition setVerbosity :: "nat \<Rightarrow> tune_policy \<Rightarrow> tune_policy" where
  "setVerbosity v p = p\<lparr>tp_verbosity := v\<rparr>"

definition setOutput :: "nat \<Rightarrow> tune_policy \<Rightarrow> tune_policy" where
  "setOutput o' p = p\<lparr>tp_out := o'\<rparr>"

definition assertEnabled :: "tune_policy \<Rightarrow> unit result" where
  "assertEnabled p =
     (if \<not> tp_enabled p then Inl (CacheError ''no cache entry found and tuning is disabled'') else Inr ())"

text \<open>
  A state with the text written so far, by stream. \<open>show_rate\<close> is the formatting of a
  \<^verbatim>\<open>double\<close>.
\<close>

record 'w tstate =
  world :: 'w
  written :: "nat \<Rightarrow> string"

definition put :: "tune_policy \<Rightarrow> string \<Rightarrow> 'w tstate \<Rightarrow> 'w tstate" where
  "put p s st = st\<lparr>written := (written st)(tp_out p := written st (tp_out p) @ s)\<rparr>"

definition logStartAlgorithm :: "tune_policy \<Rightarrow> string \<Rightarrow> device \<Rightarrow> 'w tstate \<Rightarrow> 'w tstate" where
  "logStartAlgorithm p description d st =
     (if TUNE_VERBOSITY_TERSE \<le> tp_verbosity p
      then put p (''Tuning '' @ description @ '' on '' @ device_name d @ ''\<newline>'') st else st)"

definition logEndAlgorithm :: "tune_policy \<Rightarrow> 'w tstate \<Rightarrow> 'w tstate" where
  "logEndAlgorithm p st =
     (if TUNE_VERBOSITY_DEBUG \<le> tp_verbosity p then put p ''Finished tuning\<newline>'' st else st)"

definition logStartGroup :: "tune_policy \<Rightarrow> 'w tstate \<Rightarrow> 'w tstate" where
  "logStartGroup p st = st"

definition logEndGroup :: "tune_policy \<Rightarrow> 'w tstate \<Rightarrow> 'w tstate" where
  "logEndGroup p st = (if TUNE_VERBOSITY_NORMAL \<le> tp_verbosity p then put p ''\<newline>'' st else st)"

definition logStartTest :: "tune_policy \<Rightarrow> 'w tstate \<Rightarrow> 'w tstate" where
  "logStartTest p st = st"

definition logEndTest :: "tune_policy \<Rightarrow> ('r \<Rightarrow> string) \<Rightarrow> 'r option \<Rightarrow> 'w tstate \<Rightarrow> 'w tstate" where
  "logEndTest p show_rate rate st =
     (if TUNE_VERBOSITY_DEBUG \<le> tp_verbosity p
      then put p (case rate of Some r \<Rightarrow> show_rate r @ ''\<newline>'' | None \<Rightarrow> ''failed\<newline>'') st
      else if TUNE_VERBOSITY_NORMAL \<le> tp_verbosity p
      then put p (case rate of Some r \<Rightarrow> ''.'' | None \<Rightarrow> ''!'') st else st)"

end
