(* ===== verification/ValueObjects.thy ===== *)
theory ValueObjects
  imports Prelude
begin

text \<open>
  The public classes \<^verbatim>\<open>TunePolicy\<close>, \<^verbatim>\<open>ScanProblem\<close>, \<^verbatim>\<open>ReduceProblem\<close> and
  \<^verbatim>\<open>RadixsortProblem\<close> own a pointer to an implementation object and have the same five
  members: a constructor, a copy constructor, an assignment, a destructor, and setters that
  forward to the implementation. They are modelled once, for an implementation type \<open>'v\<close>.
  Objects live at addresses, implementations on a heap; a step is \<open>None\<close> where the source would
  dereference or delete a dead pointer. Shown: they behave as plain values.
\<close>

record 'v objects =
  o_detail :: "nat \<rightharpoonup> nat"
  o_heap :: "nat \<rightharpoonup> 'v"
  o_fresh :: nat

datatype 'v vop =
    VNew nat
  | VCopy nat nat
  | VAssign nat nat
  | VDelete nat
  | VUpdate nat "'v \<Rightarrow> 'v"

definition obj_new :: "nat \<Rightarrow> 'v \<Rightarrow> 'v objects \<Rightarrow> 'v objects" where
  "obj_new h p s = s\<lparr>o_detail := (o_detail s)(h \<mapsto> o_fresh s),
     o_heap := (o_heap s)(o_fresh s \<mapsto> p), o_fresh := Suc (o_fresh s)\<rparr>"

definition obj_value :: "nat \<Rightarrow> 'v objects \<Rightarrow> 'v option" where
  "obj_value h s = (case o_detail s h of None \<Rightarrow> None | Some d \<Rightarrow> o_heap s d)"

definition obj_delete :: "nat option \<Rightarrow> 'v objects \<Rightarrow> 'v objects option" where
  "obj_delete d s = (case d of None \<Rightarrow> Some s
     | Some n \<Rightarrow> (case o_heap s n of None \<Rightarrow> None | Some _ \<Rightarrow> Some (s\<lparr>o_heap := (o_heap s)(n := None)\<rparr>)))"

definition obj_update :: "nat \<Rightarrow> ('v \<Rightarrow> 'v) \<Rightarrow> 'v objects \<Rightarrow> 'v objects option" where
  "obj_update h f s = (case o_detail s h of None \<Rightarrow> None
     | Some d \<Rightarrow> (case o_heap s d of None \<Rightarrow> None | Some p \<Rightarrow> Some (s\<lparr>o_heap := (o_heap s)(d \<mapsto> f p)\<rparr>)))"

definition obj_assign :: "nat \<Rightarrow> nat \<Rightarrow> 'v objects \<Rightarrow> 'v objects option" where
  "obj_assign h g s =
     (if o_detail s h \<noteq> o_detail s g
      then case obj_value g s of
          None \<Rightarrow> None
        | Some p \<Rightarrow> obj_delete (o_detail s h) (obj_new h p s)
      else Some s)"

fun obj_step :: "'v \<Rightarrow> 'v vop \<Rightarrow> 'v objects \<Rightarrow> 'v objects option" where
  "obj_step v0 (VNew h) s = Some (obj_new h v0 s)"
| "obj_step v0 (VCopy h g) s = (case obj_value g s of None \<Rightarrow> None | Some p \<Rightarrow> Some (obj_new h p s))"
| "obj_step v0 (VAssign h g) s = obj_assign h g s"
| "obj_step v0 (VDelete h) s = (case obj_delete (o_detail s h) s of None \<Rightarrow> None
     | Some s' \<Rightarrow> Some (s'\<lparr>o_detail := (o_detail s')(h := None)\<rparr>))"
| "obj_step v0 (VUpdate h f) s = obj_update h f s"

text \<open>The lifetimes that the language allows, and the operations on plain values.\<close>

fun vop_legal :: "'v vop \<Rightarrow> (nat \<rightharpoonup> 'v) \<Rightarrow> bool" where
  "vop_legal (VNew h) m = (m h = None)"
| "vop_legal (VCopy h g) m = (m h = None \<and> m g \<noteq> None)"
| "vop_legal (VAssign h g) m = (m h \<noteq> None \<and> m g \<noteq> None)"
| "vop_legal (VDelete h) m = (m h \<noteq> None)"
| "vop_legal (VUpdate h f) m = (m h \<noteq> None)"

fun value_step :: "'v \<Rightarrow> 'v vop \<Rightarrow> (nat \<rightharpoonup> 'v) \<Rightarrow> nat \<rightharpoonup> 'v" where
  "value_step v0 (VNew h) m = m(h \<mapsto> v0)"
| "value_step v0 (VCopy h g) m = m(h := m g)"
| "value_step v0 (VAssign h g) m = m(h := m g)"
| "value_step v0 (VDelete h) m = m(h := None)"
| "value_step v0 (VUpdate h f) m = m(h := map_option f (m h))"

fun obj_run :: "'v \<Rightarrow> 'v vop list \<Rightarrow> 'v objects \<Rightarrow> 'v objects option" where
  "obj_run v0 [] s = Some s"
| "obj_run v0 (x # xs) s = (case obj_step v0 x s of None \<Rightarrow> None | Some s' \<Rightarrow> obj_run v0 xs s')"

fun value_run :: "'v \<Rightarrow> 'v vop list \<Rightarrow> (nat \<rightharpoonup> 'v) \<Rightarrow> (nat \<rightharpoonup> 'v) option" where
  "value_run v0 [] m = Some m"
| "value_run v0 (x # xs) m = (if vop_legal x m then value_run v0 xs (value_step v0 x m) else None)"

definition obj_values :: "'v objects \<Rightarrow> nat \<rightharpoonup> 'v" where
  "obj_values s = (\<lambda>h. obj_value h s)"

text \<open>Every implementation on the heap belongs to exactly one object.\<close>

definition oinv :: "'v objects \<Rightarrow> bool" where
  "oinv s \<longleftrightarrow> (\<forall>h g d. o_detail s h = Some d \<longrightarrow> o_detail s g = Some d \<longrightarrow> h = g)
     \<and> (\<forall>h d. o_detail s h = Some d \<longrightarrow> o_heap s d \<noteq> None)
     \<and> (\<forall>d. o_heap s d \<noteq> None \<longrightarrow> (\<exists>h. o_detail s h = Some d) \<and> d < o_fresh s)"

definition no_objects :: "'v objects" where
  "no_objects = \<lparr>o_detail = (\<lambda>_. None), o_heap = (\<lambda>_. None), o_fresh = 0\<rparr>"

lemma oinvI:
  assumes "\<And>h g d. o_detail s h = Some d \<Longrightarrow> o_detail s g = Some d \<Longrightarrow> h = g"
    and "\<And>h d. o_detail s h = Some d \<Longrightarrow> o_heap s d \<noteq> None"
    and "\<And>d. o_heap s d \<noteq> None \<Longrightarrow> (\<exists>h. o_detail s h = Some d) \<and> d < o_fresh s"
  shows "oinv s"
  using assms unfolding oinv_def by blast

lemma oinv_live: "oinv s \<Longrightarrow> o_detail s h = Some d \<Longrightarrow> \<exists>p. o_heap s d = Some p"
  unfolding oinv_def by blast

lemma oinv_inj: "oinv s \<Longrightarrow> o_detail s h = Some d \<Longrightarrow> o_detail s g = Some d \<Longrightarrow> h = g"
  unfolding oinv_def by blast

lemma oinv_own: "oinv s \<Longrightarrow> o_heap s d \<noteq> None \<Longrightarrow> (\<exists>h. o_detail s h = Some d) \<and> d < o_fresh s"
  unfolding oinv_def by blast

lemma oinv_fresh: "oinv s \<Longrightarrow> o_detail s h = Some d \<Longrightarrow> d < o_fresh s"
  using oinv_own oinv_live by fastforce

lemma obj_values_None: "oinv s \<Longrightarrow> obj_values s h = None \<longleftrightarrow> o_detail s h = None"
  by (auto simp: obj_values_def obj_value_def split: option.splits dest: oinv_live)

lemma obj_new_ok:
  assumes "oinv s" "o_detail s h = None"
  shows "oinv (obj_new h p s)" "obj_values (obj_new h p s) = (obj_values s)(h \<mapsto> p)"
proof -
  have f: "o_detail s g \<noteq> Some (o_fresh s)" for g using oinv_fresh [OF assms(1), of g "o_fresh s"] by auto
  show "oinv (obj_new h p s)"
  proof (rule oinvI)
    fix d assume "o_heap (obj_new h p s) d \<noteq> None"
    then show "(\<exists>g. o_detail (obj_new h p s) g = Some d) \<and> d < o_fresh (obj_new h p s)"
      using oinv_own [OF assms(1), of d] assms(2)
      by (cases "d = o_fresh s") (auto simp: obj_new_def intro: less_SucI, metis option.distinct(1))
  qed (use f oinv_live [OF assms(1)] in
      \<open>auto simp: obj_new_def split: if_splits intro: oinv_inj [OF assms(1)]\<close>)
  show "obj_values (obj_new h p s) = (obj_values s)(h \<mapsto> p)"
    using f by (auto simp: fun_eq_iff obj_values_def obj_value_def obj_new_def split: option.splits)
qed

lemma obj_update_ok:
  assumes "oinv s" "o_detail s h = Some d"
  obtains s' where "obj_update h f s = Some s'" "oinv s'"
    "obj_values s' = (obj_values s)(h := map_option f (obj_values s h))"
proof -
  obtain p where p: "o_heap s d = Some p" using oinv_live [OF assms] by blast
  let ?s = "s\<lparr>o_heap := (o_heap s)(d \<mapsto> f p)\<rparr>"
  have "oinv ?s"
    by (rule oinvI) (use assms p oinv_live [OF assms(1)] oinv_own [OF assms(1)] in
        \<open>auto split: if_splits intro: oinv_inj [OF assms(1)]\<close>)
  moreover have "obj_values ?s = (obj_values s)(h := map_option f (obj_values s h))"
    using assms p oinv_inj [OF assms(1)]
    by (auto simp: fun_eq_iff obj_values_def obj_value_def split: option.splits)
  ultimately show ?thesis using that [of ?s] assms p by (simp add: obj_update_def)
qed

lemma obj_delete_ok:
  assumes "oinv s" "o_detail s h = Some d"
  obtains s' where "obj_delete (Some d) s = Some s'" "oinv (s'\<lparr>o_detail := (o_detail s')(h := None)\<rparr>)"
    "obj_values (s'\<lparr>o_detail := (o_detail s')(h := None)\<rparr>) = (obj_values s)(h := None)"
proof -
  obtain p where p: "o_heap s d = Some p" using oinv_live [OF assms] by blast
  let ?s = "s\<lparr>o_heap := (o_heap s)(d := None)\<rparr>"
  have i: "o_detail s g = Some d \<longleftrightarrow> g = h" for g using oinv_inj [OF assms(1)] assms(2) by blast
  have "oinv (?s\<lparr>o_detail := (o_detail ?s)(h := None)\<rparr>)"
  proof (rule oinvI)
    fix x assume "o_heap (?s\<lparr>o_detail := (o_detail ?s)(h := None)\<rparr>) x \<noteq> None"
    then have "x \<noteq> d" "o_heap s x \<noteq> None" by (auto split: if_splits)
    then show "(\<exists>g. o_detail (?s\<lparr>o_detail := (o_detail ?s)(h := None)\<rparr>) g = Some x)
        \<and> x < o_fresh (?s\<lparr>o_detail := (o_detail ?s)(h := None)\<rparr>)"
      using oinv_own [OF assms(1), of x] assms(2) by (auto, metis option.inject)
  qed (use i oinv_live [OF assms(1)] in \<open>auto split: if_splits intro: oinv_inj [OF assms(1)]\<close>)
  moreover have "obj_values (?s\<lparr>o_detail := (o_detail ?s)(h := None)\<rparr>) = (obj_values s)(h := None)"
    using i by (auto simp: fun_eq_iff obj_values_def obj_value_def split: option.splits)
  ultimately show ?thesis using that [of ?s] p by (simp add: obj_delete_def)
qed

lemma obj_assign_ok:
  assumes "oinv s" "o_detail s h = Some d" "o_detail s g = Some e"
  obtains s' where "obj_assign h g s = Some s'" "oinv s'" "obj_values s' = (obj_values s)(h := obj_values s g)"
proof (cases "d = e")
  case True
  then have "h = g" using oinv_inj [OF assms(1)] assms(2,3) by blast
  then show ?thesis using that [of s] assms by (simp add: obj_assign_def)
next
  case False
  obtain p q where p: "o_heap s e = Some p" "o_heap s d = Some q"
    using oinv_live [OF assms(1,2)] oinv_live [OF assms(1,3)] by blast
  have i: "o_detail s x = Some d \<longleftrightarrow> x = h" for x using oinv_inj [OF assms(1)] assms(2) by blast
  have f: "o_detail s x \<noteq> Some (o_fresh s)" for x using oinv_fresh [OF assms(1), of x "o_fresh s"] by auto
  have "d \<noteq> o_fresh s" using f [of h] assms(2) by auto
  let ?s = "s\<lparr>o_detail := (o_detail s)(h \<mapsto> o_fresh s), o_heap := (o_heap s)(o_fresh s \<mapsto> p, d := None),
    o_fresh := Suc (o_fresh s)\<rparr>"
  have "obj_assign h g s = Some ?s"
    using assms p False \<open>d \<noteq> o_fresh s\<close>
    by (simp add: obj_assign_def obj_value_def obj_delete_def obj_new_def)
  moreover have "oinv ?s"
  proof (rule oinvI)
    fix x assume "o_heap ?s x \<noteq> None"
    then have "x \<noteq> d" "x = o_fresh s \<or> o_heap s x \<noteq> None" by (auto split: if_splits)
    then show "(\<exists>g. o_detail ?s g = Some x) \<and> x < o_fresh ?s"
      using oinv_own [OF assms(1), of x] assms(2) by (auto intro: less_SucI, metis option.inject)
  qed (use i f oinv_live [OF assms(1)] \<open>d \<noteq> o_fresh s\<close> in \<open>auto split: if_splits intro: oinv_inj [OF assms(1)]\<close>)
  moreover have "obj_values ?s = (obj_values s)(h := obj_values s g)"
    using assms p i f \<open>d \<noteq> o_fresh s\<close>
    by (auto simp: fun_eq_iff obj_values_def obj_value_def split: option.splits)
  ultimately show ?thesis using that by blast
qed

lemma obj_step_ok:
  assumes s: "oinv s" and l: "vop_legal x (obj_values s)"
  shows "\<exists>s'. obj_step v0 x s = Some s' \<and> oinv s' \<and> obj_values s' = value_step v0 x (obj_values s)"
proof (cases x)
  case (VNew h)
  then show ?thesis using obj_new_ok [OF s, of h] l obj_values_None [OF s] by simp
next
  case (VCopy h g)
  then obtain p where "obj_value g s = Some p" using l by (auto simp: obj_values_def)
  then show ?thesis using obj_new_ok [OF s, of h p] l obj_values_None [OF s] VCopy
    by (simp add: obj_values_def)
next
  case (VAssign h g)
  then obtain d e where "o_detail s h = Some d" "o_detail s g = Some e" using l obj_values_None [OF s] by auto
  then show ?thesis using obj_assign_ok [OF s] VAssign by simp metis
next
  case (VDelete h)
  then obtain d where d: "o_detail s h = Some d" using l obj_values_None [OF s] by auto
  show ?thesis by (rule obj_delete_ok [OF s d]) (simp add: VDelete d)
next
  case (VUpdate h f)
  then obtain d where d: "o_detail s h = Some d" using l obj_values_None [OF s] by auto
  show ?thesis by (rule obj_update_ok [OF s d, of f]) (simp add: VUpdate)
qed

lemma obj_run_ok:
  "oinv s \<Longrightarrow> value_run v0 xs (obj_values s) = Some m
   \<Longrightarrow> \<exists>s'. obj_run v0 xs s = Some s' \<and> oinv s' \<and> obj_values s' = m"
proof (induction xs arbitrary: s)
  case (Cons x xs)
  then have l: "vop_legal x (obj_values s)" by (auto split: if_splits)
  obtain s' where "obj_step v0 x s = Some s'" "oinv s'" "obj_values s' = value_step v0 x (obj_values s)"
    using obj_step_ok [OF Cons.prems(1) l] by blast
  then show ?case using Cons l by simp
qed simp

lemma objects_are_values:
  fixes v0 :: 'a
  assumes "value_run v0 xs (\<lambda>_. None) = Some m"
  shows "\<exists>s. obj_run v0 xs no_objects = Some s \<and> obj_values s = m
    \<and> (\<forall>d. o_heap s d = None \<or> (\<exists>h. m h = o_heap s d \<and> o_detail s h = Some d))"
proof -
  have start: "oinv (no_objects :: 'a objects)" "obj_values (no_objects :: 'a objects) = (\<lambda>_. None)"
    by (auto simp: oinv_def no_objects_def obj_values_def obj_value_def)
  then obtain s where s: "obj_run v0 xs no_objects = Some s" "oinv s" "obj_values s = m"
    using obj_run_ok [OF start(1), of v0 xs m] assms by auto
  have "o_heap s d = None \<or> (\<exists>h. m h = o_heap s d \<and> o_detail s h = Some d)" for d
  proof (cases "o_heap s d = None")
    case False
    then obtain h where h: "o_detail s h = Some d" using oinv_own [OF s(2)] by blast
    then have "m h = o_heap s d" using s(3) by (auto simp: obj_values_def obj_value_def)
    with h show ?thesis by blast
  qed simp
  then show ?thesis using s by blast
qed

end
