(* ===== verification/Tune.thy ===== *)
theory Tune
  imports TunePolicy ValueObjects
begin

text \<open>
  The search \<^verbatim>\<open>tuneOne\<close> of src/tune.cpp over a list of candidate parameters, and the
  public policy object of include/clogs/tune.h.
  A rate is an element of a linear order with a least element, which stands for the
  \<^verbatim>\<open>double\<close> values other than NaN; NaN is \<open>None\<close>. The callback and the creation of
  contexts are parameters over a state \<open>'w\<close> (devices, timers, other results).
  Shown: the search ends, never reaches its \<^verbatim>\<open>abort\<close>, returns one of the candidates,
  and agrees with a declarative description of the best one; the policy object is a value.
\<close>

section \<open>The search\<close>

text \<open>
  What the search depends on: \<^verbatim>\<open>contextForDevice\<close>, the callback (context, problem size,
  parameters) with its pair of rates, the multiplication by \<^verbatim>\<open>ratio\<close>, and the formatting.
\<close>

record ('c, 'p, 'r, 'w) tuner =
  tu_context :: "'w \<Rightarrow> 'c result \<times> 'w"
  tu_callback :: "'c \<Rightarrow> nat \<Rightarrow> 'p \<Rightarrow> 'w \<Rightarrow> ('r option \<times> 'r option) result \<times> 'w"
  tu_ratio :: "'r \<Rightarrow> 'r"
  tu_show :: "'r \<Rightarrow> string"

text \<open>The search may return, throw, or end the process (a failed assertion or \<^verbatim>\<open>abort\<close>).\<close>

datatype 'a ending = Returns 'a | Throws exn | Aborts

text \<open>The body of the \<^verbatim>\<open>try\<close> block: a fresh context, then the callback.\<close>

definition tune_try ::
  "('c, 'p, 'r, 'w) tuner \<Rightarrow> nat \<Rightarrow> 'p \<Rightarrow> 'w tstate \<Rightarrow> ('r option \<times> 'r option) result \<times> 'w tstate" where
  "tune_try T n p st = (case tu_context T (world st) of
       (Inl e, w) \<Rightarrow> (Inl e, st\<lparr>world := w\<rparr>)
     | (Inr c, w) \<Rightarrow> (case tu_callback T c n p w of (r, w') \<Rightarrow> (r, st\<lparr>world := w'\<rparr>)))"

text \<open>
  The loop over the candidates. \<open>good\<close> holds \<^verbatim>\<open>retained2\<close> and \<^verbatim>\<open>results\<close>,
  which grow together.
\<close>

fun tune_tests ::
  "tune_policy \<Rightarrow> ('c, 'p, 'r::{linorder, order_bot}, 'w) tuner \<Rightarrow> nat \<Rightarrow> 'p list
    \<Rightarrow> ('p \<times> 'r \<times> 'r) list \<Rightarrow> 'r \<Rightarrow> 'w tstate
    \<Rightarrow> (('p \<times> 'r \<times> 'r) list \<times> 'r) ending \<times> 'w tstate" where
  "tune_tests P T n [] good maxA st = (Returns (good, maxA), st)"
| "tune_tests P T n (p # ps) good maxA st =
     (case tune_try T n p (logStartTest P st) of
        (Inr (Some a, b), st1) \<Rightarrow>
          (case b of
             None \<Rightarrow> (Aborts, st1)
           | Some b' \<Rightarrow>
               if \<not> a \<le> b' then (Aborts, st1)
               else tune_tests P T n ps (good @ [(p, a, b')]) (if maxA < a then a else maxA)
                      (logEndTest P (tu_show T) (Some a) st1))
      | (Inr (None, b), st1) \<Rightarrow> tune_tests P T n ps good maxA (logEndTest P (tu_show T) None st1)
      | (Inl e, st1) \<Rightarrow>
          if is_internal e \<or> is_cl_error e
          then tune_tests P T n ps good maxA (logEndTest P (tu_show T) None st1)
          else (Throws e, st1))"

fun tune_passes ::
  "tune_policy \<Rightarrow> ('c, 'p, 'r::{linorder, order_bot}, 'w) tuner \<Rightarrow> 'p list \<Rightarrow> nat list \<Rightarrow> 'w tstate
    \<Rightarrow> 'p ending \<times> 'w tstate" where
  "tune_passes P T retained [] st = (Aborts, st)"
| "tune_passes P T retained (n # ns) st =
     (case tune_tests P T n retained [] bot (logStartGroup P st) of
        (Throws e, st1) \<Rightarrow> (Throws e, st1)
      | (Aborts, st1) \<Rightarrow> (Aborts, st1)
      | (Returns (good, maxA), st1) \<Rightarrow>
          if good = [] then (Throws (TuneError ''no suitable kernel found''), st1)
          else let st2 = logEndGroup P st1
          in if ns \<noteq> []
             then tune_passes P T (map fst (filter (\<lambda>(p, a, b). tu_ratio T maxA \<le> a) good)) ns st2
             else (case find (\<lambda>(p, a, b). maxA \<le> b) good of
                 Some (p, a, b) \<Rightarrow> (Returns p, st2)
               | None \<Rightarrow> (Aborts, st2)))"

definition tuneOne ::
  "tune_policy \<Rightarrow> ('c, 'p, 'r::{linorder, order_bot}, 'w) tuner \<Rightarrow> 'p list \<Rightarrow> nat list \<Rightarrow> 'w tstate
    \<Rightarrow> 'p ending \<times> 'w tstate" where
  "tuneOne P T parameterSets problemSizes st = (case assertEnabled P of
       Inl e \<Rightarrow> (Throws e, st) | Inr _ \<Rightarrow> tune_passes P T parameterSets problemSizes st)"

section \<open>The search always ends with a candidate or an exception\<close>

text \<open>A candidate for which the callback has given a rate at a problem size.\<close>

definition ran :: "('c, 'p, 'r, 'w) tuner \<Rightarrow> nat \<Rightarrow> 'p \<Rightarrow> bool" where
  "ran T n p \<longleftrightarrow> (\<exists>c w a b w'. tu_callback T c n p w = (Inr (Some a, b), w'))"

lemma tune_try_ran: "tune_try T n p st = (Inr (Some a, b), st') \<Longrightarrow> ran T n p"
  unfolding ran_def tune_try_def by (auto split: prod.splits sum.splits) blast

text \<open>The contract of a callback: a rate comes with a bound that is not below it.\<close>

locale rated =
  fixes T :: "('c, 'p, 'r::{linorder, order_bot}, 'w) tuner"
  assumes rate_le: "tu_callback T c n p w = (Inr (Some a, b), w') \<Longrightarrow> \<exists>b'. b = Some b' \<and> a \<le> b'"
begin

definition good_inv :: "nat \<Rightarrow> ('p \<times> 'r \<times> 'r) list \<Rightarrow> 'r \<Rightarrow> bool" where
  "good_inv n good maxA \<longleftrightarrow>
     (\<forall>x\<in>set good. fst (snd x) \<le> snd (snd x) \<and> fst (snd x) \<le> maxA \<and> ran T n (fst x))
     \<and> (maxA = bot \<or> maxA \<in> fst ` snd ` set good)"

lemma try_le: "tune_try T n p st = (Inr (Some a, b), st') \<Longrightarrow> \<exists>b'. b = Some b' \<and> a \<le> b'"
  using rate_le by (auto simp: tune_try_def split: prod.splits sum.splits)

lemma good_inv_step:
  "good_inv n good maxA \<Longrightarrow> a \<le> b \<Longrightarrow> ran T n p
   \<Longrightarrow> good_inv n (good @ [(p, a, b)]) (if maxA < a then a else maxA)"
  unfolding good_inv_def by auto

definition tests_ok :: "nat \<Rightarrow> 'p list \<Rightarrow> (('p \<times> 'r \<times> 'r) list \<times> 'r) ending \<Rightarrow> bool" where
  "tests_ok n ps r \<longleftrightarrow> (case r of
       Returns (good, maxA) \<Rightarrow> good_inv n good maxA \<and> fst ` set good \<subseteq> set ps
     | Throws e \<Rightarrow> \<not> is_internal e \<and> \<not> is_cl_error e
     | Aborts \<Rightarrow> False)"

lemma tests_ok_mono: "tests_ok n qs r \<Longrightarrow> set qs \<subseteq> set ps \<Longrightarrow> tests_ok n ps r"
  by (cases r) (auto simp: tests_ok_def)

lemma tests_end:
  "tune_tests P T n ps good maxA st = (r, st') \<Longrightarrow> good_inv n good maxA
   \<Longrightarrow> tests_ok n (map fst good @ ps) r"
proof (induction ps arbitrary: good maxA st)
  case Nil
  then show ?case by (auto simp: tests_ok_def)
next
  case (Cons p ps)
  obtain x st1 where t: "tune_try T n p (logStartTest P st) = (x, st1)"
    by (cases "tune_try T n p (logStartTest P st)")
  have mono: "tests_ok n (map fst g @ ps) r \<Longrightarrow> set (map fst g) \<subseteq> set (map fst good) \<union> {p}
      \<Longrightarrow> tests_ok n (map fst good @ p # ps) r" for g
    by (erule tests_ok_mono) auto
  show ?case
  proof (cases x)
    case (Inl e)
    then show ?thesis
      using Cons.prems Cons.IH [of good maxA] t mono [of good]
      by (auto simp: tests_ok_def split: if_splits)
  next
    case (Inr ab)
    obtain a b where ab: "ab = (a, b)" by fastforce
    show ?thesis
    proof (cases a)
      case None
      then show ?thesis using Cons.prems Cons.IH [of good maxA] t mono [of good] Inr ab by auto
    next
      case (Some a')
      then obtain b' where b: "b = Some b'" "a' \<le> b'" using try_le t Inr ab by blast
      have "tests_ok n (map fst (good @ [(p, a', b')]) @ ps) r"
        using Cons.prems(1) t Inr ab Some b
        tune_try_ran [OF t [unfolded Inr ab Some]]
        by (intro Cons.IH [OF _ good_inv_step [OF Cons.prems(2) b(2)]]) simp_all
      then show ?thesis by (rule mono) auto
    qed
  qed
qed

definition search_ok :: "nat \<Rightarrow> 'p list \<Rightarrow> 'p ending \<Rightarrow> bool" where
  "search_ok n ps r \<longleftrightarrow> (case r of
       Returns p \<Rightarrow> p \<in> set ps \<and> ran T n p
     | Throws e \<Rightarrow> e = TuneError ''no suitable kernel found'' \<or> \<not> is_internal e \<and> \<not> is_cl_error e
     | Aborts \<Rightarrow> False)"

lemma search_ok_mono: "search_ok n qs r \<Longrightarrow> set qs \<subseteq> set ps \<Longrightarrow> search_ok n ps r"
  by (cases r) (auto simp: search_ok_def)

lemma final_found:
  assumes "good_inv n good maxA" "good \<noteq> []"
  shows "\<exists>x. find (\<lambda>(p, a, b). maxA \<le> b) good = Some x"
proof -
  have "\<exists>x\<in>set good. maxA \<le> snd (snd x)"
  proof (cases "maxA = bot")
    case True
    then show ?thesis using assms(2) by (cases good) auto
  next
    case False
    then obtain x where "x \<in> set good" "maxA = fst (snd x)" using assms(1) by (auto simp: good_inv_def)
    then show ?thesis using assms(1) by (auto simp: good_inv_def)
  qed
  then have "find (\<lambda>(p, a, b). maxA \<le> b) good \<noteq> None" unfolding find_None_iff by (simp add: split_beta) (metis prod.collapse)
  then show ?thesis by simp
qed

lemma passes_end:
  "ns \<noteq> [] \<Longrightarrow> tune_passes P T ps ns st = (r, st') \<Longrightarrow> search_ok (last ns) ps r"
proof (induction ns arbitrary: ps st)
  case (Cons n ns)
  obtain x st1 where t: "tune_tests P T n ps [] bot (logStartGroup P st) = (x, st1)"
    by (cases "tune_tests P T n ps [] bot (logStartGroup P st)")
  have x: "tests_ok n ps x" using tests_end [OF t] by (simp add: good_inv_def)
  show ?case
  proof (cases x)
    case (Returns gm)
    obtain good maxA where gm: "gm = (good, maxA)" by fastforce
    have g: "good_inv n good maxA" "fst ` set good \<subseteq> set ps" using x Returns gm by (simp_all add: tests_ok_def)
    show ?thesis
    proof (cases "good = []")
      case True
      then show ?thesis using Cons.prems t Returns gm by (auto simp: search_ok_def)
    next
      case False
      show ?thesis
      proof (cases "ns = []")
        case True
        obtain q where q: "find (\<lambda>(p, a, b). maxA \<le> b) good = Some q" using final_found [OF g(1) False] by blast
        then have "q \<in> set good" by (metis (lifting) find_Some_iff nth_mem)
        moreover have "r = Returns (fst q)"
          using Cons.prems(2) t Returns gm False True q by (auto split: prod.splits)
        ultimately show ?thesis using g True by (auto simp: search_ok_def good_inv_def)
      next
        case nonempty: False
        let ?qs = "map fst (filter (\<lambda>(p, a, b). tu_ratio T maxA \<le> a) good)"
        have "search_ok (last ns) ?qs r"
          using Cons.prems(2) t Returns gm False nonempty by (intro Cons.IH [OF nonempty]) auto
        then show ?thesis using search_ok_mono [of _ ?qs r ps] g(2) nonempty by auto
      qed
    qed
  next
    case (Throws e)
    then show ?thesis using Cons.prems t x by (auto simp: search_ok_def tests_ok_def)
  next
    case Aborts
    then show ?thesis using x by (simp add: tests_ok_def)
  qed
qed simp

lemma tuneOne_end:
  assumes "problemSizes \<noteq> []" and "tuneOne P T params problemSizes st = (r, st')"
  shows "case r of
      Returns p \<Rightarrow> tp_enabled P \<and> p \<in> set params \<and> ran T (last problemSizes) p
    | Throws e \<Rightarrow> (if tp_enabled P then e = TuneError ''no suitable kernel found'' \<or> \<not> is_internal e \<and> \<not> is_cl_error e
        else e = CacheError ''no cache entry found and tuning is disabled'' \<and> st' = st)
    | Aborts \<Rightarrow> False"
  using assms passes_end [OF assms(1), of P params st r st']
  by (auto simp: tuneOne_def assertEnabled_def search_ok_def split: if_splits ending.splits)

end

section \<open>The search succeeds when the tests do\<close>

text \<open>Every test of the candidates at the problem sizes gives a rate.\<close>

definition runs :: "('c, 'p, 'r, 'w) tuner \<Rightarrow> nat list \<Rightarrow> 'p list \<Rightarrow> bool" where
  "runs T ns ps \<longleftrightarrow> (\<forall>n\<in>set ns. \<forall>p\<in>set ps. \<forall>w. \<exists>c w1 a b w2. tu_context T w = (Inr c, w1)
     \<and> tu_callback T c n p w1 = (Inr (Some a, b), w2))"

lemma runs_mono: "runs T ns ps \<Longrightarrow> set ms \<subseteq> set ns \<Longrightarrow> set qs \<subseteq> set ps \<Longrightarrow> runs T ms qs"
  unfolding runs_def by blast

context rated
begin

lemma runs_tests:
  "runs T [n] ps \<Longrightarrow> ps \<noteq> [] \<or> good \<noteq> []
   \<Longrightarrow> \<exists>good' m' st'. tune_tests P T n ps good m st = (Returns (good', m'), st') \<and> good' \<noteq> []"
proof (induction ps arbitrary: good m st)
  case (Cons p ps)
  obtain c w1 a b w2 where "tu_context T (world (logStartTest P st)) = (Inr c, w1)"
    "tu_callback T c n p w1 = (Inr (Some a, b), w2)"
    using Cons.prems(1) unfolding runs_def by fastforce
  then obtain st1 where t: "tune_try T n p (logStartTest P st) = (Inr (Some a, b), st1)"
    by (simp add: tune_try_def)
  from try_le [OF t] obtain b' where b: "b = Some b'" "a \<le> b'" by blast
  have "runs T [n] ps" using Cons.prems(1) by (rule runs_mono) auto
  from Cons.IH [OF this, of "good @ [(p, a, b')]"] t b show ?case by simp
qed simp

lemma runs_passes:
  assumes ratio: "\<And>r. tu_ratio T r \<le> r"
  shows "ns \<noteq> [] \<Longrightarrow> ps \<noteq> [] \<Longrightarrow> runs T ns ps \<Longrightarrow> \<exists>p st'. tune_passes P T ps ns st = (Returns p, st')"
proof (induction ns arbitrary: ps st)
  case (Cons n ns)
  have "runs T [n] ps" using Cons.prems(3) by (rule runs_mono) auto
  from runs_tests [OF this, of "[]" P bot "logStartGroup P st"] Cons.prems(2)
  obtain good m st1 where t: "tune_tests P T n ps [] bot (logStartGroup P st) = (Returns (good, m), st1)"
    and g: "good \<noteq> []" by auto
  have inv: "good_inv n good m" "fst ` set good \<subseteq> set ps"
    using tests_end [OF t] by (simp_all add: good_inv_def tests_ok_def)
  show ?case
  proof (cases "ns = []")
    case True
    then show ?thesis using t g final_found [OF inv(1) g] by (auto split: prod.splits)
  next
    case False
    let ?qs = "map fst (filter (\<lambda>(p, a, b). tu_ratio T m \<le> a) good)"
    have "\<exists>x\<in>set good. tu_ratio T m \<le> fst (snd x)"
    proof (cases "m = bot")
      case True
      then have "tu_ratio T m \<le> a" for a using ratio [of m] by (simp add: bot_unique)
      then show ?thesis using g by (cases good) auto
    next
      case f: False
      then show ?thesis using inv(1) ratio unfolding good_inv_def by (metis imageE)
    qed
    then have "?qs \<noteq> []" by (auto simp: filter_empty_conv split_beta)
    moreover have "runs T ns ?qs" using Cons.prems(3) by (rule runs_mono) (use inv(2) in auto)
    ultimately obtain p st' where "tune_passes P T ?qs ns (logEndGroup P st1) = (Returns p, st')"
      using Cons.IH [OF False] by blast
    then show ?thesis using t g False by (auto simp del: filter_map)
  qed
qed simp

lemma runs_tuneOne:
  assumes "\<And>r. tu_ratio T r \<le> r" "ns \<noteq> []" "ps \<noteq> []" "runs T ns ps" "tp_enabled P"
  shows "\<exists>p st'. tuneOne P T ps ns st = (Returns p, st') \<and> p \<in> set ps"
proof -
  obtain p st' where r: "tuneOne P T ps ns st = (Returns p, st')"
    using runs_passes [OF assms(1-4), of P st] assms(5) by (auto simp: tuneOne_def assertEnabled_def)
  then show ?thesis using tuneOne_end [OF assms(2) r] by auto
qed

end

section \<open>The search agrees with a reference\<close>

text \<open>
  When the rates do not depend on the state, the search is a function of them: \<open>timed\<close> are the
  candidates that run at a problem size, and \<open>tune_ref\<close> chooses the first whose bound reaches
  the largest rate of all, after dropping the slow ones at the smaller sizes.
\<close>

definition timed :: "(nat \<Rightarrow> 'p \<Rightarrow> ('r option \<times> 'r option) result) \<Rightarrow> nat \<Rightarrow> 'p list \<Rightarrow> ('p \<times> 'r \<times> 'r) list" where
  "timed f n ps = List.map_filter
     (\<lambda>p. case f n p of Inr (Some a, Some b) \<Rightarrow> Some (p, a, b) | _ \<Rightarrow> None) ps"

fun tune_ref ::
  "(nat \<Rightarrow> 'p \<Rightarrow> ('r::linorder option \<times> 'r option) result) \<Rightarrow> ('r \<Rightarrow> 'r) \<Rightarrow> 'p list \<Rightarrow> nat list \<Rightarrow> 'p option" where
  "tune_ref f ratio ps [] = None"
| "tune_ref f ratio ps (n # ns) =
     (let good = timed f n ps; best = Max (set (map (fst \<circ> snd) good))
      in if good = [] then None
         else if ns \<noteq> [] then tune_ref f ratio (map fst (filter (\<lambda>(p, a, b). ratio best \<le> a) good)) ns
         else map_option fst (find (\<lambda>(p, a, b). best \<le> b) good))"

text \<open>The rates of a tuner are given by \<open>f\<close>, and nothing but the errors it may catch is thrown.\<close>

definition fixed_rates ::
  "('c, 'p, 'r, 'w) tuner \<Rightarrow> (nat \<Rightarrow> 'p \<Rightarrow> ('r option \<times> 'r option) result) \<Rightarrow> bool" where
  "fixed_rates T f \<longleftrightarrow> (\<forall>w. case fst (tu_context T w) of Inl e \<Rightarrow> False | Inr c \<Rightarrow> True)
     \<and> (\<forall>c n p w. fst (tu_callback T c n p w) = f n p)
     \<and> (\<forall>n p. case f n p of Inl e \<Rightarrow> is_internal e \<or> is_cl_error e | Inr r \<Rightarrow> True)"

lemma fixed_ratesD:
  assumes "fixed_rates T f"
  shows "fst (tune_try T n p st) = f n p" "f n p = Inl e \<Longrightarrow> is_internal e \<or> is_cl_error e"
  using assms unfolding fixed_rates_def
  by (auto simp: tune_try_def split: prod.splits sum.splits) (metis fst_conv)+

lemma max_if: "(if m < a then a else m) = max a m" for a m :: "'r::linorder"
  by (auto simp: max_def)

lemma fold_max_bot: "xs \<noteq> [] \<Longrightarrow> fold max xs bot = Max (set xs)" for xs :: "'r::{linorder, order_bot} list"
  by (cases xs) (simp_all add: Max.set_eq_fold [symmetric] max_absorb1)

lemma timed_Cons:
  "timed f n (p # ps) = (case f n p of Inr (Some a, Some b) \<Rightarrow> (p, a, b) # timed f n ps | _ \<Rightarrow> timed f n ps)"
  by (simp add: timed_def map_filter_simps split: sum.split prod.split option.split)

context rated
begin

lemma tests_ref:
  assumes f: "fixed_rates T f"
  shows "\<exists>st'. tune_tests P T n ps good maxA st
    = (Returns (good @ timed f n ps, fold max (map (fst \<circ> snd) (timed f n ps)) maxA), st')"
proof (induction ps arbitrary: good maxA st)
  case Nil
  then show ?case by (simp add: timed_def map_filter_simps)
next
  case (Cons p ps)
  obtain x st1 where t: "tune_try T n p (logStartTest P st) = (x, st1)"
    by (cases "tune_try T n p (logStartTest P st)")
  have x: "x = f n p" using fixed_ratesD(1) [OF f, of n p "logStartTest P st"] t by simp
  show ?case
  proof (cases x)
    case (Inl e)
    then have "is_internal e \<or> is_cl_error e" using fixed_ratesD(2) [OF f, of n p e] x by simp
    then show ?thesis using Cons.IH [of good maxA "logEndTest P (tu_show T) None st1"] t Inl x
      by (simp add: timed_Cons)
  next
    case (Inr ab)
    obtain a b where ab: "ab = (a, b)" by fastforce
    show ?thesis
    proof (cases a)
      case None
      then show ?thesis using Cons.IH [of good maxA "logEndTest P (tu_show T) None st1"] t Inr ab x
        by (simp add: timed_Cons)
    next
      case (Some a')
      then obtain b' where b: "b = Some b'" "a' \<le> b'" using try_le t Inr ab by blast
      have fx: "f n p = Inr (Some a', Some b')" using x Inr ab Some b by simp
      show ?thesis
        using Cons.IH [of "good @ [(p, a', b')]" "max a' maxA" "logEndTest P (tu_show T) (Some a') st1"]
          t Inr ab Some b fx
        by (simp add: timed_Cons max_if)
    qed
  qed
qed

definition search_result :: "'p option \<Rightarrow> 'p ending" where
  "search_result r = (case r of Some p \<Rightarrow> Returns p | None \<Rightarrow> Throws (TuneError ''no suitable kernel found''))"

lemma passes_ref:
  assumes f: "fixed_rates T f"
  shows "ns \<noteq> [] \<Longrightarrow> fst (tune_passes P T ps ns st) = search_result (tune_ref f (tu_ratio T) ps ns)"
proof (induction ns arbitrary: ps st)
  case (Cons n ns)
  let ?good = "timed f n ps"
  obtain st1 where t: "tune_tests P T n ps [] bot (logStartGroup P st)
      = (Returns (?good, fold max (map (fst \<circ> snd) ?good) bot), st1)"
    using tests_ref [OF f, of P n ps "[]" bot "logStartGroup P st"] by auto
  have inv: "good_inv n ?good (fold max (map (fst \<circ> snd) ?good) bot)"
    using tests_end [OF t] by (simp add: good_inv_def tests_ok_def)
  show ?case
  proof (cases "?good = []")
    case True
    then show ?thesis using t by (simp add: search_result_def)
  next
    case False
    define best where "best = Max (set (map (fst \<circ> snd) ?good))"
    have m: "fold max (map (fst \<circ> snd) ?good) bot = best"
      unfolding best_def using False by (intro fold_max_bot) simp
    note t' = t [unfolded m]
    have ref: "tune_ref f (tu_ratio T) ps (n # ns) =
        (if ns \<noteq> [] then tune_ref f (tu_ratio T) (map fst (filter (\<lambda>(p, a, b). tu_ratio T best \<le> a) ?good)) ns
         else map_option fst (find (\<lambda>(p, a, b). best \<le> b) ?good))"
      by (simp only: tune_ref.simps Let_def best_def False if_False)
    show ?thesis
    proof (cases "ns = []")
      case True
      obtain q1 q2 q3 where "find (\<lambda>(p, a, b). best \<le> b) ?good = Some (q1, q2, q3)"
        using final_found [OF inv False] m by (metis prod_cases3)
      then show ?thesis using t' False True by (simp add: search_result_def ref [unfolded True] del: tune_ref.simps)
    next
      case nonempty: False
      then show ?thesis using t' False Cons.IH [OF nonempty] by (simp add: ref del: tune_ref.simps)
    qed
  qed
qed simp

lemma tuneOne_ref:
  assumes "fixed_rates T f" "tp_enabled P" "problemSizes \<noteq> []"
  shows "fst (tuneOne P T params problemSizes st)
    = (case tune_ref f (tu_ratio T) params problemSizes of
         Some p \<Rightarrow> Returns p | None \<Rightarrow> Throws (TuneError ''no suitable kernel found''))"
  using passes_ref [OF assms(1,3)] assms(2) by (simp add: tuneOne_def assertEnabled_def search_result_def)

end

section \<open>Policy objects\<close>

text \<open>The operations of the public class on the objects of a program.\<close>

datatype policy_op =
    PolNew nat
  | PolCopy nat nat
  | PolAssign nat nat
  | PolDelete nat
  | PolSetEnabled nat bool
  | PolSetVerbosity nat nat
  | PolSetOutput nat nat

fun policy_vop :: "policy_op \<Rightarrow> tune_policy vop" where
  "policy_vop (PolNew h) = VNew h"
| "policy_vop (PolCopy h g) = VCopy h g"
| "policy_vop (PolAssign h g) = VAssign h g"
| "policy_vop (PolDelete h) = VDelete h"
| "policy_vop (PolSetEnabled h e) = VUpdate h (setEnabled e)"
| "policy_vop (PolSetVerbosity h v) = VUpdate h (setVerbosity v)"
| "policy_vop (PolSetOutput h o') = VUpdate h (setOutput o')"

definition policy_run :: "policy_op list \<Rightarrow> tune_policy objects \<Rightarrow> tune_policy objects option" where
  "policy_run xs = obj_run TunePolicy_new (map policy_vop xs)"

section \<open>The properties\<close>

text \<open>
  A tuner to evaluate the properties on: candidates are numbers, the rate is the candidate up to
  a limit, the third one fails, and the state counts the calls.
\<close>

definition demo_tuner :: "(unit, nat, nat, nat) tuner" where
  "demo_tuner = \<lparr>tu_context = (\<lambda>w. (Inr (), w)),
     tu_callback = (\<lambda>c n p w. (if p = 3 then Inl (InternalError ''no'') else Inr (Some (min p n), Some (min p n)), Suc w)),
     tu_ratio = (\<lambda>r. r div 2), tu_show = (\<lambda>r. ''rate'')\<rparr>"

definition demo_start :: "nat tstate" where
  "demo_start = \<lparr>world = 0, written = (\<lambda>_. [])\<rparr>"

lemma demo_rated: "rated demo_tuner"
  by unfold_locales (auto simp: demo_tuner_def split: if_splits)

text \<open>
  C24. The search for parameters is total: with at least one problem size and a callback whose
  bounds are not below its rates, it never reaches the \<^verbatim>\<open>abort\<close> at its end nor fails
  its assertion. It returns one of the candidates, one that ran at the last problem size; or it throws, when tuning is disabled (and then
  nothing has been run or written), when no candidate works, or when the callback throws
  something other than the two classes of errors that it may throw.
\<close>

theorem tuneOne_total:
  assumes "rated T" and "problemSizes \<noteq> []"
    and "tuneOne P T params problemSizes st = (r, st')"
  shows "case r of
      Returns p \<Rightarrow> tp_enabled P \<and> p \<in> set params \<and> ran T (last problemSizes) p
    | Throws e \<Rightarrow> (if tp_enabled P then e = TuneError ''no suitable kernel found'' \<or> \<not> is_internal e \<and> \<not> is_cl_error e
        else e = CacheError ''no cache entry found and tuning is disabled'' \<and> st' = st)
    | Aborts \<Rightarrow> False"
  using rated.tuneOne_end [OF assms] .

theorem tuneOne_total_witness:
  "\<exists>st'. tuneOne (setVerbosity TUNE_VERBOSITY_DEBUG TunePolicy_new) demo_tuner [2, 3, 5, 7] [4, 6] demo_start
      = (Returns 7, st') \<and> tp_enabled (setVerbosity TUNE_VERBOSITY_DEBUG TunePolicy_new)
      \<and> (7 :: nat) \<in> set [2, 3, 5, 7] \<and> ran demo_tuner 6 7"
proof -
  let ?P = "setVerbosity TUNE_VERBOSITY_DEBUG TunePolicy_new"
  obtain r st' where run: "tuneOne ?P demo_tuner [2, 3, 5, 7] [4, 6] demo_start = (r, st')"
    by (cases "tuneOne ?P demo_tuner [2, 3, 5, 7] [4, 6] demo_start")
  have "fst (tuneOne ?P demo_tuner [2, 3, 5, 7] [4, 6] demo_start) = Returns 7" by code_simp
  then have "r = Returns 7" using run by simp
  then show ?thesis using tuneOne_total [OF demo_rated _ run] run by simp
qed

text \<open>
  C10. The search returns the best candidate: when the rates do not depend on the state of the
  machine, its result is that of the reference \<open>tune_ref\<close>, which keeps the candidates whose rate
  is at least \<^verbatim>\<open>ratio\<close> times the largest one at every smaller problem size and then takes
  the first whose bound reaches the largest rate at the last size.
\<close>

theorem tuneOne_best:
  assumes "rated T" and "fixed_rates T f" and "tp_enabled P" and "problemSizes \<noteq> []"
  shows "fst (tuneOne P T params problemSizes st)
    = (case tune_ref f (tu_ratio T) params problemSizes of
         Some p \<Rightarrow> Returns p | None \<Rightarrow> Throws (TuneError ''no suitable kernel found''))"
  using rated.tuneOne_ref [OF assms] .

theorem tuneOne_best_witness:
  "fst (tuneOne TunePolicy_new demo_tuner [2, 3, 5, 7] [4, 6] demo_start) = Returns 7
   \<and> fst (tuneOne TunePolicy_new demo_tuner [3] [4, 6] demo_start) = Throws (TuneError ''no suitable kernel found'')"
proof -
  let ?f = "\<lambda>n p. if p = 3 then Inl (InternalError ''no'') else Inr (Some (min p n), Some (min p n))"
  have f: "fixed_rates demo_tuner ?f" by (auto simp: fixed_rates_def demo_tuner_def)
  have e: "tp_enabled TunePolicy_new" by (simp add: TunePolicy_new_def)
  have "tune_ref ?f (tu_ratio demo_tuner) [2, 3, 5, 7] [4, 6] = Some 7"
    "tune_ref ?f (tu_ratio demo_tuner) [3] [4, 6] = None"
    by (simp_all add: timed_Cons timed_def map_filter_simps demo_tuner_def)
  then show ?thesis using tuneOne_best [OF demo_rated f e, of "[4, 6]"] by simp
qed

text \<open>
  C35. Public policy objects behave as plain values: every sequence of constructions, copies,
  assignments (also to itself), updates and destructions that respects lifetimes runs without
  touching a dead pointer, and the policies of the objects are those that the same operations give
  on values; when all objects are gone no policy is left on the heap.
\<close>

theorem policy_objects_are_values:
  assumes "value_run TunePolicy_new (map policy_vop xs) (\<lambda>_. None) = Some m"
  shows "\<exists>s. policy_run xs no_objects = Some s \<and> obj_values s = m
    \<and> (\<forall>d. o_heap s d = None \<or> (\<exists>h. m h = o_heap s d \<and> o_detail s h = Some d))"
  unfolding policy_run_def by (rule objects_are_values [OF assms])

theorem policy_objects_are_values_witness:
  "\<exists>s m. policy_run [PolNew 1, PolSetEnabled 1 False, PolCopy 2 1, PolSetVerbosity 2 3, PolAssign 1 1,
        PolNew 3, PolAssign 3 2, PolDelete 2] no_objects = Some s
     \<and> obj_values s = m \<and> m 1 = Some \<lparr>tp_enabled = False, tp_verbosity = 2, tp_out = 0\<rparr> \<and> m 2 = None
     \<and> m 3 = Some \<lparr>tp_enabled = False, tp_verbosity = 3, tp_out = 0\<rparr>"
proof -
  let ?xs = "[PolNew 1, PolSetEnabled 1 False, PolCopy 2 1, PolSetVerbosity 2 3, PolAssign 1 1,
        PolNew 3, PolAssign 3 2, PolDelete 2]"
  obtain m where m: "value_run TunePolicy_new (map policy_vop ?xs) (\<lambda>_. None) = Some m"
    "m 1 = Some \<lparr>tp_enabled = False, tp_verbosity = 2, tp_out = 0\<rparr>" "m 2 = None"
    "m 3 = Some \<lparr>tp_enabled = False, tp_verbosity = 3, tp_out = 0\<rparr>"
    by (simp add: TunePolicy_new_def setEnabled_def setVerbosity_def TUNE_VERBOSITY_NORMAL_def)
  show ?thesis using policy_objects_are_values [OF m(1)] m(2-4) by blast
qed

end
