(* ===== verification/CacheTypes.thy ===== *)
theory CacheTypes
  imports CoreTypes
begin

text \<open>
  The structures of src/cache_types.h that the tuning cache stores: the device key, and the keys
  and values of the four tables, with \<^verbatim>\<open>deviceKey\<close> of src/cache_types.cpp. Sizes are
  \<^verbatim>\<open>size_t\<close> or \<^verbatim>\<open>unsigned int\<close> values, read as naturals.
\<close>

record device_key =
  platformName :: string
  deviceName :: string
  deviceVendorId :: nat
  driverVersion :: string

record kernel_key =
  kk_device :: device_key
  kk_header :: string
  kk_checksum :: string

record kernel_value =
  kv_binary :: "nat list"

record scan_key =
  sk_device :: device_key
  sk_elementType :: string

record scan_value =
  s_warpSizeMem :: nat
  s_warpSizeSchedule :: nat
  s_reduceWorkGroupSize :: nat
  s_scanWorkGroupSize :: nat
  s_scanWorkScale :: nat
  s_scanBlocks :: nat

record reduce_key =
  rk_device :: device_key
  rk_elementType :: string

record reduce_value =
  r_reduceWorkGroupSize :: nat
  r_reduceBlocks :: nat

record radix_key =
  xk_device :: device_key
  xk_keyType :: string
  xk_valueSize :: nat

record radix_value =
  x_warpSizeMem :: nat
  x_warpSizeSchedule :: nat
  x_reduceWorkGroupSize :: nat
  x_scanWorkGroupSize :: nat
  x_scatterWorkGroupSize :: nat
  x_scatterWorkScale :: nat
  x_scanBlocks :: nat
  x_radixBits :: nat

definition deviceKey :: "device \<Rightarrow> device_key" where
  "deviceKey d = \<lparr>platformName = platform_name d, deviceName = device_name d,
     deviceVendorId = vendor_id d, driverVersion = driver_version d\<rparr>"

end
