(* ===== verification/Reflect.thy ===== *)
theory Reflect
  imports CacheTypes
begin

text \<open>
  The reflection layer of src/parameters.h and src/parameters.cpp, and the structures that
  src/cache_types.cpp declares with it. A structure is bound field by field to the slots of a
  prepared SQLite statement, read back column by column, described by the names and the types of
  its columns, and ordered lexicographically. SQLite itself is a parameter: the record
  \<open>sqlite\<close> holds the entry points that the sources call, over a state \<open>'db\<close> of the
  library. The locale \<open>reflected\<close> is the contract that the tables of the cache rely on;
  every structure is an interpretation of it.
\<close>

section \<open>SQLite as the sources use it\<close>

datatype cell = CNull | CInt int | CText string | CBlob "nat list"

definition SQLITE_OK :: int where "SQLITE_OK = 0"
definition SQLITE_ROW :: int where "SQLITE_ROW = 100"
definition SQLITE_DONE :: int where "SQLITE_DONE = 101"

text \<open>
  Statements and connections are handles (\<open>None\<close> is the null pointer).
  \<open>sqlite3_column\<close> stands for the functions that read the current row.
\<close>

record 'db sqlite =
  sqlite3_open :: "string \<Rightarrow> 'db \<Rightarrow> int \<times> nat option \<times> 'db"
  sqlite3_close :: "nat \<Rightarrow> 'db \<Rightarrow> int \<times> 'db"
  sqlite3_exec :: "nat option \<Rightarrow> string \<Rightarrow> 'db \<Rightarrow> int \<times> string option \<times> 'db"
  sqlite3_prepare :: "nat option \<Rightarrow> string \<Rightarrow> 'db \<Rightarrow> int \<times> nat option \<times> 'db"
  sqlite3_bind :: "nat option \<Rightarrow> nat \<Rightarrow> cell \<Rightarrow> 'db \<Rightarrow> int \<times> 'db"
  sqlite3_reset :: "nat option \<Rightarrow> 'db \<Rightarrow> int \<times> 'db"
  sqlite3_step :: "nat option \<Rightarrow> 'db \<Rightarrow> int \<times> 'db"
  sqlite3_finalize :: "nat \<Rightarrow> 'db \<Rightarrow> int \<times> 'db"
  sqlite3_column :: "nat option \<Rightarrow> 'db \<Rightarrow> cell list"
  sqlite3_errstr :: "int \<Rightarrow> string"

section \<open>Binding fields\<close>

text \<open>
  A call that may throw and changes the state; \<open>bind_seq\<close> is the body that
  \<^verbatim>\<open>CLOGS_BIND_FIELD\<close> expands to, one \<^verbatim>\<open>pos = bindFields(stmt, pos, s.field)\<close>
  after the other.
\<close>

type_synonym 'db bindfun = "nat \<Rightarrow> 'db \<Rightarrow> nat result \<times> 'db"

fun bind_seq :: "'db bindfun list \<Rightarrow> 'db bindfun" where
  "bind_seq [] pos db = (Inr pos, db)"
| "bind_seq (f # fs) pos db = (case f pos db of
      (Inl e, db') \<Rightarrow> (Inl e, db')
    | (Inr pos', db') \<Rightarrow> bind_seq fs pos' db')"

definition bind_cell :: "'db sqlite \<Rightarrow> nat option \<Rightarrow> cell \<Rightarrow> 'db bindfun" where
  "bind_cell Q stmt c pos db =
     (let (status, db') = sqlite3_bind Q stmt pos c db
      in if status \<noteq> SQLITE_OK then (Inl (CacheError (sqlite3_errstr Q status)), db')
         else (Inr (pos + 1), db'))"

text \<open>The conversion of an integral argument to \<^verbatim>\<open>sqlite3_int64\<close>.\<close>

definition int64 :: "nat \<Rightarrow> int" where
  "int64 v = signed_take_bit 63 (int v)"

definition bindFields_int :: "'db sqlite \<Rightarrow> nat option \<Rightarrow> nat \<Rightarrow> 'db bindfun" where
  "bindFields_int Q stmt value = bind_cell Q stmt (CInt (int64 value))"

definition bindFields_string :: "'db sqlite \<Rightarrow> nat option \<Rightarrow> string \<Rightarrow> 'db bindfun" where
  "bindFields_string Q stmt value = bind_cell Q stmt (CText value)"

text \<open>
  \<^verbatim>\<open>sqlite3_bind_blob\<close> stores NULL for a null pointer; the pointer is the data, or a dummy
  for an empty vector.
\<close>

definition blob_cell :: "nat list option \<Rightarrow> nat \<Rightarrow> cell" where
  "blob_cell p n = (case p of None \<Rightarrow> CNull | Some bytes \<Rightarrow> CBlob (take n bytes))"

definition bindFields_blob :: "'db sqlite \<Rightarrow> nat option \<Rightarrow> nat list \<Rightarrow> 'db bindfun" where
  "bindFields_blob Q stmt value =
     bind_cell Q stmt (blob_cell (Some (if value = [] then [0] else value)) (length value))"

section \<open>Reading fields\<close>

text \<open>
  The columns of the current row are a list; \<open>None\<close> is a failed \<^verbatim>\<open>assert\<close>. The
  integral overload truncates to the width of its type.
\<close>

type_synonym 'a readfun = "cell list \<Rightarrow> nat \<Rightarrow> ('a \<times> nat) option"

definition readFields_string :: "string readfun" where
  "readFields_string row pos =
     (if pos < length row then case row ! pos of CText s \<Rightarrow> Some (s, pos + 1) | _ \<Rightarrow> None else None)"

definition readFields_blob :: "nat list readfun" where
  "readFields_blob row pos =
     (if pos < length row then case row ! pos of CBlob b \<Rightarrow> Some (b, pos + 1) | _ \<Rightarrow> None else None)"

definition readFields_integral :: "nat \<Rightarrow> nat readfun" where
  "readFields_integral bits row pos =
     (if pos < length row
      then case row ! pos of CInt i \<Rightarrow> Some (nat (i mod 2 ^ bits), pos + 1) | _ \<Rightarrow> None
      else None)"

text \<open>The sequencing of \<^verbatim>\<open>CLOGS_READ_FIELD\<close>.\<close>

definition read_then :: "('a \<times> nat) option \<Rightarrow> ('a \<Rightarrow> nat \<Rightarrow> ('b \<times> nat) option) \<Rightarrow> ('b \<times> nat) option" where
  "read_then r f = (case r of None \<Rightarrow> None | Some (x, pos) \<Rightarrow> f x pos)"

lemma read_then_simps [simp]: "read_then None f = None" "read_then (Some (x, p)) f = f x p"
  by (simp_all add: read_then_def)

section \<open>Names, types and order\<close>

definition fieldNames :: "string \<Rightarrow> string list" where
  "fieldNames root = [root]"

definition fieldTypes_string :: "string list" where "fieldTypes_string = [''TEXT'']"
definition fieldTypes_blob :: "string list" where "fieldTypes_blob = [''BLOB'']"
definition fieldTypes_integral :: "string list" where "fieldTypes_integral = [''INT'']"

text \<open>\<^verbatim>\<open>CLOGS_FIELD_COMPARE\<close>, and the orders of strings and byte vectors it uses.\<close>

definition field_compare :: "('a \<Rightarrow> 'a \<Rightarrow> bool) \<Rightarrow> 'a \<Rightarrow> 'a \<Rightarrow> bool \<Rightarrow> bool" where
  "field_compare lt a b rest = (if lt a b then True else if lt b a then False else rest)"

fun lex_less :: "('a \<Rightarrow> 'a \<Rightarrow> bool) \<Rightarrow> 'a list \<Rightarrow> 'a list \<Rightarrow> bool" where
  "lex_less lt xs [] = False"
| "lex_less lt [] (y # ys) = True"
| "lex_less lt (x # xs) (y # ys) = field_compare lt x y (lex_less lt xs ys)"

definition string_less :: "string \<Rightarrow> string \<Rightarrow> bool" where
  "string_less = lex_less (\<lambda>a b. (of_char a :: nat) < of_char b)"

definition blob_less :: "nat list \<Rightarrow> nat list \<Rightarrow> bool" where
  "blob_less = lex_less (<)"

text \<open>What \<^verbatim>\<open>operator<\<close> has to be: a strict total order.\<close>

definition strict_total :: "('a \<Rightarrow> 'a \<Rightarrow> bool) \<Rightarrow> bool" where
  "strict_total lt \<longleftrightarrow> (\<forall>x. \<not> lt x x) \<and> (\<forall>x y z. lt x y \<longrightarrow> lt y z \<longrightarrow> lt x z)
     \<and> (\<forall>x y. x = y \<or> lt x y \<or> lt y x)"

lemma strict_total_nat: "strict_total ((<) :: nat \<Rightarrow> nat \<Rightarrow> bool)"
  by (auto simp: strict_total_def)

lemma strict_totalD:
  assumes "strict_total lt"
  shows "\<not> lt x x" "lt x y \<Longrightarrow> lt y z \<Longrightarrow> lt x z" "x \<noteq> y \<Longrightarrow> lt x y \<or> lt y x" "lt x y \<Longrightarrow> \<not> lt y x"
  using assms unfolding strict_total_def by blast+

lemma field_compare_iff:
  assumes "strict_total lt"
  shows "field_compare lt a b rest \<longleftrightarrow> lt a b \<or> a = b \<and> rest"
  using strict_totalD(1,3,4) [OF assms] unfolding field_compare_def by auto

text \<open>One more field in front of a structure whose remaining fields are ordered.\<close>

lemma strict_total_field:
  assumes lt: "strict_total lt" and lt': "strict_total lt'"
    and inj: "\<And>x y. f x = f y \<Longrightarrow> g x = g y \<Longrightarrow> x = y"
    and lss: "\<And>x y. lss x y \<longleftrightarrow> field_compare lt (f x) (f y) (lt' (g x) (g y))"
  shows "strict_total lss"
proof -
  have l: "lss x y \<longleftrightarrow> lt (f x) (f y) \<or> f x = f y \<and> lt' (g x) (g y)" for x y
    unfolding lss field_compare_iff [OF lt] ..
  have "\<not> lss x x" for x unfolding l using strict_totalD(1) [OF lt] strict_totalD(1) [OF lt'] by blast
  moreover have "lss x z" if "lss x y" "lss y z" for x y z
    using that strict_totalD(2) [OF lt, of "f x" "f y" "f z"] strict_totalD(2) [OF lt', of "g x" "g y" "g z"]
    unfolding l by auto
  moreover have "x = y \<or> lss x y \<or> lss y x" for x y
    using strict_totalD(3) [OF lt, of "f x" "f y"] strict_totalD(3) [OF lt', of "g x" "g y"] inj [of x y]
    unfolding l by metis
  ultimately show ?thesis unfolding strict_total_def by blast
qed

lemma strict_total_inj:
  assumes lt: "strict_total lt" and inj: "\<And>x y. f x = f y \<Longrightarrow> x = y"
    and lss: "\<And>x y. lss x y \<longleftrightarrow> lt (f x) (f y)"
  shows "strict_total lss"
  unfolding strict_total_def lss
  using strict_totalD(1) [OF lt] strict_totalD(2) [OF lt] strict_totalD(3) [OF lt] inj by blast

lemma strict_total_lex:
  assumes lt: "strict_total lt" shows "strict_total (lex_less lt)"
proof -
  note fc = field_compare_iff [OF lt]
  have irr: "\<not> lex_less lt xs xs" for xs
    by (induction xs) (auto simp: fc strict_totalD(1) [OF lt])
  have tot: "xs = ys \<or> lex_less lt xs ys \<or> lex_less lt ys xs" for xs ys
  proof (induction xs arbitrary: ys)
    case Nil then show ?case by (cases ys) auto
  next
    case (Cons x xs)
    show ?case
    proof (cases ys)
      case (Cons y zs)
      then show ?thesis using Cons.IH [of zs] strict_totalD(3) [OF lt, of x y] by (auto simp: fc)
    qed simp
  qed
  have tr: "lex_less lt xs ys \<Longrightarrow> lex_less lt ys zs \<Longrightarrow> lex_less lt xs zs" for xs ys zs
  proof (induction xs arbitrary: ys zs)
    case Nil then show ?case by (cases ys; cases zs) auto
  next
    case (Cons x xs)
    then obtain y ys' z zs' where "ys = y # ys'" "zs = z # zs'"
      by (cases ys; cases zs) auto
    then show ?case using Cons.prems Cons.IH [of ys' zs'] strict_totalD(2) [OF lt, of x y z]
      by (auto simp: fc)
  qed
  show ?thesis unfolding strict_total_def using irr tr tot by blast
qed

lemma strict_total_string: "strict_total string_less"
  unfolding string_less_def
  by (rule strict_total_lex, rule strict_total_inj [OF strict_total_nat, where f = "of_char"])
    simp_all

lemma strict_total_blob: "strict_total blob_less"
  unfolding blob_less_def by (rule strict_total_lex [OF strict_total_nat])

section \<open>The contract of a reflected structure\<close>

text \<open>
  \<open>bind_cells\<close> binds a list of values to consecutive slots; \<open>cell_fits\<close> says that a
  value has the type of its column.
\<close>

definition bind_cells :: "'db sqlite \<Rightarrow> nat option \<Rightarrow> cell list \<Rightarrow> 'db bindfun" where
  "bind_cells Q stmt cs = bind_seq (map (bind_cell Q stmt) cs)"

fun cell_fits :: "string \<Rightarrow> cell \<Rightarrow> bool" where
  "cell_fits t (CInt i) = (t = ''INT'')"
| "cell_fits t (CText s) = (t = ''TEXT'')"
| "cell_fits t (CBlob b) = (t = ''BLOB'')"
| "cell_fits t CNull = False"

lemma bind_seq_append:
  "bind_seq (fs @ gs) pos db = (case bind_seq fs pos db of
      (Inl e, db') \<Rightarrow> (Inl e, db') | (Inr pos', db') \<Rightarrow> bind_seq gs pos' db')"
  by (induction fs arbitrary: pos db) (auto split: prod.splits sum.splits)

lemma bind_seq_nest [simp]: "bind_seq (bind_seq fs # gs) = bind_seq (fs @ gs)"
  by (rule ext)+ (simp add: bind_seq_append)

lemma bind_seq_one [simp]: "bind_seq [f] = f"
  by (rule ext)+ (simp split: prod.split sum.split)

locale reflected =
  fixes bnd :: "'db sqlite \<Rightarrow> nat option \<Rightarrow> 's \<Rightarrow> 'db bindfun"
    and rd :: "'s readfun"
    and names :: "string list"
    and types :: "string list"
    and lss :: "'s \<Rightarrow> 's \<Rightarrow> bool"
    and cells :: "'s \<Rightarrow> cell list"
    and ok :: "'s \<Rightarrow> bool"
  assumes bnd_cells: "bnd Q stmt s = bind_cells Q stmt (cells s)"
    and fits: "list_all2 cell_fits types (cells s)"
    and rd_cells: "ok s \<Longrightarrow> rd (pre @ cells s @ post) (length pre) = Some (s, length pre + length (cells s))"
    and rd_fits: "list_all2 cell_fits types cs \<Longrightarrow>
      \<exists>s. ok s \<and> rd (pre @ cs @ post) (length pre) = Some (s, length pre + length cs)"
    and names_types: "length names = length types"
    and ordered: "strict_total lss"
begin

lemma length_cells: "length (cells s) = length names"
  using fits [of s] names_types by (simp add: list_all2_lengthD)

lemma cells_inj: "ok s \<Longrightarrow> ok t \<Longrightarrow> cells s = cells t \<longleftrightarrow> s = t"
  using rd_cells [of s "[]" "[]"] rd_cells [of t "[]" "[]"] by (metis option.inject prod.inject)

lemma read_bound: "ok s \<Longrightarrow> rd (cells s) 0 = Some (s, length names)"
  using rd_cells [of s "[]" "[]"] by (simp add: length_cells)

lemma readable: "list_all2 cell_fits types cs \<Longrightarrow> \<exists>s. ok s \<and> rd cs 0 = Some (s, length names)"
  using rd_fits [of cs "[]" "[]"] names_types by (auto dest: list_all2_lengthD)

end

end
