(* ===== verification/CacheStructs.thy ===== *)
theory CacheStructs
  imports Reflect
begin

text \<open>
  The nine structures that src/cache_types.cpp declares with \<^verbatim>\<open>CLOGS_STRUCT\<close>: for each
  of them the five functions that the macro generates, field by field in the order of the
  declaration, and the proof that they meet the contract \<open>reflected\<close>. \<open>cells_X\<close> and
  \<open>ok_X\<close> are the specification: the columns of the structure, and the values of its types.
\<close>

lemma int64_mod: "m \<le> 64 \<Longrightarrow> int64 v mod 2 ^ m = int v mod 2 ^ m"
  unfolding int64_def using take_bit_signed_take_bit [of m 63 "int v"] by (simp add: take_bit_eq_mod)

lemma nat_int64 [simp]:
  "v < 18446744073709551616 \<Longrightarrow> nat (int64 v mod 18446744073709551616) = v"
  "v < 4294967296 \<Longrightarrow> nat (int64 v mod 4294967296) = v"
  using int64_mod [of 64 v] int64_mod [of 32 v] by simp_all

text \<open>A read depends only on the columns from its position on.\<close>

lemma read_drop:
  "readFields_string row pos = (case drop pos row of CText s # _ \<Rightarrow> Some (s, pos + 1) | _ \<Rightarrow> None)"
  "readFields_blob row pos = (case drop pos row of CBlob b # _ \<Rightarrow> Some (b, pos + 1) | _ \<Rightarrow> None)"
  "readFields_integral bits row pos =
     (case drop pos row of CInt i # _ \<Rightarrow> Some (nat (i mod 2 ^ bits), pos + 1) | _ \<Rightarrow> None)"
  by (auto simp: readFields_string_def readFields_blob_def readFields_integral_def Cons_nth_drop_Suc [symmetric]
      split: cell.splits)

lemma list_all2_fits_Cons:
  "list_all2 cell_fits (t # ts) cs \<longleftrightarrow> (\<exists>c cs'. cs = c # cs' \<and> cell_fits t c \<and> list_all2 cell_fits ts cs')"
  by (simp add: list_all2_Cons1)

lemma cell_fits_types:
  "cell_fits ''INT'' c \<longleftrightarrow> (\<exists>i. c = CInt i)" "cell_fits ''TEXT'' c \<longleftrightarrow> (\<exists>s. c = CText s)"
  "cell_fits ''BLOB'' c \<longleftrightarrow> (\<exists>b. c = CBlob b)"
  by (cases c; simp)+

lemma nat_mod_less:
  "nat (i mod 18446744073709551616) < 18446744073709551616" "nat (i mod 4294967296) < 4294967296"
  by (simp_all add: nat_less_iff)

text \<open>Orders that compare a list of fields, one after the other.\<close>

definition ordered_by :: "('s \<Rightarrow> 's \<Rightarrow> bool) \<Rightarrow> ('s \<Rightarrow> 'k) \<Rightarrow> bool" where
  "ordered_by lss f \<longleftrightarrow> (\<exists>lt. strict_total lt \<and> (\<forall>x y. lss x y = lt (f x) (f y)))"

lemma ordered_none: "ordered_by (\<lambda>_ _. False) (\<lambda>_. ())"
  unfolding ordered_by_def by (rule exI [of _ "\<lambda>_ _. False"]) (simp add: strict_total_def)

lemma ordered_field:
  assumes lt: "strict_total lt" and rest: "ordered_by lss g"
  shows "ordered_by (\<lambda>a b. field_compare lt (f a) (f b) (lss a b)) (\<lambda>s. (f s, g s))"
proof -
  obtain lt' where lt': "strict_total lt'" "\<And>x y. lss x y = lt' (g x) (g y)"
    using rest unfolding ordered_by_def by blast
  have "strict_total (\<lambda>p q. field_compare lt (fst p) (fst q) (lt' (snd p) (snd q)))"
    by (rule strict_total_field [OF lt lt'(1), where f = fst and g = snd]) (auto simp: prod_eq_iff)
  moreover have "\<forall>a b. field_compare lt (f a) (f b) (lss a b)
      = field_compare lt (fst (f a, g a)) (fst (f b, g b)) (lt' (snd (f a, g a)) (snd (f b, g b)))"
    by (simp add: lt'(2))
  ultimately show ?thesis unfolding ordered_by_def by blast
qed

lemma ordered_total:
  assumes "ordered_by lss f" "\<And>x y. f x = f y \<Longrightarrow> x = y"
  shows "strict_total lss"
  using assms(1) strict_total_inj [OF _ assms(2)] unfolding ordered_by_def by metis

lemmas ordered_intros = ordered_field ordered_none strict_total_string strict_total_blob strict_total_nat
lemmas bind_unfolds = bindFields_int_def bindFields_string_def bindFields_blob_def bind_cells_def blob_cell_def
lemmas type_unfolds = fieldTypes_string_def fieldTypes_blob_def fieldTypes_integral_def fieldNames_def

section \<open>DeviceKey\<close>

definition bindFields_DeviceKey :: "'db sqlite \<Rightarrow> nat option \<Rightarrow> device_key \<Rightarrow> 'db bindfun" where
  "bindFields_DeviceKey Q stmt s = bind_seq
     [bindFields_string Q stmt (platformName s), bindFields_string Q stmt (deviceName s),
      bindFields_int Q stmt (deviceVendorId s), bindFields_string Q stmt (driverVersion s)]"

definition readFields_DeviceKey :: "device_key readfun" where
  "readFields_DeviceKey row pos =
     read_then (readFields_string row pos) (\<lambda>v0 pos.
     read_then (readFields_string row pos) (\<lambda>v1 pos.
     read_then (readFields_integral 32 row pos) (\<lambda>v2 pos.
     read_then (readFields_string row pos) (\<lambda>v3 pos.
     Some (\<lparr>platformName = v0, deviceName = v1, deviceVendorId = v2, driverVersion = v3\<rparr>, pos)))))"

definition fieldNames_DeviceKey :: "string list" where
  "fieldNames_DeviceKey = concat
     [fieldNames ''platformName'', fieldNames ''deviceName'', fieldNames ''deviceVendorId'',
      fieldNames ''driverVersion'']"

definition fieldTypes_DeviceKey :: "string list" where
  "fieldTypes_DeviceKey = concat
     [fieldTypes_string, fieldTypes_string, fieldTypes_integral, fieldTypes_string]"

definition less_DeviceKey :: "device_key \<Rightarrow> device_key \<Rightarrow> bool" where
  "less_DeviceKey a b =
     field_compare string_less (platformName a) (platformName b) (
     field_compare string_less (deviceName a) (deviceName b) (
     field_compare (<) (deviceVendorId a) (deviceVendorId b) (
     field_compare string_less (driverVersion a) (driverVersion b) False)))"

definition cells_DeviceKey :: "device_key \<Rightarrow> cell list" where
  "cells_DeviceKey s = [CText (platformName s), CText (deviceName s), CInt (int64 (deviceVendorId s)),
      CText (driverVersion s)]"

definition ok_DeviceKey :: "device_key \<Rightarrow> bool" where
  "ok_DeviceKey s \<longleftrightarrow> deviceVendorId s < 2 ^ 32"

lemma strict_total_DeviceKey: "strict_total less_DeviceKey"
proof (rule ordered_total)
  show "ordered_by less_DeviceKey (\<lambda>s. (platformName s, deviceName s, deviceVendorId s, driverVersion s, ()))"
    unfolding less_DeviceKey_def [abs_def] by (intro ordered_intros)
qed simp

lemma bindFields_DeviceKey_eq: "bindFields_DeviceKey Q stmt s = bind_cells Q stmt (cells_DeviceKey s)"
  by (simp add: bindFields_DeviceKey_def cells_DeviceKey_def bind_unfolds)

interpretation DeviceKey: reflected bindFields_DeviceKey readFields_DeviceKey fieldNames_DeviceKey fieldTypes_DeviceKey less_DeviceKey
  cells_DeviceKey ok_DeviceKey
proof (unfold_locales, goal_cases)
  case (1 Q stmt s)
  show ?case by (simp add: bindFields_DeviceKey_def cells_DeviceKey_def bind_unfolds)
next
  case (2 s)
  show ?case by (simp add: cells_DeviceKey_def fieldTypes_DeviceKey_def type_unfolds)
next
  case (3 s pre post)
  then show ?case
    by (simp add: readFields_DeviceKey_def cells_DeviceKey_def ok_DeviceKey_def read_drop)
next
  case (4 cs pre post)
  then show ?case
    by (auto simp: readFields_DeviceKey_def fieldTypes_DeviceKey_def type_unfolds ok_DeviceKey_def read_drop
        list_all2_fits_Cons cell_fits_types nat_mod_less)
next
  case 5
  show ?case by (simp add: fieldNames_DeviceKey_def fieldTypes_DeviceKey_def type_unfolds)
qed (rule strict_total_DeviceKey)

section \<open>KernelKey\<close>

definition bindFields_KernelKey :: "'db sqlite \<Rightarrow> nat option \<Rightarrow> kernel_key \<Rightarrow> 'db bindfun" where
  "bindFields_KernelKey Q stmt s = bind_seq
     [bindFields_DeviceKey Q stmt (kk_device s), bindFields_string Q stmt (kk_header s),
      bindFields_string Q stmt (kk_checksum s)]"

definition readFields_KernelKey :: "kernel_key readfun" where
  "readFields_KernelKey row pos =
     read_then (readFields_DeviceKey row pos) (\<lambda>v0 pos.
     read_then (readFields_string row pos) (\<lambda>v1 pos.
     read_then (readFields_string row pos) (\<lambda>v2 pos.
     Some (\<lparr>kk_device = v0, kk_header = v1, kk_checksum = v2\<rparr>, pos))))"

definition fieldNames_KernelKey :: "string list" where
  "fieldNames_KernelKey = concat
     [fieldNames_DeviceKey, fieldNames ''header'', fieldNames ''checksum'']"

definition fieldTypes_KernelKey :: "string list" where
  "fieldTypes_KernelKey = concat
     [fieldTypes_DeviceKey, fieldTypes_string, fieldTypes_string]"

definition less_KernelKey :: "kernel_key \<Rightarrow> kernel_key \<Rightarrow> bool" where
  "less_KernelKey a b =
     field_compare less_DeviceKey (kk_device a) (kk_device b) (
     field_compare string_less (kk_header a) (kk_header b) (
     field_compare string_less (kk_checksum a) (kk_checksum b) False))"

definition cells_KernelKey :: "kernel_key \<Rightarrow> cell list" where
  "cells_KernelKey s = cells_DeviceKey (kk_device s) @ [CText (kk_header s), CText (kk_checksum s)]"

definition ok_KernelKey :: "kernel_key \<Rightarrow> bool" where
  "ok_KernelKey s \<longleftrightarrow> ok_DeviceKey (kk_device s)"

lemma strict_total_KernelKey: "strict_total less_KernelKey"
proof (rule ordered_total)
  show "ordered_by less_KernelKey (\<lambda>s. (kk_device s, kk_header s, kk_checksum s, ()))"
    unfolding less_KernelKey_def [abs_def] by (intro ordered_intros strict_total_DeviceKey)
qed simp

interpretation KernelKey: reflected bindFields_KernelKey readFields_KernelKey fieldNames_KernelKey fieldTypes_KernelKey less_KernelKey
  cells_KernelKey ok_KernelKey
proof (unfold_locales, goal_cases)
  case (1 Q stmt s)
  show ?case by (simp add: bindFields_KernelKey_def cells_KernelKey_def DeviceKey.bnd_cells bind_unfolds)
next
  case (2 s)
  show ?case using DeviceKey.fits
    by (simp add: cells_KernelKey_def fieldTypes_KernelKey_def type_unfolds list_all2_appendI)
next
  case (3 s pre post)
  then show ?case
    using DeviceKey.rd_cells [of "kk_device s" pre "drop (length (cells_DeviceKey (kk_device s))) (cells_KernelKey s) @ post"]
    by (simp add: readFields_KernelKey_def cells_KernelKey_def ok_KernelKey_def read_drop)
next
  case (4 cs pre post)
  then obtain ds es where cs: "cs = ds @ es" "list_all2 cell_fits fieldTypes_DeviceKey ds"
      "list_all2 cell_fits (drop (length fieldTypes_DeviceKey) fieldTypes_KernelKey) es"
    by (auto simp: fieldTypes_KernelKey_def list_all2_append1)
  obtain d where "ok_DeviceKey d"
      "readFields_DeviceKey (pre @ ds @ es @ post) (length pre) = Some (d, length pre + length ds)"
    using DeviceKey.rd_fits [OF cs(2), of pre "es @ post"] by auto
  then show ?case using cs
    by (auto simp: readFields_KernelKey_def fieldTypes_KernelKey_def type_unfolds ok_KernelKey_def read_drop
        list_all2_fits_Cons cell_fits_types nat_mod_less)
next
  case 5
  show ?case using DeviceKey.names_types by (simp add: fieldNames_KernelKey_def fieldTypes_KernelKey_def type_unfolds)
qed (rule strict_total_KernelKey)

section \<open>KernelValue\<close>

definition bindFields_KernelValue :: "'db sqlite \<Rightarrow> nat option \<Rightarrow> kernel_value \<Rightarrow> 'db bindfun" where
  "bindFields_KernelValue Q stmt s = bind_seq
     [bindFields_blob Q stmt (kv_binary s)]"

definition readFields_KernelValue :: "kernel_value readfun" where
  "readFields_KernelValue row pos =
     read_then (readFields_blob row pos) (\<lambda>v0 pos.
     Some (\<lparr>kv_binary = v0\<rparr>, pos))"

definition fieldNames_KernelValue :: "string list" where
  "fieldNames_KernelValue = concat
     [fieldNames ''binary'']"

definition fieldTypes_KernelValue :: "string list" where
  "fieldTypes_KernelValue = concat
     [fieldTypes_blob]"

definition less_KernelValue :: "kernel_value \<Rightarrow> kernel_value \<Rightarrow> bool" where
  "less_KernelValue a b =
     field_compare blob_less (kv_binary a) (kv_binary b) False"

definition cells_KernelValue :: "kernel_value \<Rightarrow> cell list" where
  "cells_KernelValue s = [CBlob (kv_binary s)]"

definition ok_KernelValue :: "kernel_value \<Rightarrow> bool" where
  "ok_KernelValue s \<longleftrightarrow> True"

lemma strict_total_KernelValue: "strict_total less_KernelValue"
proof (rule ordered_total)
  show "ordered_by less_KernelValue (\<lambda>s. (kv_binary s, ()))"
    unfolding less_KernelValue_def [abs_def] by (intro ordered_intros)
qed simp

interpretation KernelValue: reflected bindFields_KernelValue readFields_KernelValue fieldNames_KernelValue fieldTypes_KernelValue less_KernelValue
  cells_KernelValue ok_KernelValue
proof (unfold_locales, goal_cases)
  case (1 Q stmt s)
  show ?case by (simp add: bindFields_KernelValue_def cells_KernelValue_def bind_unfolds)
next
  case (2 s)
  show ?case by (simp add: cells_KernelValue_def fieldTypes_KernelValue_def type_unfolds)
next
  case (3 s pre post)
  then show ?case
    by (simp add: readFields_KernelValue_def cells_KernelValue_def ok_KernelValue_def read_drop)
next
  case (4 cs pre post)
  then show ?case
    by (auto simp: readFields_KernelValue_def fieldTypes_KernelValue_def type_unfolds ok_KernelValue_def read_drop
        list_all2_fits_Cons cell_fits_types nat_mod_less)
next
  case 5
  show ?case by (simp add: fieldNames_KernelValue_def fieldTypes_KernelValue_def type_unfolds)
qed (rule strict_total_KernelValue)

section \<open>ScanKey\<close>

definition bindFields_ScanKey :: "'db sqlite \<Rightarrow> nat option \<Rightarrow> scan_key \<Rightarrow> 'db bindfun" where
  "bindFields_ScanKey Q stmt s = bind_seq
     [bindFields_DeviceKey Q stmt (sk_device s), bindFields_string Q stmt (sk_elementType s)]"

definition readFields_ScanKey :: "scan_key readfun" where
  "readFields_ScanKey row pos =
     read_then (readFields_DeviceKey row pos) (\<lambda>v0 pos.
     read_then (readFields_string row pos) (\<lambda>v1 pos.
     Some (\<lparr>sk_device = v0, sk_elementType = v1\<rparr>, pos)))"

definition fieldNames_ScanKey :: "string list" where
  "fieldNames_ScanKey = concat
     [fieldNames_DeviceKey, fieldNames ''elementType'']"

definition fieldTypes_ScanKey :: "string list" where
  "fieldTypes_ScanKey = concat
     [fieldTypes_DeviceKey, fieldTypes_string]"

definition less_ScanKey :: "scan_key \<Rightarrow> scan_key \<Rightarrow> bool" where
  "less_ScanKey a b =
     field_compare less_DeviceKey (sk_device a) (sk_device b) (
     field_compare string_less (sk_elementType a) (sk_elementType b) False)"

definition cells_ScanKey :: "scan_key \<Rightarrow> cell list" where
  "cells_ScanKey s = cells_DeviceKey (sk_device s) @ [CText (sk_elementType s)]"

definition ok_ScanKey :: "scan_key \<Rightarrow> bool" where
  "ok_ScanKey s \<longleftrightarrow> ok_DeviceKey (sk_device s)"

lemma strict_total_ScanKey: "strict_total less_ScanKey"
proof (rule ordered_total)
  show "ordered_by less_ScanKey (\<lambda>s. (sk_device s, sk_elementType s, ()))"
    unfolding less_ScanKey_def [abs_def] by (intro ordered_intros strict_total_DeviceKey)
qed simp

interpretation ScanKey: reflected bindFields_ScanKey readFields_ScanKey fieldNames_ScanKey fieldTypes_ScanKey less_ScanKey
  cells_ScanKey ok_ScanKey
proof (unfold_locales, goal_cases)
  case (1 Q stmt s)
  show ?case by (simp add: bindFields_ScanKey_def cells_ScanKey_def DeviceKey.bnd_cells bind_unfolds)
next
  case (2 s)
  show ?case using DeviceKey.fits
    by (simp add: cells_ScanKey_def fieldTypes_ScanKey_def type_unfolds list_all2_appendI)
next
  case (3 s pre post)
  then show ?case
    using DeviceKey.rd_cells [of "sk_device s" pre "drop (length (cells_DeviceKey (sk_device s))) (cells_ScanKey s) @ post"]
    by (simp add: readFields_ScanKey_def cells_ScanKey_def ok_ScanKey_def read_drop)
next
  case (4 cs pre post)
  then obtain ds es where cs: "cs = ds @ es" "list_all2 cell_fits fieldTypes_DeviceKey ds"
      "list_all2 cell_fits (drop (length fieldTypes_DeviceKey) fieldTypes_ScanKey) es"
    by (auto simp: fieldTypes_ScanKey_def list_all2_append1)
  obtain d where "ok_DeviceKey d"
      "readFields_DeviceKey (pre @ ds @ es @ post) (length pre) = Some (d, length pre + length ds)"
    using DeviceKey.rd_fits [OF cs(2), of pre "es @ post"] by auto
  then show ?case using cs
    by (auto simp: readFields_ScanKey_def fieldTypes_ScanKey_def type_unfolds ok_ScanKey_def read_drop
        list_all2_fits_Cons cell_fits_types nat_mod_less)
next
  case 5
  show ?case using DeviceKey.names_types by (simp add: fieldNames_ScanKey_def fieldTypes_ScanKey_def type_unfolds)
qed (rule strict_total_ScanKey)

section \<open>ScanValue\<close>

definition bindFields_ScanValue :: "'db sqlite \<Rightarrow> nat option \<Rightarrow> scan_value \<Rightarrow> 'db bindfun" where
  "bindFields_ScanValue Q stmt s = bind_seq
     [bindFields_int Q stmt (s_warpSizeMem s), bindFields_int Q stmt (s_warpSizeSchedule s),
      bindFields_int Q stmt (s_reduceWorkGroupSize s),
      bindFields_int Q stmt (s_scanWorkGroupSize s),
      bindFields_int Q stmt (s_scanWorkScale s), bindFields_int Q stmt (s_scanBlocks s)]"

definition readFields_ScanValue :: "scan_value readfun" where
  "readFields_ScanValue row pos =
     read_then (readFields_integral 64 row pos) (\<lambda>v0 pos.
     read_then (readFields_integral 64 row pos) (\<lambda>v1 pos.
     read_then (readFields_integral 64 row pos) (\<lambda>v2 pos.
     read_then (readFields_integral 64 row pos) (\<lambda>v3 pos.
     read_then (readFields_integral 64 row pos) (\<lambda>v4 pos.
     read_then (readFields_integral 64 row pos) (\<lambda>v5 pos.
     Some (\<lparr>s_warpSizeMem = v0, s_warpSizeSchedule = v1, s_reduceWorkGroupSize = v2,
              s_scanWorkGroupSize = v3, s_scanWorkScale = v4, s_scanBlocks = v5\<rparr>, pos)))))))"

definition fieldNames_ScanValue :: "string list" where
  "fieldNames_ScanValue = concat
     [fieldNames ''warpSizeMem'', fieldNames ''warpSizeSchedule'',
      fieldNames ''reduceWorkGroupSize'', fieldNames ''scanWorkGroupSize'',
      fieldNames ''scanWorkScale'', fieldNames ''scanBlocks'']"

definition fieldTypes_ScanValue :: "string list" where
  "fieldTypes_ScanValue = concat
     [fieldTypes_integral, fieldTypes_integral, fieldTypes_integral, fieldTypes_integral,
      fieldTypes_integral, fieldTypes_integral]"

definition less_ScanValue :: "scan_value \<Rightarrow> scan_value \<Rightarrow> bool" where
  "less_ScanValue a b =
     field_compare (<) (s_warpSizeMem a) (s_warpSizeMem b) (
     field_compare (<) (s_warpSizeSchedule a) (s_warpSizeSchedule b) (
     field_compare (<) (s_reduceWorkGroupSize a) (s_reduceWorkGroupSize b) (
     field_compare (<) (s_scanWorkGroupSize a) (s_scanWorkGroupSize b) (
     field_compare (<) (s_scanWorkScale a) (s_scanWorkScale b) (
     field_compare (<) (s_scanBlocks a) (s_scanBlocks b) False)))))"

definition cells_ScanValue :: "scan_value \<Rightarrow> cell list" where
  "cells_ScanValue s = [CInt (int64 (s_warpSizeMem s)), CInt (int64 (s_warpSizeSchedule s)),
      CInt (int64 (s_reduceWorkGroupSize s)), CInt (int64 (s_scanWorkGroupSize s)),
      CInt (int64 (s_scanWorkScale s)), CInt (int64 (s_scanBlocks s))]"

definition ok_ScanValue :: "scan_value \<Rightarrow> bool" where
  "ok_ScanValue s \<longleftrightarrow> s_warpSizeMem s < 2 ^ 64 \<and> s_warpSizeSchedule s < 2 ^ 64 \<and>
     s_reduceWorkGroupSize s < 2 ^ 64 \<and> s_scanWorkGroupSize s < 2 ^ 64 \<and>
     s_scanWorkScale s < 2 ^ 64 \<and> s_scanBlocks s < 2 ^ 64"

lemma strict_total_ScanValue: "strict_total less_ScanValue"
proof (rule ordered_total)
  show "ordered_by less_ScanValue (\<lambda>s. (s_warpSizeMem s, s_warpSizeSchedule s, s_reduceWorkGroupSize s,
        s_scanWorkGroupSize s, s_scanWorkScale s, s_scanBlocks s, ()))"
    unfolding less_ScanValue_def [abs_def] by (intro ordered_intros)
qed simp

interpretation ScanValue: reflected bindFields_ScanValue readFields_ScanValue fieldNames_ScanValue fieldTypes_ScanValue less_ScanValue
  cells_ScanValue ok_ScanValue
proof (unfold_locales, goal_cases)
  case (1 Q stmt s)
  show ?case by (simp add: bindFields_ScanValue_def cells_ScanValue_def bind_unfolds)
next
  case (2 s)
  show ?case by (simp add: cells_ScanValue_def fieldTypes_ScanValue_def type_unfolds)
next
  case (3 s pre post)
  then show ?case
    by (simp add: readFields_ScanValue_def cells_ScanValue_def ok_ScanValue_def read_drop)
next
  case (4 cs pre post)
  then show ?case
    by (auto simp: readFields_ScanValue_def fieldTypes_ScanValue_def type_unfolds ok_ScanValue_def read_drop
        list_all2_fits_Cons cell_fits_types nat_mod_less)
next
  case 5
  show ?case by (simp add: fieldNames_ScanValue_def fieldTypes_ScanValue_def type_unfolds)
qed (rule strict_total_ScanValue)

section \<open>ReduceKey\<close>

definition bindFields_ReduceKey :: "'db sqlite \<Rightarrow> nat option \<Rightarrow> reduce_key \<Rightarrow> 'db bindfun" where
  "bindFields_ReduceKey Q stmt s = bind_seq
     [bindFields_DeviceKey Q stmt (rk_device s), bindFields_string Q stmt (rk_elementType s)]"

definition readFields_ReduceKey :: "reduce_key readfun" where
  "readFields_ReduceKey row pos =
     read_then (readFields_DeviceKey row pos) (\<lambda>v0 pos.
     read_then (readFields_string row pos) (\<lambda>v1 pos.
     Some (\<lparr>rk_device = v0, rk_elementType = v1\<rparr>, pos)))"

definition fieldNames_ReduceKey :: "string list" where
  "fieldNames_ReduceKey = concat
     [fieldNames_DeviceKey, fieldNames ''elementType'']"

definition fieldTypes_ReduceKey :: "string list" where
  "fieldTypes_ReduceKey = concat
     [fieldTypes_DeviceKey, fieldTypes_string]"

definition less_ReduceKey :: "reduce_key \<Rightarrow> reduce_key \<Rightarrow> bool" where
  "less_ReduceKey a b =
     field_compare less_DeviceKey (rk_device a) (rk_device b) (
     field_compare string_less (rk_elementType a) (rk_elementType b) False)"

definition cells_ReduceKey :: "reduce_key \<Rightarrow> cell list" where
  "cells_ReduceKey s = cells_DeviceKey (rk_device s) @ [CText (rk_elementType s)]"

definition ok_ReduceKey :: "reduce_key \<Rightarrow> bool" where
  "ok_ReduceKey s \<longleftrightarrow> ok_DeviceKey (rk_device s)"

lemma strict_total_ReduceKey: "strict_total less_ReduceKey"
proof (rule ordered_total)
  show "ordered_by less_ReduceKey (\<lambda>s. (rk_device s, rk_elementType s, ()))"
    unfolding less_ReduceKey_def [abs_def] by (intro ordered_intros strict_total_DeviceKey)
qed simp

interpretation ReduceKey: reflected bindFields_ReduceKey readFields_ReduceKey fieldNames_ReduceKey fieldTypes_ReduceKey less_ReduceKey
  cells_ReduceKey ok_ReduceKey
proof (unfold_locales, goal_cases)
  case (1 Q stmt s)
  show ?case by (simp add: bindFields_ReduceKey_def cells_ReduceKey_def DeviceKey.bnd_cells bind_unfolds)
next
  case (2 s)
  show ?case using DeviceKey.fits
    by (simp add: cells_ReduceKey_def fieldTypes_ReduceKey_def type_unfolds list_all2_appendI)
next
  case (3 s pre post)
  then show ?case
    using DeviceKey.rd_cells [of "rk_device s" pre "drop (length (cells_DeviceKey (rk_device s))) (cells_ReduceKey s) @ post"]
    by (simp add: readFields_ReduceKey_def cells_ReduceKey_def ok_ReduceKey_def read_drop)
next
  case (4 cs pre post)
  then obtain ds es where cs: "cs = ds @ es" "list_all2 cell_fits fieldTypes_DeviceKey ds"
      "list_all2 cell_fits (drop (length fieldTypes_DeviceKey) fieldTypes_ReduceKey) es"
    by (auto simp: fieldTypes_ReduceKey_def list_all2_append1)
  obtain d where "ok_DeviceKey d"
      "readFields_DeviceKey (pre @ ds @ es @ post) (length pre) = Some (d, length pre + length ds)"
    using DeviceKey.rd_fits [OF cs(2), of pre "es @ post"] by auto
  then show ?case using cs
    by (auto simp: readFields_ReduceKey_def fieldTypes_ReduceKey_def type_unfolds ok_ReduceKey_def read_drop
        list_all2_fits_Cons cell_fits_types nat_mod_less)
next
  case 5
  show ?case using DeviceKey.names_types by (simp add: fieldNames_ReduceKey_def fieldTypes_ReduceKey_def type_unfolds)
qed (rule strict_total_ReduceKey)

section \<open>ReduceValue\<close>

definition bindFields_ReduceValue :: "'db sqlite \<Rightarrow> nat option \<Rightarrow> reduce_value \<Rightarrow> 'db bindfun" where
  "bindFields_ReduceValue Q stmt s = bind_seq
     [bindFields_int Q stmt (r_reduceWorkGroupSize s),
      bindFields_int Q stmt (r_reduceBlocks s)]"

definition readFields_ReduceValue :: "reduce_value readfun" where
  "readFields_ReduceValue row pos =
     read_then (readFields_integral 64 row pos) (\<lambda>v0 pos.
     read_then (readFields_integral 64 row pos) (\<lambda>v1 pos.
     Some (\<lparr>r_reduceWorkGroupSize = v0, r_reduceBlocks = v1\<rparr>, pos)))"

definition fieldNames_ReduceValue :: "string list" where
  "fieldNames_ReduceValue = concat
     [fieldNames ''reduceWorkGroupSize'', fieldNames ''reduceBlocks'']"

definition fieldTypes_ReduceValue :: "string list" where
  "fieldTypes_ReduceValue = concat
     [fieldTypes_integral, fieldTypes_integral]"

definition less_ReduceValue :: "reduce_value \<Rightarrow> reduce_value \<Rightarrow> bool" where
  "less_ReduceValue a b =
     field_compare (<) (r_reduceWorkGroupSize a) (r_reduceWorkGroupSize b) (
     field_compare (<) (r_reduceBlocks a) (r_reduceBlocks b) False)"

definition cells_ReduceValue :: "reduce_value \<Rightarrow> cell list" where
  "cells_ReduceValue s = [CInt (int64 (r_reduceWorkGroupSize s)), CInt (int64 (r_reduceBlocks s))]"

definition ok_ReduceValue :: "reduce_value \<Rightarrow> bool" where
  "ok_ReduceValue s \<longleftrightarrow> r_reduceWorkGroupSize s < 2 ^ 64 \<and> r_reduceBlocks s < 2 ^ 64"

lemma strict_total_ReduceValue: "strict_total less_ReduceValue"
proof (rule ordered_total)
  show "ordered_by less_ReduceValue (\<lambda>s. (r_reduceWorkGroupSize s, r_reduceBlocks s, ()))"
    unfolding less_ReduceValue_def [abs_def] by (intro ordered_intros)
qed simp

interpretation ReduceValue: reflected bindFields_ReduceValue readFields_ReduceValue fieldNames_ReduceValue fieldTypes_ReduceValue less_ReduceValue
  cells_ReduceValue ok_ReduceValue
proof (unfold_locales, goal_cases)
  case (1 Q stmt s)
  show ?case by (simp add: bindFields_ReduceValue_def cells_ReduceValue_def bind_unfolds)
next
  case (2 s)
  show ?case by (simp add: cells_ReduceValue_def fieldTypes_ReduceValue_def type_unfolds)
next
  case (3 s pre post)
  then show ?case
    by (simp add: readFields_ReduceValue_def cells_ReduceValue_def ok_ReduceValue_def read_drop)
next
  case (4 cs pre post)
  then show ?case
    by (auto simp: readFields_ReduceValue_def fieldTypes_ReduceValue_def type_unfolds ok_ReduceValue_def read_drop
        list_all2_fits_Cons cell_fits_types nat_mod_less)
next
  case 5
  show ?case by (simp add: fieldNames_ReduceValue_def fieldTypes_ReduceValue_def type_unfolds)
qed (rule strict_total_ReduceValue)

section \<open>RadixsortKey\<close>

definition bindFields_RadixsortKey :: "'db sqlite \<Rightarrow> nat option \<Rightarrow> radix_key \<Rightarrow> 'db bindfun" where
  "bindFields_RadixsortKey Q stmt s = bind_seq
     [bindFields_DeviceKey Q stmt (xk_device s), bindFields_string Q stmt (xk_keyType s),
      bindFields_int Q stmt (xk_valueSize s)]"

definition readFields_RadixsortKey :: "radix_key readfun" where
  "readFields_RadixsortKey row pos =
     read_then (readFields_DeviceKey row pos) (\<lambda>v0 pos.
     read_then (readFields_string row pos) (\<lambda>v1 pos.
     read_then (readFields_integral 64 row pos) (\<lambda>v2 pos.
     Some (\<lparr>xk_device = v0, xk_keyType = v1, xk_valueSize = v2\<rparr>, pos))))"

definition fieldNames_RadixsortKey :: "string list" where
  "fieldNames_RadixsortKey = concat
     [fieldNames_DeviceKey, fieldNames ''keyType'', fieldNames ''valueSize'']"

definition fieldTypes_RadixsortKey :: "string list" where
  "fieldTypes_RadixsortKey = concat
     [fieldTypes_DeviceKey, fieldTypes_string, fieldTypes_integral]"

definition less_RadixsortKey :: "radix_key \<Rightarrow> radix_key \<Rightarrow> bool" where
  "less_RadixsortKey a b =
     field_compare less_DeviceKey (xk_device a) (xk_device b) (
     field_compare string_less (xk_keyType a) (xk_keyType b) (
     field_compare (<) (xk_valueSize a) (xk_valueSize b) False))"

definition cells_RadixsortKey :: "radix_key \<Rightarrow> cell list" where
  "cells_RadixsortKey s = cells_DeviceKey (xk_device s) @ [CText (xk_keyType s), CInt (int64 (xk_valueSize s))]"

definition ok_RadixsortKey :: "radix_key \<Rightarrow> bool" where
  "ok_RadixsortKey s \<longleftrightarrow> ok_DeviceKey (xk_device s) \<and> xk_valueSize s < 2 ^ 64"

lemma strict_total_RadixsortKey: "strict_total less_RadixsortKey"
proof (rule ordered_total)
  show "ordered_by less_RadixsortKey (\<lambda>s. (xk_device s, xk_keyType s, xk_valueSize s, ()))"
    unfolding less_RadixsortKey_def [abs_def] by (intro ordered_intros strict_total_DeviceKey)
qed simp

interpretation RadixsortKey: reflected bindFields_RadixsortKey readFields_RadixsortKey fieldNames_RadixsortKey fieldTypes_RadixsortKey less_RadixsortKey
  cells_RadixsortKey ok_RadixsortKey
proof (unfold_locales, goal_cases)
  case (1 Q stmt s)
  show ?case by (simp add: bindFields_RadixsortKey_def cells_RadixsortKey_def DeviceKey.bnd_cells bind_unfolds)
next
  case (2 s)
  show ?case using DeviceKey.fits
    by (simp add: cells_RadixsortKey_def fieldTypes_RadixsortKey_def type_unfolds list_all2_appendI)
next
  case (3 s pre post)
  then show ?case
    using DeviceKey.rd_cells [of "xk_device s" pre "drop (length (cells_DeviceKey (xk_device s))) (cells_RadixsortKey s) @ post"]
    by (simp add: readFields_RadixsortKey_def cells_RadixsortKey_def ok_RadixsortKey_def read_drop)
next
  case (4 cs pre post)
  then obtain ds es where cs: "cs = ds @ es" "list_all2 cell_fits fieldTypes_DeviceKey ds"
      "list_all2 cell_fits (drop (length fieldTypes_DeviceKey) fieldTypes_RadixsortKey) es"
    by (auto simp: fieldTypes_RadixsortKey_def list_all2_append1)
  obtain d where "ok_DeviceKey d"
      "readFields_DeviceKey (pre @ ds @ es @ post) (length pre) = Some (d, length pre + length ds)"
    using DeviceKey.rd_fits [OF cs(2), of pre "es @ post"] by auto
  then show ?case using cs
    by (auto simp: readFields_RadixsortKey_def fieldTypes_RadixsortKey_def type_unfolds ok_RadixsortKey_def read_drop
        list_all2_fits_Cons cell_fits_types nat_mod_less)
next
  case 5
  show ?case using DeviceKey.names_types by (simp add: fieldNames_RadixsortKey_def fieldTypes_RadixsortKey_def type_unfolds)
qed (rule strict_total_RadixsortKey)

section \<open>RadixsortValue\<close>

definition bindFields_RadixsortValue :: "'db sqlite \<Rightarrow> nat option \<Rightarrow> radix_value \<Rightarrow> 'db bindfun" where
  "bindFields_RadixsortValue Q stmt s = bind_seq
     [bindFields_int Q stmt (x_warpSizeMem s), bindFields_int Q stmt (x_warpSizeSchedule s),
      bindFields_int Q stmt (x_reduceWorkGroupSize s),
      bindFields_int Q stmt (x_scanWorkGroupSize s),
      bindFields_int Q stmt (x_scatterWorkGroupSize s),
      bindFields_int Q stmt (x_scatterWorkScale s), bindFields_int Q stmt (x_scanBlocks s),
      bindFields_int Q stmt (x_radixBits s)]"

definition readFields_RadixsortValue :: "radix_value readfun" where
  "readFields_RadixsortValue row pos =
     read_then (readFields_integral 64 row pos) (\<lambda>v0 pos.
     read_then (readFields_integral 64 row pos) (\<lambda>v1 pos.
     read_then (readFields_integral 64 row pos) (\<lambda>v2 pos.
     read_then (readFields_integral 64 row pos) (\<lambda>v3 pos.
     read_then (readFields_integral 64 row pos) (\<lambda>v4 pos.
     read_then (readFields_integral 64 row pos) (\<lambda>v5 pos.
     read_then (readFields_integral 64 row pos) (\<lambda>v6 pos.
     read_then (readFields_integral 32 row pos) (\<lambda>v7 pos.
     Some (\<lparr>x_warpSizeMem = v0, x_warpSizeSchedule = v1, x_reduceWorkGroupSize = v2,
              x_scanWorkGroupSize = v3, x_scatterWorkGroupSize = v4,
              x_scatterWorkScale = v5, x_scanBlocks = v6, x_radixBits = v7\<rparr>, pos)))))))))"

definition fieldNames_RadixsortValue :: "string list" where
  "fieldNames_RadixsortValue = concat
     [fieldNames ''warpSizeMem'', fieldNames ''warpSizeSchedule'',
      fieldNames ''reduceWorkGroupSize'', fieldNames ''scanWorkGroupSize'',
      fieldNames ''scatterWorkGroupSize'', fieldNames ''scatterWorkScale'',
      fieldNames ''scanBlocks'', fieldNames ''radixBits'']"

definition fieldTypes_RadixsortValue :: "string list" where
  "fieldTypes_RadixsortValue = concat
     [fieldTypes_integral, fieldTypes_integral, fieldTypes_integral, fieldTypes_integral,
      fieldTypes_integral, fieldTypes_integral, fieldTypes_integral, fieldTypes_integral]"

definition less_RadixsortValue :: "radix_value \<Rightarrow> radix_value \<Rightarrow> bool" where
  "less_RadixsortValue a b =
     field_compare (<) (x_warpSizeMem a) (x_warpSizeMem b) (
     field_compare (<) (x_warpSizeSchedule a) (x_warpSizeSchedule b) (
     field_compare (<) (x_reduceWorkGroupSize a) (x_reduceWorkGroupSize b) (
     field_compare (<) (x_scanWorkGroupSize a) (x_scanWorkGroupSize b) (
     field_compare (<) (x_scatterWorkGroupSize a) (x_scatterWorkGroupSize b) (
     field_compare (<) (x_scatterWorkScale a) (x_scatterWorkScale b) (
     field_compare (<) (x_scanBlocks a) (x_scanBlocks b) (
     field_compare (<) (x_radixBits a) (x_radixBits b) False)))))))"

definition cells_RadixsortValue :: "radix_value \<Rightarrow> cell list" where
  "cells_RadixsortValue s = [CInt (int64 (x_warpSizeMem s)), CInt (int64 (x_warpSizeSchedule s)),
      CInt (int64 (x_reduceWorkGroupSize s)), CInt (int64 (x_scanWorkGroupSize s)),
      CInt (int64 (x_scatterWorkGroupSize s)), CInt (int64 (x_scatterWorkScale s)),
      CInt (int64 (x_scanBlocks s)), CInt (int64 (x_radixBits s))]"

definition ok_RadixsortValue :: "radix_value \<Rightarrow> bool" where
  "ok_RadixsortValue s \<longleftrightarrow> x_warpSizeMem s < 2 ^ 64 \<and> x_warpSizeSchedule s < 2 ^ 64 \<and>
     x_reduceWorkGroupSize s < 2 ^ 64 \<and> x_scanWorkGroupSize s < 2 ^ 64 \<and>
     x_scatterWorkGroupSize s < 2 ^ 64 \<and> x_scatterWorkScale s < 2 ^ 64 \<and>
     x_scanBlocks s < 2 ^ 64 \<and> x_radixBits s < 2 ^ 32"

lemma strict_total_RadixsortValue: "strict_total less_RadixsortValue"
proof (rule ordered_total)
  show "ordered_by less_RadixsortValue (\<lambda>s. (x_warpSizeMem s, x_warpSizeSchedule s, x_reduceWorkGroupSize s,
        x_scanWorkGroupSize s, x_scatterWorkGroupSize s, x_scatterWorkScale s,
        x_scanBlocks s, x_radixBits s, ()))"
    unfolding less_RadixsortValue_def [abs_def] by (intro ordered_intros)
qed simp

interpretation RadixsortValue: reflected bindFields_RadixsortValue readFields_RadixsortValue fieldNames_RadixsortValue fieldTypes_RadixsortValue less_RadixsortValue
  cells_RadixsortValue ok_RadixsortValue
proof (unfold_locales, goal_cases)
  case (1 Q stmt s)
  show ?case by (simp add: bindFields_RadixsortValue_def cells_RadixsortValue_def bind_unfolds)
next
  case (2 s)
  show ?case by (simp add: cells_RadixsortValue_def fieldTypes_RadixsortValue_def type_unfolds)
next
  case (3 s pre post)
  then show ?case
    by (simp add: readFields_RadixsortValue_def cells_RadixsortValue_def ok_RadixsortValue_def read_drop)
next
  case (4 cs pre post)
  then show ?case
    by (auto simp: readFields_RadixsortValue_def fieldTypes_RadixsortValue_def type_unfolds ok_RadixsortValue_def read_drop
        list_all2_fits_Cons cell_fits_types nat_mod_less)
next
  case 5
  show ?case by (simp add: fieldNames_RadixsortValue_def fieldTypes_RadixsortValue_def type_unfolds)
qed (rule strict_total_RadixsortValue)

end
