(* ===== verification/Cache.thy ===== *)
theory Cache
  imports CacheStructs
begin

text \<open>
  src/cache.h and src/cache.cpp: the SQL that a table of the cache prepares, its constructor,
  insertion and lookup, the connection with its four tables, and the name of the cache file. A
  table is generic in its key and value structures; the reflection functions that overload
  resolution selects are passed as a record.
  The behaviour of SQLite is a hypothesis, \<open>sqlite_ok\<close>, stated over an abstract view of its
  state and only for the statements that the cache prepares; \<open>engine\<close> is a concrete instance.
  Shown: a table behaves as a finite map under every sequence of operations, failed operations
  leave it unchanged, and the constructors leak no statement when they fail.
\<close>

section \<open>The SQL texts\<close>

record ('s, 'db) struct =
  st_bind :: "'db sqlite \<Rightarrow> nat option \<Rightarrow> 's \<Rightarrow> 'db bindfun"
  st_read :: "'s readfun"
  st_names :: "string list"
  st_types :: "string list"

definition writeFieldDefinitions :: "string list \<Rightarrow> string list \<Rightarrow> string" where
  "writeFieldDefinitions names types =
     concat (map (\<lambda>i. names ! i @ '' '' @ types ! i @ '', '') [0..<length names])"

definition writeFieldNames :: "string list \<Rightarrow> string \<Rightarrow> string \<Rightarrow> string" where
  "writeFieldNames names sep suffix =
     concat (map (\<lambda>i. (if 0 < i then sep else []) @ names ! i @ suffix) [0..<length names])"

definition create_text :: "string \<Rightarrow> ('k, 'db) struct \<Rightarrow> ('v, 'db) struct \<Rightarrow> string" where
  "create_text name K V =
     ''CREATE TABLE IF NOT EXISTS '' @ name @ '' ('' @ writeFieldDefinitions (st_names K) (st_types K)
     @ writeFieldDefinitions (st_names V) (st_types V)
     @ ''PRIMARY KEY('' @ writeFieldNames (st_names K) '', '' '''' @ ''))''"

definition insert_text :: "string \<Rightarrow> string list \<Rightarrow> string list \<Rightarrow> string" where
  "insert_text name ks vs =
     ''INSERT OR REPLACE INTO '' @ name @ ''('' @ writeFieldNames ks '', '' '''' @ '', ''
     @ writeFieldNames vs '', '' '''' @ '') VALUES (''
     @ concat (map (\<lambda>i. (if 0 < i then '', '' else []) @ ''?'') [0..<length (ks @ vs)]) @ '')''"

definition select_text :: "string \<Rightarrow> string list \<Rightarrow> string list \<Rightarrow> string" where
  "select_text name ks vs =
     ''SELECT '' @ writeFieldNames vs '', '' '''' @ '' FROM '' @ name @ '' WHERE ''
     @ writeFieldNames ks '' AND '' ''=?''"

section \<open>Statement and connection pointers\<close>

text \<open>
  \<^verbatim>\<open>reset\<close> of the two pointer classes: the old object is released unless it is the new one,
  and a failure is printed. The results are the state and what went to \<^verbatim>\<open>std::cerr\<close>; the
  destructor resets to null.
\<close>

definition sqlite3_stmt_ptr_reset ::
  "'db sqlite \<Rightarrow> nat option \<Rightarrow> nat option \<Rightarrow> 'db \<Rightarrow> 'db \<times> string list" where
  "sqlite3_stmt_ptr_reset Q ptr p db =
     (case ptr of None \<Rightarrow> (db, [])
      | Some st \<Rightarrow>
          if ptr \<noteq> p
          then let (status, db') = sqlite3_finalize Q st db
               in (db', if status \<noteq> SQLITE_OK then [sqlite3_errstr Q status @ ''\<newline>''] else [])
          else (db, []))"

definition sqlite3_ptr_reset ::
  "'db sqlite \<Rightarrow> nat option \<Rightarrow> nat option \<Rightarrow> 'db \<Rightarrow> 'db \<times> string list" where
  "sqlite3_ptr_reset Q ptr p db =
     (case ptr of None \<Rightarrow> (db, [])
      | Some c \<Rightarrow>
          if ptr \<noteq> p
          then let (status, db') = sqlite3_close Q c db
               in (db', if status \<noteq> SQLITE_OK then [sqlite3_errstr Q status @ ''\<newline>''] else [])
          else (db, []))"

section \<open>Tables\<close>

record table =
  con :: "nat option"
  addStmt :: "nat option"
  queryStmt :: "nat option"

text \<open>
  If SQLite reports a failure without a message, the source adds a null pointer to a string; that
  is undefined, and so is \<^verbatim>\<open>the None\<close>.
\<close>

definition createTable ::
  "'db sqlite \<Rightarrow> ('k, 'db) struct \<Rightarrow> ('v, 'db) struct \<Rightarrow> nat option \<Rightarrow> string \<Rightarrow> 'db \<Rightarrow> unit result \<times> 'db" where
  "createTable Q K V c name db =
     (let s = create_text name K V; (status, err, db') = sqlite3_exec Q c s db
      in if status \<noteq> SQLITE_OK \<or> err \<noteq> None then (Inl (CacheError (s @ '': '' @ the err)), db')
         else (Inr (), db'))"

text \<open>
  The two preparing functions share their ending: the statement is stored even when the call
  failed, then the failure is thrown.
\<close>

definition prepare_into ::
  "'db sqlite \<Rightarrow> nat option \<Rightarrow> string \<Rightarrow> nat option \<Rightarrow> 'db
    \<Rightarrow> unit result \<times> nat option \<times> 'db \<times> string list" where
  "prepare_into Q c sql old db =
     (let (status, stmt, db1) = sqlite3_prepare Q c sql db;
          (db2, log) = sqlite3_stmt_ptr_reset Q old stmt db1
      in (if status \<noteq> SQLITE_OK then Inl (CacheError (sqlite3_errstr Q status)) else Inr (), stmt, db2, log))"

definition prepareAdd ::
  "'db sqlite \<Rightarrow> ('k, 'db) struct \<Rightarrow> ('v, 'db) struct \<Rightarrow> string \<Rightarrow> table \<Rightarrow> 'db
    \<Rightarrow> unit result \<times> table \<times> 'db \<times> string list" where
  "prepareAdd Q K V name t db =
     (let (r, st, db', log) =
        prepare_into Q (con t) (insert_text name (st_names K) (st_names V)) (addStmt t) db
      in (r, t\<lparr>addStmt := st\<rparr>, db', log))"

definition prepareQuery ::
  "'db sqlite \<Rightarrow> ('k, 'db) struct \<Rightarrow> ('v, 'db) struct \<Rightarrow> string \<Rightarrow> table \<Rightarrow> 'db
    \<Rightarrow> unit result \<times> table \<times> 'db \<times> string list" where
  "prepareQuery Q K V name t db =
     (let (r, st, db', log) =
        prepare_into Q (con t) (select_text name (st_names K) (st_names V)) (queryStmt t) db
      in (r, t\<lparr>queryStmt := st\<rparr>, db', log))"

text \<open>The destructor releases the members in reverse order.\<close>

definition Table_delete :: "'db sqlite \<Rightarrow> table \<Rightarrow> 'db \<Rightarrow> 'db \<times> string list" where
  "Table_delete Q t db =
     (let (db1, l1) = sqlite3_stmt_ptr_reset Q (queryStmt t) None db;
          (db2, l2) = sqlite3_stmt_ptr_reset Q (addStmt t) None db1
      in (db2, l1 @ l2))"

text \<open>The constructor; an exception in its body destroys the members.\<close>

definition Table_new ::
  "'db sqlite \<Rightarrow> ('k, 'db) struct \<Rightarrow> ('v, 'db) struct \<Rightarrow> nat option \<Rightarrow> string \<Rightarrow> 'db
    \<Rightarrow> table result \<times> 'db \<times> string list" where
  "Table_new Q K V c name db =
     (let t0 = \<lparr>con = c, addStmt = None, queryStmt = None\<rparr>
      in case createTable Q K V c name db of
        (Inl e, db1) \<Rightarrow> (let (db2, l) = Table_delete Q t0 db1 in (Inl e, db2, l))
      | (Inr _, db1) \<Rightarrow>
          (case prepareAdd Q K V name t0 db1 of
             (Inl e, t1, db2, l1) \<Rightarrow> (let (db3, l2) = Table_delete Q t1 db2 in (Inl e, db3, l1 @ l2))
           | (Inr _, t1, db2, l1) \<Rightarrow>
               (case prepareQuery Q K V name t1 db2 of
                  (Inl e, t2, db3, l2) \<Rightarrow>
                    (let (db4, l3) = Table_delete Q t2 db3 in (Inl e, db4, l1 @ l2 @ l3))
                | (Inr _, t2, db3, l2) \<Rightarrow> (Inr t2, db3, l1 @ l2))))"

definition Table_add ::
  "'db sqlite \<Rightarrow> ('k, 'db) struct \<Rightarrow> ('v, 'db) struct \<Rightarrow> table \<Rightarrow> 'k \<Rightarrow> 'v \<Rightarrow> 'db \<Rightarrow> unit result \<times> 'db" where
  "Table_add Q K V t key val db =
     (let (_, db0) = sqlite3_reset Q (addStmt t) db
      in case bind_seq [st_bind K Q (addStmt t) key, st_bind V Q (addStmt t) val] 1 db0 of
        (Inl e, db1) \<Rightarrow> (Inl e, db1)
      | (Inr pos, db1) \<Rightarrow>
          (let (status, db2) = sqlite3_step Q (addStmt t) db1
           in if status \<noteq> SQLITE_DONE then (Inl (CacheError (sqlite3_errstr Q status)), db2)
              else (Inr (), db2)))"

text \<open>The outer option of the result is \<open>None\<close> when an assertion of \<^verbatim>\<open>readFields\<close> fails.\<close>

definition Table_lookup ::
  "'db sqlite \<Rightarrow> ('k, 'db) struct \<Rightarrow> ('v, 'db) struct \<Rightarrow> table \<Rightarrow> 'k \<Rightarrow> 'db
    \<Rightarrow> 'v option result option \<times> 'db" where
  "Table_lookup Q K V t key db =
     (let (_, db0) = sqlite3_reset Q (queryStmt t) db
      in case st_bind K Q (queryStmt t) key 1 db0 of
        (Inl e, db1) \<Rightarrow> (Some (Inl e), db1)
      | (Inr pos, db1) \<Rightarrow>
          (let (status, db2) = sqlite3_step Q (queryStmt t) db1
           in if status = SQLITE_DONE then (Some (Inr None), db2)
              else if status \<noteq> SQLITE_ROW then (Some (Inl (CacheError (sqlite3_errstr Q status))), db2)
              else (case st_read V (sqlite3_column Q (queryStmt t) db2) 0 of
                  None \<Rightarrow> (None, db2)
                | Some (v, pos) \<Rightarrow> (Some (Inr (Some v)), db2))))"

section \<open>What is assumed of SQLite\<close>

text \<open>
  The view of a database state: the SQL of every live statement, whether it has been reset since
  it was last stepped, its bound parameters, and the rows of every table as a map from the cells
  of the primary key to the other cells.
\<close>

record 'db view =
  v_live :: "'db \<Rightarrow> nat \<Rightarrow> string option"
  v_ready :: "'db \<Rightarrow> nat \<Rightarrow> bool"
  v_params :: "'db \<Rightarrow> nat \<Rightarrow> nat \<Rightarrow> cell"
  v_rows :: "'db \<Rightarrow> string \<Rightarrow> cell list \<rightharpoonup> cell list"

record schema =
  sc_name :: string
  sc_keys :: "string list"
  sc_ktypes :: "string list"
  sc_vals :: "string list"
  sc_vtypes :: "string list"

definition sc_insert :: "schema \<Rightarrow> string" where
  "sc_insert s = insert_text (sc_name s) (sc_keys s) (sc_vals s)"

definition sc_select :: "schema \<Rightarrow> string" where
  "sc_select s = select_text (sc_name s) (sc_keys s) (sc_vals s)"

definition slots :: "(nat \<Rightarrow> cell) \<Rightarrow> nat \<Rightarrow> nat \<Rightarrow> cell list" where
  "slots p start n = map p [start..<start + n]"

text \<open>
  The documented behaviour of the calls. \<^verbatim>\<open>sqlite3_reset\<close> makes a statement ready and
  keeps its bindings; binding a slot of a ready statement sets it; a step of a ready
  insertion whose cells have the types of the columns replaces the row when it answers DONE and
  changes nothing when it does not; a step of a ready query answers DONE when there is no row
  with the key, and ROW with the columns when there is one. No other connection writes the file.
\<close>

definition reset_law :: "'db sqlite \<Rightarrow> 'db view \<Rightarrow> bool" where
  "reset_law Q W \<longleftrightarrow> (\<forall>st sql db r db'. v_live W db st = Some sql \<longrightarrow> sqlite3_reset Q (Some st) db = (r, db')
     \<longrightarrow> v_live W db' = v_live W db \<and> v_rows W db' = v_rows W db \<and> v_params W db' = v_params W db
       \<and> v_ready W db' st)"

definition bind_law :: "'db sqlite \<Rightarrow> 'db view \<Rightarrow> bool" where
  "bind_law Q W \<longleftrightarrow> (\<forall>st i c db r db'. v_ready W db st \<longrightarrow> sqlite3_bind Q (Some st) i c db = (r, db')
     \<longrightarrow> v_live W db' = v_live W db \<and> v_rows W db' = v_rows W db \<and> v_ready W db' st
       \<and> (r = SQLITE_OK \<longrightarrow> v_params W db' st = (v_params W db st)(i := c)))"

definition insert_law :: "'db sqlite \<Rightarrow> 'db view \<Rightarrow> schema list \<Rightarrow> bool" where
  "insert_law Q W scs \<longleftrightarrow> (\<forall>s st db r db' ks vs. s \<in> set scs \<longrightarrow> v_live W db st = Some (sc_insert s)
     \<longrightarrow> v_ready W db st \<longrightarrow> sqlite3_step Q (Some st) db = (r, db')
     \<longrightarrow> ks = slots (v_params W db st) 1 (length (sc_keys s))
     \<longrightarrow> vs = slots (v_params W db st) (1 + length (sc_keys s)) (length (sc_vals s))
     \<longrightarrow> list_all2 cell_fits (sc_ktypes s @ sc_vtypes s) (ks @ vs)
     \<longrightarrow> v_live W db' = v_live W db
       \<and> v_rows W db' = (if r = SQLITE_DONE
            then (v_rows W db)(sc_name s := (v_rows W db (sc_name s))(ks \<mapsto> vs)) else v_rows W db))"

definition select_law :: "'db sqlite \<Rightarrow> 'db view \<Rightarrow> schema list \<Rightarrow> bool" where
  "select_law Q W scs \<longleftrightarrow> (\<forall>s st db r db' ks. s \<in> set scs \<longrightarrow> v_live W db st = Some (sc_select s)
     \<longrightarrow> v_ready W db st \<longrightarrow> sqlite3_step Q (Some st) db = (r, db')
     \<longrightarrow> ks = slots (v_params W db st) 1 (length (sc_keys s))
     \<longrightarrow> list_all2 cell_fits (sc_ktypes s) ks
     \<longrightarrow> v_live W db' = v_live W db \<and> v_rows W db' = v_rows W db
       \<and> (r = SQLITE_DONE \<longrightarrow> v_rows W db (sc_name s) ks = None)
       \<and> (r = SQLITE_ROW \<longrightarrow> v_rows W db (sc_name s) ks = Some (sqlite3_column Q (Some st) db')))"

definition sqlite_ok :: "'db sqlite \<Rightarrow> 'db view \<Rightarrow> schema list \<Rightarrow> bool" where
  "sqlite_ok Q W scs \<longleftrightarrow> reset_law Q W \<and> bind_law Q W \<and> insert_law Q W scs \<and> select_law Q W scs"

text \<open>
  Preparing a statement creates a live one, or fails and gives null; finalizing removes it;
  creating a table and closing a connection neither create nor remove statements, and none of the
  four changes a row.
\<close>

definition sqlite_stmt_ok :: "'db sqlite \<Rightarrow> 'db view \<Rightarrow> bool" where
  "sqlite_stmt_ok Q W \<longleftrightarrow>
     (\<forall>c sql db r st db'. sqlite3_prepare Q c sql db = (r, st, db')
        \<longrightarrow> (case st of None \<Rightarrow> r \<noteq> SQLITE_OK \<and> v_live W db' = v_live W db
            | Some n \<Rightarrow> r = SQLITE_OK \<and> v_live W db n = None \<and> v_live W db' = (v_live W db)(n \<mapsto> sql))
          \<and> v_rows W db' = v_rows W db)
     \<and> (\<forall>n db r db'. sqlite3_finalize Q n db = (r, db')
        \<longrightarrow> v_live W db' = (v_live W db)(n := None) \<and> v_rows W db' = v_rows W db)
     \<and> (\<forall>c sql db r err db'. sqlite3_exec Q c sql db = (r, err, db')
        \<longrightarrow> v_live W db' = v_live W db \<and> v_rows W db' = v_rows W db)
     \<and> (\<forall>c db r db'. sqlite3_close Q c db = (r, db')
        \<longrightarrow> v_live W db' = v_live W db \<and> v_rows W db' = v_rows W db)"

section \<open>The specification of a table\<close>

datatype ('k, 'v) table_op = Add 'k 'v | Lookup 'k
datatype 'v outcome = Added | Found 'v | Absent | Failed exn | Aborted

definition table_step ::
  "'db sqlite \<Rightarrow> ('k, 'db) struct \<Rightarrow> ('v, 'db) struct \<Rightarrow> table \<Rightarrow> ('k, 'v) table_op \<Rightarrow> 'db
    \<Rightarrow> 'v outcome \<times> 'db" where
  "table_step Q K V t oper db = (case oper of
       Add k v \<Rightarrow> (case Table_add Q K V t k v db of
           (Inl e, db') \<Rightarrow> (Failed e, db') | (Inr _, db') \<Rightarrow> (Added, db'))
     | Lookup k \<Rightarrow> (case Table_lookup Q K V t k db of
           (None, db') \<Rightarrow> (Aborted, db')
         | (Some (Inl e), db') \<Rightarrow> (Failed e, db')
         | (Some (Inr None), db') \<Rightarrow> (Absent, db')
         | (Some (Inr (Some v)), db') \<Rightarrow> (Found v, db')))"

fun table_run ::
  "'db sqlite \<Rightarrow> ('k, 'db) struct \<Rightarrow> ('v, 'db) struct \<Rightarrow> table \<Rightarrow> ('k, 'v) table_op list \<Rightarrow> 'db
    \<Rightarrow> 'v outcome list \<times> 'db" where
  "table_run Q K V t [] db = ([], db)"
| "table_run Q K V t (x # xs) db =
     (let (y, db1) = table_step Q K V t x db; (ys, db2) = table_run Q K V t xs db1 in (y # ys, db2))"

text \<open>
  The abstract table is a finite map. An operation may fail with a \<^verbatim>\<open>CacheError\<close>, which
  leaves the map as it is; otherwise its outcome is determined by the map. \<open>map_run\<close> is
  \<open>None\<close> when a list of outcomes is not one that the map allows.
\<close>

fun map_step :: "('k, 'v) table_op \<Rightarrow> 'v outcome \<Rightarrow> ('k \<rightharpoonup> 'v) \<Rightarrow> ('k \<rightharpoonup> 'v) option" where
  "map_step (Add k v) Added m = Some (m(k \<mapsto> v))"
| "map_step (Lookup k) (Found v) m = (if m k = Some v then Some m else None)"
| "map_step (Lookup k) Absent m = (if m k = None then Some m else None)"
| "map_step oper (Failed (CacheError msg)) m = Some m"
| "map_step oper y m = None"

fun map_run :: "('k, 'v) table_op list \<Rightarrow> 'v outcome list \<Rightarrow> ('k \<rightharpoonup> 'v) \<Rightarrow> ('k \<rightharpoonup> 'v) option" where
  "map_run [] [] m = Some m"
| "map_run (x # xs) (y # ys) m = (case map_step x y m of None \<Rightarrow> None | Some m' \<Rightarrow> map_run xs ys m')"
| "map_run xs ys m = None"

fun op_ok :: "('k \<Rightarrow> bool) \<Rightarrow> ('v \<Rightarrow> bool) \<Rightarrow> ('k, 'v) table_op \<Rightarrow> bool" where
  "op_ok okk okv (Add k v) \<longleftrightarrow> okk k \<and> okv v"
| "op_ok okk okv (Lookup k) \<longleftrightarrow> okk k"

section \<open>A table refines a finite map\<close>

lemma bind_seq_two: "bind_seq [bind_seq fs, bind_seq gs] = bind_seq (fs @ gs)"
  by (rule ext)+ (auto simp: bind_seq_append split: prod.splits sum.splits)

lemma slots_bound:
  assumes "\<forall>i. p i = (if a \<le> i \<and> i < a + length (cs @ ds) then (cs @ ds) ! (i - a) else p0 i)"
    and "n = length cs" "m = length ds"
  shows "slots p a n = cs" "slots p (a + n) m = ds"
proof -
  show "slots p a n = cs" unfolding slots_def
    by (rule nth_equalityI) (simp_all add: assms nth_append)
  show "slots p (a + n) m = ds" unfolding slots_def
    by (rule nth_equalityI) (simp_all add: assms nth_append)
qed

lemma sqlite_okD:
  assumes "sqlite_ok Q W scs"
  shows "reset_law Q W" "bind_law Q W" "insert_law Q W scs" "select_law Q W scs"
  using assms by (simp_all add: sqlite_ok_def)

lemma insert_lawD:
  assumes "insert_law Q W scs" "s \<in> set scs" "v_live W db st = Some (sc_insert s)" "v_ready W db st"
    and "sqlite3_step Q (Some st) db = (r, db')"
    and "slots (v_params W db st) 1 (length (sc_keys s)) = ks"
    and "slots (v_params W db st) (1 + length (sc_keys s)) (length (sc_vals s)) = vs"
    and "list_all2 cell_fits (sc_ktypes s @ sc_vtypes s) (ks @ vs)"
  shows "v_live W db' = v_live W db \<and> v_rows W db' = (if r = SQLITE_DONE
      then (v_rows W db)(sc_name s := (v_rows W db (sc_name s))(ks \<mapsto> vs)) else v_rows W db)"
  using assms(1) [unfolded insert_law_def, rule_format,
      OF assms(2-5) assms(6) [symmetric] assms(7) [symmetric] assms(8)] .

lemma select_lawD:
  assumes "select_law Q W scs" "s \<in> set scs" "v_live W db st = Some (sc_select s)" "v_ready W db st"
    and "sqlite3_step Q (Some st) db = (r, db')"
    and "slots (v_params W db st) 1 (length (sc_keys s)) = ks"
    and "list_all2 cell_fits (sc_ktypes s) ks"
  shows "v_live W db' = v_live W db" "v_rows W db' = v_rows W db"
    "r = SQLITE_DONE \<Longrightarrow> v_rows W db (sc_name s) ks = None"
    "r = SQLITE_ROW \<Longrightarrow> v_rows W db (sc_name s) ks = Some (sqlite3_column Q (Some st) db')"
  using assms(1) [unfolded select_law_def, rule_format, OF assms(2-5) assms(6) [symmetric] assms(7)]
  by auto

lemma bind_cells_ok:
  assumes "bind_law Q W" "v_ready W db st" "bind_cells Q (Some st) cs pos db = (r, db')"
  shows "v_live W db' = v_live W db \<and> v_rows W db' = v_rows W db \<and> v_ready W db' st
    \<and> (case r of Inl e \<Rightarrow> \<exists>m. e = CacheError m
       | Inr p \<Rightarrow> p = pos + length cs
           \<and> (\<forall>i. v_params W db' st i = (if pos \<le> i \<and> i < p then cs ! (i - pos) else v_params W db st i)))"
  using assms(2,3)
proof (induction cs arbitrary: pos db)
  case Nil
  then show ?case by (auto simp: bind_cells_def)
next
  case (Cons c cs)
  obtain s d where b: "sqlite3_bind Q (Some st) pos c db = (s, d)" by (cases "sqlite3_bind Q (Some st) pos c db")
  have law: "v_live W d = v_live W db \<and> v_rows W d = v_rows W db \<and> v_ready W d st
      \<and> (s = SQLITE_OK \<longrightarrow> v_params W d st = (v_params W db st)(pos := c))"
    using assms(1) Cons.prems(1) b unfolding bind_law_def by blast
  show ?case
  proof (cases "s = SQLITE_OK")
    case False
    then show ?thesis using Cons.prems(2) law b by (auto simp: bind_cells_def bind_cell_def)
  next
    case True
    then have "bind_cells Q (Some st) cs (Suc pos) d = (r, db')"
      using Cons.prems(2) b by (simp add: bind_cells_def bind_cell_def)
    from Cons.IH [OF _ this] law have
      ih: "v_live W db' = v_live W d" "v_rows W db' = v_rows W d" "v_ready W db' st"
      "case r of Inl e \<Rightarrow> \<exists>m. e = CacheError m
       | Inr p \<Rightarrow> p = Suc pos + length cs
           \<and> (\<forall>i. v_params W db' st i = (if Suc pos \<le> i \<and> i < p then cs ! (i - Suc pos) else v_params W d st i))"
      by auto
    show ?thesis using ih law True
      by (cases r) (auto simp: nth_Cons' diff_Suc_eq_diff_pred [symmetric] le_less_Suc_eq not_less_eq_eq)
  qed
qed

definition table_map ::
  "'db view \<Rightarrow> string \<Rightarrow> ('k \<Rightarrow> cell list) \<Rightarrow> ('k \<Rightarrow> bool) \<Rightarrow> ('v, 'db) struct \<Rightarrow> 'db \<Rightarrow> 'k \<rightharpoonup> 'v" where
  "table_map W name cellsK okK V db k =
     (if okK k then map_option (\<lambda>cs. fst (the (st_read V cs 0))) (v_rows W db name (cellsK k)) else None)"

text \<open>Both statements are live, and the rows have the types of the columns.\<close>

definition table_inv :: "'db view \<Rightarrow> schema \<Rightarrow> table \<Rightarrow> 'db \<Rightarrow> bool" where
  "table_inv W s t db \<longleftrightarrow>
     (case addStmt t of None \<Rightarrow> False | Some a \<Rightarrow> v_live W db a = Some (sc_insert s))
     \<and> (case queryStmt t of None \<Rightarrow> False | Some q \<Rightarrow> v_live W db q = Some (sc_select s))
     \<and> (\<forall>ks vs. v_rows W db (sc_name s) ks = Some vs \<longrightarrow> list_all2 cell_fits (sc_vtypes s) vs)"

lemma table_inv_cong:
  "v_live W db' = v_live W db \<Longrightarrow> v_rows W db' = v_rows W db \<Longrightarrow> table_inv W s t db' = table_inv W s t db"
  by (simp add: table_inv_def split: option.split)

lemma table_inv_update:
  "table_inv W s t db \<Longrightarrow> v_live W db' = v_live W db \<Longrightarrow> list_all2 cell_fits (sc_vtypes s) vs
   \<Longrightarrow> v_rows W db' = (v_rows W db)(sc_name s := (v_rows W db (sc_name s))(ks \<mapsto> vs)) \<Longrightarrow> table_inv W s t db'"
  by (auto simp: table_inv_def split: option.splits if_splits)

definition schema_of :: "string \<Rightarrow> ('k, 'db) struct \<Rightarrow> ('v, 'db) struct \<Rightarrow> schema" where
  "schema_of name K V = \<lparr>sc_name = name, sc_keys = st_names K, sc_ktypes = st_types K,
     sc_vals = st_names V, sc_vtypes = st_types V\<rparr>"

lemma schema_of_simps [simp]:
  "sc_name (schema_of n K V) = n" "sc_keys (schema_of n K V) = st_names K"
  "sc_ktypes (schema_of n K V) = st_types K" "sc_vals (schema_of n K V) = st_names V"
  "sc_vtypes (schema_of n K V) = st_types V"
  by (simp_all add: schema_of_def)

locale keyed_table =
  K: reflected "st_bind K" "st_read K" "st_names K" "st_types K" lessK cellsK okK
  + V: reflected "st_bind V" "st_read V" "st_names V" "st_types V" lessV cellsV okV
  for K :: "('k, 'db) struct" and lessK cellsK okK and V :: "('v, 'db) struct" and lessV cellsV okV
begin

lemma add_step:
  assumes ok: "sqlite_ok Q W scs" "schema_of name K V \<in> set scs"
    and inv: "table_inv W (schema_of name K V) t db" and okkv: "okK k" "okV v"
    and run: "Table_add Q K V t k v db = (r, db')"
  shows "v_live W db' = v_live W db \<and> table_inv W (schema_of name K V) t db'
    \<and> (case r of Inl e \<Rightarrow> v_rows W db' = v_rows W db \<and> (\<exists>m. e = CacheError m)
       | Inr _ \<Rightarrow> v_rows W db' = (v_rows W db)(name := (v_rows W db name)(cellsK k \<mapsto> cellsV v)))"
proof -
  obtain a where a: "addStmt t = Some a" "v_live W db a = Some (sc_insert (schema_of name K V))"
    using inv by (auto simp: table_inv_def split: option.splits)
  obtain x0 d0 where r0: "sqlite3_reset Q (Some a) db = (x0, d0)" by (cases "sqlite3_reset Q (Some a) db")
  then have l0: "v_live W d0 = v_live W db" "v_rows W d0 = v_rows W db" "v_ready W d0 a"
    using ok(1) a(2) unfolding sqlite_ok_def reset_law_def by blast+
  obtain x1 d1 where r1: "bind_cells Q (Some a) (cellsK k @ cellsV v) 1 d0 = (x1, d1)"
    by (cases "bind_cells Q (Some a) (cellsK k @ cellsV v) 1 d0")
  have l1: "v_live W d1 = v_live W d0" "v_rows W d1 = v_rows W d0" "v_ready W d1 a"
    "case x1 of Inl e \<Rightarrow> \<exists>m. e = CacheError m
     | Inr p \<Rightarrow> p = 1 + length (cellsK k @ cellsV v)
       \<and> (\<forall>i. v_params W d1 a i = (if 1 \<le> i \<and> i < p then (cellsK k @ cellsV v) ! (i - 1) else v_params W d0 a i))"
    using bind_cells_ok [OF _ l0(3) r1] ok(1) unfolding sqlite_ok_def by blast+
  have bnd: "bind_seq [st_bind K Q (addStmt t) k, st_bind V Q (addStmt t) v] 1 d0 = (x1, d1)"
    using r1 unfolding K.bnd_cells V.bnd_cells bind_cells_def a(1) bind_seq_two by simp
  show ?thesis
  proof (cases x1)
    case (Inl e)
    then have "r = Inl e" "db' = d1" using run r0 bnd by (simp_all add: Table_add_def a(1))
    then show ?thesis using l1 l0 inv Inl table_inv_cong [of W d1 db] by auto
  next
    case (Inr p)
    obtain s d2 where st: "sqlite3_step Q (Some a) d1 = (s, d2)" by (cases "sqlite3_step Q (Some a) d1")
    have par: "\<forall>i. v_params W d1 a i = (if 1 \<le> i \<and> i < 1 + length (cellsK k @ cellsV v)
        then (cellsK k @ cellsV v) ! (i - 1) else v_params W d0 a i)"
      using l1(4) Inr by simp
    note sl = slots_bound [OF par K.length_cells [symmetric] V.length_cells [symmetric]]
    have law: "v_live W d2 = v_live W d1 \<and> v_rows W d2 = (if s = SQLITE_DONE
        then (v_rows W d1)(name := (v_rows W d1 name)(cellsK k \<mapsto> cellsV v)) else v_rows W d1)"
      using insert_lawD [OF sqlite_okD(3) [OF ok(1)] ok(2) _ l1(3) st, of "cellsK k" "cellsV v"]
        a(2) l0(1) l1(1) sl list_all2_appendI [OF K.fits V.fits] by simp
    have "r = (if s = SQLITE_DONE then Inr () else Inl (CacheError (sqlite3_errstr Q s)))" "db' = d2"
      using run r0 bnd st Inr by (auto simp: Table_add_def a(1) split: if_splits)
    then show ?thesis using law l0 l1 inv table_inv_cong [of W d2 db] V.fits
        table_inv_update [OF inv, of d2 "cellsV v" "cellsK k"]
      by (cases "s = SQLITE_DONE") simp_all
  qed
qed

lemma lookup_step:
  assumes ok: "sqlite_ok Q W scs" "schema_of name K V \<in> set scs"
    and inv: "table_inv W (schema_of name K V) t db" and okk: "okK k"
    and run: "Table_lookup Q K V t k db = (r, db')"
  shows "v_live W db' = v_live W db \<and> v_rows W db' = v_rows W db
    \<and> (case r of None \<Rightarrow> False | Some (Inl e) \<Rightarrow> \<exists>m. e = CacheError m
       | Some (Inr res) \<Rightarrow> res = table_map W name cellsK okK V db k)"
proof -
  obtain q where q: "queryStmt t = Some q" "v_live W db q = Some (sc_select (schema_of name K V))"
    using inv by (auto simp: table_inv_def split: option.splits)
  obtain x0 d0 where r0: "sqlite3_reset Q (Some q) db = (x0, d0)" by (cases "sqlite3_reset Q (Some q) db")
  then have l0: "v_live W d0 = v_live W db" "v_rows W d0 = v_rows W db" "v_ready W d0 q"
    using ok(1) q(2) unfolding sqlite_ok_def reset_law_def by blast+
  obtain x1 d1 where r1: "bind_cells Q (Some q) (cellsK k) 1 d0 = (x1, d1)"
    by (cases "bind_cells Q (Some q) (cellsK k) 1 d0")
  have l1: "v_live W d1 = v_live W d0" "v_rows W d1 = v_rows W d0" "v_ready W d1 q"
    "case x1 of Inl e \<Rightarrow> \<exists>m. e = CacheError m
     | Inr p \<Rightarrow> p = 1 + length (cellsK k)
       \<and> (\<forall>i. v_params W d1 q i = (if 1 \<le> i \<and> i < p then cellsK k ! (i - 1) else v_params W d0 q i))"
    using bind_cells_ok [OF _ l0(3) r1] ok(1) unfolding sqlite_ok_def by blast+
  have bnd: "st_bind K Q (queryStmt t) k 1 d0 = (x1, d1)"
    using r1 by (simp add: K.bnd_cells q(1))
  show ?thesis
  proof (cases x1)
    case (Inl e)
    then have "r = Some (Inl e)" "db' = d1" using run r0 bnd by (simp_all add: Table_lookup_def q(1))
    then show ?thesis using l1 l0 Inl by auto
  next
    case (Inr p)
    obtain s d2 where st: "sqlite3_step Q (Some q) d1 = (s, d2)" by (cases "sqlite3_step Q (Some q) d1")
    have par: "\<forall>i. v_params W d1 q i = (if 1 \<le> i \<and> i < 1 + length (cellsK k @ [])
        then (cellsK k @ []) ! (i - 1) else v_params W d0 q i)"
      using l1(4) Inr by simp
    note sl = slots_bound(1) [OF par K.length_cells [symmetric] refl]
    have pre: "v_live W d1 q = Some (sc_select (schema_of name K V))"
      "slots (v_params W d1 q) 1 (length (sc_keys (schema_of name K V))) = cellsK k"
      "list_all2 cell_fits (sc_ktypes (schema_of name K V)) (cellsK k)"
      using q(2) l0(1) l1(1) sl K.fits by simp_all
    note law = select_lawD [OF sqlite_okD(4) [OF ok(1)] ok(2) pre(1) l1(3) st pre(2,3),
        unfolded schema_of_simps]
    show ?thesis
    proof (cases "s = SQLITE_ROW")
      case True
      let ?c = "sqlite3_column Q (Some q) d2"
      have row: "v_rows W db name (cellsK k) = Some ?c" using law(4) [OF True] l0 l1 by simp
      then have "list_all2 cell_fits (st_types V) ?c" using inv by (auto simp: table_inv_def)
      then obtain v where v: "st_read V ?c 0 = Some (v, length (st_names V))" using V.readable by blast
      have "r = Some (Inr (Some v))" "db' = d2"
        using run r0 bnd st Inr True v
        by (simp_all add: Table_lookup_def q(1) SQLITE_ROW_def SQLITE_DONE_def)
      then show ?thesis using law l0 l1 row v okk by (simp add: table_map_def)
    next
      case False
      then show ?thesis using run r0 bnd st Inr law l0 l1 okk
        by (auto simp: Table_lookup_def q(1) table_map_def split: if_splits)
    qed
  qed
qed


lemma table_map_update:
  "v_rows W db' = (v_rows W db)(name := (v_rows W db name)(cellsK k \<mapsto> cellsV v)) \<Longrightarrow> okK k \<Longrightarrow> okV v
   \<Longrightarrow> table_map W name cellsK okK V db' = (table_map W name cellsK okK V db)(k \<mapsto> v)"
  by (rule ext) (simp add: table_map_def K.cells_inj V.read_bound)

lemma table_map_cong:
  "v_rows W db' = v_rows W db \<Longrightarrow> table_map W name cellsK okK V db' = table_map W name cellsK okK V db"
  by (rule ext) (simp add: table_map_def)

lemma step_refines:
  assumes ok: "sqlite_ok Q W scs" "schema_of name K V \<in> set scs"
    and inv: "table_inv W (schema_of name K V) t db" and x: "op_ok okK okV x"
    and run: "table_step Q K V t x db = (y, db')"
  shows "map_step x y (table_map W name cellsK okK V db) = Some (table_map W name cellsK okK V db')
    \<and> table_inv W (schema_of name K V) t db' \<and> v_live W db' = v_live W db
    \<and> (\<forall>n. n \<noteq> name \<longrightarrow> v_rows W db' n = v_rows W db n)"
proof (cases x)
  case (Add k v)
  obtain r d where a: "Table_add Q K V t k v db = (r, d)" by (cases "Table_add Q K V t k v db")
  have d: "db' = d" "y = (case r of Inl e \<Rightarrow> Failed e | Inr _ \<Rightarrow> Added)"
    using run a by (auto simp: table_step_def Add split: sum.splits)
  have okkv: "okK k" "okV v" using x Add by simp_all
  note s = add_step [OF ok inv okkv a]
  show ?thesis
  proof (cases r)
    case (Inl e)
    with s obtain m where "e = CacheError m" "v_rows W d = v_rows W db" by auto
    then show ?thesis using s d Inl Add table_map_cong [of W d db] by simp
  next
    case (Inr u)
    then show ?thesis using s d Add table_map_update [OF _ okkv, of W d db name] by simp
  qed
next
  case (Lookup k)
  obtain r d where a: "Table_lookup Q K V t k db = (r, d)" by (cases "Table_lookup Q K V t k db")
  have okk: "okK k" using x Lookup by simp
  note s = lookup_step [OF ok inv okk a]
  have same: "v_live W d = v_live W db" "v_rows W d = v_rows W db" using s by simp_all
  obtain r' where r: "r = Some r'" using s by (cases r) auto
  have "db' = d" using run a r by (auto simp: table_step_def Lookup split: sum.splits option.splits)
  moreover have "map_step x y (table_map W name cellsK okK V db) = Some (table_map W name cellsK okK V db)"
  proof (cases r')
    case (Inl e)
    with s r obtain m where "e = CacheError m" by auto
    then show ?thesis using run a r Inl by (auto simp: table_step_def Lookup)
  next
    case (Inr res)
    then show ?thesis using run a r s by (cases res) (auto simp: table_step_def Lookup)
  qed
  ultimately show ?thesis using same inv table_inv_cong [of W d db] table_map_cong [of W d db] by simp
qed

lemma run_refines:
  assumes ok: "sqlite_ok Q W scs" "schema_of name K V \<in> set scs"
  shows "table_inv W (schema_of name K V) t db \<Longrightarrow> list_all (op_ok okK okV) xs
    \<Longrightarrow> table_run Q K V t xs db = (ys, db')
    \<Longrightarrow> map_run xs ys (table_map W name cellsK okK V db) = Some (table_map W name cellsK okK V db')
      \<and> table_inv W (schema_of name K V) t db' \<and> v_live W db' = v_live W db
      \<and> (\<forall>n. n \<noteq> name \<longrightarrow> v_rows W db' n = v_rows W db n)"
proof (induction xs arbitrary: ys db)
  case Nil
  then show ?case by simp
next
  case (Cons x xs)
  obtain y d where s: "table_step Q K V t x db = (y, d)" by (cases "table_step Q K V t x db")
  obtain ys' d' where r: "table_run Q K V t xs d = (ys', d')" by (cases "table_run Q K V t xs d")
  have eq: "ys = y # ys'" "db' = d'" using Cons.prems(3) s r by simp_all
  have "op_ok okK okV x" "list_all (op_ok okK okV) xs" using Cons.prems(2) by simp_all
  with step_refines [OF ok Cons.prems(1) _ s] Cons.IH [of d ys'] r eq show ?case by simp
qed

end

text \<open>The interface of a structure that is passed as a record.\<close>

definition reflects ::
  "('s, 'db) struct \<Rightarrow> ('s \<Rightarrow> 's \<Rightarrow> bool) \<Rightarrow> ('s \<Rightarrow> cell list) \<Rightarrow> ('s \<Rightarrow> bool) \<Rightarrow> bool" where
  "reflects S lss cells ok \<longleftrightarrow> reflected (st_bind S) (st_read S) (st_names S) (st_types S) lss cells ok"

lemma keyed_tableI:
  "reflects K lessK cellsK okK \<Longrightarrow> reflects V lessV cellsV okV
   \<Longrightarrow> keyed_table K lessK cellsK okK V lessV cellsV okV"
  by (simp add: reflects_def keyed_table_def)

section \<open>The four tables\<close>

definition KernelKey_struct :: "(kernel_key, 'db) struct" where
  "KernelKey_struct = \<lparr>st_bind = bindFields_KernelKey, st_read = readFields_KernelKey,
     st_names = fieldNames_KernelKey, st_types = fieldTypes_KernelKey\<rparr>"

definition KernelValue_struct :: "(kernel_value, 'db) struct" where
  "KernelValue_struct = \<lparr>st_bind = bindFields_KernelValue, st_read = readFields_KernelValue,
     st_names = fieldNames_KernelValue, st_types = fieldTypes_KernelValue\<rparr>"

definition ScanKey_struct :: "(scan_key, 'db) struct" where
  "ScanKey_struct = \<lparr>st_bind = bindFields_ScanKey, st_read = readFields_ScanKey,
     st_names = fieldNames_ScanKey, st_types = fieldTypes_ScanKey\<rparr>"

definition ScanValue_struct :: "(scan_value, 'db) struct" where
  "ScanValue_struct = \<lparr>st_bind = bindFields_ScanValue, st_read = readFields_ScanValue,
     st_names = fieldNames_ScanValue, st_types = fieldTypes_ScanValue\<rparr>"

definition ReduceKey_struct :: "(reduce_key, 'db) struct" where
  "ReduceKey_struct = \<lparr>st_bind = bindFields_ReduceKey, st_read = readFields_ReduceKey,
     st_names = fieldNames_ReduceKey, st_types = fieldTypes_ReduceKey\<rparr>"

definition ReduceValue_struct :: "(reduce_value, 'db) struct" where
  "ReduceValue_struct = \<lparr>st_bind = bindFields_ReduceValue, st_read = readFields_ReduceValue,
     st_names = fieldNames_ReduceValue, st_types = fieldTypes_ReduceValue\<rparr>"

definition RadixsortKey_struct :: "(radix_key, 'db) struct" where
  "RadixsortKey_struct = \<lparr>st_bind = bindFields_RadixsortKey, st_read = readFields_RadixsortKey,
     st_names = fieldNames_RadixsortKey, st_types = fieldTypes_RadixsortKey\<rparr>"

definition RadixsortValue_struct :: "(radix_value, 'db) struct" where
  "RadixsortValue_struct = \<lparr>st_bind = bindFields_RadixsortValue, st_read = readFields_RadixsortValue,
     st_names = fieldNames_RadixsortValue, st_types = fieldTypes_RadixsortValue\<rparr>"

definition kernel_tableName :: string where "kernel_tableName = ''kernel_v1''"
definition scan_tableName :: string where "scan_tableName = ''scan_v6''"
definition reduce_tableName :: string where "reduce_tableName = ''reduce_v1''"
definition radixsort_tableName :: string where "radixsort_tableName = ''radixsort_v5''"

definition scan_schema :: schema where
  "scan_schema = \<lparr>sc_name = scan_tableName, sc_keys = fieldNames_ScanKey, sc_ktypes = fieldTypes_ScanKey,
     sc_vals = fieldNames_ScanValue, sc_vtypes = fieldTypes_ScanValue\<rparr>"

definition reduce_schema :: schema where
  "reduce_schema = \<lparr>sc_name = reduce_tableName, sc_keys = fieldNames_ReduceKey,
     sc_ktypes = fieldTypes_ReduceKey, sc_vals = fieldNames_ReduceValue, sc_vtypes = fieldTypes_ReduceValue\<rparr>"

definition radixsort_schema :: schema where
  "radixsort_schema = \<lparr>sc_name = radixsort_tableName, sc_keys = fieldNames_RadixsortKey,
     sc_ktypes = fieldTypes_RadixsortKey, sc_vals = fieldNames_RadixsortValue,
     sc_vtypes = fieldTypes_RadixsortValue\<rparr>"

definition kernel_schema :: schema where
  "kernel_schema = \<lparr>sc_name = kernel_tableName, sc_keys = fieldNames_KernelKey,
     sc_ktypes = fieldTypes_KernelKey, sc_vals = fieldNames_KernelValue, sc_vtypes = fieldTypes_KernelValue\<rparr>"

definition clogs_schemas :: "schema list" where
  "clogs_schemas = [scan_schema, reduce_schema, radixsort_schema, kernel_schema]"

lemma schema_of_tables:
  "schema_of scan_tableName ScanKey_struct ScanValue_struct = scan_schema"
  "schema_of reduce_tableName ReduceKey_struct ReduceValue_struct = reduce_schema"
  "schema_of radixsort_tableName RadixsortKey_struct RadixsortValue_struct = radixsort_schema"
  "schema_of kernel_tableName KernelKey_struct KernelValue_struct = kernel_schema"
  by (simp_all add: schema_of_def scan_schema_def reduce_schema_def radixsort_schema_def kernel_schema_def
      ScanKey_struct_def ScanValue_struct_def ReduceKey_struct_def ReduceValue_struct_def
      RadixsortKey_struct_def RadixsortValue_struct_def KernelKey_struct_def KernelValue_struct_def)

interpretation scan_table: keyed_table ScanKey_struct less_ScanKey cells_ScanKey ok_ScanKey
  ScanValue_struct less_ScanValue cells_ScanValue ok_ScanValue
  unfolding ScanKey_struct_def ScanValue_struct_def keyed_table_def struct.simps
  by (intro conjI ScanKey.reflected_axioms ScanValue.reflected_axioms)

interpretation reduce_table: keyed_table ReduceKey_struct less_ReduceKey cells_ReduceKey ok_ReduceKey
  ReduceValue_struct less_ReduceValue cells_ReduceValue ok_ReduceValue
  unfolding ReduceKey_struct_def ReduceValue_struct_def keyed_table_def struct.simps
  by (intro conjI ReduceKey.reflected_axioms ReduceValue.reflected_axioms)

interpretation radixsort_table: keyed_table RadixsortKey_struct less_RadixsortKey cells_RadixsortKey
  ok_RadixsortKey RadixsortValue_struct less_RadixsortValue cells_RadixsortValue ok_RadixsortValue
  unfolding RadixsortKey_struct_def RadixsortValue_struct_def keyed_table_def struct.simps
  by (intro conjI RadixsortKey.reflected_axioms RadixsortValue.reflected_axioms)

interpretation kernel_table: keyed_table KernelKey_struct less_KernelKey cells_KernelKey ok_KernelKey
  KernelValue_struct less_KernelValue cells_KernelValue ok_KernelValue
  unfolding KernelKey_struct_def KernelValue_struct_def keyed_table_def struct.simps
  by (intro conjI KernelKey.reflected_axioms KernelValue.reflected_axioms)

section \<open>The connection\<close>

text \<open>
  \<^verbatim>\<open>getCacheFileStatic\<close> on Unix: the environment is a map, and the result also lists the
  directories it tries to create. \<^verbatim>\<open>getCacheFile\<close> computes it once per process: its
  argument and second result are the function-local static.
\<close>

definition getenvString :: "(string \<rightharpoonup> string) \<Rightarrow> string \<Rightarrow> string" where
  "getenvString env name = (case env name of None \<Rightarrow> '''' | Some v \<Rightarrow> v)"

definition getCacheFileStatic :: "(string \<rightharpoonup> string) \<Rightarrow> string \<times> string list" where
  "getCacheFileStatic env =
     (let cacheDir = getenvString env ''CLOGS_CACHE_DIR''
      in if cacheDir = []
         then let xdg = getenvString env ''XDG_CACHE_HOME'';
                  cacheHome = (if xdg = [] then getenvString env ''HOME'' @ ''/.cache'' else xdg);
                  dir = cacheHome @ ''/clogs''
              in (dir @ ''/cache.sqlite'', [cacheHome, dir])
         else (cacheDir @ ''/cache.sqlite'', [cacheDir]))"

definition getCacheFile :: "(string \<rightharpoonup> string) \<Rightarrow> string option \<Rightarrow> string \<times> string list \<times> string option" where
  "getCacheFile env ans =
     (case ans of Some f \<Rightarrow> (f, [], ans)
      | None \<Rightarrow> (let (f, dirs) = getCacheFileStatic env in (f, dirs, Some f)))"

text \<open>
  \<^verbatim>\<open>DB::open\<close>: the third result are the directories created, the last one the static of
  \<^verbatim>\<open>getCacheFile\<close>.
\<close>

definition DB_open ::
  "'db sqlite \<Rightarrow> (string \<rightharpoonup> string) \<Rightarrow> string option \<Rightarrow> 'db
    \<Rightarrow> nat option result \<times> 'db \<times> string list \<times> string option" where
  "DB_open Q env ans db =
     (let (filename, dirs, ans') = getCacheFile env ans; (status, c, db1) = sqlite3_open Q filename db
      in if status \<noteq> SQLITE_OK
         then (Inl (CacheError (sqlite3_errstr Q status)),
               case c of None \<Rightarrow> db1 | Some n \<Rightarrow> snd (sqlite3_close Q n db1), dirs, ans')
         else (Inr c, db1, dirs, ans'))"

record db_object =
  db_con :: "nat option"
  db_scan :: table
  db_reduce :: table
  db_radixsort :: table
  db_kernel :: table

text \<open>
  The destruction of the members that exist when a constructor of a later one throws, in reverse
  order: the tables, then the connection.
\<close>

fun unwind :: "'db sqlite \<Rightarrow> table list \<Rightarrow> nat option \<Rightarrow> 'db \<Rightarrow> 'db \<times> string list" where
  "unwind Q [] c db = sqlite3_ptr_reset Q c None db"
| "unwind Q (t # ts) c db =
     (let (db1, l1) = Table_delete Q t db; (db2, l2) = unwind Q ts c db1 in (db2, l1 @ l2))"

text \<open>
  One member initializer: the table is constructed and the initialization goes on, or what
  exists so far is destroyed.
\<close>

definition init_table ::
  "'db sqlite \<Rightarrow> ('k, 'db) struct \<Rightarrow> ('v, 'db) struct \<Rightarrow> nat option \<Rightarrow> string \<Rightarrow> table list
    \<Rightarrow> (table \<Rightarrow> 'db \<times> string list \<Rightarrow> 'a result \<times> 'db \<times> string list) \<Rightarrow> 'db \<times> string list
    \<Rightarrow> 'a result \<times> 'db \<times> string list" where
  "init_table Q K V c name made cont s =
     (case Table_new Q K V c name (fst s) of
        (Inl e, db1, l1) \<Rightarrow> (let (db2, l2) = unwind Q made c db1 in (Inl e, db2, snd s @ l1 @ l2))
      | (Inr t, db1, l1) \<Rightarrow> cont t (db1, snd s @ l1))"

definition DB_members ::
  "'db sqlite \<Rightarrow> nat option \<Rightarrow> 'db \<Rightarrow> db_object result \<times> 'db \<times> string list" where
  "DB_members Q c db =
     init_table Q ScanKey_struct ScanValue_struct c scan_tableName [] (\<lambda>t1.
     init_table Q ReduceKey_struct ReduceValue_struct c reduce_tableName [t1] (\<lambda>t2.
     init_table Q RadixsortKey_struct RadixsortValue_struct c radixsort_tableName [t2, t1] (\<lambda>t3.
     init_table Q KernelKey_struct KernelValue_struct c kernel_tableName [t3, t2, t1] (\<lambda>t4 s.
       (Inr \<lparr>db_con = c, db_scan = t1, db_reduce = t2, db_radixsort = t3, db_kernel = t4\<rparr>,
        fst s, snd s))))) (db, [])"

definition DB_new ::
  "'db sqlite \<Rightarrow> (string \<rightharpoonup> string) \<Rightarrow> string option \<Rightarrow> 'db
    \<Rightarrow> db_object result \<times> 'db \<times> string list \<times> string option" where
  "DB_new Q env ans db = (case DB_open Q env ans db of
       (Inl e, db1, dirs, ans') \<Rightarrow> (Inl e, db1, [], ans')
     | (Inr c, db1, dirs, ans') \<Rightarrow> (let (r, db2, log) = DB_members Q c db1 in (r, db2, log, ans')))"

text \<open>
  \<^verbatim>\<open>getDB\<close>: the object is constructed by the first call that succeeds; a constructor that
  throws leaves the static uninitialized. The state is the two statics.
\<close>

definition getDB ::
  "'db sqlite \<Rightarrow> (string \<rightharpoonup> string) \<Rightarrow> string option \<times> db_object option \<Rightarrow> 'db
    \<Rightarrow> db_object result \<times> (string option \<times> db_object option) \<times> 'db \<times> string list" where
  "getDB Q env s db =
     (case snd s of Some d \<Rightarrow> (Inr d, s, db, [])
      | None \<Rightarrow> (case DB_new Q env (fst s) db of
            (Inl e, db1, log, ans) \<Rightarrow> (Inl e, (ans, None), db1, log)
          | (Inr d, db1, log, ans) \<Rightarrow> (Inr d, (ans, Some d), db1, log)))"

end
