(* ===== verification/CacheTable.thy ===== *)
theory CacheTable
  imports Cache
begin

text \<open>
  The properties of the cache: the constructors of src/cache.cpp release what they acquired when
  they fail, and a table refines a finite map. The concrete \<open>engine\<close> is an instance of the
  assumptions on SQLite on which the properties are evaluated.
\<close>

section \<open>Construction\<close>

lemma sqlite_stmt_okD:
  assumes "sqlite_stmt_ok Q W"
  shows "sqlite3_prepare Q c sql db = (r, st, db') \<Longrightarrow> v_rows W db' = v_rows W db \<and>
      (case st of None \<Rightarrow> r \<noteq> SQLITE_OK \<and> v_live W db' = v_live W db
       | Some n \<Rightarrow> r = SQLITE_OK \<and> v_live W db n = None \<and> v_live W db' = (v_live W db)(n \<mapsto> sql))"
    and "sqlite3_finalize Q n db = (r, db') \<Longrightarrow> v_live W db' = (v_live W db)(n := None) \<and> v_rows W db' = v_rows W db"
    and "sqlite3_exec Q c sql db = (r, err, db') \<Longrightarrow> v_live W db' = v_live W db \<and> v_rows W db' = v_rows W db"
    and "sqlite3_close Q n db = (r, db') \<Longrightarrow> v_live W db' = v_live W db \<and> v_rows W db' = v_rows W db"
  using assms unfolding sqlite_stmt_ok_def by blast+

text \<open>The statements that a table holds.\<close>

fun drop_stmt :: "nat option \<Rightarrow> (nat \<rightharpoonup> string) \<Rightarrow> nat \<rightharpoonup> string" where
  "drop_stmt None lv = lv"
| "drop_stmt (Some n) lv = lv(n := None)"

definition drop_table :: "table \<Rightarrow> (nat \<rightharpoonup> string) \<Rightarrow> nat \<rightharpoonup> string" where
  "drop_table t lv = drop_stmt (addStmt t) (drop_stmt (queryStmt t) lv)"

definition stmts_live :: "(nat \<rightharpoonup> string) \<Rightarrow> schema \<Rightarrow> table \<Rightarrow> bool" where
  "stmts_live lv s t \<longleftrightarrow>
     (case addStmt t of None \<Rightarrow> False | Some a \<Rightarrow> lv a = Some (sc_insert s))
     \<and> (case queryStmt t of None \<Rightarrow> False | Some q \<Rightarrow> lv q = Some (sc_select s))"

lemma stmts_live_mono: "stmts_live lv s t \<Longrightarrow> lv \<subseteq>\<^sub>m lv' \<Longrightarrow> stmts_live lv' s t"
  unfolding stmts_live_def map_le_def by (auto split: option.splits) (metis domI)+

lemma stmt_reset_live:
  assumes "sqlite_stmt_ok Q W" "sqlite3_stmt_ptr_reset Q p None db = (db', log)"
  shows "v_live W db' = drop_stmt p (v_live W db)" "v_rows W db' = v_rows W db"
  using assms sqlite_stmt_okD(2) [OF assms(1)]
  by (auto simp: sqlite3_stmt_ptr_reset_def split: option.splits prod.splits)

lemma Table_delete_live:
  assumes "sqlite_stmt_ok Q W" "Table_delete Q t db = (db', log)"
  shows "v_live W db' = drop_table t (v_live W db)" "v_rows W db' = v_rows W db"
  using assms(2) stmt_reset_live [OF assms(1)]
  by (auto simp: Table_delete_def drop_table_def split: prod.splits)

lemma prepare_into_live:
  assumes ok: "sqlite_stmt_ok Q W" and run: "prepare_into Q c sql None db = (r, st, db', log)"
  shows "v_rows W db' = v_rows W db
    \<and> (case r of Inl e \<Rightarrow> st = None \<and> v_live W db' = v_live W db
       | Inr _ \<Rightarrow> \<exists>n. st = Some n \<and> v_live W db n = None \<and> v_live W db' = (v_live W db)(n \<mapsto> sql))"
proof -
  obtain s x d where p: "sqlite3_prepare Q c sql db = (s, x, d)" by (cases "sqlite3_prepare Q c sql db")
  have "st = x" "db' = d" "r = (if s \<noteq> SQLITE_OK then Inl (CacheError (sqlite3_errstr Q s)) else Inr ())"
    using run p by (auto simp: prepare_into_def sqlite3_stmt_ptr_reset_def)
  with sqlite_stmt_okD(1) [OF ok p] show ?thesis by (cases x) auto
qed

lemma Table_new_live:
  assumes ok: "sqlite_stmt_ok Q W" and run: "Table_new Q K V c name db = (r, db', log)"
  shows "v_rows W db' = v_rows W db
    \<and> (case r of Inl e \<Rightarrow> v_live W db' = v_live W db
       | Inr t \<Rightarrow> v_live W db \<subseteq>\<^sub>m v_live W db' \<and> drop_table t (v_live W db') = v_live W db
           \<and> stmts_live (v_live W db') (schema_of name K V) t)"
proof -
  obtain r1 d1 where c: "createTable Q K V c name db = (r1, d1)" by (cases "createTable Q K V c name db")
  have l1: "v_live W d1 = v_live W db" "v_rows W d1 = v_rows W db"
    using c sqlite_stmt_okD(3) [OF ok] by (auto simp: createTable_def Let_def split: prod.splits if_splits)
  let ?ins = "insert_text name (st_names K) (st_names V)" and ?sel = "select_text name (st_names K) (st_names V)"
  show ?thesis
  proof (cases r1)
    case (Inl e)
    then show ?thesis using run c l1
      by (auto simp: Table_new_def Table_delete_def sqlite3_stmt_ptr_reset_def)
  next
    case (Inr u)
    obtain r2 a d2 g2 where p2: "prepare_into Q c ?ins None d1 = (r2, a, d2, g2)"
      by (cases "prepare_into Q c ?ins None d1")
    note l2 = prepare_into_live [OF ok p2]
    show ?thesis
    proof (cases r2)
      case (Inl e)
      then have "v_live W db' = v_live W d2 \<and> v_rows W db' = v_rows W d2 \<and> r = Inl e"
        using run c p2 l2 \<open>r1 = Inr u\<close>
        by (auto simp: Table_new_def prepareAdd_def Table_delete_def sqlite3_stmt_ptr_reset_def)
      then show ?thesis using l1 l2 Inl by simp
    next
      case (Inr u2)
      then obtain n where n: "a = Some n" "v_live W d1 n = None" "v_live W d2 = (v_live W d1)(n \<mapsto> ?ins)"
        "v_rows W d2 = v_rows W d1" using l2 by auto
      obtain r3 q d3 g3 where p3: "prepare_into Q c ?sel None d2 = (r3, q, d3, g3)"
        by (cases "prepare_into Q c ?sel None d2")
      note l3 = prepare_into_live [OF ok p3]
      show ?thesis
      proof (cases r3)
        case (Inl e)
        let ?t = "\<lparr>con = c, addStmt = Some n, queryStmt = None\<rparr>"
        obtain d4 g4 where t4: "Table_delete Q ?t d3 = (d4, g4)" by (cases "Table_delete Q ?t d3")
        have "db' = d4" "r = Inl e"
          using run c p2 p3 l3 t4 n(1) Inl \<open>r1 = Inr u\<close> \<open>r2 = Inr u2\<close>
          by (auto simp: Table_new_def prepareAdd_def prepareQuery_def)
        moreover have "drop_table ?t (v_live W d3) = v_live W db"
          using l3 Inl n l1 by (auto simp: drop_table_def fun_upd_idem_iff)
        ultimately show ?thesis using Table_delete_live [OF ok t4] l3 Inl n l1 by simp
      next
        case (Inr u3)
        then obtain m where m: "q = Some m" "v_live W d2 m = None" "v_live W d3 = (v_live W d2)(m \<mapsto> ?sel)"
          "v_rows W d3 = v_rows W d2" using l3 by auto
        let ?t = "\<lparr>con = c, addStmt = Some n, queryStmt = Some m\<rparr>"
        have r: "r = Inr ?t" "db' = d3"
          using run c p2 p3 n(1) m(1) Inr \<open>r1 = Inr u\<close> \<open>r2 = Inr u2\<close>
          by (auto simp: Table_new_def prepareAdd_def prepareQuery_def)
        have "m \<noteq> n" using m(2) n(3) by auto
        then have lv: "v_live W db' = (v_live W db)(n \<mapsto> ?ins, m \<mapsto> ?sel)" "v_live W db n = None" "v_live W db m = None"
          using r n m l1 by (auto simp: fun_upd_apply)
        then show ?thesis using r n m l1 \<open>m \<noteq> n\<close>
          by (auto simp: drop_table_def stmts_live_def sc_insert_def sc_select_def map_le_def fun_upd_idem_iff
              fun_upd_twist)
      qed
    qed
  qed
qed

lemma unwind_live:
  assumes ok: "sqlite_stmt_ok Q W"
  shows "unwind Q ts c db = (db', log) \<Longrightarrow> v_live W db' = fold drop_table ts (v_live W db) \<and> v_rows W db' = v_rows W db"
proof (induction ts arbitrary: db db' log)
  case Nil
  then show ?case using sqlite_stmt_okD(4) [OF ok]
    by (auto simp: sqlite3_ptr_reset_def split: option.splits prod.splits if_splits)
next
  case (Cons t ts)
  obtain d g where t: "Table_delete Q t db = (d, g)" by (cases "Table_delete Q t db")
  obtain d2 g2 where u: "unwind Q ts c d = (d2, g2)" by (cases "unwind Q ts c d")
  have "db' = d2" using Cons.prems t u by simp
  then show ?case using Cons.IH [OF u] Table_delete_live [OF ok t] by simp
qed

text \<open>
  A member initializer either leaves the statements that were live before the first one, or hands
  on a state in which undoing the tables made so far gives them.
\<close>

lemma init_table_live:
  assumes ok: "sqlite_stmt_ok Q W"
    and run: "init_table Q K V c name made cont s = (r, db', log)"
    and base: "fold drop_table made (v_live W (fst s)) = base" "v_rows W (fst s) = rw"
  obtains (failed) e where "r = Inl e" "v_live W db' = base" "v_rows W db' = rw"
  | (made) t s' where "cont t s' = (r, db', log)" "fold drop_table (t # made) (v_live W (fst s')) = base"
      "v_rows W (fst s') = rw" "v_live W (fst s) \<subseteq>\<^sub>m v_live W (fst s')"
      "stmts_live (v_live W (fst s')) (schema_of name K V) t"
proof -
  obtain x d g where t: "Table_new Q K V c name (fst s) = (x, d, g)" by (cases "Table_new Q K V c name (fst s)")
  note l = Table_new_live [OF ok t]
  show ?thesis
  proof (cases x)
    case (Inl e)
    obtain d2 g2 where u: "unwind Q made c d = (d2, g2)" by (cases "unwind Q made c d")
    have "r = Inl e" "db' = d2" using run t u Inl by (auto simp: init_table_def)
    then show ?thesis using failed unwind_live [OF ok u] l Inl base by simp
  next
    case (Inr tb)
    have "cont tb (d, snd s @ g) = (r, db', log)" using run t Inr by (simp add: init_table_def)
    then show ?thesis using made [of tb "(d, snd s @ g)"] l Inr base by simp
  qed
qed

lemma DB_members_live:
  assumes ok: "sqlite_stmt_ok Q W" and run: "DB_members Q c db = (r, db', log)"
  shows "v_rows W db' = v_rows W db
    \<and> (case r of Inl e \<Rightarrow> v_live W db' = v_live W db
       | Inr d \<Rightarrow> stmts_live (v_live W db') scan_schema (db_scan d)
          \<and> stmts_live (v_live W db') reduce_schema (db_reduce d)
          \<and> stmts_live (v_live W db') radixsort_schema (db_radixsort d)
          \<and> stmts_live (v_live W db') kernel_schema (db_kernel d))"
  using run unfolding DB_members_def
proof (cases rule: init_table_live [OF ok, where base = "v_live W db" and rw = "v_rows W db",
      consumes 1, case_names b1 b2 failed made])
  case (made t1 s1)
  note m1 = made
  show ?thesis using m1(1)
  proof (cases rule: init_table_live [OF ok _ m1(2,3), consumes 1, case_names failed made])
    case (made t2 s2)
    note m2 = made
    show ?thesis using m2(1)
    proof (cases rule: init_table_live [OF ok _ m2(2,3), consumes 1, case_names failed made])
      case (made t3 s3)
      note m3 = made
      show ?thesis using m3(1)
      proof (cases rule: init_table_live [OF ok _ m3(2,3), consumes 1, case_names failed made])
        case (made t4 s4)
        note m4 = made
        have le: "v_live W (fst s3) \<subseteq>\<^sub>m v_live W (fst s4)" "v_live W (fst s2) \<subseteq>\<^sub>m v_live W (fst s4)"
          "v_live W (fst s1) \<subseteq>\<^sub>m v_live W (fst s4)"
          using m2(4) m3(4) m4(4) map_le_trans by blast+
        show ?thesis
          using m4 stmts_live_mono [OF m3(5) le(1)] stmts_live_mono [OF m2(5) le(2)] stmts_live_mono [OF m1(5) le(3)]
          by (auto simp: schema_of_tables)
      qed simp
    qed simp
  qed simp
qed simp_all

section \<open>A concrete engine\<close>

text \<open>
  An implementation of the calls that knows the statements of a list of schemas: the handle of a
  statement is its index in the list of those prepared so far.
\<close>

record engine_stmt =
  es_sql :: string
  es_ready :: bool
  es_params :: "nat \<Rightarrow> cell"
  es_row :: "cell list"

record engine_db =
  e_stmts :: "engine_stmt option list"
  e_rows :: "string \<Rightarrow> cell list \<rightharpoonup> cell list"

definition engine_get :: "engine_db \<Rightarrow> nat \<Rightarrow> engine_stmt option" where
  "engine_get db n = (if n < length (e_stmts db) then e_stmts db ! n else None)"

definition engine_put :: "nat \<Rightarrow> engine_stmt option \<Rightarrow> engine_db \<Rightarrow> engine_db" where
  "engine_put n s db = db\<lparr>e_stmts := (e_stmts db)[n := s]\<rparr>"

definition engine_on ::
  "(nat \<Rightarrow> engine_stmt \<Rightarrow> engine_db \<Rightarrow> int \<times> engine_db) \<Rightarrow> nat option \<Rightarrow> engine_db \<Rightarrow> int \<times> engine_db" where
  "engine_on f st db = (case st of None \<Rightarrow> (21, db)
     | Some n \<Rightarrow> (case engine_get db n of None \<Rightarrow> (21, db) | Some s \<Rightarrow> f n s db))"

definition engine_step :: "schema list \<Rightarrow> nat \<Rightarrow> engine_stmt \<Rightarrow> engine_db \<Rightarrow> int \<times> engine_db" where
  "engine_step scs n s db =
     (if \<not> es_ready s then (21, db)
      else case find (\<lambda>c. sc_insert c = es_sql s) scs of
        Some c \<Rightarrow>
          (let ks = slots (es_params s) 1 (length (sc_keys c));
               vs = slots (es_params s) (1 + length (sc_keys c)) (length (sc_vals c));
               db1 = engine_put n (Some (s\<lparr>es_ready := False\<rparr>)) db
           in (SQLITE_DONE, db1\<lparr>e_rows := (e_rows db1)(sc_name c := (e_rows db1 (sc_name c))(ks \<mapsto> vs))\<rparr>))
      | None \<Rightarrow>
          (case find (\<lambda>c. sc_select c = es_sql s) scs of
             Some c \<Rightarrow>
               (case e_rows db (sc_name c) (slots (es_params s) 1 (length (sc_keys c))) of
                  None \<Rightarrow> (SQLITE_DONE, engine_put n (Some (s\<lparr>es_ready := False\<rparr>)) db)
                | Some vs \<Rightarrow> (SQLITE_ROW, engine_put n (Some (s\<lparr>es_ready := False, es_row := vs\<rparr>)) db))
           | None \<Rightarrow> (1, db)))"

definition engine :: "schema list \<Rightarrow> engine_db sqlite" where
  "engine scs = \<lparr>
     sqlite3_open = (\<lambda>f db. (SQLITE_OK, Some 0, db)),
     sqlite3_close = (\<lambda>c db. (SQLITE_OK, db)),
     sqlite3_exec = (\<lambda>c sql db. (SQLITE_OK, None, db)),
     sqlite3_prepare = (\<lambda>c sql db.
       if sql \<in> set (map sc_insert scs) \<union> set (map sc_select scs)
       then (SQLITE_OK, Some (length (e_stmts db)), db\<lparr>e_stmts := e_stmts db @
               [Some \<lparr>es_sql = sql, es_ready = True, es_params = (\<lambda>_. CNull), es_row = []\<rparr>]\<rparr>)
       else (1, None, db)),
     sqlite3_bind = (\<lambda>st i c. engine_on (\<lambda>n s db.
       if es_ready s then (SQLITE_OK, engine_put n (Some (s\<lparr>es_params := (es_params s)(i := c)\<rparr>)) db)
       else (21, db)) st),
     sqlite3_reset = engine_on (\<lambda>n s db. (SQLITE_OK, engine_put n (Some (s\<lparr>es_ready := True\<rparr>)) db)),
     sqlite3_step = engine_on (engine_step scs),
     sqlite3_finalize = (\<lambda>n db. (SQLITE_OK, engine_put n None db)),
     sqlite3_column = (\<lambda>st db. case st of None \<Rightarrow> []
       | Some n \<Rightarrow> (case engine_get db n of None \<Rightarrow> [] | Some s \<Rightarrow> es_row s)),
     sqlite3_errstr = (\<lambda>c. ''error'')\<rparr>"

definition engine_view :: "engine_db view" where
  "engine_view = \<lparr>
     v_live = (\<lambda>db n. map_option es_sql (engine_get db n)),
     v_ready = (\<lambda>db n. case engine_get db n of None \<Rightarrow> False | Some s \<Rightarrow> es_ready s),
     v_params = (\<lambda>db n. case engine_get db n of None \<Rightarrow> (\<lambda>_. CNull) | Some s \<Rightarrow> es_params s),
     v_rows = e_rows\<rparr>"

text \<open>The texts of the schemas have to be told apart.\<close>

definition texts_apart :: "schema list \<Rightarrow> bool" where
  "texts_apart scs \<longleftrightarrow> list_all (\<lambda>c. find (\<lambda>d. sc_insert d = sc_insert c) scs = Some c
     \<and> find (\<lambda>d. sc_insert d = sc_select c) scs = None \<and> find (\<lambda>d. sc_select d = sc_select c) scs = Some c) scs"

lemma engine_get_put:
  "engine_get (engine_put n s db) m = (if n = m \<and> n < length (e_stmts db) then s else engine_get db m)"
  by (simp add: engine_get_def engine_put_def)

lemma engine_put_simps [simp]:
  "e_rows (engine_put n s db) = e_rows db" "engine_get (db\<lparr>e_rows := r\<rparr>) m = engine_get db m"
  by (simp_all add: engine_put_def engine_get_def)

lemma engine_get_Some: "engine_get db n = Some s \<Longrightarrow> n < length (e_stmts db)"
  by (simp add: engine_get_def split: if_splits)

lemmas engine_simps = engine_def engine_view_def engine_on_def engine_get_put fun_eq_iff

lemma texts_apartD:
  assumes "texts_apart scs" "c \<in> set scs"
  shows "find (\<lambda>d. sc_insert d = sc_insert c) scs = Some c" "find (\<lambda>d. sc_insert d = sc_select c) scs = None"
    "find (\<lambda>d. sc_select d = sc_select c) scs = Some c"
  using assms by (auto simp: texts_apart_def list_all_iff)

lemma engine_ok: "texts_apart scs \<Longrightarrow> sqlite_ok (engine scs) engine_view scs"
proof -
  assume a: "texts_apart scs"
  have "reset_law (engine scs) engine_view"
    unfolding reset_law_def by (auto simp: engine_simps dest: engine_get_Some split: option.splits)
  moreover have "bind_law (engine scs) engine_view"
    unfolding bind_law_def
    by (auto simp: engine_simps SQLITE_OK_def dest: engine_get_Some split: option.splits if_splits)
  moreover have "insert_law (engine scs) engine_view scs"
    unfolding insert_law_def using texts_apartD [OF a]
    by (auto simp: engine_simps engine_step_def Let_def dest: engine_get_Some split: option.splits if_splits)
  moreover have "select_law (engine scs) engine_view scs"
    unfolding select_law_def using texts_apartD [OF a]
    by (auto simp: engine_simps engine_step_def SQLITE_ROW_def SQLITE_DONE_def
        dest: engine_get_Some split: option.splits if_splits)
  ultimately show ?thesis by (simp add: sqlite_ok_def)
qed

lemma engine_stmt_ok: "sqlite_stmt_ok (engine scs) engine_view"
  unfolding sqlite_stmt_ok_def
  by (auto simp: engine_simps engine_get_def SQLITE_OK_def nth_append engine_put_def split: option.splits if_splits)

section \<open>The properties\<close>

lemma tables_reflect:
  "reflects ScanKey_struct less_ScanKey cells_ScanKey ok_ScanKey"
  "reflects ScanValue_struct less_ScanValue cells_ScanValue ok_ScanValue"
  "reflects ReduceKey_struct less_ReduceKey cells_ReduceKey ok_ReduceKey"
  "reflects ReduceValue_struct less_ReduceValue cells_ReduceValue ok_ReduceValue"
  "reflects RadixsortKey_struct less_RadixsortKey cells_RadixsortKey ok_RadixsortKey"
  "reflects RadixsortValue_struct less_RadixsortValue cells_RadixsortValue ok_RadixsortValue"
  "reflects KernelKey_struct less_KernelKey cells_KernelKey ok_KernelKey"
  "reflects KernelValue_struct less_KernelValue cells_KernelValue ok_KernelValue"
  unfolding reflects_def
  by (fact scan_table.K.reflected_axioms scan_table.V.reflected_axioms
      reduce_table.K.reflected_axioms reduce_table.V.reflected_axioms
      radixsort_table.K.reflected_axioms radixsort_table.V.reflected_axioms
      kernel_table.K.reflected_axioms kernel_table.V.reflected_axioms)+

lemma clogs_texts_apart: "texts_apart clogs_schemas"
  by (simp add: texts_apart_def clogs_schemas_def scan_schema_def reduce_schema_def radixsort_schema_def
      kernel_schema_def sc_insert_def sc_select_def insert_text_def select_text_def scan_tableName_def
      reduce_tableName_def radixsort_tableName_def kernel_tableName_def writeFieldNames_def
      fieldNames_ScanKey_def fieldNames_ScanValue_def fieldNames_ReduceKey_def fieldNames_ReduceValue_def
      fieldNames_RadixsortKey_def fieldNames_RadixsortValue_def fieldNames_KernelKey_def
      fieldNames_KernelValue_def fieldNames_DeviceKey_def fieldNames_def)

definition empty_engine :: engine_db where
  "empty_engine = \<lparr>e_stmts = [], e_rows = (\<lambda>_ _. None)\<rparr>"

definition demo_key :: scan_key where
  "demo_key = \<lparr>sk_device = \<lparr>platformName = ''p'', deviceName = ''d'', deviceVendorId = 4318,
     driverVersion = ''1''\<rparr>, sk_elementType = ''int''\<rparr>"

definition demo_value :: scan_value where
  "demo_value = \<lparr>s_warpSizeMem = 32, s_warpSizeSchedule = 32, s_reduceWorkGroupSize = 256,
     s_scanWorkGroupSize = 256, s_scanWorkScale = 8, s_scanBlocks = 1024\<rparr>"

definition demo_db :: "(db_object \<times> engine_db) option" where
  "demo_db = (case DB_members (engine clogs_schemas) (Some 0) empty_engine of
     (Inl e, db, log) \<Rightarrow> None | (Inr d, db, log) \<Rightarrow> Some (d, db))"

lemma demo: "(case demo_db of None \<Rightarrow> None
   | Some (d, db) \<Rightarrow> Some (fst (table_run (engine clogs_schemas) ScanKey_struct ScanValue_struct (db_scan d)
       [Lookup demo_key, Add demo_key demo_value, Lookup demo_key] db))) = Some [Absent, Added, Found demo_value]"
  by code_simp

lemma table_inv_stmts:
  "table_inv W s t db \<longleftrightarrow> stmts_live (v_live W db) s t
     \<and> (\<forall>ks vs. v_rows W db (sc_name s) ks = Some vs \<longrightarrow> list_all2 cell_fits (sc_vtypes s) vs)"
  by (simp add: table_inv_def stmts_live_def)

lemma demo_tables:
  assumes "demo_db = Some (d, db)"
  shows "table_inv engine_view scan_schema (db_scan d) db" "v_rows engine_view db = (\<lambda>_ _. None)"
proof -
  obtain r db' log where run: "DB_members (engine clogs_schemas) (Some 0) empty_engine = (r, db', log)"
    by (cases "DB_members (engine clogs_schemas) (Some 0) empty_engine")
  with assms have r: "r = Inr d" "db' = db" by (auto simp: demo_db_def split: sum.splits)
  have empty: "v_rows engine_view empty_engine = (\<lambda>_ _. None)" by (simp add: engine_view_def empty_engine_def)
  from DB_members_live [OF engine_stmt_ok run] r empty
  show e: "v_rows engine_view db = (\<lambda>_ _. None)" by simp
  have "stmts_live (v_live engine_view db) scan_schema (db_scan d)"
    using DB_members_live [OF engine_stmt_ok run] r by simp
  then show "table_inv engine_view scan_schema (db_scan d) db" by (simp add: table_inv_stmts e)
qed

text \<open>
  C8. A cache table is a finite map. After its statements have been prepared, any sequence of
  insertions and lookups gives outcomes that the map allows: a lookup finds exactly the value last
  added under an equal key, or reports that there is none; every operation that throws throws a
  \<^verbatim>\<open>CacheError\<close> and leaves the map as it was; no assertion fails. The rows of the
  other tables do not change. It holds for every pair of reflected structures, thus for the four
  tables of the cache.
\<close>

theorem cache_table_refines_map:
  assumes "reflects K lessK cellsK okK" and "reflects V lessV cellsV okV"
    and "sqlite_ok Q W scs" and "schema_of name K V \<in> set scs"
    and "table_inv W (schema_of name K V) t db"
    and "list_all (op_ok okK okV) xs"
    and "table_run Q K V t xs db = (ys, db')"
  shows "map_run xs ys (table_map W name cellsK okK V db) = Some (table_map W name cellsK okK V db')
    \<and> table_inv W (schema_of name K V) t db'
    \<and> (\<forall>n. n = name \<or> v_rows W db' n = v_rows W db n)"
  using keyed_table.run_refines [OF keyed_tableI [OF assms(1,2)] assms(3-7)] by blast

theorem cache_table_refines_map_witness:
  "\<exists>m d db db'. demo_db = Some (d, db)
     \<and> table_run (engine clogs_schemas) ScanKey_struct ScanValue_struct (db_scan d)
        [Lookup demo_key, Add demo_key demo_value, Lookup demo_key] db = ([Absent, Added, Found demo_value], db')
     \<and> map_run [Lookup demo_key, Add demo_key demo_value, Lookup demo_key] [Absent, Added, Found demo_value]
        (\<lambda>_. None) = Some m
     \<and> m = table_map engine_view scan_tableName cells_ScanKey ok_ScanKey
         (ScanValue_struct :: (scan_value, engine_db) struct) db'"
proof -
  obtain d db where d: "demo_db = Some (d, db)" using demo by (cases demo_db) auto
  let ?xs = "[Lookup demo_key, Add demo_key demo_value, Lookup demo_key]"
  obtain ys db' where run: "table_run (engine clogs_schemas) ScanKey_struct ScanValue_struct (db_scan d) ?xs db = (ys, db')"
    by (cases "table_run (engine clogs_schemas) ScanKey_struct ScanValue_struct (db_scan d) ?xs db")
  have ys: "ys = [Absent, Added, Found demo_value]"
    using demo unfolding d option.case prod.case run fst_conv by simp
  have ok: "list_all (op_ok ok_ScanKey ok_ScanValue) ?xs"
    by (simp add: ok_ScanKey_def ok_ScanValue_def ok_DeviceKey_def demo_key_def demo_value_def)
  have empty: "table_map engine_view scan_tableName cells_ScanKey ok_ScanKey
      (ScanValue_struct :: (scan_value, engine_db) struct) db = (\<lambda>_. None)"
    by (rule ext) (simp add: table_map_def demo_tables(2) [OF d])
  have inv: "table_inv engine_view (schema_of scan_tableName ScanKey_struct ScanValue_struct) (db_scan d) db"
    and mem: "schema_of scan_tableName ScanKey_struct ScanValue_struct \<in> set clogs_schemas"
    using demo_tables(1) [OF d] by (simp_all add: schema_of_tables clogs_schemas_def)
  note cache_table_refines_map [OF tables_reflect(1,2) engine_ok [OF clogs_texts_apart] mem inv ok run]
  then show ?thesis using d run unfolding empty ys by blast
qed



end
