(* ===== verification/Bench.thy ===== *)
theory Bench
  imports OpenCL Tune CacheTable
begin

text \<open>
  What the tuning code of the three algorithms shares: the runtime that a tuning callback uses
  (contexts, buffers, queues with profiling), the pattern of a warmup run followed by a timed run,
  the candidate lists, and the constructor's way to its parameters: look up the cache, else tune
  and store.
\<close>

section \<open>The runtime of a callback\<close>

text \<open>
  For a context: buffer creation (flags, size), filling a buffer with bytes through a mapping, the
  profiling queue, \<^verbatim>\<open>build\<close>, kernel
  objects, the driver's answer to a command, \<^verbatim>\<open>finish\<close> (which runs what was queued) and
  the profiling times of an event. \<open>be_rate n t\<close> is the quotient as a \<^verbatim>\<open>double\<close>
  (\<open>None\<close> for NaN), \<open>be_slack\<close> the multiplication by 1.05, \<open>be_ratio\<close> that by the
  default 0.5 of \<^verbatim>\<open>tuneOne\<close>.
\<close>

record ('c, 'a, 'r, 'w) bench =
  be_context :: "'w \<Rightarrow> 'c result \<times> 'w"
  be_alloc :: "'c \<Rightarrow> nat \<Rightarrow> nat \<Rightarrow> nat result"
  be_fill :: "'c \<Rightarrow> nat \<Rightarrow> nat list \<Rightarrow> unit result"
  be_queue :: "'c \<Rightarrow> unit result"
  be_build :: "'c \<Rightarrow> string \<Rightarrow> int std_map \<Rightarrow> string std_map \<Rightarrow> program result"
  be_kernel :: "'c \<Rightarrow> program \<Rightarrow> string \<Rightarrow> 'a kernel result"
  be_driver :: "'c \<Rightarrow> 'a command \<Rightarrow> int"
  be_finish :: "'c \<Rightarrow> 'a command list \<Rightarrow> 'w \<Rightarrow> unit result \<times> 'w"
  be_profile :: "'c \<Rightarrow> nat \<Rightarrow> 'w \<Rightarrow> (nat \<times> nat) result"
  be_rate :: "nat \<Rightarrow> nat \<Rightarrow> 'r option"
  be_slack :: "'r \<Rightarrow> 'r"
  be_ratio :: "'r \<Rightarrow> 'r"
  be_show :: "'r \<Rightarrow> string"

definition bench_tuner ::
  "('c, 'a, 'r, 'w) bench \<Rightarrow> ('c \<Rightarrow> nat \<Rightarrow> 'p \<Rightarrow> 'w \<Rightarrow> ('r option \<times> 'r option) result \<times> 'w)
    \<Rightarrow> ('c, 'p, 'r, 'w) tuner" where
  "bench_tuner E cb = \<lparr>tu_context = be_context E, tu_callback = cb, tu_ratio = be_ratio E, tu_show = be_show E\<rparr>"

definition new_queue :: "'a queue" where
  "new_queue = \<lparr>cmds = [], next_ev = 0, trace = []\<rparr>"

text \<open>\<^verbatim>\<open>cl_ulong\<close> subtraction.\<close>

definition elapsed :: "nat \<times> nat \<Rightarrow> nat" where
  "elapsed t = u64 (snd t + 2 ^ 64 - fst t)"

text \<open>Queue an operation on the object \<open>d\<close>, and wait for it.\<close>

definition run_finish ::
  "('c, 'a, 'r, 'w) bench \<Rightarrow> 'c \<Rightarrow> ('d \<times> 'a queue \<Rightarrow> 'e result \<times> 'd \<times> 'a queue) \<Rightarrow> 'd \<times> 'a queue \<Rightarrow> 'w
    \<Rightarrow> ('e \<times> 'd \<times> 'a queue) result \<times> 'w" where
  "run_finish E c launch dq w =
     (case launch dq of
        (Inl e, d, q) \<Rightarrow> (Inl e, w)
      | (Inr x, d, q) \<Rightarrow>
          (case be_finish E c (cmds q) w of
             (Inl e, w1) \<Rightarrow> (Inl e, w1)
           | (Inr _, w1) \<Rightarrow> (Inr (x, d, q\<lparr>cmds := []\<rparr>), w1)))"

text \<open>
  A warmup run and a timed run; \<open>fromto\<close> takes from the result of the second the events whose
  start and end are measured.
\<close>

definition bench_twice ::
  "('c, 'a, 'r, 'w) bench \<Rightarrow> 'c \<Rightarrow> ('d \<times> 'a queue \<Rightarrow> 'e result \<times> 'd \<times> 'a queue)
    \<Rightarrow> ('d \<times> 'a queue \<Rightarrow> 'e result \<times> 'd \<times> 'a queue) \<Rightarrow> ('e \<Rightarrow> nat \<times> nat) \<Rightarrow> 'd \<Rightarrow> 'w \<Rightarrow> nat result \<times> 'w" where
  "bench_twice E c warmup go fromto d w =
     (case run_finish E c warmup (d, new_queue) w of
        (Inl e, w1) \<Rightarrow> (Inl e, w1)
      | (Inr (_, d1, q1), w1) \<Rightarrow>
          (case run_finish E c go (d1, q1) w1 of
             (Inl e, w2) \<Rightarrow> (Inl e, w2)
           | (Inr (x, d2, q2), w2) \<Rightarrow>
               (bind_result (be_profile E c (fst (fromto x)) w2) (\<lambda>t1.
                bind_result (be_profile E c (snd (fromto x)) w2) (\<lambda>t2.
                Inr (elapsed (fst t1, snd t2)))), w2)))"

text \<open>The end of a callback: the pair of rates.\<close>

definition rates ::
  "('c, 'a, 'r, 'w) bench \<Rightarrow> ('r \<Rightarrow> 'r) \<Rightarrow> nat \<Rightarrow> nat result \<times> 'w \<Rightarrow> ('r option \<times> 'r option) result \<times> 'w" where
  "rates E slack work r = (case r of
       (Inl e, w) \<Rightarrow> (Inl e, w)
     | (Inr t, w) \<Rightarrow> (let rate = be_rate E work t in (Inr (rate, map_option slack rate), w)))"

lemma rates_bound: "rates E slack work r = (Inr (Some a, b), w') \<Longrightarrow> b = Some (slack a)"
  by (auto simp: rates_def Let_def split: prod.splits sum.splits)

text \<open>A callback whose bound is the rate times a factor that does not make it smaller.\<close>

lemma callback_rated:
  assumes "\<And>c n p w a b w'. cb c n p w = (Inr (Some a, b), w') \<Longrightarrow> b = Some (slack a)"
    and "\<And>r. r \<le> slack r"
  shows "rated (bench_tuner E cb)"
  by unfold_locales (use assms in \<open>force simp: bench_tuner_def\<close>)

section \<open>Candidates\<close>

text \<open>
  The loops \<^verbatim>\<open>for (x = a; x <= limit; x *= 2)\<close>; limits are below \<open>2 ^ 63\<close>, so the doubling
  does not wrap, and a start of 0 would not end in the source.
\<close>

function doubles :: "nat \<Rightarrow> nat \<Rightarrow> nat list" where
  "doubles x limit = (if 0 < x \<and> x \<le> limit then x # doubles (x * 2) limit else [])"
  by pat_completeness auto
termination
  by (relation "measure (\<lambda>(x, limit). Suc limit - x)") auto

declare doubles.simps [simp del]

lemma doubles_mem: "y \<in> set (doubles x limit) \<Longrightarrow> \<exists>k. y = x * 2 ^ k \<and> y \<le> limit \<and> 0 < y"
proof (induction x limit rule: doubles.induct)
  case (1 x limit)
  show ?case
  proof (cases "0 < x \<and> x \<le> limit")
    case False
    then have "doubles x limit = []" by (subst doubles.simps) simp
    then show ?thesis using 1(2) by simp
  next
    case True
    then have "doubles x limit = x # doubles (x * 2) limit" by (subst doubles.simps) simp
    then consider "y = x" | "y \<in> set (doubles (x * 2) limit)" using 1(2) by auto
    then show ?thesis
    proof cases
      case 1
      then show ?thesis using True by (intro exI [of _ 0]) simp
    next
      case 2
      then obtain k where "y = x * 2 * 2 ^ k \<and> y \<le> limit \<and> 0 < y" using 1(1) True by blast
      then show ?thesis using True by (intro exI [of _ "Suc k"]) simp
    qed
  qed
qed

lemma doubles_one: "y \<in> set (doubles 1 limit) \<Longrightarrow> pow2 y \<and> y \<le> limit"
  using doubles_mem [of y 1 limit] by auto

lemma doubles_pow2: "pow2 x \<Longrightarrow> y \<in> set (doubles x limit) \<Longrightarrow> pow2 y \<and> x dvd y \<and> y \<le> limit"
  using doubles_mem [of y x limit] by (auto elim!: pow2_E simp: le_imp_power_dvd simp flip: power_add)

lemma doubles_Nil: "doubles a b = [] \<longleftrightarrow> \<not> (0 < a \<and> a \<le> b)"
  by (subst doubles.simps) simp

section \<open>Sequencing\<close>

definition bind_end :: "'a ending \<times> 's \<Rightarrow> ('a \<Rightarrow> 's \<Rightarrow> 'b ending \<times> 's) \<Rightarrow> 'b ending \<times> 's" where
  "bind_end r f = (case r of
       (Returns x, s) \<Rightarrow> f x s | (Throws e, s) \<Rightarrow> (Throws e, s) | (Aborts, s) \<Rightarrow> (Aborts, s))"

lemma bind_end_simps [simp]:
  "bind_end (Returns x, s) f = f x s" "bind_end (Throws e, s) f = (Throws e, s)"
  "bind_end (Aborts, s) f = (Aborts, s)"
  by (simp_all add: bind_end_def)

lemma bind_end_Returns:
  assumes "bind_end r f = (Returns y, s')"
  obtains x s where "r = (Returns x, s)" "f x s = (Returns y, s')"
  using assms by (auto simp: bind_end_def split: prod.splits ending.splits)

definition lift_result :: "'a result \<Rightarrow> 's \<Rightarrow> 'a ending \<times> 's" where
  "lift_result r s = (case r of Inl e \<Rightarrow> (Throws e, s) | Inr x \<Rightarrow> (Returns x, s))"

lemma lift_result_simps [simp]:
  "lift_result (Inl e) s = (Throws e, s)" "lift_result (Inr x) s = (Returns x, s)"
  by (simp_all add: lift_result_def)

lemma lift_result_Returns: "lift_result r s = (Returns x, s') \<longleftrightarrow> r = Inr x \<and> s' = s"
  by (cases r) auto

section \<open>Parameters from the cache\<close>

text \<open>The state of a process that constructs algorithms.\<close>

record ('w, 'db) host =
  h_tune :: "'w tstate"
  h_static :: "string option \<times> db_object option"
  h_db :: 'db
  h_cerr :: "string list"

text \<open>\<^verbatim>\<open>getDB().table.f(...)\<close>: the first call constructs the database object.\<close>

definition with_db ::
  "'db sqlite \<Rightarrow> (string \<rightharpoonup> string) \<Rightarrow> (db_object \<Rightarrow> 'db \<Rightarrow> 'x result option \<times> 'db) \<Rightarrow> ('w, 'db) host
    \<Rightarrow> 'x ending \<times> ('w, 'db) host" where
  "with_db Q env f h =
     (case getDB Q env (h_static h) (h_db h) of
        (r, s, db, log) \<Rightarrow>
          let h1 = h\<lparr>h_static := s, h_db := db, h_cerr := h_cerr h @ log\<rparr>
          in case r of
               Inl e \<Rightarrow> (Throws e, h1)
             | Inr d \<Rightarrow> (case f d db of
                   (None, db') \<Rightarrow> (Aborts, h1\<lparr>h_db := db'\<rparr>)
                 | (Some (Inl e), db') \<Rightarrow> (Throws e, h1\<lparr>h_db := db'\<rparr>)
                 | (Some (Inr x), db') \<Rightarrow> (Returns x, h1\<lparr>h_db := db'\<rparr>)))"

definition tuned_params ::
  "'db sqlite \<Rightarrow> (string \<rightharpoonup> string) \<Rightarrow> ('k, 'db) struct \<Rightarrow> ('v, 'db) struct \<Rightarrow> (db_object \<Rightarrow> table) \<Rightarrow> 'k
    \<Rightarrow> ('w tstate \<Rightarrow> 'v ending \<times> 'w tstate) \<Rightarrow> ('w, 'db) host \<Rightarrow> 'v ending \<times> ('w, 'db) host" where
  "tuned_params Q env K V sel key tune h =
     bind_end (with_db Q env (\<lambda>d. Table_lookup Q K V (sel d) key) h) (\<lambda>found h1.
       case found of
         Some v \<Rightarrow> (Returns v, h1)
       | None \<Rightarrow>
           (case tune (h_tune h1) of (r, ts) \<Rightarrow>
              bind_end (r, h1\<lparr>h_tune := ts\<rparr>) (\<lambda>v h2.
              bind_end (with_db Q env (\<lambda>d db. case Table_add Q K V (sel d) key v db of
                  (r, db') \<Rightarrow> (Some r, db')) h2) (\<lambda>_ h3.
              (Returns v, h3)))))"

text \<open>
  The constructors of the three algorithms: check the type, make the key, get the parameters,
  initialize.
\<close>

definition new_tuned ::
  "'db sqlite \<Rightarrow> (string \<rightharpoonup> string) \<Rightarrow> ('k, 'db) struct \<Rightarrow> ('v, 'db) struct \<Rightarrow> (db_object \<Rightarrow> table)
    \<Rightarrow> bool \<Rightarrow> string \<Rightarrow> 'k result \<Rightarrow> ('w tstate \<Rightarrow> 'v ending \<times> 'w tstate) \<Rightarrow> ('v \<Rightarrow> 'x result)
    \<Rightarrow> ('w, 'db) host \<Rightarrow> 'x ending \<times> ('w, 'db) host" where
  "new_tuned Q env K V sel supported msg keyr tune init h =
     (if \<not> supported then (Throws (InvalidArgument msg), h)
      else bind_end (lift_result keyr h) (\<lambda>key h.
           bind_end (tuned_params Q env K V sel key tune h) (\<lambda>params h. lift_result (init params) h)))"

text \<open>
  Once the database object exists and the table is well-formed: a construction that returns has
  left its parameters in the table, and a key that is in the table is not tuned for.
\<close>

lemma with_db_static:
  assumes "snd (h_static h) = Some d"
  shows "with_db Q env f h = (case f d (h_db h) of
      (None, db') \<Rightarrow> (Aborts, h\<lparr>h_db := db'\<rparr>)
    | (Some (Inl e), db') \<Rightarrow> (Throws e, h\<lparr>h_db := db'\<rparr>)
    | (Some (Inr x), db') \<Rightarrow> (Returns x, h\<lparr>h_db := db'\<rparr>))"
  using assms by (simp add: with_db_def getDB_def)

context keyed_table
begin

lemma tuned_hit:
  assumes ok: "sqlite_ok Q W scs" "schema_of name K V \<in> set scs"
    and inv: "table_inv W (schema_of name K V) (sel d) (h_db h)" and k: "okK key"
    and d: "snd (h_static h) = Some d" and hit: "table_map W name cellsK okK V (h_db h) key = Some v"
    and run: "tuned_params Q env K V sel key tune h = (r, h')"
  shows "(case r of Returns v' \<Rightarrow> v' = v | Throws e \<Rightarrow> \<exists>m. e = CacheError m | Aborts \<Rightarrow> False)
    \<and> h_tune h' = h_tune h"
proof -
  obtain x db where l: "Table_lookup Q K V (sel d) key (h_db h) = (x, db)"
    by (cases "Table_lookup Q K V (sel d) key (h_db h)")
  note s = lookup_step [OF ok inv k l]
  obtain y where y: "x = Some y" using s by (cases x) auto
  show ?thesis
  proof (cases y)
    case (Inl e)
    then show ?thesis using run s y l by (auto simp: tuned_params_def with_db_static [OF d])
  next
    case (Inr res)
    then have "res = Some v" using s y hit by simp
    then show ?thesis using run y l Inr by (auto simp: tuned_params_def with_db_static [OF d])
  qed
qed

lemma tuned_store:
  assumes ok: "sqlite_ok Q W scs" "schema_of name K V \<in> set scs"
    and inv: "table_inv W (schema_of name K V) (sel d) (h_db h)" and k: "okK key"
    and d: "snd (h_static h) = Some d" and vals: "\<And>ts v ts'. tune ts = (Returns v, ts') \<Longrightarrow> okV v"
    and run: "tuned_params Q env K V sel key tune h = (Returns v, h')"
  shows "table_map W name cellsK okK V (h_db h') key = Some v
    \<and> table_inv W (schema_of name K V) (sel d) (h_db h') \<and> snd (h_static h') = Some d"
proof -
  obtain x db where l: "Table_lookup Q K V (sel d) key (h_db h) = (x, db)"
    by (cases "Table_lookup Q K V (sel d) key (h_db h)")
  note s = lookup_step [OF ok inv k l]
  obtain y where y: "x = Some y" using s by (cases x) auto
  have inv1: "table_inv W (schema_of name K V) (sel d) db"
    using table_inv_cong [of W db "h_db h"] s inv by simp
  show ?thesis
  proof (cases y)
    case (Inl e)
    then show ?thesis using run y l by (simp add: tuned_params_def with_db_static [OF d])
  next
    case (Inr res)
    show ?thesis
    proof (cases res)
      case (Some v')
      then show ?thesis using run y l Inr d s inv1 table_map_cong [of W db "h_db h" name]
        by (auto simp: tuned_params_def with_db_static [OF d])
    next
      case None
      obtain t ts where t: "tune (h_tune h) = (t, ts)" by (cases "tune (h_tune h)")
      let ?h = "h\<lparr>h_db := db, h_tune := ts\<rparr>"
      have d1: "snd (h_static ?h) = Some d" using d by simp
      obtain v' where v': "t = Returns v'"
        using run y l Inr None t by (cases t) (auto simp: tuned_params_def with_db_static [OF d])
      have okv: "okV v'" using vals t v' by simp
      obtain a db2 where a: "Table_add Q K V (sel d) key v' db = (a, db2)"
        by (cases "Table_add Q K V (sel d) key v' db")
      note st = add_step [OF ok inv1 k okv a]
      have "tuned_params Q env K V sel key tune h
          = bind_end (with_db Q env (\<lambda>d db. case Table_add Q K V (sel d) key v' db of (r, db') \<Rightarrow> (Some r, db')) ?h)
              (\<lambda>_ h3. (Returns v', h3))"
        using y l Inr None t v' by (simp add: tuned_params_def with_db_static [OF d])
      also have "\<dots> = bind_end (case a of Inl e \<Rightarrow> (Throws e, ?h\<lparr>h_db := db2\<rparr>) | Inr x \<Rightarrow> (Returns x, ?h\<lparr>h_db := db2\<rparr>))
              (\<lambda>_ h3. (Returns v', h3))"
        using a by (simp add: with_db_static [OF d1])
      finally have r: "a = Inr ()" "v = v'" "h' = ?h\<lparr>h_db := db2\<rparr>"
        using run by (cases a; simp)+
      then show ?thesis using st d table_map_update [OF _ k okv, of W db2 db name] by simp
    qed
  qed
qed

lemma tuned_once:
  assumes ok: "sqlite_ok Q W scs" "schema_of name K V \<in> set scs"
    and inv: "table_inv W (schema_of name K V) (sel d) (h_db h)" and k: "okK key"
    and d: "snd (h_static h) = Some d" and vals: "\<And>ts v ts'. tune ts = (Returns v, ts') \<Longrightarrow> okV v"
    and first: "tuned_params Q env K V sel key tune h = (Returns v, h1)"
    and second: "tuned_params Q env' K V sel key tune' h1 = (r, h2)"
  shows "(case r of Returns v' \<Rightarrow> v' = v | Throws e \<Rightarrow> \<exists>m. e = CacheError m | Aborts \<Rightarrow> False)
    \<and> h_tune h2 = h_tune h1"
  using tuned_store [OF ok inv k d vals first] by (intro tuned_hit [OF ok _ k _ _ second]) auto

lemma new_tuned_once:
  assumes ok: "sqlite_ok Q W scs" "schema_of name K V \<in> set scs"
    and inv: "table_inv W (schema_of name K V) (sel d) (h_db h)" and d: "snd (h_static h) = Some d"
    and k: "\<And>key. keyr = Inr key \<Longrightarrow> okK key" and vals: "\<And>ts v ts'. tune ts = (Returns v, ts') \<Longrightarrow> okV v"
    and first: "new_tuned Q env K V sel okay msg keyr tune init h = (Returns x, h1)"
    and second: "new_tuned Q env' K V sel True msg' keyr tune' init' h1 = (r, h2)"
  shows "h_tune h2 = h_tune h1 \<and> (\<exists>v. init v = Inr x
    \<and> (case r of Returns x' \<Rightarrow> init' v = Inr x'
        | Throws e \<Rightarrow> (\<exists>m. e = CacheError m) \<or> init' v = Inl e | Aborts \<Rightarrow> False))"
proof -
  obtain key where key: "keyr = Inr key"
    using first by (cases keyr) (auto simp: new_tuned_def split: if_splits)
  obtain v where v: "tuned_params Q env K V sel key tune h = (Returns v, h1)" "init v = Inr x"
    using first key by (auto simp: new_tuned_def lift_result_Returns split: if_splits elim!: bind_end_Returns)
  obtain y h3 where y: "tuned_params Q env' K V sel key tune' h1 = (y, h3)"
    by (cases "tuned_params Q env' K V sel key tune' h1")
  note hit = tuned_once [where sel = sel, OF ok inv k [OF key] d vals v(1) y]
  have "new_tuned Q env' K V sel True msg' keyr tune' init' h1 = bind_end (y, h3) (\<lambda>params h. lift_result (init' params) h)"
    using key y by (simp add: new_tuned_def)
  then have "h_tune h2 = h_tune h1 \<and> (case r of Returns x' \<Rightarrow> init' v = Inr x'
        | Throws e \<Rightarrow> (\<exists>m. e = CacheError m) \<or> init' v = Inl e | Aborts \<Rightarrow> False)"
    using second hit by (cases y) (auto simp: lift_result_def split: sum.splits)
  then show ?thesis using v(2) by blast
qed

end

text \<open>What a device record may hold.\<close>

definition device_ok :: "device \<Rightarrow> bool" where
  "device_ok d \<longleftrightarrow> vendor_id d < 2 ^ 32 \<and> warp_size_nv d < 2 ^ 32 \<and> max_work_group_size d < 2 ^ 63"

lemma warp_sizes_bound: "device_ok d \<Longrightarrow> getWarpSizeMem d < 2 ^ 32 \<and> getWarpSizeSchedule d < 2 ^ 32"
  by (simp add: device_ok_def getWarpSizeMem_def getWarpSizeSchedule_def)

lemma deviceKey_ok: "device_ok d \<Longrightarrow> ok_DeviceKey (deviceKey d)"
  by (simp add: device_ok_def ok_DeviceKey_def deviceKey_def)

section \<open>Canonical types\<close>

text \<open>
  The scan and the reduction share the parameters of a signed type and its unsigned variant.
\<close>

definition canon_signed :: "cl_type \<Rightarrow> cl_type result" where
  "canon_signed t = (case baseType t of
       TYPE_UCHAR \<Rightarrow> make_type TYPE_CHAR (veclen t)
     | TYPE_USHORT \<Rightarrow> make_type TYPE_SHORT (veclen t)
     | TYPE_UINT \<Rightarrow> make_type TYPE_INT (veclen t)
     | TYPE_ULONG \<Rightarrow> make_type TYPE_LONG (veclen t)
     | _ \<Rightarrow> Inr t)"

fun signed_base :: "base_type \<Rightarrow> base_type" where
  "signed_base TYPE_UCHAR = TYPE_CHAR"
| "signed_base TYPE_USHORT = TYPE_SHORT"
| "signed_base TYPE_UINT = TYPE_INT"
| "signed_base TYPE_ULONG = TYPE_LONG"
| "signed_base b = b"

lemma canon_signed_eq:
  "t \<in> set type_table \<Longrightarrow> canon_signed t = Inr \<lparr>baseType = signed_base (baseType t), veclen = veclen t\<rparr>"
  by (cases t; cases "baseType t")
    (auto simp: canon_signed_def make_type_iff type_table_iff void_type_def)

lemma canon_in_table:
  "t \<in> set type_table \<Longrightarrow> \<lparr>baseType = signed_base (baseType t), veclen = veclen t\<rparr> \<in> set type_table"
  by (cases t; cases "baseType t") (auto simp: type_table_iff void_type_def)

text \<open>The first construction for a key: the table has no entry, tuning returns, the entry is added.\<close>

lemma tuned_first:
  assumes "table_run Q K V (sel d) [Lookup k, Add k v] (h_db h) = ([Absent, Added], db)"
    and "snd (h_static h) = Some d" and "tune (h_tune h) = (Returns v, ts)"
  shows "tuned_params Q env K V sel k tune h = (Returns v, h\<lparr>h_db := db, h_tune := ts\<rparr>)"
proof -
  obtain r1 db1 where l: "Table_lookup Q K V (sel d) k (h_db h) = (r1, db1)"
    by (cases "Table_lookup Q K V (sel d) k (h_db h)")
  obtain r2 db2 where a: "Table_add Q K V (sel d) k v db1 = (r2, db2)"
    by (cases "Table_add Q K V (sel d) k v db1")
  have r: "r1 = Some (Inr None)" "r2 = Inr ()" "db2 = db"
    using assms(1) l a by (auto simp: table_step_def split: option.splits sum.splits)
  have d': "snd (h_static (h\<lparr>h_db := db1, h_tune := ts\<rparr>)) = Some d" using assms(2) by simp
  show ?thesis using assms(3) l a r by (simp add: tuned_params_def with_db_static [OF assms(2)] with_db_static [OF d'])
qed

section \<open>A machine whose tests all run equally fast\<close>

definition steady :: "('c, 'p, 'r, 'w) tuner \<Rightarrow> 'r \<Rightarrow> nat list \<Rightarrow> 'p list \<Rightarrow> bool" where
  "steady T r ns ps \<longleftrightarrow> (\<forall>n\<in>set ns. \<forall>p\<in>set ps. \<forall>w. \<exists>c w1 w2. tu_context T w = (Inr c, w1)
     \<and> tu_callback T c n p w1 = (Inr (Some r, Some r), w2))"

lemma steady_runs: "steady T r ns ps \<Longrightarrow> runs T ns ps"
  unfolding steady_def runs_def by blast

lemma steady_tests:
  fixes r :: "'r::{linorder, order_bot}"
  assumes "steady T r [n] ps"
  shows "\<exists>st'. tune_tests P T n ps good m st
    = (Returns (good @ map (\<lambda>p. (p, r, r)) ps, if ps = [] then m else max m r), st')"
  using assms
proof (induction ps arbitrary: good m st)
  case (Cons p ps)
  obtain c w1 w2 where "tu_context T (world (logStartTest P st)) = (Inr c, w1)"
    "tu_callback T c n p w1 = (Inr (Some r, Some r), w2)"
    using Cons.prems unfolding steady_def by fastforce
  then obtain st1 where t: "tune_try T n p (logStartTest P st) = (Inr (Some r, Some r), st1)"
    by (simp add: tune_try_def)
  have "steady T r [n] ps" using Cons.prems by (simp add: steady_def)
  from Cons.IH [OF this, of "good @ [(p, r, r)]" "max m r" "logEndTest P (tu_show T) (Some r) st1"]
  obtain st' where ih: "tune_tests P T n ps (good @ [(p, r, r)]) (max m r) (logEndTest P (tu_show T) (Some r) st1)
      = (Returns (good @ map (\<lambda>p. (p, r, r)) (p # ps), max m r), st')"
    by (auto split: if_splits)
  then show ?case using t max_if [of m r] by (simp add: max.commute)
qed simp

lemma steady_passes:
  fixes r :: "'r::{linorder, order_bot}"
  assumes "ps \<noteq> []" "tu_ratio T r \<le> r"
  shows "ns \<noteq> [] \<Longrightarrow> steady T r ns ps \<Longrightarrow> \<exists>st'. tune_passes P T ps ns st = (Returns (hd ps), st')"
proof (induction ns arbitrary: st)
  case (Cons n ns)
  have "steady T r [n] ps" using Cons.prems by (simp add: steady_def)
  moreover have "max bot r = r" by (simp add: max_absorb2)
  ultimately obtain st1 where t: "tune_tests P T n ps [] bot (logStartGroup P st)
      = (Returns (map (\<lambda>p. (p, r, r)) ps, r), st1)"
    using steady_tests [of T r n ps P "[]" bot "logStartGroup P st"] assms(1) by auto
  have f: "find (\<lambda>(p, a, b). r \<le> b) (map (\<lambda>p. (p, r, r)) ps) = Some (hd ps, r, r)"
    using assms(1) by (cases ps) simp_all
  have k: "map fst (filter (\<lambda>(p, a, b). tu_ratio T r \<le> a) (map (\<lambda>p. (p, r, r)) ps)) = ps"
    using assms(2) by (simp add: comp_def)
  show ?case
  proof (cases "ns = []")
    case True
    then show ?thesis using t f assms(1) by simp
  next
    case False
    have s: "steady T r ns ps" using Cons.prems by (simp add: steady_def)
    show ?thesis using t Cons.IH [OF False s, of "logEndGroup P st1"] False assms(1) k by (simp del: filter_map map_map)
  qed
qed simp

lemma steady_tuneOne:
  fixes r :: "'r::{linorder, order_bot}"
  assumes "steady T r ns ps" "tu_ratio T r \<le> r" "ps \<noteq> []" "ns \<noteq> []" "tp_enabled P"
  obtains st' where "tuneOne P T ps ns st = (Returns (hd ps), st')"
  using steady_passes [OF assms(3,2,4,1), of P st] assms(5) by (auto simp: tuneOne_def assertEnabled_def)

text \<open>A runtime to evaluate the properties on: everything succeeds, and the rate is constant.\<close>

definition demo_bench :: "(unit, 'a, nat, nat) bench" where
  "demo_bench = \<lparr>be_context = (\<lambda>w. (Inr (), w)),
     be_alloc = (\<lambda>c f n. if n = 0 then Inl (ClError (-61) ''clCreateBuffer'') else Inr 9),
     be_fill = (\<lambda>c b bytes. Inr ()), be_queue = (\<lambda>c. Inr ()), be_build = (\<lambda>c f d s. Inr \<lparr>pfile = f, pdefs = d, psdefs = s\<rparr>),
     be_kernel = (\<lambda>c p n. Inr (new_kernel p n)), be_driver = (\<lambda>c cmd. CL_SUCCESS),
     be_finish = (\<lambda>c cs w. (Inr (), Suc w)), be_profile = (\<lambda>c e w. Inr (w, w + 5)),
     be_rate = (\<lambda>n t. Some 1), be_slack = (\<lambda>r. r), be_ratio = (\<lambda>r. r), be_show = (\<lambda>r. ''r'')\<rparr>"

lemma demo_run_finish:
  "run_finish demo_bench c go (d, q) w = (case go (d, q) of (Inl e, d', q') \<Rightarrow> (Inl e, w)
     | (Inr x, d', q') \<Rightarrow> (Inr (x, d', q'\<lparr>cmds := []\<rparr>), Suc w))"
  by (simp add: run_finish_def demo_bench_def split: prod.split sum.split)

lemma demo_twice:
  assumes "\<exists>x d' q'. go (d, new_queue) = (Inr x, d', q') \<and> (\<exists>y d2 q2. go2 (d', q'\<lparr>cmds := []\<rparr>) = (Inr y, d2, q2))"
  shows "rates demo_bench slack work (bench_twice demo_bench c go go2 fromto d w)
   = (Inr (Some 1, Some (slack 1)), Suc (Suc w))"
proof -
  from assms obtain x d1 q1 y d2 q2 where 1: "go (d, new_queue) = (Inr x, d1, q1)"
    and 2: "go2 (d1, q1\<lparr>cmds := []\<rparr>) = (Inr y, d2, q2)" by blast
  show ?thesis
    by (simp add: rates_def bench_twice_def demo_run_finish 1 2) (simp add: demo_bench_def)
qed

lemma success_launch:
  "enqueueNDRange (\<lambda>_. CL_SUCCESS) k g l w q = (Inr (next_ev q),
     q\<lparr>cmds := cmds q @ [\<lparr>act = Launch k g l, waits = wait_list w, ev = next_ev q\<rparr>], next_ev := Suc (next_ev q)\<rparr>)"
  by (simp add: enqueueNDRange_def enqueue_action_def)

lemma demo_simps:
  "be_alloc demo_bench c f n = (if n = 0 then Inl (ClError (-61) ''clCreateBuffer'') else Inr 9)"
  "be_fill demo_bench c i bytes = Inr ()" "be_queue demo_bench c = Inr ()" "be_driver demo_bench c = (\<lambda>_. CL_SUCCESS)" "be_slack demo_bench r = r" "be_ratio demo_bench r = r"
  "be_context demo_bench w = (Inr (), w)"
  by (simp_all add: demo_bench_def)

lemma steady_demo:
  assumes "\<And>n p w. n \<in> set ns \<Longrightarrow> p \<in> set ps \<Longrightarrow> \<exists>w2. cb () n p w = (Inr (Some r, Some r), w2)"
  shows "steady (bench_tuner demo_bench cb) r ns ps"
  using assms by (simp add: steady_def bench_tuner_def demo_bench_def)

text \<open>A small device, on which the candidate lists are short.\<close>

definition tiny_device :: device where
  "tiny_device = example_device\<lparr>extensions := [], max_work_group_size := 1, local_mem_size := 8\<rparr>"

lemma tiny_no_ext: "\<not> deviceHasExtension tiny_device ''cl_nv_device_attribute_query''"
  by (simp add: deviceHasExtension_def tiny_device_def find_from.simps [of "[]"])

text \<open>A process with an empty cache in the \<open>engine\<close>.\<close>

definition demo_host :: "db_object \<Rightarrow> engine_db \<Rightarrow> (nat, engine_db) host" where
  "demo_host d db = \<lparr>h_tune = demo_start, h_static = (None, Some d), h_db = db, h_cerr = []\<rparr>"

lemma demo_tables_all:
  assumes "demo_db = Some (d, db)"
  shows "table_inv engine_view scan_schema (db_scan d) db" "table_inv engine_view reduce_schema (db_reduce d) db"
    "table_inv engine_view radixsort_schema (db_radixsort d) db" "table_inv engine_view kernel_schema (db_kernel d) db"
proof -
  obtain r db' log where run: "DB_members (engine clogs_schemas) (Some 0) empty_engine = (r, db', log)"
    by (cases "DB_members (engine clogs_schemas) (Some 0) empty_engine")
  with assms have r: "r = Inr d" "db' = db" by (auto simp: demo_db_def split: sum.splits)
  have e: "v_rows engine_view db n ks = None" for n ks by (simp add: demo_tables(2) [OF assms])
  have "stmts_live (v_live engine_view db) scan_schema (db_scan d)"
    "stmts_live (v_live engine_view db) reduce_schema (db_reduce d)"
    "stmts_live (v_live engine_view db) radixsort_schema (db_radixsort d)"
    "stmts_live (v_live engine_view db) kernel_schema (db_kernel d)"
    using DB_members_live [OF engine_stmt_ok run] r by simp_all
  then show "table_inv engine_view scan_schema (db_scan d) db" "table_inv engine_view reduce_schema (db_reduce d) db"
    "table_inv engine_view radixsort_schema (db_radixsort d) db" "table_inv engine_view kernel_schema (db_kernel d) db"
    by (simp_all add: table_inv_stmts e)
qed

end
