(* ===== verification/Build.thy ===== *)
theory Build
  imports StdMap Bench
begin

text \<open>
  Compiling a program, \<^verbatim>\<open>build\<close> of src/utils.cpp: the header with the definitions, the cache of
  compiled binaries, the fallback to the source when a binary is refused, and the update of the
  cache. The embedded sources (a generated file) and the OpenCL compiler are parameters. Shown:
  the function refines a specification over a finite map from keys to binaries, so a stale or
  corrupt entry never makes it fail where the source compiles, and a program is compiled once.
\<close>

section \<open>The header\<close>

definition show_int :: "int \<Rightarrow> string" where
  "show_int i = (if i < 0 then ''-'' @ show_nat (nat (- i)) else show_nat (nat i))"

definition define_line :: "string \<Rightarrow> string \<Rightarrow> string" where
  "define_line name val = ''#define '' @ name @ '' '' @ val @ ''\<newline>''"

definition build_header :: "bool \<Rightarrow> string \<Rightarrow> int std_map \<Rightarrow> string std_map \<Rightarrow> string" where
  "build_header unitTests filename defines sdefines =
     concat (map (\<lambda>(k, v). define_line k (show_int v)) defines)
     @ concat (map (\<lambda>(k, v). define_line k v) sdefines)
     @ (if unitTests then ''#define UNIT_TESTS 1\<newline>'' else [])
     @ ''#line 1 '' @ [CHR 0x22] @ filename @ [CHR 0x22] @ ''\<newline>''"

section \<open>The compiler\<close>

text \<open>
  The source map (text and checksum); programs from a binary and from source strings; the build
  with its status, which may throw \<^verbatim>\<open>cl::Error\<close> and changes the program object; the log;
  the devices of a program with the sizes of their binaries; the answer of
  \<^verbatim>\<open>clGetProgramInfo\<close> with the binary of a device.
\<close>

record ('c, 'p) compiler =
  cc_sources :: "string \<rightharpoonup> string \<times> string"
  cc_from_binary :: "'c \<Rightarrow> nat list \<Rightarrow> 'p result"
  cc_from_source :: "'c \<Rightarrow> string list \<Rightarrow> 'p result"
  cc_build :: "'p \<Rightarrow> string \<Rightarrow> int result \<times> 'p"
  cc_log :: "'p \<Rightarrow> string result"
  cc_device_name :: "string result"
  cc_devices :: "'p \<Rightarrow> (nat list \<times> nat list) result"
  cc_binary :: "'p \<Rightarrow> nat \<Rightarrow> int \<times> nat list"

text \<open>The message of a failed build, for the only device of the list.\<close>

definition build_message :: "('c, 'p) compiler \<Rightarrow> 'p \<Rightarrow> string \<Rightarrow> string result" where
  "build_message C p filename =
     bind_result (cc_log C p) (\<lambda>log.
     bind_result (if log \<noteq> [] \<and> log \<noteq> ''\<newline>''
        then bind_result (cc_device_name C) (\<lambda>name. Inr (''Log for device '' @ name @ ''\<newline>'' @ log @ ''\<newline>''))
        else Inr []) (\<lambda>rest.
     Inr (''Internal error compiling '' @ filename @ ''\<newline>'' @ rest)))"

definition buildProgram :: "('c, 'p) compiler \<Rightarrow> 'p \<Rightarrow> string \<Rightarrow> string \<Rightarrow> unit result \<times> 'p" where
  "buildProgram C p filename options =
     (case cc_build C p options of (r, p1) \<Rightarrow>
        (case r of
           Inl e \<Rightarrow> if is_cl_error e
              then (bind_result (build_message C p1 filename) (\<lambda>m. Inl (InternalError m)), p1) else (Inl e, p1)
         | Inr status \<Rightarrow> if status \<noteq> 0
              then (bind_result (build_message C p1 filename) (\<lambda>m. Inl (InternalError m)), p1) else (Inr (), p1)))"

text \<open>
  The attempt with the cached binary: a program, the decision to fall back (\<open>None\<close>), or an error.
\<close>

definition from_cache :: "('c, 'p) compiler \<Rightarrow> 'c \<Rightarrow> string \<Rightarrow> string \<Rightarrow> kernel_value \<Rightarrow> 'p option result" where
  "from_cache C c filename options v =
     (case (bind_result (cc_from_binary C c (kv_binary v)) (\<lambda>p.
              case buildProgram C p filename options of (r, p1) \<Rightarrow> bind_result r (\<lambda>_. Inr p1))) of
        Inr p \<Rightarrow> Inr (Some p)
      | Inl e \<Rightarrow>
          if is_internal e then Inr None
          else (case e of ClError code m \<Rightarrow> if code \<noteq> CL_INVALID_BINARY then Inl e else Inr None
                | _ \<Rightarrow> Inl e))"

definition from_source :: "('c, 'p) compiler \<Rightarrow> 'c \<Rightarrow> string \<Rightarrow> string \<Rightarrow> string list \<Rightarrow> 'p result" where
  "from_source C c filename options texts =
     bind_result (cc_from_source C c texts) (\<lambda>p.
       case buildProgram C p filename options of (r, p1) \<Rightarrow> bind_result r (\<lambda>_. Inr p1))"

text \<open>
  What goes into the cache: the binary of the device, if the program lists it. The lengths of the
  two lists differing is the failed assertion.
\<close>

definition find_device :: "nat \<Rightarrow> nat list \<Rightarrow> nat option" where
  "find_device dev devs = find (\<lambda>i. devs ! i = dev) [0..<length devs]"

definition program_binary :: "('c, 'p) compiler \<Rightarrow> 'p \<Rightarrow> nat \<Rightarrow> kernel_value option result ending" where
  "program_binary C p dev =
     (case cc_devices C p of
        Inl e \<Rightarrow> Throws e
      | Inr (sizes, devs) \<Rightarrow>
          if length sizes \<noteq> length devs then Aborts
          else Returns (case find_device dev devs of
                None \<Rightarrow> Inr None
              | Some i \<Rightarrow> (case cc_binary C p i of (err, bin) \<Rightarrow>
                    if err \<noteq> CL_SUCCESS then Inl (ClError err ''clGetProgramInfo'')
                    else Inr (Some \<lparr>kv_binary = bin\<rparr>))))"

definition kernelKey :: "device \<Rightarrow> string \<Rightarrow> string \<Rightarrow> kernel_key" where
  "kernelKey d header checksum = \<lparr>kk_device = deviceKey d, kk_header = header, kk_checksum = checksum\<rparr>"

definition build ::
  "'db sqlite \<Rightarrow> (string \<rightharpoonup> string) \<Rightarrow> ('c, 'p) compiler \<Rightarrow> bool \<Rightarrow> 'c \<Rightarrow> device \<Rightarrow> nat \<Rightarrow> string
    \<Rightarrow> int std_map \<Rightarrow> string std_map \<Rightarrow> string \<Rightarrow> ('w, 'db) host \<Rightarrow> 'p ending \<times> ('w, 'db) host" where
  "build Q env C unitTests c d dev filename defines sdefines options h =
     (case cc_sources C filename of
        None \<Rightarrow> (Aborts, h)
      | Some (text, checksum) \<Rightarrow>
          let header = build_header unitTests filename defines sdefines; key = kernelKey d header checksum
          in bind_end (with_db Q env (\<lambda>db. Table_lookup Q KernelKey_struct KernelValue_struct (db_kernel db) key) h)
               (\<lambda>found h1.
             bind_end (lift_result (case found of None \<Rightarrow> Inr None | Some v \<Rightarrow> from_cache C c filename options v) h1)
               (\<lambda>cached h1.
             case cached of
               Some p \<Rightarrow> (Returns p, h1)
             | None \<Rightarrow>
                 bind_end (lift_result (from_source C c filename options [header, text]) h1) (\<lambda>p h1.
                 bind_end (program_binary C p dev, h1) (\<lambda>r h1.
                 bind_end (lift_result r h1) (\<lambda>bin h1.
                 case bin of
                   None \<Rightarrow> (Returns p, h1)
                 | Some v \<Rightarrow>
                     bind_end (with_db Q env (\<lambda>o' db. case Table_add Q KernelKey_struct KernelValue_struct
                         (db_kernel o') key v db of (r, db') \<Rightarrow> (Some r, db')) h1) (\<lambda>_ h2.
                     (Returns p, h2))))))))"


section \<open>The specification\<close>

text \<open>
  What a build promises, over a finite map from keys to binaries: a cached binary that still
  builds is used; one that does not is ignored; otherwise the source is compiled and the binary of
  the device, if the program lists it, is stored.
\<close>

definition build_spec ::
  "('c, 'p) compiler \<Rightarrow> bool \<Rightarrow> 'c \<Rightarrow> device \<Rightarrow> nat \<Rightarrow> string \<Rightarrow> int std_map \<Rightarrow> string std_map \<Rightarrow> string
    \<Rightarrow> (kernel_key \<rightharpoonup> kernel_value) \<Rightarrow> 'p ending \<times> (kernel_key \<rightharpoonup> kernel_value)" where
  "build_spec C unitTests c d dev filename defines sdefines options M =
     (case cc_sources C filename of
        None \<Rightarrow> (Aborts, M)
      | Some (text, checksum) \<Rightarrow>
          let header = build_header unitTests filename defines sdefines; key = kernelKey d header checksum
          in case (case M key of None \<Rightarrow> Inr None | Some v \<Rightarrow> from_cache C c filename options v) of
               Inl e \<Rightarrow> (Throws e, M)
             | Inr (Some p) \<Rightarrow> (Returns p, M)
             | Inr None \<Rightarrow>
                 (case from_source C c filename options [header, text] of
                    Inl e \<Rightarrow> (Throws e, M)
                  | Inr p \<Rightarrow>
                      (case program_binary C p dev of
                         Aborts \<Rightarrow> (Aborts, M)
                       | Throws e \<Rightarrow> (Throws e, M)
                       | Returns (Inl e) \<Rightarrow> (Throws e, M)
                       | Returns (Inr None) \<Rightarrow> (Returns p, M)
                       | Returns (Inr (Some v)) \<Rightarrow> (Returns p, M(key \<mapsto> v)))))"

abbreviation kernel_map :: "'db view \<Rightarrow> 'db \<Rightarrow> kernel_key \<rightharpoonup> kernel_value" where
  "kernel_map W \<equiv> table_map W kernel_tableName cells_KernelKey ok_KernelKey KernelValue_struct"

text \<open>The state between two builds.\<close>

definition cache_ready :: "'db view \<Rightarrow> db_object \<Rightarrow> ('w, 'db) host \<Rightarrow> bool" where
  "cache_ready W dbo h \<longleftrightarrow> snd (h_static h) = Some dbo \<and> table_inv W kernel_schema (db_kernel dbo) (h_db h)"

lemma map_stored: "M(k \<mapsto> v) = M' \<Longrightarrow> M' k = Some v"
  by auto

lemma ok_kernelKey: "device_ok d \<Longrightarrow> ok_KernelKey (kernelKey d header checksum)"
  by (simp add: ok_KernelKey_def kernelKey_def deviceKey_ok)

lemma kernel_in_schemas: "kernel_schema \<in> set clogs_schemas"
  by (simp add: clogs_schemas_def)

lemma kernel_lookup:
  assumes ok: "sqlite_ok Q W clogs_schemas" and ready: "cache_ready W dbo h" and k: "ok_KernelKey key"
  obtains (failed) m h' where "with_db Q env (\<lambda>db. Table_lookup Q KernelKey_struct KernelValue_struct (db_kernel db) key) h
      = (Throws (CacheError m), h')" "cache_ready W dbo h'" "v_rows W (h_db h') = v_rows W (h_db h)" "h_tune h' = h_tune h"
  | (found) h' where "with_db Q env (\<lambda>db. Table_lookup Q KernelKey_struct KernelValue_struct (db_kernel db) key) h
      = (Returns (kernel_map W (h_db h) key), h')" "cache_ready W dbo h'" "v_rows W (h_db h') = v_rows W (h_db h)"
      "h_tune h' = h_tune h"
proof -
  have st: "snd (h_static h) = Some dbo" and inv: "table_inv W kernel_schema (db_kernel dbo) (h_db h)"
    using ready by (simp_all add: cache_ready_def)
  obtain x db where l: "Table_lookup Q KernelKey_struct KernelValue_struct (db_kernel dbo) key (h_db h) = (x, db)"
    by (cases "Table_lookup Q KernelKey_struct KernelValue_struct (db_kernel dbo) key (h_db h)")
  note s = kernel_table.lookup_step [where name = kernel_tableName, OF ok _ _ k l, unfolded schema_of_tables,
      OF kernel_in_schemas inv]
  have r: "cache_ready W dbo (h\<lparr>h_db := db\<rparr>)"
    using s st inv table_inv_cong [of W db "h_db h"] by (simp add: cache_ready_def)
  obtain y where y: "x = Some y" using s by (cases x) auto
  show ?thesis
  proof (cases y)
    case (Inl e)
    then obtain m where "e = CacheError m" using s y by auto
    then show ?thesis using failed [of m "h\<lparr>h_db := db\<rparr>"] r s l y Inl by (simp add: with_db_static [OF st])
  next
    case (Inr res)
    then have "res = kernel_map W (h_db h) key" using s y by simp
    then show ?thesis using found [of "h\<lparr>h_db := db\<rparr>"] r s l y Inr by (simp add: with_db_static [OF st])
  qed
qed

lemma kernel_add:
  assumes ok: "sqlite_ok Q W clogs_schemas" and ready: "cache_ready W dbo h" and k: "ok_KernelKey key"
  obtains (failed) m h' where "with_db Q env (\<lambda>o' db. case Table_add Q KernelKey_struct KernelValue_struct
        (db_kernel o') key v db of (r, db') \<Rightarrow> (Some r, db')) h = (Throws (CacheError m), h')"
      "cache_ready W dbo h'" "v_rows W (h_db h') = v_rows W (h_db h)" "h_tune h' = h_tune h"
  | (added) h' where "with_db Q env (\<lambda>o' db. case Table_add Q KernelKey_struct KernelValue_struct
        (db_kernel o') key v db of (r, db') \<Rightarrow> (Some r, db')) h = (Returns (), h')"
      "cache_ready W dbo h'" "kernel_map W (h_db h') = (kernel_map W (h_db h))(key \<mapsto> v)"
      "\<forall>n. n = kernel_tableName \<or> v_rows W (h_db h') n = v_rows W (h_db h) n" "h_tune h' = h_tune h"
proof -
  have st: "snd (h_static h) = Some dbo" and inv: "table_inv W kernel_schema (db_kernel dbo) (h_db h)"
    using ready by (simp_all add: cache_ready_def)
  obtain x db where a: "Table_add Q KernelKey_struct KernelValue_struct (db_kernel dbo) key v (h_db h) = (x, db)"
    by (cases "Table_add Q KernelKey_struct KernelValue_struct (db_kernel dbo) key v (h_db h)")
  have okv: "ok_KernelValue v" by (simp add: ok_KernelValue_def)
  note s = kernel_table.add_step [where name = kernel_tableName, OF ok _ _ k okv a, unfolded schema_of_tables,
      OF kernel_in_schemas inv]
  have r: "cache_ready W dbo (h\<lparr>h_db := db\<rparr>)"
    using s st by (simp add: cache_ready_def schema_of_tables)
  show ?thesis
  proof (cases x)
    case (Inl e)
    then obtain m where "e = CacheError m" using s by auto
    then show ?thesis using failed [of m "h\<lparr>h_db := db\<rparr>"] r s a Inl by (simp add: with_db_static [OF st])
  next
    case (Inr u)
    then show ?thesis using added [of "h\<lparr>h_db := db\<rparr>"] r s a
        kernel_table.table_map_update [OF _ k okv, of W db "h_db h" kernel_tableName]
      by (simp add: with_db_static [OF st])
  qed
qed
lemma build_refines_spec:
  assumes ok: "sqlite_ok Q W clogs_schemas" and ready: "cache_ready W dbo h" and dev_ok: "device_ok d"
    and run: "build Q env C unitTests c d dev filename defines sdefines options h = (r, h')"
  shows "((\<exists>m. r = Throws (CacheError m)) \<and> kernel_map W (h_db h') = kernel_map W (h_db h)
      \<or> build_spec C unitTests c d dev filename defines sdefines options (kernel_map W (h_db h))
          = (r, kernel_map W (h_db h')))
    \<and> cache_ready W dbo h' \<and> h_tune h' = h_tune h
    \<and> (\<forall>n. n = kernel_tableName \<or> v_rows W (h_db h') n = v_rows W (h_db h) n)"
proof (cases "cc_sources C filename")
  case None
  then show ?thesis using run ready by (simp add: build_def build_spec_def)
next
  case (Some sr)
  obtain body cksum where sr: "sr = (body, cksum)" by (cases sr)
  let ?header = "build_header unitTests filename defines sdefines"
  let ?key = "kernelKey d ?header cksum"
  let ?F = "case kernel_map W (h_db h) ?key of None \<Rightarrow> Inr None | Some v \<Rightarrow> from_cache C c filename options v"
  note eqs = build_def build_spec_def Some sr option.case prod.case Let_def
  show ?thesis
  proof (cases rule: kernel_lookup [where env = env, OF ok ready ok_kernelKey [OF dev_ok, of ?header cksum],
      consumes 0, case_names failed found])
    case (failed m h1)
    then show ?thesis using run kernel_table.table_map_cong [of W "h_db h1" "h_db h"]
      by (auto simp: build_def Some sr)
  next
    case (found h1)
    note h1 = found
    have same: "kernel_map W (h_db h1) = kernel_map W (h_db h)" by (rule kernel_table.table_map_cong) (rule h1)
    note go = run [unfolded eqs h1(1) bind_end_simps]
    consider (throws) e where "?F = Inl e" | (hit) p where "?F = Inr (Some p)"
      | (src_throws) e where "?F = Inr None" "from_source C c filename options [?header, body] = Inl e"
      | (src) p where "?F = Inr None" "from_source C c filename options [?header, body] = Inr p"
      by (metis sum.exhaust option.exhaust)
    then show ?thesis
    proof cases
      case (src p)
      note p = src
      show ?thesis
      proof (cases "program_binary C p dev")
        case (Returns b)
        show ?thesis
        proof (cases b)
          case (Inl e)
          then show ?thesis using go h1 same p Returns by (simp add: eqs)
        next
          case (Inr o')
          show ?thesis
          proof (cases o')
            case None
            then show ?thesis using go h1 same p Returns Inr by (simp add: eqs)
          next
            case (Some v)
            show ?thesis
            proof (cases rule: kernel_add [where env = env and v = v, OF ok h1(2) ok_kernelKey [OF dev_ok, of ?header cksum],
                consumes 0, case_names failed added])
              case (failed m h2)
              then show ?thesis using go h1 same p Returns Inr Some kernel_table.table_map_cong [of W "h_db h2" "h_db h1"]
                by (auto simp: eqs)
            next
              case (added h2)
              then show ?thesis using go h1 same p Returns Inr Some by (auto simp: eqs)
            qed
          qed
        qed
      qed (use go h1 same p in \<open>simp_all add: eqs\<close>)
    qed (use go h1 same in \<open>simp_all add: eqs\<close>)
  qed
qed

text \<open>
  What is relied on of a driver: it refuses a binary with \<^verbatim>\<open>CL_INVALID_BINARY\<close>, errors of
  the build are \<^verbatim>\<open>cl::Error\<close>, and the log and the name of the device can be read.
\<close>

definition driver_ok :: "('c, 'p) compiler \<Rightarrow> 'c \<Rightarrow> bool" where
  "driver_ok C c \<longleftrightarrow>
     (\<forall>b e. cc_from_binary C c b = Inl e \<longrightarrow> (\<exists>m. e = ClError CL_INVALID_BINARY m))
     \<and> (\<forall>p os e p'. cc_build C p os = (Inl e, p') \<longrightarrow> is_cl_error e)
     \<and> (\<forall>p. \<exists>l. cc_log C p = Inr l) \<and> (\<exists>n. cc_device_name C = Inr n)"

lemma buildProgram_fails:
  assumes "driver_ok C c" "buildProgram C p filename options = (Inl e, p')"
  shows "is_internal e"
proof -
  obtain l n where l: "\<And>p. \<exists>l. cc_log C p = Inr l" "cc_device_name C = Inr n"
    using assms(1) by (auto simp: driver_ok_def)
  have msg: "\<exists>m. build_message C p1 filename = Inr m" for p1
    using l(1) [of p1] l(2) by (auto simp: build_message_def)
  obtain r p1 where b: "cc_build C p options = (r, p1)" by (cases "cc_build C p options")
  show ?thesis
  proof (cases r)
    case (Inl x)
    then have "is_cl_error x" using assms(1) b unfolding driver_ok_def by blast
    then show ?thesis using assms(2) b Inl msg [of p1] by (auto simp: buildProgram_def)
  next
    case (Inr st)
    then show ?thesis using assms(2) b msg [of p1] by (auto simp: buildProgram_def split: if_splits)
  qed
qed

lemma from_cache_total:
  assumes "driver_ok C c"
  shows "\<exists>x. from_cache C c filename options v = Inr x"
proof (cases "cc_from_binary C c (kv_binary v)")
  case (Inl e)
  then obtain m where "e = ClError CL_INVALID_BINARY m" using assms by (auto simp: driver_ok_def)
  then show ?thesis using Inl by (simp add: from_cache_def)
next
  case (Inr p)
  obtain r p1 where b: "buildProgram C p filename options = (r, p1)" by (cases "buildProgram C p filename options")
  then show ?thesis using Inr buildProgram_fails [OF assms, of p filename options] by (cases r) (auto simp: from_cache_def)
qed

text \<open>
  A compiler to evaluate the properties on: programs are numbers, 1 comes from the binary \<open>[7]\<close>,
  2 from the source, and 0 (any other binary) does not build.
\<close>

definition demo_compiler :: "(unit, nat) compiler" where
  "demo_compiler = \<lparr>
     cc_sources = [''f'' \<mapsto> (''kernel'', ''s'')],
     cc_from_binary = (\<lambda>c b. Inr (if b = [7] then 1 else 0)),
     cc_from_source = (\<lambda>c ts. Inr 2),
     cc_build = (\<lambda>p os. (Inr (if p = 0 then 1 else 0), p)),
     cc_log = (\<lambda>p. Inr []),
     cc_device_name = Inr ''d'',
     cc_devices = (\<lambda>p. Inr ([1], [5])),
     cc_binary = (\<lambda>p i. (CL_SUCCESS, [7]))\<rparr>"

text \<open>After a driver update no old binary builds.\<close>

definition demo_stale :: "(unit, nat) compiler" where
  "demo_stale = demo_compiler\<lparr>cc_from_binary := (\<lambda>c b. Inr 0)\<rparr>"

definition demo_build :: "(nat, engine_db) host \<Rightarrow> nat ending \<times> (nat, engine_db) host" where
  "demo_build = build (engine clogs_schemas) (\<lambda>_. None) demo_compiler False () tiny_device 5 ''f''
     [(''N'', - 3)] [(''T'', ''int'')] []"

definition demo_kernel :: kernel_key where
  "demo_kernel = \<lparr>kk_device = \<lparr>platformName = ''P'', deviceName = ''D'', deviceVendorId = 1, driverVersion = ''1''\<rparr>,
     kk_header = ''#define N -3'' @ ''\<newline>'' @ ''#define T int'' @ ''\<newline>'' @ ''#line 1 '' @ [CHR 0x22, CHR ''f'', CHR 0x22]
       @ ''\<newline>'', kk_checksum = ''s''\<rparr>"

lemma demo_header: "build_header False ''f'' [(''N'', - 3)] [(''T'', ''int'')] = kk_header demo_kernel"
  by code_simp

lemma demo_kernel_key: "kernelKey tiny_device (build_header False ''f'' [(''N'', - 3)] [(''T'', ''int'')]) ''s'' = demo_kernel"
  unfolding demo_header by (simp add: kernelKey_def demo_kernel_def deviceKey_def tiny_device_def example_device_def)

lemma demo_kernel_rows: "(case demo_db of None \<Rightarrow> None
   | Some (d, db) \<Rightarrow> Some (fst (table_run (engine clogs_schemas) KernelKey_struct KernelValue_struct (db_kernel d)
       [Lookup demo_kernel, Add demo_kernel \<lparr>kv_binary = [7]\<rparr>, Lookup demo_kernel] db)))
   = Some [Absent, Added, Found \<lparr>kv_binary = [7]\<rparr>]"
  by code_simp

lemma table_run_three:
  assumes "table_run Q K V t [Lookup k, Add k v, Lookup k] db = ([Absent, Added, Found v], db3)"
  obtains db1 db2 where "Table_lookup Q K V t k db = (Some (Inr None), db1)" "Table_add Q K V t k v db1 = (Inr (), db2)"
    "Table_lookup Q K V t k db2 = (Some (Inr (Some v)), db3)"
  using assms by (auto simp: table_step_def split: prod.splits option.splits sum.splits)

text \<open>The first build compiles the source, the second one uses the binary.\<close>

lemma demo_compile:
  "from_source demo_compiler () ''f'' [] ts = Inr 2"
  "program_binary demo_compiler 2 5 = Returns (Inr (Some \<lparr>kv_binary = [7]\<rparr>))"
  "from_cache demo_compiler () ''f'' [] \<lparr>kv_binary = [7]\<rparr> = Inr (Some 1)"
  "cc_sources demo_compiler ''f'' = Some (''kernel'', ''s'')"
  "from_source demo_stale () ''f'' [] ts = Inr 2"
  "program_binary demo_stale 2 5 = Returns (Inr (Some \<lparr>kv_binary = [7]\<rparr>))"
  "from_cache demo_stale () ''f'' [] \<lparr>kv_binary = [7]\<rparr> = Inr None"
  "cc_sources demo_stale ''f'' = Some (''kernel'', ''s'')"
  by (simp_all add: demo_compiler_def demo_stale_def from_source_def from_cache_def buildProgram_def program_binary_def
      find_device_def build_message_def)

lemma demo_builds:
  obtains d db h1 h2 where "demo_db = Some (d, db)" "demo_build (demo_host d db) = (Returns 2, h1)"
    "demo_build h1 = (Returns 1, h2)"
proof -
  let ?run = "\<lambda>d. table_run (engine clogs_schemas) KernelKey_struct KernelValue_struct (db_kernel d)
    [Lookup demo_kernel, Add demo_kernel \<lparr>kv_binary = [7]\<rparr>, Lookup demo_kernel]"
  obtain d db where d: "demo_db = Some (d, db)" using demo by (cases demo_db) auto
  have "fst (?run d db) = [Absent, Added, Found \<lparr>kv_binary = [7]\<rparr>]" using demo_kernel_rows by (simp add: d)
  then obtain db3 where "?run d db = ([Absent, Added, Found \<lparr>kv_binary = [7]\<rparr>], db3)" by (metis prod.collapse)
  then obtain db1 db2 where ops:
    "Table_lookup (engine clogs_schemas) KernelKey_struct KernelValue_struct (db_kernel d) demo_kernel db = (Some (Inr None), db1)"
    "Table_add (engine clogs_schemas) KernelKey_struct KernelValue_struct (db_kernel d) demo_kernel \<lparr>kv_binary = [7]\<rparr> db1
      = (Inr (), db2)"
    "Table_lookup (engine clogs_schemas) KernelKey_struct KernelValue_struct (db_kernel d) demo_kernel db2
      = (Some (Inr (Some \<lparr>kv_binary = [7]\<rparr>)), db3)"
    by (rule table_run_three)
  let ?h = "demo_host d db" and ?b = "\<lambda>h. build (engine clogs_schemas) (\<lambda>_. None) demo_compiler False () tiny_device 5 ''f''
     [(''N'', - 3)] [(''T'', ''int'')] [] h"
  have st: "snd (h_static (?h\<lparr>h_db := x\<rparr>)) = Some d" for x by (simp add: demo_host_def)
  have "demo_build ?h = (Returns 2, ?h\<lparr>h_db := db2\<rparr>)"
    using ops(1,2) st [of db] st [of db1]
    by (simp add: demo_build_def build_def Let_def demo_compile demo_kernel_key with_db_static demo_host_def)
  moreover have "demo_build (?h\<lparr>h_db := db2\<rparr>) = (Returns 1, ?h\<lparr>h_db := db3\<rparr>)"
    using ops(3) st [of db2] by (simp add: demo_build_def build_def Let_def demo_compile demo_kernel_key with_db_static)
  ultimately show ?thesis using that d by blast
qed

lemma demo_ready: "demo_db = Some (d, db) \<Longrightarrow> cache_ready engine_view d (demo_host d db)"
  using demo_tables_all(4) [of d db] by (simp add: cache_ready_def demo_host_def)

lemma demo_dev: "device_ok tiny_device"
  by (simp add: device_ok_def tiny_device_def example_device_def)

lemma demo_driver: "driver_ok demo_compiler c"
  by (simp add: driver_ok_def demo_compiler_def)

lemma demo_stale_driver: "driver_ok demo_stale c"
  by (simp add: driver_ok_def demo_compiler_def demo_stale_def)

lemma demo_empty: "demo_db = Some (d, db) \<Longrightarrow> kernel_map engine_view (h_db (demo_host d db)) k = None"
  by (simp add: table_map_def demo_host_def demo_tables(2))

section \<open>The properties\<close>





text \<open>
  C23. A program is compiled once. After a build has returned a program that the device can be
  read from, the cache has a binary for it, and a later build of the same file with the same
  definitions for a device of the same name and driver starts from that binary: if it builds, the
  result is that program (whatever the compiler would make of the source) and the cache is
  unchanged, or a \<^verbatim>\<open>CacheError\<close> is thrown.
\<close>

theorem build_compiles_once:
  assumes "sqlite_ok Q W clogs_schemas" and "cache_ready W dbo h" and "device_ok d" and "device_ok d'"
    and "cc_sources C filename = Some (body, cksum)" and "cc_sources C' filename = cc_sources C filename"
    and "deviceKey d' = deviceKey d"
    and "build Q env C unitTests c d dev filename defines sdefines options h = (Returns p, h1)"
    and "program_binary C p dev = Returns (Inr (Some b))"
    and "build Q env' C' unitTests c' d' dev' filename defines sdefines options' h1 = (r, h2)"
  shows "\<exists>v. kernel_map W (h_db h1) (kernelKey d (build_header unitTests filename defines sdefines) cksum) = Some v
    \<and> (case from_cache C' c' filename options' v of
          Inr (Some q) \<Rightarrow> (r = Returns q \<or> (\<exists>m. r = Throws (CacheError m)))
            \<and> kernel_map W (h_db h2) = kernel_map W (h_db h1)
        | _ \<Rightarrow> True)"
proof -
  let ?k = "kernelKey d (build_header unitTests filename defines sdefines) cksum"
  have k: "kernelKey d' (build_header unitTests filename defines sdefines) cksum = ?k"
    using assms(7) by (simp add: kernelKey_def)
  note first = build_refines_spec [OF assms(1-3,8)]
  then have "build_spec C unitTests c d dev filename defines sdefines options (kernel_map W (h_db h))
      = (Returns p, kernel_map W (h_db h1))" by simp
  then obtain v where v: "kernel_map W (h_db h1) ?k = Some v"
    using assms(5,9) by (auto simp: build_spec_def Let_def dest!: map_stored split: option.splits sum.splits ending.splits)
  moreover have ready: "cache_ready W dbo h1" using first by simp
  note build_refines_spec [OF assms(1) ready assms(4,10)]
  ultimately show ?thesis
    using assms(5,6) k by (auto simp: build_spec_def Let_def split: option.splits sum.splits)
qed

theorem build_compiles_once_witness:
  "\<exists>d db h1 h2 v. demo_db = Some (d, db)
     \<and> build (engine clogs_schemas) (\<lambda>_. None) demo_compiler False () tiny_device 5 ''f'' [(''N'', - 3)] [(''T'', ''int'')] []
         (demo_host d db) = (Returns 2, h1)
     \<and> kernel_map engine_view (h_db h1) demo_kernel = Some v \<and> from_cache demo_compiler () ''f'' [] v = Inr (Some 1)
     \<and> build (engine clogs_schemas) (\<lambda>_. None) demo_compiler False () tiny_device 5 ''f'' [(''N'', - 3)] [(''T'', ''int'')] []
         h1 = (Returns 1, h2)
     \<and> kernel_map engine_view (h_db h2) = kernel_map engine_view (h_db h1)"
proof -
  obtain d db h1 h2 where b: "demo_db = Some (d, db)" "demo_build (demo_host d db) = (Returns 2, h1)"
    "demo_build h1 = (Returns 1, h2)" by (rule demo_builds)
  note run = b(2) [unfolded demo_build_def] and run2 = b(3) [unfolded demo_build_def]
  note ok = engine_ok [OF clogs_texts_apart]
  obtain v where v: "kernel_map engine_view (h_db h1) demo_kernel = Some v"
    "case from_cache demo_compiler () ''f'' [] v of
       Inr (Some q) \<Rightarrow> (Returns 1 = Returns q \<or> (\<exists>m. Returns (1::nat) = Throws (CacheError m)))
         \<and> kernel_map engine_view (h_db h2) = kernel_map engine_view (h_db h1)
     | _ \<Rightarrow> True"
    using build_compiles_once [OF ok demo_ready [OF b(1)] demo_dev demo_dev demo_compile(4) refl refl run demo_compile(2) run2]
    unfolding demo_kernel_key by blast
  have "v = \<lparr>kv_binary = [7]\<rparr>"
    using build_refines_spec [OF ok demo_ready [OF b(1)] demo_dev run] v(1)
    by (auto simp: build_spec_def Let_def demo_compile demo_kernel_key demo_empty [OF b(1)] dest!: map_stored)
  then have "from_cache demo_compiler () ''f'' [] v = Inr (Some 1)"
    "kernel_map engine_view (h_db h2) = kernel_map engine_view (h_db h1)"
    using v(2) by (simp_all add: demo_compile)
  with b(1) run run2 v(1) show ?thesis by blast
qed

end
