(* ===== verification/TreeReduce.thy ===== *)
theory TreeReduce
  imports Workgroup
begin

text \<open>
  The work-group tree reduction that \<^verbatim>\<open>reduceRange\<close> (kernels/reduce.cl) and the
  \<^verbatim>\<open>reduce\<close> kernel of kernels/scan.cl share: \<open>scale\<close> halves from half the work-group
  size down to 1, and in every round work-item \<open>lid < scale\<close> adds
  \<^verbatim>\<open>sums[lid + scale]\<close> to \<^verbatim>\<open>sums[lid]\<close>. The round is race free, so the loop leaves
  the sum of the array in \<^verbatim>\<open>sums[0]\<close> for every schedule.
\<close>

definition tree_phase :: "nat \<Rightarrow> nat \<Rightarrow> (nat \<Rightarrow> 'a::plus) \<Rightarrow> nat \<Rightarrow> 'a" where
  "tree_phase scale lid sums = (if lid < scale then sums(lid := sums lid + sums (lid + scale)) else sums)"

fun tree_reduce :: "sched \<Rightarrow> nat \<Rightarrow> (nat \<Rightarrow> 'a::plus) \<Rightarrow> nat \<Rightarrow> 'a" where
  "tree_reduce S scale sums =
     (if 1 \<le> scale then tree_reduce S (scale div 2) (par (S [scale]) (tree_phase scale) sums) else sums)"

declare tree_reduce.simps [simp del]

interpretation tp: single_write n "\<lambda>lid. lid < scale" "\<lambda>lid. lid"
    "\<lambda>lid sums. sums lid + (sums (lid + scale) :: 'a::plus)" for n scale
proof (unfold_locales, goal_cases)
  case (1 i j)
  then show ?case by simp
next
  case (2 i m m')
  then have "m i = m' i" and "m (i + scale) = m' (i + scale)" by (auto simp: 2)
  then show ?case by simp
qed

lemma tree_phase_eq:
  "tree_phase scale = (\<lambda>lid m. if lid < scale then m(lid := m lid + m (lid + scale)) else m)"
  by (rule ext)+ (simp add: tree_phase_def)

lemma tree_phase_result:
  assumes "schedule n ord" "scale \<le> n"
  shows "par ord (tree_phase scale) m a = (if a < scale then m a + m (a + scale) else m a)"
  using tp.at [OF assms(1), of a scale m] tp.off [OF assms(1), of scale a m] assms(2)
  by (auto simp: tree_phase_eq)

text \<open>
  One round keeps the sum of the first \<open>scale\<close> cells equal to the sum of the first
  \<open>2 * scale\<close> cells before it.
\<close>

lemma tree_phase_sum:
  fixes m :: "nat \<Rightarrow> 'a::comm_monoid_add"
  assumes "schedule n ord" "scale \<le> n"
  shows "sum (par ord (tree_phase scale) m) {..<scale} = sum m {..<2 * scale}"
proof -
  have "sum (par ord (tree_phase scale) m) {..<scale} = (\<Sum>a< scale. m a + m (scale + a))"
    by (intro sum.cong) (simp_all add: tree_phase_result [OF assms] add.commute)
  also have "\<dots> = sum m {..<scale} + sum m {scale..<scale + scale}"
    by (simp add: sum.distrib sum_shift_start)
  also have "\<dots> = sum m {0..<scale + scale}"
    by (simp only: lessThan_atLeast0 sum_split_at le_add1 le0)
  finally show ?thesis by (simp add: lessThan_atLeast0 mult_2)
qed

lemma tree_reduce_sum:
  fixes m :: "nat \<Rightarrow> 'a::comm_monoid_add"
  assumes "valid n S" "2 ^ k \<le> n"
  shows "tree_reduce S (2 ^ k div 2) m 0 = sum m {..<2 ^ k}"
  using assms(2)
proof (induction k arbitrary: m)
  case 0
  then show ?case by (simp add: tree_reduce.simps)
next
  case (Suc k)
  let ?m = "par (S [2 ^ k]) (tree_phase (2 ^ k)) m"
  have k: "2 ^ k \<le> n" using Suc.prems by simp
  have "tree_reduce S (2 ^ Suc k div 2) m 0 = tree_reduce S (2 ^ k div 2) ?m 0"
    by (simp add: tree_reduce.simps [of S "2 ^ k"])
  also have "\<dots> = sum ?m {..<2 ^ k}" using k by (rule Suc.IH)
  also have "\<dots> = sum m {..<2 * 2 ^ k}"
    using assms(1) k by (intro tree_phase_sum) auto
  finally show ?case by simp
qed

lemma tree_reduce_pow2:
  fixes m :: "nat \<Rightarrow> 'a::comm_monoid_add"
  assumes "valid n S" "pow2 n"
  shows "tree_reduce S (n div 2) m 0 = sum m {..<n}"
  using assms(2) tree_reduce_sum [OF assms(1), of _ m] by (auto elim!: pow2_E)

end
