(* ===== verification/ScanSmall.thy ===== *)
theory ScanSmall
  imports Workgroup
begin

text \<open>
  The single-work-group scan of kernels/scan.cl: \<^verbatim>\<open>scanExclusiveSmallBottom\<close> and the
  two kernels \<^verbatim>\<open>scanExclusiveSmall\<close> and \<^verbatim>\<open>scanExclusiveSmallOffset\<close> that load
  the data shifted by one position, call it and write back. \<^verbatim>\<open>SCAN_BLOCKS\<close> is only
  required to be even, so the tree is not complete; the invariant is that of a binary indexed
  tree: after the upsweep the cell at 1-based position \<open>p\<close> holds the sum of the
  \<open>2 ^ t\<close> cells that end at \<open>p\<close>, where \<open>2 ^ t\<close> is the largest power that
  divides \<open>p\<close>. The downsweep turns these into prefix sums.
\<close>

section \<open>scanExclusiveSmallBottom\<close>

text \<open>\<open>pos\<close> is the private variable of each work-item; \<open>sb\<close> is \<^verbatim>\<open>SCAN_BLOCKS\<close>.\<close>

definition up_phase :: "nat \<Rightarrow> nat \<Rightarrow> (nat \<Rightarrow> nat) \<Rightarrow> nat \<Rightarrow> (nat \<Rightarrow> 'a::plus) \<Rightarrow> nat \<Rightarrow> 'a" where
  "up_phase sb scale pos lid v =
     (if pos lid \<le> sb then v(pos lid - 1 := v (pos lid - 1) + v (pos lid - scale - 1)) else v)"

definition down_phase :: "nat \<Rightarrow> nat \<Rightarrow> (nat \<Rightarrow> nat) \<Rightarrow> nat \<Rightarrow> (nat \<Rightarrow> 'a::plus) \<Rightarrow> nat \<Rightarrow> 'a" where
  "down_phase sb scale pos lid v =
     (if pos lid \<le> sb - scale
      then v(pos lid + scale - 1 := v (pos lid + scale - 1) + v (pos lid - 1)) else v)"

function bottom_up :: "sched \<Rightarrow> nat \<Rightarrow> nat \<Rightarrow> (nat \<Rightarrow> nat) \<Rightarrow> (nat \<Rightarrow> 'a::plus) \<Rightarrow>
    nat \<times> (nat \<Rightarrow> nat) \<times> (nat \<Rightarrow> 'a)" where
  "bottom_up S sb scale pos v =
     (if 0 < scale \<and> scale \<le> sb div 2
      then let pos' = (\<lambda>lid. pos lid * 2)
           in bottom_up S sb (scale * 2) pos' (par (S [0, scale]) (up_phase sb scale pos') v)
      else (scale, pos, v))"
  by pat_completeness auto
termination
  by (relation "measure (\<lambda>(S, sb, scale, pos, v). Suc sb - scale)") auto

fun bottom_down :: "sched \<Rightarrow> nat \<Rightarrow> nat \<Rightarrow> (nat \<Rightarrow> nat) \<Rightarrow> (nat \<Rightarrow> 'a::plus) \<Rightarrow> nat \<Rightarrow> 'a" where
  "bottom_down S sb scale pos v =
     (if 1 \<le> scale
      then bottom_down S sb (scale div 2) (\<lambda>lid. pos lid div 2) (par (S [1, scale]) (down_phase sb scale pos) v)
      else v)"

declare bottom_up.simps [simp del] bottom_down.simps [simp del]

definition scanExclusiveSmallBottom :: "sched \<Rightarrow> nat \<Rightarrow> (nat \<Rightarrow> 'a::plus) \<Rightarrow> nat \<Rightarrow> 'a" where
  "scanExclusiveSmallBottom S sb v =
     (case bottom_up S sb 1 (\<lambda>lid. lid + 1) v of
        (scale, pos, v1) \<Rightarrow> bottom_down S sb (scale div 2) pos v1)"

section \<open>The kernels around it\<close>

text \<open>
  Work-item \<open>lid\<close> loads two cells, shifted by one, with the offset in cell 0. The value
  \<open>off\<close> is the argument \<^verbatim>\<open>offset\<close>, or \<^verbatim>\<open>offset[offsetIndex]\<close>.
\<close>

definition small_load :: "nat \<Rightarrow> 'a \<Rightarrow> (nat \<Rightarrow> 'a) \<Rightarrow> nat \<Rightarrow> (nat \<Rightarrow> 'a) \<Rightarrow> nat \<Rightarrow> 'a" where
  "small_load group_size off inout lid =
     stores 2 (\<lambda>_. True) (\<lambda>k. lid + k * group_size)
       (\<lambda>k. if k = 0 \<and> lid = 0 then off else inout (lid + k * group_size - 1))"

definition small_writeback :: "nat \<Rightarrow> (nat \<Rightarrow> 'a) \<Rightarrow> nat \<Rightarrow> (nat \<Rightarrow> 'a) \<Rightarrow> nat \<Rightarrow> 'a" where
  "small_writeback group_size v lid =
     stores 2 (\<lambda>_. True) (\<lambda>k. lid + k * group_size) (\<lambda>k. v (lid + k * group_size))"

definition small_scan :: "sched \<Rightarrow> nat \<Rightarrow> 'a::{plus,zero} \<Rightarrow> (nat \<Rightarrow> 'a) \<Rightarrow> nat \<Rightarrow> 'a" where
  "small_scan S sb off inout =
     (let v = par (S [0]) (small_load (sb div 2) off inout) (\<lambda>_. 0);
          v' = scanExclusiveSmallBottom (sub S [1]) sb v
      in par (S [2]) (small_writeback (sb div 2) v') inout)"

definition scanExclusiveSmall ::
  "sched \<Rightarrow> nat \<Rightarrow> nat \<Rightarrow> 'a::{plus,zero} \<Rightarrow> (nat \<Rightarrow> nat \<Rightarrow> 'a) \<Rightarrow> nat \<Rightarrow> nat \<Rightarrow> 'a" where
  "scanExclusiveSmall S sb inout_b off G = G(inout_b := small_scan S sb off (G inout_b))"

definition scanExclusiveSmallOffset ::
  "sched \<Rightarrow> nat \<Rightarrow> nat \<Rightarrow> nat \<Rightarrow> nat \<Rightarrow> (nat \<Rightarrow> nat \<Rightarrow> 'a::{plus,zero}) \<Rightarrow> nat \<Rightarrow> nat \<Rightarrow> 'a" where
  "scanExclusiveSmallOffset S sb inout_b offset_b offsetIndex G =
     G(inout_b := small_scan S sb (G offset_b offsetIndex) (G inout_b))"

section \<open>The phases are race free\<close>

lemma mult_power_dvd_neq:
  fixes p q :: nat
  assumes "2 ^ Suc k dvd p" "2 ^ Suc k dvd q" "0 < q"
  shows "q - 2 ^ k \<noteq> p"
proof
  assume eq: "q - 2 ^ k = p"
  have "2 ^ Suc k \<le> q" using assms(2,3) by (rule dvd_imp_le)
  then have "q = p + 2 ^ k" using eq by simp
  then have "2 ^ Suc k dvd (2 ^ k :: nat)" using assms(1,2) by (simp add: dvd_add_right_iff)
  then show False by (simp add: dvd_imp_le nat_dvd_not_less)
qed

interpretation up: single_write n "\<lambda>lid. (lid + 1) * 2 ^ Suc k \<le> sb" "\<lambda>lid. (lid + 1) * 2 ^ Suc k - 1"
    "\<lambda>lid v. v ((lid + 1) * 2 ^ Suc k - 1) + (v ((lid + 1) * 2 ^ Suc k - 2 ^ k - 1) :: 'a::plus)" for n k sb
proof (unfold_locales, goal_cases)
  case (1 i j)
  have "(i + 1) * 2 ^ Suc k = (j + 1) * 2 ^ Suc k"
    using 1(5) by (metis Suc_diff_1 add_gr_0 mult_pos_pos zero_less_one zero_less_numeral zero_less_power)
  then show ?case by simp
next
  case (2 i m m')
  let ?p = "\<lambda>i::nat. (i + 1) * 2 ^ Suc k :: nat"
  have pos: "0 < ?p i" "2 ^ k < ?p i" for i by simp_all
  have "m (?p i - 1) = m' (?p i - 1)"
  proof (rule 2(3), intro allI impI notI)
    fix j assume "j \<noteq> i" "?p i - 1 = ?p j - 1"
    then have "?p i = ?p j" using pos by (metis Suc_diff_1)
    then show False using \<open>j \<noteq> i\<close> by simp
  qed
  moreover have "m (?p i - 2 ^ k - 1) = m' (?p i - 2 ^ k - 1)"
  proof (rule 2(3), intro allI impI notI)
    fix j assume "?p i - 2 ^ k - 1 = ?p j - 1"
    moreover have "0 < ?p i - 2 ^ k" "0 < ?p j" using pos by simp_all
    ultimately have "?p i - 2 ^ k = ?p j" by (metis Suc_diff_1)
    then show False using mult_power_dvd_neq [of k "?p j" "?p i"] pos(1) [of i] by (metis dvd_triv_right)
  qed
  ultimately show ?case by simp
qed

interpretation dn: single_write n "\<lambda>lid. (lid + 1) * 2 ^ Suc k \<le> sb - 2 ^ k"
    "\<lambda>lid. (lid + 1) * 2 ^ Suc k + 2 ^ k - 1"
    "\<lambda>lid v. v ((lid + 1) * 2 ^ Suc k + 2 ^ k - 1) + (v ((lid + 1) * 2 ^ Suc k - 1) :: 'a::plus)" for n k sb
proof (unfold_locales, goal_cases)
  case (1 i j)
  have "(i + 1) * 2 ^ Suc k + 2 ^ k = (j + 1) * 2 ^ Suc k + 2 ^ k"
    using 1(5) by (metis Suc_diff_1 add_gr_0 zero_less_numeral zero_less_power)
  then show ?case by simp
next
  case (2 i m m')
  let ?p = "\<lambda>i::nat. (i + 1) * 2 ^ Suc k :: nat"
  have pos: "0 < ?p i" for i by simp
  have "m (?p i + 2 ^ k - 1) = m' (?p i + 2 ^ k - 1)"
  proof (rule 2(3), intro allI impI notI)
    fix j assume "j \<noteq> i" "?p i + 2 ^ k - 1 = ?p j + 2 ^ k - 1"
    then have "?p i = ?p j" using pos [of i] pos [of j] by linarith
    then show False using \<open>j \<noteq> i\<close> by simp
  qed
  moreover have "m (?p i - 1) = m' (?p i - 1)"
  proof (rule 2(3), intro allI impI notI)
    fix j assume "?p i - 1 = ?p j + 2 ^ k - 1"
    then have "?p i = ?p j + 2 ^ k" using pos [of i] pos [of j] by linarith
    then have "?p i - 2 ^ k = ?p j" by (metis add_diff_cancel_right')
    then show False using mult_power_dvd_neq [of k "?p j" "?p i"] pos [of i] by (metis dvd_triv_right)
  qed
  ultimately show ?case by simp
qed

text \<open>The outcome of a phase, by 1-based positions.\<close>

lemma up_phase_result:
  assumes "schedule (sb div 2) ord" "0 < p" "p \<le> sb"
  shows "par ord (up_phase sb (2 ^ k) (\<lambda>lid. (lid + 1) * 2 ^ Suc k)) v (p - 1) =
    (if 2 ^ Suc k dvd p then v (p - 1) + v (p - 2 ^ k - 1) else v (p - 1))"
proof -
  let ?b = "\<lambda>lid v. if (lid + 1) * 2 ^ Suc k \<le> sb
    then v((lid + 1) * 2 ^ Suc k - 1 := v ((lid + 1) * 2 ^ Suc k - 1) + v ((lid + 1) * 2 ^ Suc k - 2 ^ k - 1)) else v"
  have eq: "up_phase sb (2 ^ k) (\<lambda>lid. (lid + 1) * 2 ^ Suc k) = ?b"
    by (intro ext) (simp only: up_phase_def)
  show ?thesis
  proof (cases "2 ^ Suc k dvd p")
    case True
    then obtain q where q: "p = q * 2 ^ Suc k" by (metis dvd_div_mult_self)
    then have "0 < q" using assms(2) by (cases q) auto
    then have q1: "q - 1 + 1 = q" by simp
    have "q * 2 \<le> q * 2 ^ Suc k" by simp
    then have "q - 1 < sb div 2" using assms(3) q \<open>0 < q\<close> by linarith
    from up.at [OF assms(1) this, of k sb v] show ?thesis
      using True assms(3) q unfolding eq q1 by simp
  next
    case False
    have "p - 1 \<noteq> (lid + 1) * 2 ^ Suc k - 1" for lid
    proof
      assume "p - 1 = (lid + 1) * 2 ^ Suc k - 1"
      moreover have "0 < (lid + 1) * (2 ^ Suc k :: nat)" by simp
      ultimately have "p = (lid + 1) * 2 ^ Suc k" using assms(2) by linarith
      then show False using False by (metis dvd_triv_right)
    qed
    then show ?thesis using up.off [OF assms(1), of k sb "p - 1" v] False unfolding eq by simp
  qed
qed

lemma down_phase_result:
  assumes "schedule (sb div 2) ord" "0 < p" "p \<le> sb"
  shows "par ord (down_phase sb (2 ^ k) (\<lambda>lid. (lid + 1) * 2 ^ Suc k)) v (p - 1) =
    (if 2 ^ k < p \<and> 2 ^ Suc k dvd p - 2 ^ k then v (p - 1) + v (p - 2 ^ k - 1) else v (p - 1))"
proof -
  let ?b = "\<lambda>lid v. if (lid + 1) * 2 ^ Suc k \<le> sb - 2 ^ k
    then v((lid + 1) * 2 ^ Suc k + 2 ^ k - 1 := v ((lid + 1) * 2 ^ Suc k + 2 ^ k - 1) + v ((lid + 1) * 2 ^ Suc k - 1)) else v"
  have eq: "down_phase sb (2 ^ k) (\<lambda>lid. (lid + 1) * 2 ^ Suc k) = ?b"
    by (intro ext) (simp only: down_phase_def)
  show ?thesis
  proof (cases "2 ^ k < p \<and> 2 ^ Suc k dvd p - 2 ^ k")
    case True
    then obtain q where "p - 2 ^ k = q * 2 ^ Suc k" by (metis dvd_div_mult_self)
    with True have q: "p = q * 2 ^ Suc k + 2 ^ k" by linarith
    then have "0 < q" using True by (cases q) auto
    then have q1: "q - 1 + 1 = q" by simp
    have "q * 2 \<le> q * 2 ^ Suc k" by simp
    then have "q - 1 < sb div 2" using assms(3) q \<open>0 < q\<close> by linarith
    from dn.at [OF assms(1) this, of k sb v] show ?thesis
      using True assms(3) q unfolding eq q1 by simp
  next
    case False
    have "p - 1 \<noteq> (lid + 1) * 2 ^ Suc k + 2 ^ k - 1" for lid
    proof
      assume a: "p - 1 = (lid + 1) * 2 ^ Suc k + 2 ^ k - 1"
      have "0 < (lid + 1) * (2 ^ Suc k :: nat)" by simp
      then have p: "p = (lid + 1) * 2 ^ Suc k + 2 ^ k" and "2 ^ k < p" using a assms(2) by linarith+
      then have "p - 2 ^ k = (lid + 1) * 2 ^ Suc k" by simp
      then have "2 ^ Suc k dvd p - 2 ^ k" by (metis dvd_triv_right)
      then show False using False \<open>2 ^ k < p\<close> by simp
    qed
    then show ?thesis using dn.off [OF assms(1), of k sb "p - 1" v] False unfolding eq by auto
  qed
qed

section \<open>The tree invariant\<close>

definition up_inv :: "nat \<Rightarrow> (nat \<Rightarrow> 'a::comm_monoid_add) \<Rightarrow> nat \<Rightarrow> (nat \<Rightarrow> 'a) \<Rightarrow> bool" where
  "up_inv sb v0 k v \<longleftrightarrow> (\<forall>p t. 0 < p \<and> p \<le> sb \<and> t \<le> k \<and> 2 ^ t dvd p \<and> (t = k \<or> \<not> 2 ^ Suc t dvd p)
     \<longrightarrow> v (p - 1) = sum v0 {p - 2 ^ t..<p})"

definition down_inv :: "nat \<Rightarrow> (nat \<Rightarrow> 'a::comm_monoid_add) \<Rightarrow> nat \<Rightarrow> (nat \<Rightarrow> 'a) \<Rightarrow> bool" where
  "down_inv sb v0 s v \<longleftrightarrow> (\<forall>p. 0 < p \<and> p \<le> sb \<and> 2 ^ s dvd p \<longrightarrow> v (p - 1) = sum v0 {0..<p})
     \<and> (\<forall>p t. 0 < p \<and> p \<le> sb \<and> t < s \<and> 2 ^ t dvd p \<and> \<not> 2 ^ Suc t dvd p
          \<longrightarrow> v (p - 1) = sum v0 {p - 2 ^ t..<p})"

lemma up_inv_init: "up_inv sb v 0 v"
  by (auto simp: up_inv_def gr0_conv_Suc)

lemma up_inv_step:
  assumes "schedule (sb div 2) ord" "up_inv sb v0 k v"
  shows "up_inv sb v0 (Suc k) (par ord (up_phase sb (2 ^ k) (\<lambda>lid. (lid + 1) * 2 ^ Suc k)) v)"
  unfolding up_inv_def
proof (intro allI impI, elim conjE)
  fix p t
  assume p: "0 < p" "p \<le> sb" and t: "t \<le> Suc k" "2 ^ t dvd p" "t = Suc k \<or> \<not> 2 ^ Suc t dvd p"
  note R = up_phase_result [OF assms(1) p, of k v]
  show "par ord (up_phase sb (2 ^ k) (\<lambda>lid. (lid + 1) * 2 ^ Suc k)) v (p - 1) = sum v0 {p - 2 ^ t..<p}"
  proof (cases "t = Suc k")
    case True
    then have d: "2 ^ Suc k dvd p" using t by simp
    have le: "2 ^ Suc k \<le> p" using d p(1) by (rule dvd_imp_le)
    have dk: "2 ^ k dvd p" using d by (metis dvd_trans le_imp_power_dvd le_SucI order_refl)
    have "v (p - 1) = sum v0 {p - 2 ^ k..<p}"
      using assms(2) p dk unfolding up_inv_def by blast
    moreover have "0 < p - 2 ^ k" "p - 2 ^ k \<le> sb" using le p by simp_all
    moreover have "2 ^ k dvd p - 2 ^ k" using dk by (simp add: dvd_diff_nat)
    then have "v (p - 2 ^ k - 1) = sum v0 {p - 2 ^ k - 2 ^ k..<p - 2 ^ k}"
      using assms(2) calculation(2,3) unfolding up_inv_def by blast
    ultimately have "v (p - 1) + v (p - 2 ^ k - 1) = sum v0 {p - 2 ^ k - 2 ^ k..<p}"
      using sum_split_at [of "p - 2 ^ k - 2 ^ k" "p - 2 ^ k" p v0] by (simp add: add.commute)
    then show ?thesis using R d True by (simp add: mult_2)
  next
    case False
    then have "t \<le> k" "\<not> 2 ^ Suc t dvd p" using t by auto
    then have "\<not> 2 ^ Suc k dvd p" by (meson dvd_trans le_imp_power_dvd Suc_le_mono)
    then show ?thesis using R assms(2) p t \<open>t \<le> k\<close> \<open>\<not> 2 ^ Suc t dvd p\<close> unfolding up_inv_def by simp
  qed
qed

lemma down_inv_step:
  assumes "schedule (sb div 2) ord" "down_inv sb v0 (Suc k) v"
  shows "down_inv sb v0 k (par ord (down_phase sb (2 ^ k) (\<lambda>lid. (lid + 1) * 2 ^ Suc k)) v)"
  unfolding down_inv_def
proof (intro conjI allI impI; elim conjE)
  fix p assume p: "0 < p" "p \<le> sb" and d: "2 ^ k dvd p"
  note R = down_phase_result [OF assms(1) p, of k v]
  show "par ord (down_phase sb (2 ^ k) (\<lambda>lid. (lid + 1) * 2 ^ Suc k)) v (p - 1) = sum v0 {0..<p}"
  proof (cases "2 ^ Suc k dvd p")
    case True
    then have "\<not> 2 ^ Suc k dvd p - 2 ^ k" if "2 ^ k < p"
      using that mult_power_dvd_neq [of k "p - 2 ^ k" p] p by blast
    then show ?thesis using R True p assms(2) unfolding down_inv_def by auto
  next
    case False
    have vp: "v (p - 1) = sum v0 {p - 2 ^ k..<p}"
      using assms(2) p d False unfolding down_inv_def by blast
    show ?thesis
    proof (cases "p = 2 ^ k")
      case True
      then show ?thesis using R vp by simp
    next
      case ne: False
      then have lt: "2 ^ k < p" using dvd_imp_le [OF d p(1)] by simp
      obtain q where q: "p = 2 ^ k * q" using d by blast
      have "odd q"
      proof
        assume "even q"
        then obtain r where "p = 2 ^ Suc k * r" using q by auto
        then show False using False by simp
      qed
      then have "even (q - 1)" "0 < q" by (auto simp: odd_pos)
      moreover have "p - 2 ^ k = 2 ^ k * (q - 1)" by (simp add: q diff_mult_distrib2)
      ultimately have d': "2 ^ Suc k dvd p - 2 ^ k" by (auto simp: power_Suc2 simp del: power_Suc)
      have "0 < p - 2 ^ k" "p - 2 ^ k \<le> sb" using lt p by simp_all
      then have "v (p - 2 ^ k - 1) = sum v0 {0..<p - 2 ^ k}"
        using assms(2) d' unfolding down_inv_def by blast
      then show ?thesis
        using R lt d' vp sum_split_at [of 0 "p - 2 ^ k" p v0] by (simp add: add.commute)
    qed
  qed
next
  fix p t assume p: "0 < p" "p \<le> sb" and t: "t < k" "2 ^ t dvd p" "\<not> 2 ^ Suc t dvd p"
  have "\<not> 2 ^ Suc k dvd p - 2 ^ k" if "2 ^ k < p"
  proof
    assume "2 ^ Suc k dvd p - 2 ^ k"
    then have "2 ^ k dvd p - 2 ^ k" by (metis dvd_trans le_imp_power_dvd le_SucI order_refl)
    then have "2 ^ k dvd p" using that by (metis dvd_diffD dvd_refl less_imp_le)
    then show False using t by (meson dvd_trans le_imp_power_dvd Suc_leI)
  qed
  then show "par ord (down_phase sb (2 ^ k) (\<lambda>lid. (lid + 1) * 2 ^ Suc k)) v (p - 1) = sum v0 {p - 2 ^ t..<p}"
    using down_phase_result [OF assms(1) p, of k v] assms(2) p t unfolding down_inv_def by auto
qed

section \<open>The loops\<close>

lemma bottom_up_loop:
  assumes "valid (sb div 2) S" "even sb" "up_inv sb v0 k v" "2 ^ k \<le> sb"
  shows "\<exists>K v'. bottom_up S sb (2 ^ k) (\<lambda>lid. (lid + 1) * 2 ^ k) v = (2 ^ K, (\<lambda>lid. (lid + 1) * 2 ^ K), v')
    \<and> k \<le> K \<and> up_inv sb v0 K v' \<and> 2 ^ K \<le> sb \<and> sb < 2 ^ Suc K"
  using assms(3,4)
proof (induction "sb - 2 ^ k" arbitrary: k v rule: less_induct)
  case less
  show ?case
  proof (cases "(2::nat) ^ k \<le> sb div 2")
    case True
    let ?v = "par (S [0, 2 ^ k]) (up_phase sb (2 ^ k) (\<lambda>lid. (lid + 1) * 2 ^ Suc k)) v"
    have le: "2 ^ Suc k \<le> sb" using True by simp
    have inv: "up_inv sb v0 (Suc k) ?v" using assms(1) less.prems(1) by (intro up_inv_step valid_schedule)
    have "(2::nat) ^ k < 2 ^ Suc k" by simp
    then have "sb - 2 ^ Suc k < sb - 2 ^ k" using le by linarith
    from less.hyps [OF this inv le] obtain K v' where K:
      "bottom_up S sb (2 ^ Suc k) (\<lambda>lid. (lid + 1) * 2 ^ Suc k) ?v = (2 ^ K, (\<lambda>lid. (lid + 1) * 2 ^ K), v')"
      "Suc k \<le> K" "up_inv sb v0 K v'" "2 ^ K \<le> sb" "sb < 2 ^ Suc K" by blast
    have pe: "(\<lambda>lid. (lid + 1) * 2 ^ k * 2) = (\<lambda>lid. (lid + 1) * 2 ^ Suc k :: nat)"
      by (rule ext) simp
    have se: "2 ^ k * 2 = (2 ^ Suc k :: nat)" by simp
    have "bottom_up S sb (2 ^ k) (\<lambda>lid. (lid + 1) * 2 ^ k) v =
        bottom_up S sb (2 ^ k * 2) (\<lambda>lid. (lid + 1) * 2 ^ k * 2)
          (par (S [0, 2 ^ k]) (up_phase sb (2 ^ k) (\<lambda>lid. (lid + 1) * 2 ^ k * 2)) v)"
      by (subst bottom_up.simps, subst if_P) (use True in \<open>simp_all only: Let_def zero_less_power zero_less_numeral simp_thms\<close>)
    also have "\<dots> = bottom_up S sb (2 ^ Suc k) (\<lambda>lid. (lid + 1) * 2 ^ Suc k) ?v"
      unfolding pe se ..
    finally have "bottom_up S sb (2 ^ k) (\<lambda>lid. (lid + 1) * 2 ^ k) v =
        bottom_up S sb (2 ^ Suc k) (\<lambda>lid. (lid + 1) * 2 ^ Suc k) ?v" .
    with K show ?thesis by (intro exI [of _ K] exI [of _ v']) simp
  next
    case False
    then have "sb < 2 ^ Suc k" using assms(2) by (auto elim: evenE)
    with False less.prems show ?thesis
      by (intro exI [of _ k] exI [of _ v]) (simp add: bottom_up.simps [of S sb "2 ^ k"])
  qed
qed

lemma bottom_down_loop:
  assumes "valid (sb div 2) S" "down_inv sb v0 (Suc k) v"
  shows "down_inv sb v0 0 (bottom_down S sb (2 ^ k) (\<lambda>lid. (lid + 1) * 2 ^ Suc k) v)"
  using assms(2)
proof (induction k arbitrary: v)
  case 0
  then have "down_inv sb v0 0 (par (S [1, 2 ^ 0]) (down_phase sb (2 ^ 0) (\<lambda>lid. (lid + 1) * 2 ^ Suc 0)) v)"
    using assms(1) by (intro down_inv_step valid_schedule)
  then show ?case by (simp add: bottom_down.simps)
next
  case (Suc k)
  let ?v = "par (S [1, 2 ^ Suc k]) (down_phase sb (2 ^ Suc k) (\<lambda>lid. (lid + 1) * 2 ^ Suc (Suc k))) v"
  have "down_inv sb v0 (Suc k) ?v" using assms(1) Suc.prems by (intro down_inv_step valid_schedule)
  from Suc.IH [OF this] have
    "down_inv sb v0 0 (bottom_down S sb (2 ^ k) (\<lambda>lid. (lid + 1) * 2 ^ Suc k) ?v)" .
  moreover have "(\<lambda>lid. (lid + 1) * 2 ^ Suc (Suc k) div 2) = (\<lambda>lid. (lid + 1) * 2 ^ Suc k :: nat)"
    by (rule ext) simp
  ultimately show ?case by (subst bottom_down.simps) (simp del: power_Suc add: power_Suc2 [of 2 k])
qed

lemma up_inv_down_inv:
  assumes "up_inv sb v0 K v" "2 ^ K \<le> sb" "sb < 2 ^ Suc K"
  shows "down_inv sb v0 K v"
proof -
  have "p = 2 ^ K" if "0 < p" "p \<le> sb" "2 ^ K dvd p" for p
  proof -
    obtain q where q: "p = 2 ^ K * q" using \<open>2 ^ K dvd p\<close> by blast
    then have "0 < q" using that(1) by (cases q) auto
    moreover have "2 ^ K * q < 2 ^ Suc K" using le_less_trans [OF that(2) assms(3)] unfolding q .
    ultimately have "q = 1" by simp
    with q show ?thesis by simp
  qed
  moreover have "v (p - 1) = sum v0 {p - 2 ^ K..<p}" if "0 < p" "p \<le> sb" "2 ^ K dvd p" for p
    using assms(1) that unfolding up_inv_def by blast
  ultimately have "v (p - 1) = sum v0 {0..<p}" if "0 < p" "p \<le> sb" "2 ^ K dvd p" for p
    using that by (metis diff_self_eq_0)
  moreover have "v (p - 1) = sum v0 {p - 2 ^ t..<p}"
    if "0 < p" "p \<le> sb" "t < K" "2 ^ t dvd p" "\<not> 2 ^ Suc t dvd p" for p t
    using assms(1) that less_imp_le [OF that(3)] unfolding up_inv_def by blast
  ultimately show ?thesis unfolding down_inv_def by blast
qed

lemma bottom_inclusive:
  assumes "valid (sb div 2) S" "even sb" "0 < sb" "i < sb"
  shows "scanExclusiveSmallBottom S sb v i = sum v {..i}"
proof -
  have "2 \<le> sb" using assms(2,3) by (auto elim: evenE)
  have "up_inv sb v 0 v" by (rule up_inv_init)
  then obtain K v' where K: "bottom_up S sb (2 ^ 0) (\<lambda>lid. (lid + 1) * 2 ^ 0) v = (2 ^ K, (\<lambda>lid. (lid + 1) * 2 ^ K), v')"
    "up_inv sb v K v'" "2 ^ K \<le> sb" "sb < 2 ^ Suc K"
    using bottom_up_loop [OF assms(1,2), of v 0 v] \<open>2 \<le> sb\<close> by auto
  have "K \<noteq> 0" using K(4) \<open>2 \<le> sb\<close> by (cases K) auto
  then obtain k where k: "K = Suc k" by (cases K) auto
  have "down_inv sb v (Suc k) v'" using up_inv_down_inv K k by blast
  then have d: "down_inv sb v 0 (bottom_down S sb (2 ^ k) (\<lambda>lid. (lid + 1) * 2 ^ Suc k) v')"
    by (rule bottom_down_loop [OF assms(1)])
  have eq: "scanExclusiveSmallBottom S sb v = bottom_down S sb (2 ^ k) (\<lambda>lid. (lid + 1) * 2 ^ Suc k) v'"
    using K(1) by (simp add: scanExclusiveSmallBottom_def k)
  have "\<forall>p. 0 < p \<and> p \<le> sb \<and> 2 ^ 0 dvd p \<longrightarrow> scanExclusiveSmallBottom S sb v (p - 1) = sum v {0..<p}"
    using d unfolding eq down_inv_def by blast
  from this [rule_format, of "i + 1"] assms(4)
  have "scanExclusiveSmallBottom S sb v (i + 1 - 1) = sum v {0..<i + 1}" by simp
  then show ?thesis by (simp add: atLeast0LessThan lessThan_Suc_atMost)
qed

interpretation sl: store_loop n 2 "\<lambda>_ _. True" "\<lambda>lid k. lid + k * n" "\<lambda>lid k. f lid k :: 'a" for n f
proof (unfold_locales, goal_cases)
  case (1 i j k l)
  then show ?case by (cases k; cases l) auto
qed

lemma two_halves:
  fixes i h :: nat
  assumes "i < 2 * h" obtains lid k where "lid < h" "k < 2" "i = lid + k * h"
proof (cases "i < h")
  case True
  then show ?thesis using that [of i 0] by simp
next
  case False
  then show ?thesis using that [of "i - h" 1] assms by simp
qed

lemma small_scan_result:
  fixes off :: "'a::comm_monoid_add"
  assumes "valid (sb div 2) S" "even sb" "0 < sb"
  shows "small_scan S sb off inout i = (if i < sb then off + sum inout {..<i} else inout i)"
proof -
  let ?h = "sb div 2"
  let ?v = "par (S [0]) (small_load ?h off inout) (\<lambda>_. 0)"
  let ?w = "scanExclusiveSmallBottom (sub S [1]) sb ?v"
  have sb: "2 * ?h = sb" using assms(2) by simp
  have v: "?v j = (if j = 0 then off else inout (j - 1))" if "j < sb" for j
  proof -
    have "j < 2 * ?h" using that by (simp only: sb)
    then obtain lid k where j: "lid < ?h" "k < 2" "j = lid + k * ?h" by (rule two_halves)
    have "?v (lid + k * ?h) = (if k = 0 \<and> lid = 0 then off else inout (lid + k * ?h - 1))"
      unfolding small_load_def using j by (intro sl.at [OF valid_schedule [OF assms(1)]]) auto
    moreover have "k = 0 \<and> lid = 0 \<longleftrightarrow> j = 0" using j by auto
    ultimately show ?thesis using j by simp
  qed
  have w: "?w j = off + sum inout {..<j}" if "j < sb" for j
  proof -
    have "?w j = sum ?v {..j}" using assms that by (intro bottom_inclusive valid_sub) auto
    also have "\<dots> = (\<Sum>x\<le>j. if x = 0 then off else inout (x - 1))"
      using that by (intro sum.cong) (auto simp: v)
    also have "\<dots> = off + sum inout {..<j}"
      by (subst sum.atMost_shift) simp
    finally show ?thesis .
  qed
  show ?thesis
  proof (cases "i < sb")
    case True
    then have "i < 2 * ?h" by (simp only: sb)
    then obtain lid k where i: "lid < ?h" "k < 2" "i = lid + k * ?h" by (rule two_halves)
    have "par (S [2]) (small_writeback ?h ?w) inout (lid + k * ?h) = ?w (lid + k * ?h)"
      unfolding small_writeback_def using i by (intro sl.at [OF valid_schedule [OF assms(1)]]) auto
    then show ?thesis using True i w by (simp add: small_scan_def Let_def)
  next
    case False
    have "par (S [2]) (small_writeback ?h ?w) inout i = inout i"
      unfolding small_writeback_def
    proof (rule sl.off [OF valid_schedule [OF assms(1)]], rule notI)
      fix lid k assume "lid < ?h" "k < 2" "i = lid + k * ?h"
      moreover from this have "k = 0 \<or> k = 1" by auto
      ultimately have "i < sb" using sb by (elim disjE) simp_all
      then show False using False by simp
    qed
    then show ?thesis using False by (simp add: small_scan_def Let_def)
  qed
qed

end
