(* ===== verification/ScanKernel.thy ===== *)
theory ScanKernel
  imports TreeReduce ScanSmall
begin

text \<open>
  The two multi-work-group kernels of kernels/scan.cl. \<^verbatim>\<open>reduce\<close> sums one block per
  work-group; \<^verbatim>\<open>scanExclusive\<close> scans one block per work-group, tile by tile, starting
  from the offset that the middle kernel left for the block. A tile is loaded into local
  memory, scanned privately by each work-item, scanned across the work-items in a heap-shaped
  tree (\<open>reduced\<close>), and written back. Global memory is a map from buffers to contents, and
  the input and output buffer of the kernel may be the same one. The phases of the tree are
  separated by barriers or, when at most a warp takes part, by fences, as in the source.
\<close>

section \<open>The reduce kernel\<close>

text \<open>The accumulation loop of one work-item: \<^verbatim>\<open>inp\<close> is indexed from \<open>in_offset\<close>.\<close>

function stride_accum :: "nat \<Rightarrow> (nat \<Rightarrow> 'a::plus) \<Rightarrow> nat \<Rightarrow> nat \<Rightarrow> nat \<Rightarrow> 'a \<Rightarrow> 'a" where
  "stride_accum rwgs inp in_offset i len accum =
     (if i < len \<and> 0 < rwgs
      then stride_accum rwgs inp in_offset (i + rwgs) len (accum + inp (in_offset + i))
      else accum)"
  by pat_completeness auto
termination
  by (relation "measure (\<lambda>(rwgs, inp, in_offset, i, len, accum). len - i)") auto

declare stride_accum.simps [simp del]

definition reduce_group :: "sched \<Rightarrow> nat \<Rightarrow> (nat \<Rightarrow> 'a::{plus,zero}) \<Rightarrow> nat \<Rightarrow> nat \<Rightarrow> 'a" where
  "reduce_group S rwgs inp len grp =
     (let sums = par (S [0]) (\<lambda>lid m. m(lid := stride_accum rwgs inp (grp * len + lid) 0 len 0)) (\<lambda>_. 0)
      in tree_reduce (sub S [1]) (rwgs div 2) sums 0)"

definition reduce_kernel ::
  "(nat \<Rightarrow> sched) \<Rightarrow> nat list \<Rightarrow> nat \<Rightarrow> nat \<Rightarrow> nat \<Rightarrow> nat \<Rightarrow> (nat \<Rightarrow> nat \<Rightarrow> 'a::{plus,zero}) \<Rightarrow> nat \<Rightarrow> nat \<Rightarrow> 'a" where
  "reduce_kernel S groups rwgs out_b in_b len G =
     par groups (\<lambda>g G. G(out_b := (G out_b)(g := reduce_group (S g) rwgs (G in_b) len g))) G"

section \<open>One tile of scanExclusive\<close>

text \<open>\<open>inp\<close> is the pointer \<^verbatim>\<open>in\<close> after \<^verbatim>\<open>in += bias\<close>.\<close>

definition tile_load :: "nat \<Rightarrow> nat \<Rightarrow> (nat \<Rightarrow> 'a::zero) \<Rightarrow> nat \<Rightarrow> nat \<Rightarrow> nat \<Rightarrow> (nat \<Rightarrow> 'a) \<Rightarrow> nat \<Rightarrow> 'a" where
  "tile_load wgs ws inp start tot lid =
     stores ws (\<lambda>_. True) (\<lambda>i. lid + i * wgs)
       (\<lambda>i. let addr = start + lid + i * wgs in if addr < tot then inp addr else 0)"

definition priv_scan :: "nat \<Rightarrow> (nat \<Rightarrow> 'a::plus) \<Rightarrow> nat \<Rightarrow> 'a" where
  "priv_scan ws p = fold (\<lambda>i p. p(i + 1 := p (i + 1) + p i)) [0..<ws - 1] p"

definition heap_up_phase :: "nat \<Rightarrow> nat \<Rightarrow> (nat \<Rightarrow> 'a::plus) \<Rightarrow> nat \<Rightarrow> 'a" where
  "heap_up_phase scale lid r =
     (if lid < scale then r(scale + lid := r (2 * (scale + lid)) + r (2 * (scale + lid) + 1)) else r)"

fun heap_up :: "sched \<Rightarrow> nat \<Rightarrow> (nat \<Rightarrow> 'a::plus) \<Rightarrow> nat \<Rightarrow> 'a" where
  "heap_up S scale r =
     (if 1 \<le> scale then heap_up S (scale div 2) (par (S [scale]) (heap_up_phase scale) r) else r)"

definition heap_down_phase :: "nat \<Rightarrow> nat \<Rightarrow> (nat \<Rightarrow> 'a::plus) \<Rightarrow> nat \<Rightarrow> 'a" where
  "heap_down_phase scale lid r =
     (if lid < scale
      then let pos = scale + lid; inn = r pos; left = r (2 * pos)
           in r(2 * pos + 1 := inn + left, 2 * pos := inn)
      else r)"

function heap_down :: "sched \<Rightarrow> nat \<Rightarrow> nat \<Rightarrow> (nat \<Rightarrow> 'a::plus) \<Rightarrow> nat \<Rightarrow> 'a" where
  "heap_down S wgs scale r =
     (if 0 < scale \<and> scale < wgs
      then heap_down S wgs (scale * 2) (par (S [scale]) (heap_down_phase scale) r) else r)"
  by pat_completeness auto
termination
  by (relation "measure (\<lambda>(S, wgs, scale, r). wgs - scale)") auto

declare heap_up.simps [simp del] heap_down.simps [simp del]

text \<open>Private sums and \<^verbatim>\<open>add\<close> go back to \<^verbatim>\<open>raw\<close>, in descending order as in the code.\<close>

definition raw_put :: "nat \<Rightarrow> (nat \<Rightarrow> nat \<Rightarrow> 'a::plus) \<Rightarrow> (nat \<Rightarrow> 'a) \<Rightarrow> nat \<Rightarrow> (nat \<Rightarrow> 'a) \<Rightarrow> nat \<Rightarrow> 'a" where
  "raw_put ws priv add lid m =
     (fold (\<lambda>i m. m(lid * ws + i := priv lid (i - 1) + add lid)) (rev [1..<ws]) m)(lid * ws := add lid)"

definition tile_writeback ::
  "nat \<Rightarrow> nat \<Rightarrow> (nat \<Rightarrow> 'a) \<Rightarrow> nat \<Rightarrow> nat \<Rightarrow> nat \<Rightarrow> nat \<Rightarrow> (nat \<Rightarrow> 'a) \<Rightarrow> nat \<Rightarrow> 'a" where
  "tile_writeback wgs ws raw bias start tot lid =
     stores ws (\<lambda>i. start + lid + i * wgs < tot) (\<lambda>i. bias + (start + lid + i * wgs))
       (\<lambda>i. raw (lid + i * wgs))"

text \<open>
  The scan of the local data: \<^verbatim>\<open>raw\<close> and \<^verbatim>\<open>reduced\<close> share their storage, as in the
  source. The result is the new content of \<^verbatim>\<open>raw\<close> and the new offset of work-item 0.
\<close>

definition tile_scan :: "sched \<Rightarrow> nat \<Rightarrow> nat \<Rightarrow> 'a::plus \<Rightarrow> (nat \<Rightarrow> 'a) \<Rightarrow> (nat \<Rightarrow> 'a) \<times> 'a" where
  "tile_scan S wgs ws offset raw =
     (let priv = (\<lambda>lid. priv_scan ws (\<lambda>i. raw (lid * ws + i)));
          reduced = par (S [0]) (\<lambda>lid m. m(wgs + lid := priv lid (ws - 1))) raw;
          reduced = heap_up (sub S [1]) (wgs div 2) reduced;
          nextOffset = offset + reduced 1;
          reduced = reduced(1 := offset);
          reduced = heap_down (sub S [2]) wgs 1 reduced;
          add = (\<lambda>lid. reduced (wgs + lid));
          raw = par (S [3]) (raw_put ws priv add) reduced
      in (raw, nextOffset))"

text \<open>The loop over the tiles of a block.\<close>

function scan_tiles ::
  "sched \<Rightarrow> nat \<Rightarrow> nat \<Rightarrow> nat \<Rightarrow> nat \<Rightarrow> nat \<Rightarrow> nat \<Rightarrow> nat \<Rightarrow> nat \<Rightarrow> 'a::{plus,zero} \<Rightarrow> (nat \<Rightarrow> 'a) \<Rightarrow>
   (nat \<Rightarrow> nat \<Rightarrow> 'a) \<Rightarrow> nat \<Rightarrow> nat \<Rightarrow> 'a" where
  "scan_tiles S wgs ws in_b out_b bias len tot start offset raw G =
     (if start < len \<and> 0 < wgs * ws
      then let raw1 = par (S [start, 0]) (tile_load wgs ws (\<lambda>a. G in_b (bias + a)) start tot) raw;
               (raw2, offset') = tile_scan (sub S [start, 1]) wgs ws offset raw1;
               G' = G(out_b := par (S [start, 2]) (tile_writeback wgs ws raw2 bias start tot) (G out_b))
           in scan_tiles S wgs ws in_b out_b bias len tot (start + ws * wgs) offset' raw2 G'
      else G)"
  by pat_completeness auto
termination
  by (relation "measure (\<lambda>(S, wgs, ws, in_b, out_b, bias, len, tot, start, offset, raw, G). len - start)")
    (auto simp: mult.commute intro!: diff_less_mono2)

declare scan_tiles.simps [simp del]

definition scan_group ::
  "sched \<Rightarrow> nat \<Rightarrow> nat \<Rightarrow> nat \<Rightarrow> nat \<Rightarrow> nat \<Rightarrow> nat \<Rightarrow> nat \<Rightarrow> nat \<Rightarrow> (nat \<Rightarrow> nat \<Rightarrow> 'a::{plus,zero}) \<Rightarrow>
   nat \<Rightarrow> nat \<Rightarrow> 'a" where
  "scan_group S wgs ws in_b out_b offsets_b len tot grp G =
     (let bias = grp * len
      in scan_tiles S wgs ws in_b out_b bias len (tot - bias) 0 (G offsets_b grp) (\<lambda>_. 0) G)"

definition scanExclusive ::
  "(nat \<Rightarrow> sched) \<Rightarrow> nat list \<Rightarrow> nat \<Rightarrow> nat \<Rightarrow> nat \<Rightarrow> nat \<Rightarrow> nat \<Rightarrow> nat \<Rightarrow> nat \<Rightarrow>
   (nat \<Rightarrow> nat \<Rightarrow> 'a::{plus,zero}) \<Rightarrow> nat \<Rightarrow> nat \<Rightarrow> 'a" where
  "scanExclusive S groups wgs ws in_b out_b offsets_b len tot G =
     par groups (\<lambda>g. scan_group (S g) wgs ws in_b out_b offsets_b len tot g) G"

section \<open>The phases are race free\<close>

interpretation hu: single_write n "\<lambda>lid. lid < scale" "\<lambda>lid. scale + lid"
    "\<lambda>lid r. r (2 * (scale + lid)) + (r (2 * (scale + lid) + 1) :: 'a::plus)" for n scale
proof (unfold_locales, goal_cases)
  case (1 i j)
  then show ?case by simp
next
  case (2 i m m')
  then have "m (2 * (scale + i)) = m' (2 * (scale + i))" "m (2 * (scale + i) + 1) = m' (2 * (scale + i) + 1)"
    by (auto simp: 2)
  then show ?case by simp
qed

interpretation hdn: race_free n "heap_down_phase scale :: nat \<Rightarrow> (nat \<Rightarrow> 'a::plus) \<Rightarrow> nat \<Rightarrow> 'a"
    "\<lambda>lid. if lid < scale then {2 * (scale + lid), 2 * (scale + lid) + 1} else {}" for n scale
proof (unfold_locales, goal_cases)
  case (1 i a m)
  then show ?case by (auto simp: heap_down_phase_def Let_def split: if_splits)
next
  case (2 i a m m')
  from 2(2) have lt: "i < scale" by (auto split: if_splits)
  have "m (scale + i) = m' (scale + i)" "m (2 * (scale + i)) = m' (2 * (scale + i))"
    by (rule 2(3), use lt in \<open>auto split: if_splits\<close>, presburger?)+
  then show ?case using 2(2) lt by (auto simp: heap_down_phase_def Let_def split: if_splits)
next
  case (3 i j a)
  then show ?case by (auto split: if_splits)
qed

interpretation rp: single_write n "\<lambda>_. True" "\<lambda>lid. base + lid" "\<lambda>lid m. f lid :: 'a" for n f and base :: nat
  by unfold_locales auto

interpretation tl: store_loop wgs ws "\<lambda>_ _. True" "\<lambda>lid i. lid + i * wgs" "\<lambda>lid i. f lid i :: 'a" for wgs ws f
proof (unfold_locales, goal_cases)
  case (1 i j k l)
  then show ?case by (intro stride_inj) auto
qed

interpretation tw: store_loop wgs ws "\<lambda>lid i. g lid i" "\<lambda>lid i. b + (s + lid + i * wgs)" "\<lambda>lid i. f lid i :: 'a"
  for wgs ws f g b s
proof (unfold_locales, goal_cases)
  case (1 i j k l)
  then show ?case by (intro stride_inj) auto
qed

interpretation rw: store_loop n ws "\<lambda>_ _. True" "\<lambda>lid i. lid * ws + i" "\<lambda>lid i. f lid i :: 'a" for n ws f
proof (unfold_locales, goal_cases)
  case (1 i j k l)
  then have "k + i * ws = l + j * ws" by (simp add: add.commute)
  with 1 show ?case using stride_inj [of k ws l i j] by auto
qed

section \<open>Correctness of the reduce kernel\<close>

lemma stride_accum_sum:
  fixes acc :: "nat \<Rightarrow> 'a::comm_monoid_add"
  assumes "0 < rwgs" "i \<le> len" "rwgs dvd len - i"
  shows "(\<Sum>lid<rwgs. stride_accum rwgs inp (b + lid) i len (acc lid))
    = (\<Sum>lid<rwgs. acc lid) + (\<Sum>j = i..<len. inp (b + j))"
  using assms(2,3)
proof (induction "len - i" arbitrary: i acc rule: less_induct)
  case less
  show ?case
  proof (cases "i < len")
    case False
    with less.prems show ?thesis by (simp add: stride_accum.simps)
  next
    case True
    have le: "i + rwgs \<le> len" using dvd_imp_le [OF less.prems(2)] True by simp
    have dv: "rwgs dvd len - (i + rwgs)" using less.prems(2) le by (simp add: dvd_diff_nat flip: diff_diff_left)
    have "(\<Sum>lid<rwgs. stride_accum rwgs inp (b + lid) i len (acc lid))
        = (\<Sum>lid<rwgs. stride_accum rwgs inp (b + lid) (i + rwgs) len (acc lid + inp (b + lid + i)))"
      using True assms(1) by (intro sum.cong) (simp_all add: stride_accum.simps [of _ _ _ i])
    also have "\<dots> = (\<Sum>lid<rwgs. acc lid + inp (b + lid + i)) + (\<Sum>j = i + rwgs..<len. inp (b + j))"
      using True assms(1) le dv by (intro less.hyps) auto
    also have "(\<Sum>j = i..<i + rwgs. inp (b + j)) = (\<Sum>lid<rwgs. inp (b + lid + i))"
      by (subst sum_shift_start [symmetric]) (simp add: ac_simps)
    then have "(\<Sum>lid<rwgs. acc lid + inp (b + lid + i)) = (\<Sum>lid<rwgs. acc lid) + (\<Sum>j = i..<i + rwgs. inp (b + j))"
      by (simp add: sum.distrib)
    finally show ?thesis
      using sum_split_at [of i "i + rwgs" len "\<lambda>j. inp (b + j)"] le by (simp add: add.assoc)
  qed
qed

lemma reduce_group_sum:
  fixes inp :: "nat \<Rightarrow> 'a::comm_monoid_add"
  assumes "valid rwgs S" "pow2 rwgs" "rwgs dvd len"
  shows "reduce_group S rwgs inp len g = (\<Sum>j<len. inp (g * len + j))"
proof -
  have "reduce_group S rwgs inp len g =
      (\<Sum>lid<rwgs. par (S [0]) (\<lambda>lid m. m(lid := stride_accum rwgs inp (g * len + lid) 0 len 0)) (\<lambda>_. 0) lid)"
    using assms by (simp add: reduce_group_def tree_reduce_pow2 valid_sub)
  also have "\<dots> = (\<Sum>lid<rwgs. stride_accum rwgs inp (g * len + lid) 0 len 0)"
    by (intro sum.cong refl) (simp add: par_assign [OF valid_schedule [OF assms(1)]])
  also have "\<dots> = (\<Sum>j<len. inp (g * len + j))"
    using stride_accum_sum [of rwgs 0 len inp "g * len" "\<lambda>_. 0"] assms(3) pow2_pos [OF assms(2)]
    by (simp add: atLeast0LessThan)
  finally show ?thesis .
qed

text \<open>Updates of one buffer that read only other buffers act on that buffer alone.\<close>

lemma par_buffer:
  assumes "\<And>g G m. F g (G(ob := m)) = F g G"
  shows "par ord (\<lambda>g G. G(ob := (G ob)(g := F g G))) G = G(ob := par ord (\<lambda>g m. m(g := F g G)) (G ob))"
proof (induction ord arbitrary: G)
  case Nil
  then show ?case by simp
next
  case (Cons x xs)
  show ?case by (simp only: par_Cons Cons.IH assms fun_upd_same fun_upd_upd)
qed

lemma reduce_kernel_result:
  fixes G :: "nat \<Rightarrow> nat \<Rightarrow> 'a::comm_monoid_add"
  assumes "\<And>g. valid rwgs (S g)" "schedule n groups" "pow2 rwgs" "rwgs dvd len" "in_b \<noteq> out_b"
  shows "reduce_kernel S groups rwgs out_b in_b len G =
    G(out_b := (\<lambda>g. if g < n then \<Sum>j<len. G in_b (g * len + j) else G out_b g))"
proof -
  have "reduce_kernel S groups rwgs out_b in_b len G =
      G(out_b := par groups (\<lambda>g m. m(g := reduce_group (S g) rwgs (G in_b) len g)) (G out_b))"
    unfolding reduce_kernel_def using assms(5) by (intro par_buffer) auto
  also have "par groups (\<lambda>g m. m(g := reduce_group (S g) rwgs (G in_b) len g)) (G out_b) =
      (\<lambda>g. if g < n then \<Sum>j<len. G in_b (g * len + j) else G out_b g)"
    using assms by (intro ext) (simp add: par_assign [OF assms(2)] reduce_group_sum)
  finally show ?thesis .
qed

section \<open>The tree of a tile\<close>

lemma heap_up_phase_result:
  assumes "schedule n ord" "scale \<le> n"
  shows "par ord (heap_up_phase scale) r a =
    (if scale \<le> a \<and> a < 2 * scale then r (2 * a) + r (2 * a + 1) else r a)"
proof -
  let ?b = "\<lambda>lid r. if lid < scale then r(scale + lid := r (2 * (scale + lid)) + r (2 * (scale + lid) + 1)) else r"
  have eq: "heap_up_phase scale = ?b" by (intro ext) (simp only: heap_up_phase_def)
  show ?thesis
  proof (cases "scale \<le> a \<and> a < 2 * scale")
    case True
    then obtain l where l: "a = scale + l" "l < scale" by (metis le_iff_add mult_2 nat_add_left_cancel_less)
    then show ?thesis using hu.at [OF assms(1), of l scale r] assms(2) unfolding eq l(1) by simp
  next
    case False
    then show ?thesis using hu.off [OF assms(1), of scale a r] unfolding eq by auto
  qed
qed

lemma heap_down_phase_result:
  assumes "schedule n ord" "scale \<le> n"
  shows "par ord (heap_down_phase scale) r a =
    (if 2 * scale \<le> a \<and> a < 4 * scale
     then if even a then r (a div 2) else r (a div 2) + r (a - 1) else r a)"
proof (cases "2 * scale \<le> a \<and> a < 4 * scale")
  case True
  let ?l = "a div 2 - scale"
  have l: "?l < n" "?l < scale" "scale + ?l = a div 2" using True assms(2) by auto
  have "a \<in> {2 * (scale + ?l), 2 * (scale + ?l) + 1}" unfolding l(3) by (cases "even a") auto
  then have "par ord (heap_down_phase scale) r a = heap_down_phase scale ?l r a"
    using l by (intro hdn.par_own [OF assms(1)]) auto
  then show ?thesis using True l by (cases "even a") (auto simp: heap_down_phase_def Let_def elim: evenE oddE)
next
  case False
  then have "par ord (heap_down_phase scale) r a = r a" by (intro hdn.par_frame [OF assms(1)]) auto
  then show ?thesis using False by auto
qed

definition heap_sums :: "nat \<Rightarrow> (nat \<Rightarrow> 'a::comm_monoid_add) \<Rightarrow> nat \<Rightarrow> (nat \<Rightarrow> 'a) \<Rightarrow> bool" where
  "heap_sums k leaf d r \<longleftrightarrow> (\<forall>e q. d \<le> e \<and> e \<le> k \<and> q < 2 ^ e \<longrightarrow>
     r (2 ^ e + q) = sum leaf {q * 2 ^ (k - e)..<Suc q * 2 ^ (k - e)})"

definition heap_prefix :: "nat \<Rightarrow> (nat \<Rightarrow> 'a::comm_monoid_add) \<Rightarrow> 'a \<Rightarrow> nat \<Rightarrow> (nat \<Rightarrow> 'a) \<Rightarrow> bool" where
  "heap_prefix k leaf off d r \<longleftrightarrow> heap_sums k leaf (Suc d) r \<and>
     (\<forall>q<2 ^ d. r (2 ^ d + q) = off + sum leaf {..<q * 2 ^ (k - d)})"

lemma heap_sums_step:
  assumes "schedule (2 ^ k) ord" "d < k" "heap_sums k leaf (Suc d) r"
  shows "heap_sums k leaf d (par ord (heap_up_phase (2 ^ d)) r)"
  unfolding heap_sums_def
proof (intro allI impI, elim conjE)
  fix e q :: nat assume e: "d \<le> e" "e \<le> k" "q < 2 ^ e"
  have n: "2 ^ d \<le> (2 ^ k :: nat)" using assms(2) by simp
  note R = heap_up_phase_result [OF assms(1) n, of r "2 ^ e + q"]
  show "par ord (heap_up_phase (2 ^ d)) r (2 ^ e + q) = sum leaf {q * 2 ^ (k - e)..<Suc q * 2 ^ (k - e)}"
  proof (cases "e = d")
    case True
    have w: "2 ^ (k - d) = 2 * (2 ^ (k - Suc d) :: nat)"
      using assms(2) by (metis Suc_diff_Suc power_Suc)
    have "r (2 ^ Suc d + 2 * q) = sum leaf {2 * q * 2 ^ (k - Suc d)..<Suc (2 * q) * 2 ^ (k - Suc d)}"
      "r (2 ^ Suc d + (2 * q + 1)) = sum leaf {(2 * q + 1) * 2 ^ (k - Suc d)..<Suc (2 * q + 1) * 2 ^ (k - Suc d)}"
      using assms(3) [unfolded heap_sums_def, rule_format, of "Suc d" "2 * q"]
        assms(3) [unfolded heap_sums_def, rule_format, of "Suc d" "2 * q + 1"] assms(2) e True by auto
    moreover have "2 * (2 ^ d + q) = 2 ^ Suc d + 2 * q" "2 * (2 ^ d + q) + 1 = 2 ^ Suc d + (2 * q + 1)" by simp_all
    ultimately have "r (2 * (2 ^ d + q)) + r (2 * (2 ^ d + q) + 1)
        = sum leaf {2 * q * 2 ^ (k - Suc d)..<Suc (2 * q + 1) * 2 ^ (k - Suc d)}"
      using sum_split_at [of "2 * q * 2 ^ (k - Suc d)" "Suc (2 * q) * 2 ^ (k - Suc d)" "Suc (2 * q + 1) * 2 ^ (k - Suc d)" leaf]
      by simp
    also have "\<dots> = sum leaf {q * 2 ^ (k - d)..<Suc q * 2 ^ (k - d)}"
      unfolding w by (simp add: algebra_simps)
    finally show ?thesis using R True e by simp
  next
    case False
    then have "(2::nat) ^ Suc d \<le> 2 ^ e" using e by (intro power_increasing) auto
    then have "\<not> (2 ^ e + q < 2 * 2 ^ d)" by simp
    then have "par ord (heap_up_phase (2 ^ d)) r (2 ^ e + q) = r (2 ^ e + q)" using R by simp
    then show ?thesis using assms(3) e False unfolding heap_sums_def by (metis Suc_leI le_neq_implies_less)
  qed
qed

lemma heap_up_sums:
  assumes "valid (2 ^ k) S" "d \<le> k" "heap_sums k leaf d r"
  shows "heap_sums k leaf 0 (heap_up S (2 ^ d div 2) r)"
  using assms(2,3)
proof (induction d arbitrary: r)
  case 0
  then show ?case by (simp add: heap_up.simps)
next
  case (Suc d)
  have "heap_sums k leaf d (par (S [2 ^ d]) (heap_up_phase (2 ^ d)) r)"
    using Suc.prems assms(1) by (intro heap_sums_step) auto
  then have "heap_sums k leaf 0 (heap_up S (2 ^ d div 2) (par (S [2 ^ d]) (heap_up_phase (2 ^ d)) r))"
    using Suc by simp
  then show ?case by (simp add: heap_up.simps [of S "2 ^ d"])
qed

lemma heap_prefix_step:
  assumes "schedule (2 ^ k) ord" "d < k" "heap_prefix k leaf off d r"
  shows "heap_prefix k leaf off (Suc d) (par ord (heap_down_phase (2 ^ d)) r)"
proof -
  have n: "2 ^ d \<le> (2 ^ k :: nat)" using assms(2) by simp
  note R = heap_down_phase_result [OF assms(1) n, of r]
  have w: "2 ^ (k - d) = 2 * (2 ^ (k - Suc d) :: nat)" using assms(2) by (metis Suc_diff_Suc power_Suc)
  have sums: "heap_sums k leaf (Suc d) r"
    and pre: "\<And>q. q < 2 ^ d \<Longrightarrow> r (2 ^ d + q) = off + sum leaf {..<q * 2 ^ (k - d)}"
    using assms(3) by (auto simp: heap_prefix_def)
  have "heap_sums k leaf (Suc (Suc d)) (par ord (heap_down_phase (2 ^ d)) r)"
    unfolding heap_sums_def
  proof (intro allI impI, elim conjE)
    fix e q :: nat assume e: "Suc (Suc d) \<le> e" "e \<le> k" "q < 2 ^ e"
    then have "(2::nat) ^ Suc (Suc d) \<le> 2 ^ e" by (intro power_increasing) auto
    then have "\<not> 2 ^ e + q < 4 * 2 ^ d" by simp
    then show "par ord (heap_down_phase (2 ^ d)) r (2 ^ e + q) = sum leaf {q * 2 ^ (k - e)..<Suc q * 2 ^ (k - e)}"
      using R [of "2 ^ e + q"] sums [unfolded heap_sums_def, rule_format, of e q] e by simp
  qed
  moreover have "par ord (heap_down_phase (2 ^ d)) r (2 ^ Suc d + p) = off + sum leaf {..<p * 2 ^ (k - Suc d)}"
    if p: "p < 2 ^ Suc d" for p
  proof (cases "even p")
    case True
    then obtain q where q: "p = 2 * q" by blast
    then show ?thesis using R [of "2 ^ Suc d + p"] pre [of q] p w by (simp add: algebra_simps)
  next
    case False
    then obtain q where q: "p = 2 * q + 1" by (auto elim: oddE)
    have "r (2 ^ Suc d + 2 * q) = sum leaf {q * 2 ^ (k - d)..<Suc (2 * q) * 2 ^ (k - Suc d)}"
      using sums [unfolded heap_sums_def, rule_format, of "Suc d" "2 * q"] assms(2) p q w by (simp add: algebra_simps)
    moreover have "sum leaf {0..<q * 2 ^ (k - d)} + sum leaf {q * 2 ^ (k - d)..<Suc (2 * q) * 2 ^ (k - Suc d)}
        = sum leaf {0..<p * 2 ^ (k - Suc d)}"
      unfolding q w by (intro trans [OF sum_split_at]) (simp_all add: algebra_simps)
    ultimately have "r (2 ^ d + q) + r (2 ^ Suc d + 2 * q) = off + sum leaf {..<p * 2 ^ (k - Suc d)}"
      using pre [of q] p q by (simp add: add.assoc atLeast0LessThan)
    moreover have "odd (2 ^ Suc d + p)" "(2 ^ Suc d + p) div 2 = 2 ^ d + q" "2 ^ Suc d + p - 1 = 2 ^ Suc d + 2 * q"
      by (simp_all add: q)
    ultimately show ?thesis using R [of "2 ^ Suc d + p"] p by simp
  qed
  ultimately show ?thesis unfolding heap_prefix_def by blast
qed

lemma heap_down_prefix:
  assumes "valid (2 ^ k) S" "d \<le> k" "heap_prefix k leaf off d r"
  shows "heap_prefix k leaf off k (heap_down S (2 ^ k) (2 ^ d) r)"
  using assms(2,3)
proof (induction "k - d" arbitrary: d r)
  case 0
  then show ?case by (simp add: heap_down.simps)
next
  case (Suc x)
  then have d: "d < k" by simp
  let ?r = "par (S [2 ^ d]) (heap_down_phase (2 ^ d)) r"
  have p: "heap_prefix k leaf off (Suc d) ?r" using assms(1) d Suc.prems(2) by (intro heap_prefix_step) auto
  have "heap_prefix k leaf off k (heap_down S (2 ^ k) (2 ^ Suc d) ?r)"
    by (rule Suc.hyps(1) [OF _ _ p]) (use Suc.hyps(2) d in auto)
  moreover have "heap_down S (2 ^ k) (2 ^ d) r = heap_down S (2 ^ k) (2 ^ Suc d) ?r"
    using d by (subst heap_down.simps) (simp add: mult.commute)
  ultimately show ?case by simp
qed

lemma heap_scan:
  assumes "valid (2 ^ k) S" "valid (2 ^ k) S'" "\<And>q. q < 2 ^ k \<Longrightarrow> r (2 ^ k + q) = leaf q"
  shows "heap_up S (2 ^ k div 2) r 1 = sum leaf {..<2 ^ k}"
    and "q < 2 ^ k \<Longrightarrow> heap_down S' (2 ^ k) 1 ((heap_up S (2 ^ k div 2) r)(1 := off)) (2 ^ k + q)
      = off + sum leaf {..<q}"
proof -
  have "heap_sums k leaf k r" using assms(3) by (auto simp: heap_sums_def)
  then have s: "heap_sums k leaf 0 (heap_up S (2 ^ k div 2) r)" using assms(1) by (intro heap_up_sums) auto
  then show "heap_up S (2 ^ k div 2) r 1 = sum leaf {..<2 ^ k}"
    unfolding heap_sums_def by (metis add.right_neutral atLeast0LessThan diff_zero le0 le_refl mult_zero_left
        mult_1 One_nat_def power_0 zero_less_one)
  let ?r = "(heap_up S (2 ^ k div 2) r)(1 := off)"
  have "heap_sums k leaf (Suc 0) ?r"
    unfolding heap_sums_def
  proof (intro allI impI, elim conjE)
    fix e q :: nat assume e: "Suc 0 \<le> e" "e \<le> k" "q < 2 ^ e"
    then have "(2::nat) ^ 1 \<le> 2 ^ e" by (intro power_increasing) auto
    then show "?r (2 ^ e + q) = sum leaf {q * 2 ^ (k - e)..<Suc q * 2 ^ (k - e)}"
      using s [unfolded heap_sums_def, rule_format, of e q] e by simp
  qed
  then have "heap_prefix k leaf off 0 ?r" by (simp add: heap_prefix_def)
  then have "heap_prefix k leaf off k (heap_down S' (2 ^ k) (2 ^ 0) ?r)"
    using assms(2) by (intro heap_down_prefix) auto
  then show "q < 2 ^ k \<Longrightarrow> heap_down S' (2 ^ k) 1 ?r (2 ^ k + q) = off + sum leaf {..<q}"
    by (simp add: heap_prefix_def)
qed

section \<open>The scan of a tile\<close>

lemma priv_scan_result: "i < ws \<Longrightarrow> priv_scan ws p i = sum p {..i}" for p :: "nat \<Rightarrow> 'a::comm_monoid_add"
proof -
  have "fold (\<lambda>i p. p(i + 1 := p (i + 1) + p i)) [0..<n] p = (\<lambda>i. if i \<le> n then sum p {..i} else p i)" for n
    by (induction n) (auto simp: fun_eq_iff add.commute)
  from this [of "ws - 1"] show "i < ws \<Longrightarrow> ?thesis"
    unfolding priv_scan_def by (simp only: ) (simp add: Suc_leI less_Suc_eq_le [symmetric])
qed

lemma fold_upd_other: "(\<And>i. i \<in> set xs \<Longrightarrow> a \<noteq> ad i) \<Longrightarrow> fold (\<lambda>i m. m(ad i := f i)) xs m a = m a"
  by (induction xs arbitrary: m) auto

lemma fold_upd_at:
  assumes "i \<in> set xs" "\<And>j. j \<in> set xs \<Longrightarrow> ad j = ad i \<Longrightarrow> j = i"
  shows "fold (\<lambda>i m. m(ad i := f i)) xs m (ad i) = f i"
  using assms
proof (induction xs arbitrary: m)
  case Nil
  then show ?case by simp
next
  case (Cons x xs)
  show ?case
  proof (cases "i \<in> set xs")
    case True
    then show ?thesis using Cons by simp
  next
    case False
    then have "x = i" using Cons.prems(1) by simp
    moreover have "ad i \<noteq> ad j" if "j \<in> set xs" for j using Cons.prems(2) [of j] that False by auto
    then have "fold (\<lambda>i m. m(ad i := f i)) xs (m(ad i := f i)) (ad i) = (m(ad i := f i)) (ad i)"
      by (rule fold_upd_other)
    ultimately show ?thesis by (simp only: fold_simps fun_upd_same)
  qed
qed

text \<open>The descending stores of \<^verbatim>\<open>raw_put\<close> leave what a loop of stores leaves.\<close>

lemma raw_put_stores:
  assumes "0 < ws"
  shows "raw_put ws priv add lid =
    stores ws (\<lambda>_. True) (\<lambda>i. lid * ws + i) (\<lambda>i. if i = 0 then add lid else priv lid (i - 1) + add lid)"
    (is "?l = ?r")
proof (intro ext)
  fix m a
  show "?l m a = ?r m a"
  proof (cases "\<exists>i<ws. a = lid * ws + i")
    case True
    then obtain i where i: "i < ws" "a = lid * ws + i" by blast
    then have r: "?r m a = (if i = 0 then add lid else priv lid (i - 1) + add lid)"
      using stores_at [of i ws "\<lambda>_. True" "\<lambda>i. lid * ws + i"
          "\<lambda>i. if i = 0 then add lid else priv lid (i - 1) + add lid" m] by simp
    have "?l m a = (if i = 0 then add lid else priv lid (i - 1) + add lid)"
    proof (cases "i = 0")
      case False
      then have "fold (\<lambda>i m. m(lid * ws + i := priv lid (i - 1) + add lid)) (rev [1..<ws]) m (lid * ws + i)
          = priv lid (i - 1) + add lid"
        using i by (intro fold_upd_at) auto
      then show ?thesis using False i by (simp add: raw_put_def)
    qed (simp add: raw_put_def i)
    then show ?thesis using r by simp
  next
    case False
    then have "?r m a = m a" by (intro stores_frame) auto
    moreover have "a \<noteq> lid * ws" using False assms by auto
    then have "?l m a = m a" using False by (auto simp: raw_put_def intro!: fold_upd_other)
    ultimately show ?thesis by simp
  qed
qed

lemma tile_scan_result:
  fixes raw :: "nat \<Rightarrow> 'a::comm_monoid_add"
  assumes "valid wgs S" "pow2 wgs" "0 < ws" "tile_scan S wgs ws off raw = (raw', off')"
  shows "off' = off + sum raw {..<wgs * ws}"
    and "a < wgs * ws \<Longrightarrow> raw' a = off + sum raw {..<a}"
proof -
  obtain k where k: "wgs = 2 ^ k" using assms(2) by (rule pow2_E)
  define priv where "priv = (\<lambda>lid. priv_scan ws (\<lambda>i. raw (lid * ws + i)))"
  define r0 where "r0 = par (S [0]) (\<lambda>lid m. m(wgs + lid := priv lid (ws - 1))) raw"
  define leaf where "leaf = (\<lambda>q. \<Sum>i<ws. raw (q * ws + i))"
  define r1 where "r1 = heap_up (sub S [1]) (wgs div 2) r0"
  define r2 where "r2 = heap_down (sub S [2]) wgs 1 (r1(1 := off))"
  have pv: "priv lid i = (\<Sum>j\<le>i. raw (lid * ws + j))" if "i < ws" for lid i
    using that by (simp add: priv_def priv_scan_result)
  have lf: "priv q (ws - 1) = leaf q" for q
    using pv [of "ws - 1" q] assms(3) by (simp add: leaf_def) (metis Suc_pred lessThan_Suc_atMost)
  have "r0 (wgs + q) = leaf q" if "q < wgs" for q
    using rp.at [OF valid_schedule [OF assms(1), of "[0]"], where i = q and base = wgs
        and f = "\<lambda>lid. priv lid (ws - 1)" and m = raw] that
    by (simp only: r0_def lf simp_thms if_True)
  then have leaves: "\<And>q. q < 2 ^ k \<Longrightarrow> r0 (2 ^ k + q) = leaf q" by (simp add: k)
  have vs: "valid (2 ^ k) (sub S [1])" "valid (2 ^ k) (sub S [2])" using assms(1) by (auto simp: k)
  have root: "r1 1 = sum leaf {..<wgs}" unfolding r1_def k by (rule heap_scan(1) [where leaf = leaf and r = r0, OF vs leaves])
  have add: "r2 (wgs + q) = off + sum leaf {..<q}" if "q < wgs" for q
    using heap_scan(2) [where leaf = leaf and r = r0 and q = q and off = off, OF vs leaves] that by (simp add: r2_def r1_def k)
  have leafsum: "sum leaf {..<q} = sum raw {..<q * ws}" for q
    unfolding leaf_def by (rule sum_block)
  have res: "raw' = par (S [3]) (raw_put ws priv (\<lambda>lid. r2 (wgs + lid))) r2" "off' = off + r1 1"
    using assms(4) by (auto simp: tile_scan_def Let_def priv_def r0_def r1_def r2_def)
  show "off' = off + sum raw {..<wgs * ws}" by (simp only: res root leafsum)
  show "raw' a = off + sum raw {..<a}" if lt: "a < wgs * ws"
  proof -
    obtain i q where a: "i < ws" "q < wgs" "a = i + q * ws" using lt by (rule stride_split)
    have "raw' (q * ws + i) = (if i = 0 then r2 (wgs + q) else priv q (i - 1) + r2 (wgs + q))"
      unfolding res raw_put_stores [OF assms(3)] using a
      by (intro rw.at [OF valid_schedule [OF assms(1)]]) auto
    also have "\<dots> = off + (sum raw {..<q * ws} + (\<Sum>j<i. raw (q * ws + j)))"
    proof (cases "i = 0")
      case True
      then show ?thesis using add a leafsum by simp
    next
      case False
      have "priv q (i - 1) = (\<Sum>j<i. raw (q * ws + j))"
        using pv [of "i - 1" q] a False by simp (metis Suc_pred lessThan_Suc_atMost)
      then show ?thesis using False add a leafsum by (simp add: add_ac)
    qed
    also have "sum raw {..<q * ws} + (\<Sum>j<i. raw (q * ws + j)) = sum raw {..<a}"
      unfolding sum_shift_start a(3) using sum_split_at [of 0 "q * ws" "q * ws + i" raw]
      by (simp add: atLeast0LessThan add.commute)
    finally show ?thesis by (simp add: a(3) add.commute)
  qed
qed

section \<open>The loop over the tiles\<close>

lemma tile_load_result:
  assumes "valid wgs S" "a < wgs * ws"
  shows "par (S l) (tile_load wgs ws inp start tot) raw a = (if start + a < tot then inp (start + a) else 0)"
proof -
  have "a < ws * wgs" using assms(2) by (simp add: mult.commute)
  then obtain lid i where a: "lid < wgs" "i < ws" "a = lid + i * wgs" by (rule stride_split)
  have "par (S l) (tile_load wgs ws inp start tot) raw (lid + i * wgs) =
      (let addr = start + lid + i * wgs in if addr < tot then inp addr else 0)"
    unfolding tile_load_def using a by (intro tl.at [OF valid_schedule [OF assms(1)]]) auto
  then show ?thesis by (simp add: a add.assoc Let_def)
qed

lemma tile_writeback_result:
  assumes "valid wgs S"
  shows "par (S l) (tile_writeback wgs ws raw bias start tot) m a =
    (if bias + start \<le> a \<and> a < bias + start + wgs * ws \<and> a < bias + tot then raw (a - (bias + start)) else m a)"
proof (cases "bias + start \<le> a \<and> a < bias + start + wgs * ws \<and> a < bias + tot")
  case True
  then have "a - (bias + start) < ws * wgs" by (simp add: mult.commute less_diff_conv2 add.commute)
  then obtain lid i where i: "lid < wgs" "i < ws" "a - (bias + start) = lid + i * wgs" by (rule stride_split)
  then have a: "a = bias + (start + lid + i * wgs)" using True by linarith
  have "par (S l) (tile_writeback wgs ws raw bias start tot) m (bias + (start + lid + i * wgs)) = raw (lid + i * wgs)"
    unfolding tile_writeback_def using i True a
    by (intro tw.at [OF valid_schedule [OF assms]]) auto
  then show ?thesis using True a i(3) by simp
next
  case False
  have "par (S l) (tile_writeback wgs ws raw bias start tot) m a = m a"
    unfolding tile_writeback_def
  proof (rule tw.off [OF valid_schedule [OF assms]], rule notI)
    fix lid i assume i: "lid < wgs" "i < ws" "start + lid + i * wgs < tot" "a = bias + (start + lid + i * wgs)"
    have "lid + i * wgs < Suc i * wgs" using i(1) by simp
    also have "\<dots> \<le> ws * wgs" using i(2) by (intro mult_right_mono) auto
    finally show False using False i by (simp add: mult.commute)
  qed
  then show ?thesis using False by auto
qed

lemma scan_tiles_result:
  fixes G :: "nat \<Rightarrow> nat \<Rightarrow> 'a::comm_monoid_add"
  assumes "valid wgs S" "pow2 wgs" "0 < ws" "wgs * ws dvd len - start" "start \<le> len"
  shows "scan_tiles S wgs ws in_b out_b bias len tot start off raw G =
    G(out_b := (\<lambda>a. if bias + start \<le> a \<and> a < bias + min len tot
        then off + (\<Sum>j = start..<a - bias. G in_b (bias + j)) else G out_b a))"
  using assms(4,5)
proof (induction "len - start" arbitrary: start off raw G rule: less_induct)
  case less
  let ?T = "wgs * ws"
  have T: "0 < ?T" using pow2_pos [OF assms(2)] assms(3) by simp
  show ?case
  proof (cases "start < len")
    case False
    then show ?thesis by (auto simp: scan_tiles.simps fun_eq_iff)
  next
    case True
    define x where "x j = (if start + j < tot then G in_b (bias + (start + j)) else 0)" for j
    define raw1 where "raw1 = par (S [start, 0]) (tile_load wgs ws (\<lambda>a. G in_b (bias + a)) start tot) raw"
    obtain raw2 off' where ts: "tile_scan (sub S [start, 1]) wgs ws off raw1 = (raw2, off')" by fastforce
    have raw1: "raw1 j = x j" if "j < ?T" for j
      unfolding raw1_def x_def using assms(1) that by (rule tile_load_result)
    have sx: "sum raw1 {..<j} = sum x {..<j}" if "j \<le> ?T" for j
      using that by (intro sum.cong) (auto simp: raw1)
    note TS = tile_scan_result [OF valid_sub [OF assms(1)] assms(2,3) ts]
    have off': "off' = off + sum x {..<?T}" using TS(1) sx by simp
    have raw2: "raw2 j = off + sum x {..<j}" if "j < ?T" for j using TS(2) [OF that] sx that by simp
    define G' where "G' = G(out_b := par (S [start, 2]) (tile_writeback wgs ws raw2 bias start tot) (G out_b))"
    have xs: "sum x {..<j} = (\<Sum>i = start..<start + j. G in_b (bias + i))" if "start + j \<le> tot" for j
      unfolding sum_shift_start [symmetric] using that by (intro sum.cong) (auto simp: x_def)
    have g': "G' out_b a = (if bias + start \<le> a \<and> a < bias + start + ?T \<and> a < bias + tot
        then off + (\<Sum>j = start..<a - bias. G in_b (bias + j)) else G out_b a)" for a
    proof -
      have "raw2 (a - (bias + start)) = off + (\<Sum>j = start..<a - bias. G in_b (bias + j))"
        if "bias + start \<le> a" "a < bias + start + ?T" "a < bias + tot"
      proof -
        have lt: "a - (bias + start) < ?T" using that by linarith
        have "start + (a - (bias + start)) \<le> tot" "start + (a - (bias + start)) = a - bias" using that by linarith+
        then show ?thesis using raw2 [OF lt] xs [of "a - (bias + start)"] by simp
      qed
      then show ?thesis by (simp add: G'_def tile_writeback_result [OF assms(1)])
    qed
    have unch: "G' in_b (bias + j) = G in_b (bias + j)" if "start + ?T \<le> j" for j
      using that g' [of "bias + j"] by (cases "in_b = out_b") (auto simp: G'_def)
    have le: "start + ?T \<le> len" using dvd_imp_le [OF less.prems(1)] True by simp
    have dv: "?T dvd len - (start + ?T)" using less.prems(1) le by (simp add: dvd_diff_nat flip: diff_diff_left)
    have "len - (start + ?T) < len - start" using True T by linarith
    from less.hyps [OF this dv le, of off' raw2 G']
    have IH: "scan_tiles S wgs ws in_b out_b bias len tot (start + ?T) off' raw2 G' =
      G'(out_b := (\<lambda>a. if bias + (start + ?T) \<le> a \<and> a < bias + min len tot
        then off' + (\<Sum>j = start + ?T..<a - bias. G' in_b (bias + j)) else G' out_b a))" .
    have "scan_tiles S wgs ws in_b out_b bias len tot start off raw G =
        scan_tiles S wgs ws in_b out_b bias len tot (start + ?T) off' raw2 G'"
      by (subst scan_tiles.simps) (use True T ts in \<open>simp add: Let_def raw1_def [symmetric] G'_def mult.commute\<close>)
    also have "\<dots> = G(out_b := (\<lambda>a. if bias + start \<le> a \<and> a < bias + min len tot
        then off + (\<Sum>j = start..<a - bias. G in_b (bias + j)) else G out_b a))"
    proof (unfold IH, intro ext)
      fix b a
      let ?l = "\<lambda>a. if bias + (start + ?T) \<le> a \<and> a < bias + min len tot
        then off' + (\<Sum>j = start + ?T..<a - bias. G' in_b (bias + j)) else G' out_b a"
      let ?r = "\<lambda>a. if bias + start \<le> a \<and> a < bias + min len tot
        then off + (\<Sum>j = start..<a - bias. G in_b (bias + j)) else G out_b a"
      have "?l a = ?r a"
      proof (cases "bias + (start + ?T) \<le> a \<and> a < bias + min len tot")
        case True
        then have "start + ?T \<le> tot" "start + ?T \<le> a - bias" by linarith+
        then have "off' + (\<Sum>j = start + ?T..<a - bias. G' in_b (bias + j)) =
            off + ((\<Sum>j = start..<start + ?T. G in_b (bias + j)) + (\<Sum>j = start + ?T..<a - bias. G in_b (bias + j)))"
          by (simp add: off' xs unch add.assoc)
        also have "(\<Sum>j = start..<start + ?T. G in_b (bias + j)) + (\<Sum>j = start + ?T..<a - bias. G in_b (bias + j))
            = (\<Sum>j = start..<a - bias. G in_b (bias + j))"
          using \<open>start + ?T \<le> a - bias\<close> by (intro sum_split_at) auto
        finally show ?thesis using True by simp
      next
        case False
        have "bias + start \<le> a \<and> a < bias + start + ?T \<and> a < bias + tot \<longleftrightarrow>
            bias + start \<le> a \<and> a < bias + min len tot" using False le by auto
        then show ?thesis using False g' [of a] by simp
      qed
      then show "(G'(out_b := ?l)) b a = (G(out_b := ?r)) b a" by (cases "b = out_b") (simp_all add: G'_def)
    qed
    finally show ?thesis .
  qed
qed

section \<open>The launch of scanExclusive\<close>

lemma scan_group_result:
  fixes G :: "nat \<Rightarrow> nat \<Rightarrow> 'a::comm_monoid_add"
  assumes "valid wgs S" "pow2 wgs" "0 < ws" "wgs * ws dvd len"
  shows "scan_group S wgs ws in_b out_b offs_b len tot g G =
    G(out_b := (\<lambda>a. if g * len \<le> a \<and> a < g * len + len \<and> a < tot
        then G offs_b g + (\<Sum>j<a - g * len. G in_b (g * len + j)) else G out_b a))"
proof -
  have "g * len \<le> a \<and> a < g * len + min len (tot - g * len) \<longleftrightarrow> g * len \<le> a \<and> a < g * len + len \<and> a < tot" for a
    by auto
  then show ?thesis using assms
    unfolding scan_group_def Let_def lessThan_atLeast0 by (simp add: scan_tiles_result)
qed

lemma div_block_iff:
  fixes a g len :: nat
  assumes "0 < len"
  shows "g * len \<le> a \<and> a < g * len + len \<longleftrightarrow> a div len = g"
proof
  assume "g * len \<le> a \<and> a < g * len + len"
  then show "a div len = g" by (intro div_nat_eqI) (simp_all add: mult.commute)
next
  assume "a div len = g"
  then show "g * len \<le> a \<and> a < g * len + len"
    using dividend_less_div_times [OF assms, of a] div_times_less_eq_dividend [of a len]
    by (auto simp: add.commute)
qed

text \<open>
  The work-groups scan disjoint blocks, so their order does not matter, even when the input
  and the output buffer are the same.
\<close>

lemma scanExclusive_result:
  fixes G :: "nat \<Rightarrow> nat \<Rightarrow> 'a::comm_monoid_add"
  assumes "\<And>g. valid wgs (S g)" "pow2 wgs" "0 < ws" "wgs * ws dvd len" "0 < len" "offs_b \<noteq> out_b"
    and "distinct groups"
  shows "scanExclusive S groups wgs ws in_b out_b offs_b len tot G =
    G(out_b := (\<lambda>a. if a div len \<in> set groups \<and> a < tot
        then G offs_b (a div len) + (\<Sum>j<a mod len. G in_b (a div len * len + j)) else G out_b a))"
  using assms(7)
proof (induction groups arbitrary: G)
  case Nil
  then show ?case by (simp add: scanExclusive_def)
next
  case (Cons g gs)
  let ?F = "\<lambda>G a. G offs_b (a div len) + (\<Sum>j<a mod len. G in_b (a div len * len + j))"
  define H where "H = scan_group (S g) wgs ws in_b out_b offs_b len tot g G"
  have H: "H = G(out_b := (\<lambda>a. if a div len = g \<and> a < tot then ?F G a else G out_b a))"
    unfolding H_def scan_group_result [OF assms(1-4)]
  proof (intro arg_cong [where f = "\<lambda>x. G(out_b := x)"] ext)
    fix a
    show "(if g * len \<le> a \<and> a < g * len + len \<and> a < tot
        then G offs_b g + (\<Sum>j<a - g * len. G in_b (g * len + j)) else G out_b a) =
      (if a div len = g \<and> a < tot then ?F G a else G out_b a)"
    proof (cases "a div len = g")
      case True
      then have "g * len \<le> a \<and> a < g * len + len" using assms(5) by (simp add: div_block_iff)
      moreover have "a - g * len = a mod len" using True by (simp add: minus_div_mult_eq_mod [symmetric])
      ultimately show ?thesis using True by simp
    next
      case False
      then have "\<not> (g * len \<le> a \<and> a < g * len + len)" using assms(5) by (simp add: div_block_iff)
      then show ?thesis using False by auto
    qed
  qed
  have same: "?F H a = ?F G a" if "a div len \<noteq> g" for a
  proof -
    have "H in_b (a div len * len + j) = G in_b (a div len * len + j)" if "j < a mod len" for j
    proof -
      have "j < len" using that assms(5) by (meson less_trans mod_less_divisor)
      then have "(a div len * len + j) div len = a div len" by simp
      then show ?thesis using \<open>a div len \<noteq> g\<close> by (auto simp: H)
    qed
    then show ?thesis using assms(6) by (simp add: H)
  qed
  have "scanExclusive S (g # gs) wgs ws in_b out_b offs_b len tot G
      = scanExclusive S gs wgs ws in_b out_b offs_b len tot H"
    by (simp add: scanExclusive_def H_def)
  also have "\<dots> = H(out_b := (\<lambda>a. if a div len \<in> set gs \<and> a < tot then ?F H a else H out_b a))"
    by (rule Cons.IH) (use Cons.prems in auto)
  also have "\<dots> = G(out_b := (\<lambda>a. if a div len \<in> set (g # gs) \<and> a < tot then ?F G a else G out_b a))"
  proof (intro ext)
    fix b a
    have "(if a div len \<in> set gs \<and> a < tot then ?F H a else H out_b a) =
        (if a div len \<in> set (g # gs) \<and> a < tot then ?F G a else G out_b a)"
    proof (cases "a div len = g")
      case True
      then have "a div len \<notin> set gs" using Cons.prems by auto
      then show ?thesis using True by (simp add: H)
    next
      case False
      then show ?thesis using same [OF False] by (simp add: H)
    qed
    then show "(H(out_b := (\<lambda>a. if a div len \<in> set gs \<and> a < tot then ?F H a else H out_b a))) b a
        = (G(out_b := (\<lambda>a. if a div len \<in> set (g # gs) \<and> a < tot then ?F G a else G out_b a))) b a"
      by (cases "b = out_b") (simp_all add: H)
  qed
  finally show ?case .
qed

section \<open>The three kernels together\<close>

text \<open>
  The middle kernel turns the block sums into the offsets of the blocks: whatever the cells
  from \<open>n - 1\<close> on hold, cell \<open>g < n\<close> becomes the offset plus the sum of the elements before
  block \<open>g\<close>.
\<close>

lemma block_offsets:
  fixes f :: "nat \<Rightarrow> 'a::comm_monoid_add"
  assumes "\<And>g. g < n - 1 \<Longrightarrow> s g = (\<Sum>j<len. f (g * len + j))" "g < n"
  shows "off + sum s {..<g} = off + sum f {..<g * len}"
proof -
  have "sum s {..<g} = (\<Sum>g<g. \<Sum>j<len. f (g * len + j))" using assms by (intro sum.cong) auto
  then show ?thesis by (simp add: sum_block)
qed

lemma prefix_split:
  fixes f :: "nat \<Rightarrow> 'a::comm_monoid_add"
  shows "sum f {..<a div len * len} + (\<Sum>j<a mod len. f (a div len * len + j)) = sum f {..<a}"
proof -
  have "sum f {0..<a div len * len} + sum f {a div len * len..<a div len * len + a mod len}
      = sum f {0..<a div len * len + a mod len}" by (intro sum_split_at) auto
  then show ?thesis by (simp add: sum_shift_start atLeast0LessThan)
qed

end
