(* ===== verification/ScanHost.thy ===== *)
theory ScanHost
  imports OpenCL CacheTypes ScanKernel TunePolicy
begin

text \<open>
  The host side of the scan, src/scan.cpp: the problem object, the preparation of the kernels
  (\<^verbatim>\<open>initialize\<close>), and \<^verbatim>\<open>enqueueInternal\<close>, which validates its arguments, splits the
  range into blocks and queues up to three launches. \<open>run_scan_command\<close> says what a queued
  launch does to device memory, by name and argument slots of its kernel, and the theory ends
  with the property of the whole: in every legal order of execution and for every behaviour
  of the device, the output is the exclusive prefix sum.
\<close>

section \<open>The problem\<close>

record scan_problem =
  sp_type :: cl_type
  sp_tunePolicy :: tune_policy

definition ScanProblem_new :: scan_problem where
  "ScanProblem_new = \<lparr>sp_type = void_type, sp_tunePolicy = TunePolicy_new\<rparr>"

definition ScanProblem_setType :: "cl_type \<Rightarrow> scan_problem \<Rightarrow> scan_problem result" where
  "ScanProblem_setType t p =
     (if \<not> isIntegral t then Inl (InvalidArgument ''type is not a supported integral format'')
      else Inr (p\<lparr>sp_type := t\<rparr>))"

definition ScanProblem_setTunePolicy :: "tune_policy \<Rightarrow> scan_problem \<Rightarrow> scan_problem" where
  "ScanProblem_setTunePolicy tp p = p\<lparr>sp_tunePolicy := tp\<rparr>"

definition Scan_typeSupported :: "device \<Rightarrow> cl_type \<Rightarrow> bool" where
  "Scan_typeSupported d t \<longleftrightarrow> isIntegral t \<and> isComputable t d \<and> isStorable t d"

section \<open>The scan object\<close>

record 'a scan =
  reduceWorkGroupSize :: nat
  scanWorkGroupSize :: nat
  scanWorkScale :: nat
  maxBlocks :: nat
  elementSize :: nat
  reduceKernel :: "'a kernel"
  scanSmallKernel :: "'a kernel"
  scanSmallKernelOffset :: "'a kernel"
  scanKernel :: "'a kernel"
  sums :: nat
  scan_alg :: alg

definition scan_defines :: "scan_value \<Rightarrow> int std_map" where
  "scan_defines params = puts [
     (''WARP_SIZE_MEM'', int (s_warpSizeMem params)),
     (''WARP_SIZE_SCHEDULE'', int (s_warpSizeSchedule params)),
     (''REDUCE_WORK_GROUP_SIZE'', int (s_reduceWorkGroupSize params)),
     (''SCAN_WORK_GROUP_SIZE'', int (s_scanWorkGroupSize params)),
     (''SCAN_WORK_SCALE'', int (s_scanWorkScale params)),
     (''SCAN_BLOCKS'', int (s_scanBlocks params))]"

definition scan_string_defines :: "cl_type \<Rightarrow> string std_map result" where
  "scan_string_defines t =
     (let sd = puts [(''SCAN_T'', getName t)]
      in if veclen t = 3
         then bind_result (make_type (baseType t) 4) (\<lambda>padded. Inr (map_put ''SCAN_PAD_T'' (getName padded) sd))
         else Inr sd)"

text \<open>
  \<open>alloc\<close> creates a buffer of a size, \<open>bld\<close> is \<^verbatim>\<open>build\<close> for the context and device,
  \<open>mk\<close> creates a kernel object; each may throw.
\<close>

definition Scan_initialize ::
  "(nat \<Rightarrow> nat result) \<Rightarrow> (string \<Rightarrow> int std_map \<Rightarrow> string std_map \<Rightarrow> program result) \<Rightarrow>
   (program \<Rightarrow> string \<Rightarrow> 'a kernel result) \<Rightarrow> scan_problem \<Rightarrow> scan_value \<Rightarrow> 'a scan result" where
  "Scan_initialize alloc bld mk problem params =
     (let esize = getSize (sp_type problem) in
      bind_result (scan_string_defines (sp_type problem)) (\<lambda>sdefs.
      wrap_prepare ''Error preparing kernels for scan: ''
       (bind_result (alloc (s_scanBlocks params * esize)) (\<lambda>sums.
        bind_result (bld ''scan.cl'' (scan_defines params) sdefs) (\<lambda>program.
        bind_result (mk program ''reduce'') (\<lambda>reduceKernel.
        bind_result (mk program ''scanExclusiveSmall'') (\<lambda>small.
        bind_result (mk program ''scanExclusiveSmallOffset'') (\<lambda>smallOffset.
        bind_result (mk program ''scanExclusive'') (\<lambda>scanKernel.
        Inr \<lparr>reduceWorkGroupSize = s_reduceWorkGroupSize params,
             scanWorkGroupSize = s_scanWorkGroupSize params,
             scanWorkScale = s_scanWorkScale params,
             maxBlocks = s_scanBlocks params,
             elementSize = esize,
             reduceKernel = setArg 0 (ABuf sums) reduceKernel,
             scanSmallKernel = setArg 0 (ABuf sums) small,
             scanSmallKernelOffset = setArg 0 (ABuf sums) smallOffset,
             scanKernel = setArg 2 (ABuf sums) scanKernel,
             sums = sums,
             scan_alg = new_alg\<rparr>)))))))))"

section \<open>Enqueueing\<close>

text \<open>The offset: a value from the host, a cell of a buffer, or none.\<close>

datatype 'a scan_offset = NoOffset | HostOffset 'a | BufferOffset buffer nat

fun offset_check :: "nat \<Rightarrow> 'a scan_offset \<Rightarrow> unit result" where
  "offset_check esize (BufferOffset b offsetIndex) =
     (if buf_size b < u64 (u32 (offsetIndex + 1) * esize)
      then Inl (ClError CL_INVALID_VALUE ''clogs::Scan::enqueue: offsetIndex out of buffer bounds'')
      else if \<not> readable b
      then Inl (ClError CL_INVALID_VALUE ''clogs::Scan::enqueue: offsetBuffer is not readable'')
      else Inr ())"
| "offset_check esize _ = Inr ()"

definition scan_validate ::
  "'a scan \<Rightarrow> buffer \<Rightarrow> buffer \<Rightarrow> nat \<Rightarrow> 'a scan_offset \<Rightarrow> unit result" where
  "scan_validate sc inBuffer outBuffer elements off =
     (if buf_size inBuffer < u64 (elements * elementSize sc)
      then Inl (ClError CL_INVALID_VALUE ''clogs::Scan::enqueue: range out of buffer bounds'')
      else if buf_size outBuffer < u64 (elements * elementSize sc)
      then Inl (ClError CL_INVALID_VALUE ''clogs::Scan::enqueue: range out of buffer bounds'')
      else if \<not> readable inBuffer
      then Inl (ClError CL_INVALID_VALUE ''clogs::Scan::enqueue: input buffer is not readable'')
      else if \<not> writable outBuffer
      then Inl (ClError CL_INVALID_VALUE ''clogs::Scan::enqueue: output buffer is not writable'')
      else bind_result (offset_check (elementSize sc) off) (\<lambda>_.
        if elements = 0 then Inl (ClError CL_INVALID_GLOBAL_WORK_SIZE ''clogs::Scan::enqueue: elements is zero'')
        else Inr ()))"

definition scan_tileSize :: "'a scan \<Rightarrow> nat" where
  "scan_tileSize sc = max (reduceWorkGroupSize sc) (u64 (scanWorkScale sc * scanWorkGroupSize sc))"

definition scan_blockSize :: "'a scan \<Rightarrow> nat \<Rightarrow> nat" where
  "scan_blockSize sc elements = roundUp elements (u64 (scan_tileSize sc * maxBlocks sc)) div maxBlocks sc"

definition scan_allBlocks :: "'a scan \<Rightarrow> nat \<Rightarrow> nat" where
  "scan_allBlocks sc elements =
     (let blockSize = scan_blockSize sc elements in u64 (elements + blockSize - 1) div blockSize)"

text \<open>The argument slots that \<^verbatim>\<open>enqueueInternal\<close> sets; the others were set by \<^verbatim>\<open>initialize\<close>.\<close>

fun small_args :: "'a scan_offset \<Rightarrow> 'a::zero scan \<Rightarrow> 'a scan" where
  "small_args (BufferOffset b offsetIndex) sc =
     sc\<lparr>scanSmallKernelOffset := setArg 2 (AUint offsetIndex) (setArg 1 (ABuf (buf_id b)) (scanSmallKernelOffset sc))\<rparr>"
| "small_args (HostOffset x) sc = sc\<lparr>scanSmallKernel := setArg 1 (AElem x) (scanSmallKernel sc)\<rparr>"
| "small_args NoOffset sc = sc\<lparr>scanSmallKernel := setArg 1 (AElem 0) (scanSmallKernel sc)\<rparr>"

fun small_kernel :: "'a scan_offset \<Rightarrow> 'a scan \<Rightarrow> 'a kernel" where
  "small_kernel (BufferOffset b offsetIndex) sc = scanSmallKernelOffset sc"
| "small_kernel _ sc = scanSmallKernel sc"

definition scan_set_args ::
  "buffer \<Rightarrow> buffer \<Rightarrow> nat \<Rightarrow> 'a scan_offset \<Rightarrow> 'a::zero scan \<Rightarrow> 'a scan" where
  "scan_set_args inBuffer outBuffer elements off sc =
     (let blockSize = scan_blockSize sc elements
      in small_args off (sc\<lparr>
        reduceKernel := setArg 2 (AUint (u32 blockSize)) (setArg 1 (ABuf (buf_id inBuffer)) (reduceKernel sc)),
        scanKernel := setArg 4 (AUint (u32 elements)) (setArg 3 (AUint (u32 blockSize))
          (setArg 1 (ABuf (buf_id outBuffer)) (setArg 0 (ABuf (buf_id inBuffer)) (scanKernel sc))))\<rparr>))"

text \<open>The launches; the result is the event of the last one.\<close>

definition scan_launches ::
  "('a command \<Rightarrow> int) \<Rightarrow> 'a scan \<Rightarrow> 'a scan_offset \<Rightarrow> nat \<Rightarrow> nat list option \<Rightarrow> 'a queue \<Rightarrow> nat result \<times> 'a queue" where
  "scan_launches drv sc off allBlocks events =
     bind_op
       (if allBlocks > 1
        then bind_op (enqueueNDRange drv (reduceKernel sc)
                 (reduceWorkGroupSize sc * (allBlocks - 1)) (reduceWorkGroupSize sc) events)
               (\<lambda>e. bind_op (update_op (notify (scan_alg sc) e)) (\<lambda>_. return_op (Some [e])))
        else return_op events)
       (\<lambda>waitFor. bind_op (enqueueNDRange drv (small_kernel off sc) (maxBlocks sc div 2) (maxBlocks sc div 2) waitFor)
       (\<lambda>e1. bind_op (update_op (notify (scan_alg sc) e1))
       (\<lambda>_. bind_op (enqueueNDRange drv (scanKernel sc)
              (scanWorkGroupSize sc * allBlocks) (scanWorkGroupSize sc) (Some [e1]))
       (\<lambda>e2. bind_op (update_op (notify (scan_alg sc) e2))
       (\<lambda>_. return_op e2)))))"

definition enqueueInternal ::
  "('a::zero command \<Rightarrow> int) \<Rightarrow> buffer \<Rightarrow> buffer \<Rightarrow> nat \<Rightarrow> 'a scan_offset \<Rightarrow> nat list option \<Rightarrow>
   'a scan \<times> 'a queue \<Rightarrow> nat result \<times> 'a scan \<times> 'a queue" where
  "enqueueInternal drv inBuffer outBuffer elements off events st =
     (case st of (sc, q) \<Rightarrow>
       case scan_validate sc inBuffer outBuffer elements off of
         Inl e \<Rightarrow> (Inl e, sc, q)
       | Inr _ \<Rightarrow>
           let sc' = scan_set_args inBuffer outBuffer elements off sc;
               (r, q') = scan_launches drv sc' off (scan_allBlocks sc elements) events q
           in (r, sc', q'))"

section \<open>What the launches do\<close>

text \<open>
  The effect of a launch on device memory. A launch whose local size is not the one that the
  kernel's attribute requires, or with arguments missing, is refused (\<open>None\<close>).
\<close>

fun run_scan_kernel ::
  "string \<Rightarrow> (string \<Rightarrow> nat) \<Rightarrow> (nat \<Rightarrow> 'a::{plus,zero} arg option) \<Rightarrow> nat list \<Rightarrow> (nat \<Rightarrow> sched) \<Rightarrow> nat \<Rightarrow>
   (nat \<Rightarrow> nat \<Rightarrow> 'a) \<Rightarrow> (nat \<Rightarrow> nat \<Rightarrow> 'a) option" where
  "run_scan_kernel name mc args groups S local G =
     (if name = ''reduce''
      then case (args 0, args 1, args 2) of
          (Some (ABuf out_b), Some (ABuf in_b), Some (AUint len)) \<Rightarrow>
            if local = mc ''REDUCE_WORK_GROUP_SIZE''
            then Some (reduce_kernel S groups (mc ''REDUCE_WORK_GROUP_SIZE'') out_b in_b len G) else None
        | _ \<Rightarrow> None
      else if name = ''scanExclusiveSmall''
      then case (args 0, args 1) of
          (Some (ABuf inout_b), Some (AElem off)) \<Rightarrow>
            if local = mc ''SCAN_BLOCKS'' div 2 \<and> length groups = 1
            then Some (scanExclusiveSmall (S 0) (mc ''SCAN_BLOCKS'') inout_b off G) else None
        | _ \<Rightarrow> None
      else if name = ''scanExclusiveSmallOffset''
      then case (args 0, args 1, args 2) of
          (Some (ABuf inout_b), Some (ABuf off_b), Some (AUint i)) \<Rightarrow>
            if local = mc ''SCAN_BLOCKS'' div 2 \<and> length groups = 1
            then Some (scanExclusiveSmallOffset (S 0) (mc ''SCAN_BLOCKS'') inout_b off_b i G) else None
        | _ \<Rightarrow> None
      else if name = ''scanExclusive''
      then case (args 0, args 1, args 2, args 3, args 4) of
          (Some (ABuf in_b), Some (ABuf out_b), Some (ABuf offs_b), Some (AUint len), Some (AUint tot)) \<Rightarrow>
            if local = mc ''SCAN_WORK_GROUP_SIZE''
            then Some (scanExclusive S groups (mc ''SCAN_WORK_GROUP_SIZE'') (mc ''SCAN_WORK_SCALE'')
                   in_b out_b offs_b len tot G) else None
        | _ \<Rightarrow> None
      else None)"

definition run_scan_command ::
  "dsched \<Rightarrow> 'a::{plus,zero} command \<Rightarrow> (nat \<Rightarrow> nat \<Rightarrow> 'a) \<Rightarrow> (nat \<Rightarrow> nat \<Rightarrow> 'a) option" where
  "run_scan_command D c G =
     (case act c of
        Launch k g l \<Rightarrow>
          if range_ok g l
          then run_scan_kernel (kname k) (macro k) (kargs k) (dgroups D (ev c)) (ditems D (ev c)) l G
          else None
      | ReadBuf b bl off n \<Rightarrow> Some G
      | CopyBuf src dst n \<Rightarrow> None)"

section \<open>Well-formed scan objects\<close>

text \<open>The checks that the preprocessor makes at the top of scan.cl.\<close>

definition scan_cl_accepts :: "int std_map \<Rightarrow> bool" where
  "scan_cl_accepts d \<longleftrightarrow>
     is_power2 (def_nat d ''WARP_SIZE_MEM'') \<and> is_power2 (def_nat d ''WARP_SIZE_SCHEDULE'')
     \<and> is_power2 (def_nat d ''REDUCE_WORK_GROUP_SIZE'') \<and> is_power2 (def_nat d ''SCAN_WORK_GROUP_SIZE'')
     \<and> and (def_nat d ''SCAN_BLOCKS'') 1 = 0 \<and> is_power2 (def_nat d ''SCAN_WORK_SCALE'')"

definition scan_wf :: "'a scan \<Rightarrow> bool" where
  "scan_wf sc \<longleftrightarrow>
     pow2 (reduceWorkGroupSize sc) \<and> pow2 (scanWorkGroupSize sc) \<and> pow2 (scanWorkScale sc)
     \<and> even (maxBlocks sc) \<and> 0 < maxBlocks sc
     \<and> kernel_is (reduceKernel sc) ''reduce'' [(''REDUCE_WORK_GROUP_SIZE'', reduceWorkGroupSize sc)]
         [(0, ABuf (sums sc))]
     \<and> kernel_is (scanSmallKernel sc) ''scanExclusiveSmall'' [(''SCAN_BLOCKS'', maxBlocks sc)]
         [(0, ABuf (sums sc))]
     \<and> kernel_is (scanSmallKernelOffset sc) ''scanExclusiveSmallOffset'' [(''SCAN_BLOCKS'', maxBlocks sc)]
         [(0, ABuf (sums sc))]
     \<and> kernel_is (scanKernel sc) ''scanExclusive''
         [(''SCAN_WORK_GROUP_SIZE'', scanWorkGroupSize sc), (''SCAN_WORK_SCALE'', scanWorkScale sc)]
         [(2, ABuf (sums sc))]"

lemma scan_defines_nat [simp]:
  "def_nat (scan_defines p) ''WARP_SIZE_MEM'' = s_warpSizeMem p"
  "def_nat (scan_defines p) ''WARP_SIZE_SCHEDULE'' = s_warpSizeSchedule p"
  "def_nat (scan_defines p) ''REDUCE_WORK_GROUP_SIZE'' = s_reduceWorkGroupSize p"
  "def_nat (scan_defines p) ''SCAN_WORK_GROUP_SIZE'' = s_scanWorkGroupSize p"
  "def_nat (scan_defines p) ''SCAN_WORK_SCALE'' = s_scanWorkScale p"
  "def_nat (scan_defines p) ''SCAN_BLOCKS'' = s_scanBlocks p"
  by (simp_all add: def_nat_def scan_defines_def map_of_puts)

lemma initialize_wf:
  assumes "\<And>d s p. bld ''scan.cl'' d s = Inr p \<Longrightarrow> pdefs p = d \<and> scan_cl_accepts d"
    and "\<And>p n k. mk p n = Inr k \<Longrightarrow> k = new_kernel p n" and "\<And>n b. alloc n = Inr b \<Longrightarrow> 0 < n"
    and "Scan_initialize alloc bld mk problem params = Inr sc"
  shows "scan_wf sc \<and> elementSize sc = getSize (sp_type problem)"
proof -
  from assms(4) obtain sd su p k1 k2 k3 k4 where
    su: "alloc (s_scanBlocks params * getSize (sp_type problem)) = Inr su"
    and p: "bld ''scan.cl'' (scan_defines params) sd = Inr p"
    and k: "mk p ''reduce'' = Inr k1" "mk p ''scanExclusiveSmall'' = Inr k2"
      "mk p ''scanExclusiveSmallOffset'' = Inr k3" "mk p ''scanExclusive'' = Inr k4"
    and sc: "sc = \<lparr>reduceWorkGroupSize = s_reduceWorkGroupSize params,
             scanWorkGroupSize = s_scanWorkGroupSize params,
             scanWorkScale = s_scanWorkScale params,
             maxBlocks = s_scanBlocks params,
             elementSize = getSize (sp_type problem),
             reduceKernel = setArg 0 (ABuf su) k1,
             scanSmallKernel = setArg 0 (ABuf su) k2,
             scanSmallKernelOffset = setArg 0 (ABuf su) k3,
             scanKernel = setArg 2 (ABuf su) k4, sums = su, scan_alg = new_alg\<rparr>"
    by (auto simp: Scan_initialize_def bind_result_Inr Let_def)
  have kk: "k1 = new_kernel p ''reduce''" "k2 = new_kernel p ''scanExclusiveSmall''"
    "k3 = new_kernel p ''scanExclusiveSmallOffset''" "k4 = new_kernel p ''scanExclusive''"
    using k by (simp_all add: assms(2))
  have d: "pdefs p = scan_defines params" "scan_cl_accepts (scan_defines params)" using assms(1) [OF p] by auto
  have "0 < s_scanBlocks params" using assms(3) [OF su] by (cases "s_scanBlocks params") auto
  then show ?thesis using d
    by (simp add: scan_wf_def sc kernel_is_def macro_def_nat kk scan_cl_accepts_def is_power2_iff
        and_one_eq even_iff_mod_2_eq_zero)
qed

lemma initialize_fields:
  assumes "Scan_initialize alloc bld mk problem params = Inr sc"
  shows "reduceWorkGroupSize sc = s_reduceWorkGroupSize params" "scanWorkGroupSize sc = s_scanWorkGroupSize params"
    "scanWorkScale sc = s_scanWorkScale params" "maxBlocks sc = s_scanBlocks params"
    "elementSize sc = getSize (sp_type problem)" "scan_alg sc = new_alg"
    "alloc (s_scanBlocks params * getSize (sp_type problem)) = Inr (sums sc)"
  using assms by (auto simp: Scan_initialize_def bind_result_Inr Let_def)

section \<open>The split into blocks\<close>

definition scan_sizes_ok :: "'a scan \<Rightarrow> nat \<Rightarrow> bool" where
  "scan_sizes_ok sc n \<longleftrightarrow> n < 2 ^ 32 \<and> reduceWorkGroupSize sc \<le> 2 ^ 31
     \<and> scanWorkScale sc * scanWorkGroupSize sc \<le> 2 ^ 31 \<and> maxBlocks sc < 2 ^ 32
     \<and> n * elementSize sc < 2 ^ 64"

lemma scan_tileSize_eq:
  "scan_sizes_ok sc n \<Longrightarrow> scan_tileSize sc = max (reduceWorkGroupSize sc) (scanWorkScale sc * scanWorkGroupSize sc)"
  by (simp add: scan_tileSize_def scan_sizes_ok_def u64_def)

lemma scan_tileSize_bounds:
  assumes "scan_wf sc" "scan_sizes_ok sc n"
  shows "0 < scan_tileSize sc" "scan_tileSize sc \<le> 2 ^ 31" "u64 (scan_tileSize sc * maxBlocks sc) = scan_tileSize sc * maxBlocks sc"
    "scan_tileSize sc * maxBlocks sc < 2 ^ 63"
proof -
  show t: "0 < scan_tileSize sc" "scan_tileSize sc \<le> 2 ^ 31"
    using assms pow2_pos [of "reduceWorkGroupSize sc"]
    unfolding scan_tileSize_eq [OF assms(2)] by (auto simp: scan_wf_def scan_sizes_ok_def)
  have "scan_tileSize sc * maxBlocks sc \<le> 2 ^ 31 * maxBlocks sc" using t(2) by simp
  also have "\<dots> < 2 ^ 31 * 2 ^ 32" using assms(2) by (simp add: scan_sizes_ok_def)
  finally show m: "scan_tileSize sc * maxBlocks sc < 2 ^ 63" by (simp flip: power_add)
  then show "u64 (scan_tileSize sc * maxBlocks sc) = scan_tileSize sc * maxBlocks sc" by (simp add: u64_def)
qed

lemma scan_block_split:
  assumes "scan_wf sc" "scan_sizes_ok sc n" "0 < n"
  defines "bs \<equiv> scan_blockSize sc n" and "nB \<equiv> scan_allBlocks sc n"
  shows "reduceWorkGroupSize sc dvd bs" "scanWorkGroupSize sc * scanWorkScale sc dvd bs" "0 < bs" "bs < 2 ^ 32"
    "0 < nB" "nB \<le> maxBlocks sc" "(nB - 1) * bs < n" "n \<le> nB * bs"
proof -
  let ?T = "scan_tileSize sc" and ?M = "maxBlocks sc"
  note T = scan_tileSize_bounds [OF assms(1,2)]
  have M: "0 < ?M" "2 \<le> ?M" using assms(1) by (auto simp: scan_wf_def elim!: evenE)
  have n: "n < 2 ^ 32" using assms(2) by (simp add: scan_sizes_ok_def)
  define R where "R = roundUp n (?T * ?M)"
  have TM: "0 < ?T * ?M" using T(1) M(1) by simp
  have "n + ?T * ?M \<le> 2 ^ 64" using n T(4) by simp
  from roundUp_bounds [OF TM this] have R: "n \<le> R" "R < n + ?T * ?M" by (simp_all add: R_def)
  obtain c where c: "R = ?T * ?M * c" using roundUp_dvd [of "?T * ?M" n] by (auto simp: R_def)
  have bs: "bs = ?T * c" using M(1) by (simp add: bs_def scan_blockSize_def T(3) R_def [symmetric] c)
  have "0 < c" using R(1) assms(3) c by (cases c) auto
  then show bs0: "0 < bs" using T(1) by (simp add: bs)
  have wf: "pow2 (reduceWorkGroupSize sc)" "pow2 (scanWorkScale sc * scanWorkGroupSize sc)"
    using assms(1) by (auto simp: scan_wf_def pow2_def simp flip: power_add)
  have "reduceWorkGroupSize sc dvd ?T" "scanWorkScale sc * scanWorkGroupSize sc dvd ?T"
    using pow2_div_dvd(1) [OF wf] pow2_div_dvd(1) [OF wf(2,1)]
    by (auto simp: scan_tileSize_eq [OF assms(2)] max_def)
  then show "reduceWorkGroupSize sc dvd bs" "scanWorkGroupSize sc * scanWorkScale sc dvd bs"
    by (simp_all add: bs mult.commute)
  have bM: "bs * ?M < n + ?T * ?M" "n \<le> ?M * bs" using R by (simp_all add: bs c ac_simps)
  show bs32: "bs < 2 ^ 32"
  proof (rule ccontr)
    assume "\<not> bs < 2 ^ 32"
    then have "?T + 2 ^ 31 \<le> bs" using T(2) by simp
    then have "(?T + 2 ^ 31) * ?M \<le> bs * ?M" by (rule mult_right_mono) simp
    then have "?T * ?M + 2 ^ 31 * ?M \<le> bs * ?M" by (simp add: distrib_right)
    then show False using bM(1) n M(2) by simp
  qed
  have nB: "nB = (n + bs - 1) div bs"
    using n bs32 by (simp add: nB_def scan_allBlocks_def bs_def [symmetric] Let_def u64_def)
  have lt: "n + bs - 1 < nB * bs + bs" "nB * bs \<le> n + bs - 1"
    using dividend_less_div_times [OF bs0, of "n + bs - 1"] by (simp_all add: nB add.commute)
  then show up: "n \<le> nB * bs" by linarith
  then show "0 < nB" using assms(3) by (cases nB) auto
  then have "(nB - 1) * bs + bs = nB * bs" by (cases nB) auto
  then show "(nB - 1) * bs < n" using lt assms(3) bs0 by linarith
  show "nB \<le> ?M"
  proof (rule ccontr)
    assume "\<not> nB \<le> ?M"
    then have "Suc ?M * bs \<le> nB * bs" by (intro mult_right_mono) auto
    then have "?M * bs + bs \<le> nB * bs" by simp
    then show False using bM(2) lt(2) bs0 by linarith
  qed
qed

section \<open>The queued commands\<close>

lemma small_args_simps [simp]:
  "reduceKernel (small_args off sc) = reduceKernel sc" "scanKernel (small_args off sc) = scanKernel sc"
  "reduceWorkGroupSize (small_args off sc) = reduceWorkGroupSize sc"
  "scanWorkGroupSize (small_args off sc) = scanWorkGroupSize sc" "scanWorkScale (small_args off sc) = scanWorkScale sc"
  "maxBlocks (small_args off sc) = maxBlocks sc" "elementSize (small_args off sc) = elementSize sc"
  "sums (small_args off sc) = sums sc" "scan_alg (small_args off sc) = scan_alg sc"
  by (cases off; simp)+

lemma scan_set_args_simps [simp]:
  "reduceWorkGroupSize (scan_set_args i out n off sc) = reduceWorkGroupSize sc"
  "scanWorkGroupSize (scan_set_args i out n off sc) = scanWorkGroupSize sc"
  "scanWorkScale (scan_set_args i out n off sc) = scanWorkScale sc"
  "maxBlocks (scan_set_args i out n off sc) = maxBlocks sc" "elementSize (scan_set_args i out n off sc) = elementSize sc"
  "sums (scan_set_args i out n off sc) = sums sc" "scan_alg (scan_set_args i out n off sc) = scan_alg sc"
  by (simp_all add: scan_set_args_def Let_def)

lemma scan_set_args_wf: "scan_wf sc \<Longrightarrow> scan_wf (scan_set_args i out n off sc)"
  by (cases off) (simp_all add: scan_wf_def scan_set_args_def Let_def kernel_is_def)

definition scan_command_list :: "'a scan \<Rightarrow> 'a scan_offset \<Rightarrow> nat \<Rightarrow> nat list option \<Rightarrow> nat \<Rightarrow> 'a command list" where
  "scan_command_list sc off nB events e =
     (let red = Launch (reduceKernel sc) (reduceWorkGroupSize sc * (nB - 1)) (reduceWorkGroupSize sc);
          small = Launch (small_kernel off sc) (maxBlocks sc div 2) (maxBlocks sc div 2);
          final = Launch (scanKernel sc) (scanWorkGroupSize sc * nB) (scanWorkGroupSize sc)
      in if nB > 1
         then [\<lparr>act = red, waits = wait_list events, ev = e\<rparr>, \<lparr>act = small, waits = [e], ev = Suc e\<rparr>,
               \<lparr>act = final, waits = [Suc e], ev = Suc (Suc e)\<rparr>]
         else [\<lparr>act = small, waits = wait_list events, ev = e\<rparr>, \<lparr>act = final, waits = [e], ev = Suc e\<rparr>])"

lemma scan_launches_result:
  assumes "scan_launches drv sc off nB events q = (Inr e, q')"
  shows "cmds q' = cmds q @ scan_command_list sc off nB events (next_ev q)
    \<and> e = ev (last (scan_command_list sc off nB events (next_ev q)))
    \<and> trace q' = trace q @ concat (map (\<lambda>c. doEventCallback (scan_alg sc) (ev c))
          (scan_command_list sc off nB events (next_ev q)))"
  using assms
  by (auto simp: scan_launches_def bind_op_def return_op_def update_op_def notify_def enqueueNDRange_def enqueue_action_def wait_list_def Let_def
      scan_command_list_def split: if_splits)

lemma scan_command_list_chain:
  "chained (scan_command_list sc off nB events e)" "distinct (map ev (scan_command_list sc off nB events e))"
  by (auto simp: scan_command_list_def Let_def)

text \<open>The value of the offset.\<close>

fun offset_value :: "'a::zero scan_offset \<Rightarrow> (nat \<Rightarrow> nat \<Rightarrow> 'a) \<Rightarrow> 'a" where
  "offset_value NoOffset G = 0"
| "offset_value (HostOffset x) G = x"
| "offset_value (BufferOffset b i) G = G (buf_id b) i"

fun offset_buffer :: "'a scan_offset \<Rightarrow> nat option" where
  "offset_buffer (BufferOffset b i) = Some (buf_id b)"
| "offset_buffer _ = None"

lemma run_small_kernel:
  fixes G :: "nat \<Rightarrow> nat \<Rightarrow> 'a::comm_monoid_add"
  assumes wf: "scan_wf sc"
    and c: "act c = Launch (small_kernel off (small_args off sc)) (maxBlocks sc div 2) (maxBlocks sc div 2)"
    and D: "dsched_ok D c"
  shows "run_scan_command D c G = Some (G(sums sc := (\<lambda>i. if i < maxBlocks sc
      then offset_value off G + sum (G (sums sc)) {..<i} else G (sums sc) i)))"
proof -
  have M: "0 < maxBlocks sc div 2" "even (maxBlocks sc)" "0 < maxBlocks sc"
    using wf by (auto simp: scan_wf_def elim!: evenE)
  then have r: "range_ok (maxBlocks sc div 2) (maxBlocks sc div 2)" by (simp add: range_ok_def)
  have "ngroups (act c) = 1" using M by (simp add: c)
  then have g: "length (dgroups D (ev c)) = 1"
    using D by (auto simp: dsched_ok_def schedule_def lessThan_Suc dest: distinct_card [symmetric])
  have v: "valid (maxBlocks sc div 2) (ditems D (ev c) 0)" using D c by (simp add: dsched_ok_def)
  define F where "F x = G(sums sc := (\<lambda>i. if i < maxBlocks sc then x + sum (G (sums sc)) {..<i} else G (sums sc) i))" for x
  have ss: "G(sums sc := small_scan (ditems D (ev c) 0) (maxBlocks sc) x (G (sums sc))) = F x" for x
    unfolding F_def by (intro arg_cong [where f = "\<lambda>v. G(sums sc := v)"] ext) (rule small_scan_result [OF v M(2,3)])
  show ?thesis
    using wf g unfolding F_def [symmetric]
    by (cases off) (simp_all add: run_scan_command_def r c scan_wf_def kernel_is_def scanExclusiveSmall_def
        scanExclusiveSmallOffset_def ss)
qed

lemma run_reduce_kernel:
  fixes G :: "nat \<Rightarrow> nat \<Rightarrow> 'a::comm_monoid_add"
  assumes wf: "scan_wf sc" and bs: "reduceWorkGroupSize sc dvd bs" and b: "in_b \<noteq> sums sc"
    and c: "act c = Launch k (reduceWorkGroupSize sc * n) (reduceWorkGroupSize sc)" "0 < n"
    and k: "kname k = kname (reduceKernel sc)" "macro k = macro (reduceKernel sc)"
      "kargs k = (kargs (reduceKernel sc))(1 \<mapsto> ABuf in_b, 2 \<mapsto> AUint bs)"
    and D: "dsched_ok D c"
  shows "run_scan_command D c G = Some (G(sums sc := (\<lambda>g. if g < n then \<Sum>j<bs. G in_b (g * bs + j) else G (sums sc) g)))"
proof -
  have p: "pow2 (reduceWorkGroupSize sc)" using wf by (simp add: scan_wf_def)
  note d = dsched_groups [OF D c(1) pow2_pos [OF p] c(2)]
  note res = reduce_kernel_result [OF d(3) d(2) p bs b]
  show ?thesis
    using wf by (simp add: run_scan_command_def d(1) c k scan_wf_def kernel_is_def res)
qed

lemma run_scan_launch:
  fixes G :: "nat \<Rightarrow> nat \<Rightarrow> 'a::comm_monoid_add"
  assumes wf: "scan_wf sc" and bs: "scanWorkGroupSize sc * scanWorkScale sc dvd bs" "0 < bs"
    and b: "out_b \<noteq> sums sc"
    and c: "act c = Launch k (scanWorkGroupSize sc * nB) (scanWorkGroupSize sc)" "0 < nB" "n \<le> nB * bs"
    and k: "kname k = kname (scanKernel sc)" "macro k = macro (scanKernel sc)"
      "kargs k = (kargs (scanKernel sc))(0 \<mapsto> ABuf in_b, 1 \<mapsto> ABuf out_b, 3 \<mapsto> AUint bs, 4 \<mapsto> AUint n)"
    and D: "dsched_ok D c"
  shows "run_scan_command D c G = Some (G(out_b := (\<lambda>a. if a < n
      then G (sums sc) (a div bs) + (\<Sum>j<a mod bs. G in_b (a div bs * bs + j)) else G out_b a)))"
proof -
  have p: "pow2 (scanWorkGroupSize sc)" "0 < scanWorkScale sc" using wf by (auto simp: scan_wf_def pow2_pos)
  note d = dsched_groups [OF D c(1) pow2_pos [OF p(1)] c(2)]
  have g: "distinct (dgroups D (ev c))" "set (dgroups D (ev c)) = {..<nB}"
    using d(2) by (auto simp: schedule_def)
  note res = scanExclusive_result [OF d(3) p bs not_sym [OF b] g(1)]
  have "a div bs < nB" if "a < n" for a
    using that c(3) bs(2) by (simp add: less_mult_imp_div_less)
  then have e: "a div bs < nB \<and> a < n \<longleftrightarrow> a < n" for a by auto
  show ?thesis
    using wf by (simp add: run_scan_command_def d(1) c k scan_wf_def kernel_is_def res g(2) e)
qed

section \<open>The scan as a whole\<close>

text \<open>Whatever the launches before left in the sums, the offsets of the blocks come out right.\<close>

lemma scan_phases:
  fixes G :: "nat \<Rightarrow> nat \<Rightarrow> 'a::comm_monoid_add" and off :: 'a
  assumes "n \<le> nB * bs" "0 < bs" "nB \<le> M" "in_b \<noteq> su" "out_b \<noteq> su"
    and s1: "\<And>g. g < nB - 1 \<Longrightarrow> S1 g = (\<Sum>j<bs. G in_b (g * bs + j))"
  defines "G1 \<equiv> G(su := S1)"
  defines "G2 \<equiv> G1(su := (\<lambda>i. if i < M then off + sum (G1 su) {..<i} else G1 su i))"
  defines "G3 \<equiv> G2(out_b := (\<lambda>a. if a < n
      then G2 su (a div bs) + (\<Sum>j<a mod bs. G2 in_b (a div bs * bs + j)) else G2 out_b a))"
  shows "(\<forall>i. G3 out_b i = (if i < n then off + sum (G in_b) {..<i} else G out_b i))
    \<and> (\<forall>b. b \<noteq> su \<and> b \<noteq> out_b \<longrightarrow> G3 b = G b)"
proof (intro conjI allI impI)
  fix i
  show "G3 out_b i = (if i < n then off + sum (G in_b) {..<i} else G out_b i)"
  proof (cases "i < n")
    case True
    have q: "i div bs < nB" using True assms(1,2) by (simp add: less_mult_imp_div_less)
    have "G2 su (i div bs) = off + sum S1 {..<i div bs}" using q assms(3) by (simp add: G2_def G1_def)
    also have "\<dots> = off + sum (G in_b) {..<i div bs * bs}" using s1 q by (rule block_offsets)
    finally have "G3 out_b i = off + (sum (G in_b) {..<i div bs * bs} + (\<Sum>j<i mod bs. G in_b (i div bs * bs + j)))"
      using True assms(4) by (simp add: G3_def G2_def G1_def add.assoc)
    then show ?thesis using True by (simp add: prefix_split)
  next
    case False
    then show ?thesis using assms(5) by (simp add: G3_def G2_def G1_def)
  qed
qed (auto simp: G3_def G2_def G1_def)

lemma scan_run_in_order:
  fixes G :: "nat \<Rightarrow> nat \<Rightarrow> 'a::comm_monoid_add"
  assumes wf: "scan_wf sc" and sz: "scan_sizes_ok sc n" "0 < n"
    and b: "buf_id inb \<noteq> sums sc" "buf_id outb \<noteq> sums sc" "offset_buffer off \<noteq> Some (sums sc)"
    and cs: "cs = scan_command_list (scan_set_args inb outb n off sc) off (scan_allBlocks sc n) events e"
    and D: "\<forall>c\<in>set cs. dsched_ok D c"
  shows "\<exists>G'. run_all (run_scan_command D) cs G = Some G'
    \<and> (\<forall>i. G' (buf_id outb) i = (if i < n then offset_value off G + sum (G (buf_id inb)) {..<i} else G (buf_id outb) i))
    \<and> (\<forall>b. b \<noteq> sums sc \<and> b \<noteq> buf_id outb \<longrightarrow> G' b = G b)"
proof -
  let ?sc = "scan_set_args inb outb n off sc" and ?nB = "scan_allBlocks sc n" and ?bs = "scan_blockSize sc n"
  let ?in = "buf_id inb" and ?out = "buf_id outb" and ?su = "sums sc"
  note sp = scan_block_split [OF wf sz]
  have n32: "u32 n = n" "u32 ?bs = ?bs" using sz(1) sp(4) by (simp_all add: u32_small scan_sizes_ok_def)
  define sc0 where "sc0 = sc\<lparr>
        reduceKernel := setArg 2 (AUint ?bs) (setArg 1 (ABuf ?in) (reduceKernel sc)),
        scanKernel := setArg 4 (AUint n) (setArg 3 (AUint ?bs)
          (setArg 1 (ABuf ?out) (setArg 0 (ABuf ?in) (scanKernel sc))))\<rparr>"
  have sc': "?sc = small_args off sc0" by (simp add: scan_set_args_def sc0_def Let_def n32)
  have wf0: "scan_wf sc0" using wf by (simp add: sc0_def scan_wf_def kernel_is_def)
  have su0 [simp]: "sums sc0 = ?su" "maxBlocks sc0 = maxBlocks sc" by (simp_all add: sc0_def)
  define S1 where "S1 = (\<lambda>g. if 1 < ?nB then if g < ?nB - 1 then \<Sum>j<?bs. G ?in (g * ?bs + j) else G ?su g
      else G ?su g)"
  have s1: "S1 g = (\<Sum>j<?bs. G ?in (g * ?bs + j))" if "g < ?nB - 1" for g using that by (auto simp: S1_def)
  let ?G1 = "G(?su := S1)"
  have ov: "offset_value off ?G1 = offset_value off G" using b(3) by (cases off) auto
  define G2 where "G2 = ?G1(?su := (\<lambda>i. if i < maxBlocks sc then offset_value off G + sum (?G1 ?su) {..<i} else ?G1 ?su i))"
  define G3 where "G3 = G2(?out := (\<lambda>a. if a < n
      then G2 ?su (a div ?bs) + (\<Sum>j<a mod ?bs. G2 ?in (a div ?bs * ?bs + j)) else G2 ?out a))"
  have small: "run_scan_command D c ?G1 = Some G2"
    if "c \<in> set cs" "act c = Launch (small_kernel off ?sc) (maxBlocks sc div 2) (maxBlocks sc div 2)" for c
    using run_small_kernel [OF wf0, of c off D ?G1] that D unfolding sc' ov su0 by (simp add: G2_def)
  have final: "run_scan_command D c G2 = Some G3"
    if "c \<in> set cs" "act c = Launch (scanKernel ?sc) (scanWorkGroupSize sc * ?nB) (scanWorkGroupSize sc)" for c
    using that D sp unfolding G3_def sc'
    by (intro run_scan_launch [OF wf sp(2,3) b(2), of c "scanKernel sc0"]) (simp_all add: sc0_def fun_eq_iff)
  have red: "run_scan_command D c G = Some ?G1"
    if "c \<in> set cs" "act c = Launch (reduceKernel ?sc) (reduceWorkGroupSize sc * (?nB - 1)) (reduceWorkGroupSize sc)"
      "1 < ?nB" for c
  proof -
    have "run_scan_command D c G = Some (G(?su := (\<lambda>g. if g < ?nB - 1 then \<Sum>j<?bs. G ?in (g * ?bs + j) else G ?su g)))"
      using that D unfolding sc'
      by (intro run_reduce_kernel [OF wf sp(1) b(1), of c "reduceKernel sc0"]) (simp_all add: sc0_def fun_eq_iff)
    then show ?thesis using that(3) by (simp add: S1_def)
  qed
  have "run_all (run_scan_command D) cs G = Some G3"
  proof (cases "1 < ?nB")
    case True
    obtain c1 c2 c3 where l: "cs = [c1, c2, c3]"
      and "act c1 = Launch (reduceKernel ?sc) (reduceWorkGroupSize sc * (?nB - 1)) (reduceWorkGroupSize sc)"
      and "act c2 = Launch (small_kernel off ?sc) (maxBlocks sc div 2) (maxBlocks sc div 2)"
      and "act c3 = Launch (scanKernel ?sc) (scanWorkGroupSize sc * ?nB) (scanWorkGroupSize sc)"
      using True by (simp add: cs scan_command_list_def Let_def)
    then show ?thesis using red [of c1] small [of c2] final [of c3] True by simp
  next
    case False
    obtain c2 c3 where l: "cs = [c2, c3]"
      and "act c2 = Launch (small_kernel off ?sc) (maxBlocks sc div 2) (maxBlocks sc div 2)"
      and "act c3 = Launch (scanKernel ?sc) (scanWorkGroupSize sc * ?nB) (scanWorkGroupSize sc)"
      using False by (simp add: cs scan_command_list_def Let_def)
    moreover have "?G1 = G" using False by (simp add: S1_def fun_upd_idem)
    ultimately show ?thesis using small [of c2] final [of c3] by simp
  qed
  moreover note scan_phases [of n ?nB ?bs "maxBlocks sc" ?in ?su ?out S1 G "offset_value off G",
    OF sp(8,3,6) b(1,2) s1, folded G2_def, folded G3_def]
  ultimately show ?thesis by blast
qed

section \<open>The public enqueue\<close>

definition Scan_enqueue ::
  "('a::zero command \<Rightarrow> int) \<Rightarrow> buffer \<Rightarrow> buffer \<Rightarrow> nat \<Rightarrow> 'a scan_offset \<Rightarrow> nat list option \<Rightarrow>
   'a scan option \<times> 'a queue \<Rightarrow> nat result \<times> 'a scan option \<times> 'a queue" where
  "Scan_enqueue drv inBuffer outBuffer elements off =
     public_enqueue (enqueueInternal drv inBuffer outBuffer elements off)"

lemma scan_launches_error:
  "scan_launches drv sc off nB events q = (Inl e, q') \<Longrightarrow> \<exists>c m. e = ClError c m \<and> c \<noteq> CL_SUCCESS"
  by (auto simp: scan_launches_def bind_op_def return_op_def update_op_def
      split: prod.splits sum.splits if_splits dest: enqueue_error)

lemma scan_validate_error:
  "scan_validate sc i out n off = Inl e \<Longrightarrow> \<exists>c m. e = ClError c m \<and> c \<noteq> CL_SUCCESS"
  by (cases off) (auto simp: scan_validate_def CL_SUCCESS_def CL_INVALID_VALUE_def CL_INVALID_GLOBAL_WORK_SIZE_def
      split: if_splits)

lemma enqueueInternal_error:
  "enqueueInternal drv i out n off events st = (Inl e, st') \<Longrightarrow> \<exists>c m. e = ClError c m \<and> c \<noteq> CL_SUCCESS"
  by (auto simp: enqueueInternal_def Let_def split: prod.splits sum.splits
      dest: scan_launches_error scan_validate_error)

interpretation sop: cl_operation "enqueueInternal drv i out n off" for drv i out n off
  by unfold_locales (rule enqueueInternal_error)

section \<open>Properties\<close>

text \<open>
  Preparation: whenever \<^verbatim>\<open>initialize\<close> succeeds, with a compiler that honours the
  definitions and the checks at the top of scan.cl, the scan object is well-formed: its sizes
  are powers of two, the block count is even and positive, every kernel object carries the name,
  the macros and the preset arguments that the launches rely on.
\<close>

lemma scan_initialize_wf:
  assumes "\<And>d s p. bld ''scan.cl'' d s = Inr p \<Longrightarrow> pdefs p = d \<and> scan_cl_accepts d"
    and "\<And>p n k. mk p n = Inr k \<Longrightarrow> k = new_kernel p n" and "\<And>n b. alloc n = Inr b \<Longrightarrow> 0 < n"
    and "Scan_initialize alloc bld mk problem params = Inr sc"
  shows "scan_wf sc \<and> elementSize sc = getSize (sp_type problem)"
  using assms by (rule initialize_wf)

text \<open>
  C32. The three assertions of \<^verbatim>\<open>enqueueInternal\<close> hold: the block size is a positive multiple
  of the tile of both kernels, there are between one and \<^verbatim>\<open>maxBlocks\<close> blocks, all but the
  last lie inside the range, and together they cover it.
\<close>

theorem scan_blocks_cover:
  assumes "scan_wf sc" and "scan_sizes_ok sc n" and "0 < n"
  shows "reduceWorkGroupSize sc dvd scan_blockSize sc n
    \<and> scanWorkGroupSize sc * scanWorkScale sc dvd scan_blockSize sc n
    \<and> 0 < scan_allBlocks sc n \<and> scan_allBlocks sc n \<le> maxBlocks sc
    \<and> (scan_allBlocks sc n - 1) * scan_blockSize sc n < n
    \<and> n \<le> scan_allBlocks sc n * scan_blockSize sc n"
  using scan_block_split [OF assms] by blast

text \<open>What \<^verbatim>\<open>enqueue\<close> must reject, without machine arithmetic.\<close>

fun offset_rejected :: "nat \<Rightarrow> 'a scan_offset \<Rightarrow> bool" where
  "offset_rejected esize (BufferOffset b i) \<longleftrightarrow> buf_size b < (i + 1) * esize \<or> \<not> readable b"
| "offset_rejected esize _ \<longleftrightarrow> False"

definition scan_rejected :: "'a scan \<Rightarrow> buffer \<Rightarrow> buffer \<Rightarrow> nat \<Rightarrow> 'a scan_offset \<Rightarrow> bool" where
  "scan_rejected sc inb outb n off \<longleftrightarrow> n = 0 \<or> buf_size inb < n * elementSize sc \<or> buf_size outb < n * elementSize sc
     \<or> \<not> readable inb \<or> \<not> writable outb \<or> offset_rejected (elementSize sc) off"

fun offset_index_ok :: "'a scan_offset \<Rightarrow> bool" where
  "offset_index_ok (BufferOffset b i) \<longleftrightarrow> i + 1 < 2 ^ 32"
| "offset_index_ok _ \<longleftrightarrow> True"

lemma offset_check_iff:
  assumes "esize \<le> 128" "offset_index_ok off"
  shows "offset_check esize off = Inr () \<longleftrightarrow> \<not> offset_rejected esize off"
proof (cases off)
  case (BufferOffset b i)
  have "(i + 1) * esize < 2 ^ 32 * 2 ^ 8" using assms BufferOffset by (intro mult_strict_mono) auto
  then have "u64 (u32 (i + 1) * esize) = (i + 1) * esize"
    using assms(2) BufferOffset by (simp add: u32_small u64_small)
  then show ?thesis using BufferOffset by simp
qed simp_all

lemma scan_validate_iff:
  assumes "scan_sizes_ok sc n" "elementSize sc \<le> 128" "offset_index_ok off"
  shows "scan_validate sc inb outb n off = Inr () \<longleftrightarrow> \<not> scan_rejected sc inb outb n off"
proof -
  have "u64 (n * elementSize sc) = n * elementSize sc" using assms(1) by (simp add: scan_sizes_ok_def u64_small)
  then show ?thesis
    using offset_check_iff [OF assms(2,3)]
    by (auto simp: scan_validate_def scan_rejected_def bind_result_Inr)
qed

lemma scan_launches_success:
  "(\<And>c. drv c = CL_SUCCESS) \<Longrightarrow> \<exists>e q'. scan_launches drv sc off nB events q = (Inr e, q')"
  by (simp add: scan_launches_def bind_op_def return_op_def update_op_def enqueueNDRange_def enqueue_action_def wait_list_def Let_def)


text \<open>
  At the largest offset index the 32-bit sum \<^verbatim>\<open>offsetIndex + 1\<close> is 0, so the bound check
  accepts any readable buffer.
\<close>

lemma scan_offset_index_unchecked:
  "readable b \<Longrightarrow> offset_check esize (BufferOffset b (2 ^ 32 - 1)) = Inr ()"
  by (simp add: u32_def u64_def)

text \<open>The same holds of the two buffers when the product of the sizes wraps around.\<close>

lemma scan_size_unchecked:
  "elementSize sc = 4 \<Longrightarrow> readable inb \<Longrightarrow> writable outb \<Longrightarrow> scan_validate sc inb outb (2 ^ 62) NoOffset = Inr ()"
  by (simp add: scan_validate_def u64_def)


section \<open>Witnesses\<close>

text \<open>A runtime that succeeds, and a small configuration.\<close>

definition example_alloc :: "nat \<Rightarrow> nat result" where
  "example_alloc n = (if n = 0 then Inl (ClError (-61) ''clCreateBuffer'') else Inr 9)"

definition example_build :: "string \<Rightarrow> int std_map \<Rightarrow> string std_map \<Rightarrow> program result" where
  "example_build f d s =
     (if scan_cl_accepts d then Inr \<lparr>pfile = f, pdefs = d, psdefs = s\<rparr> else Inl (InternalError f))"

definition example_kernel :: "program \<Rightarrow> string \<Rightarrow> 'a kernel result" where
  "example_kernel p n = Inr (new_kernel p n)"

definition example_scan_value :: scan_value where
  "example_scan_value = \<lparr>s_warpSizeMem = 1, s_warpSizeSchedule = 1, s_reduceWorkGroupSize = 2,
     s_scanWorkGroupSize = 2, s_scanWorkScale = 1, s_scanBlocks = 4\<rparr>"

definition example_scan :: "32 word scan" where
  "example_scan = projr (Scan_initialize example_alloc example_build example_kernel
     (ScanProblem_new\<lparr>sp_type := \<lparr>baseType = TYPE_UINT, veclen = 1\<rparr>\<rparr>) example_scan_value)"

lemma example_build_ok: "example_build f d s = Inr p \<Longrightarrow> pdefs p = d \<and> scan_cl_accepts d"
  by (auto simp: example_build_def split: if_splits)

lemma example_kernel_ok: "example_kernel p n = Inr k \<Longrightarrow> k = new_kernel p n"
  by (simp add: example_kernel_def)

lemma example_alloc_ok: "example_alloc n = Inr b \<Longrightarrow> 0 < n"
  by (simp add: example_alloc_def split: if_splits)

lemma example_scan_init:
  "Scan_initialize example_alloc example_build example_kernel
     (ScanProblem_new\<lparr>sp_type := \<lparr>baseType = TYPE_UINT, veclen = 1\<rparr>\<rparr>) example_scan_value = Inr example_scan"
proof -
  have "scan_cl_accepts (scan_defines example_scan_value)"
    by (simp add: scan_cl_accepts_def is_power2_def example_scan_value_def)
  then show ?thesis
    by (simp add: example_scan_def Scan_initialize_def Let_def example_alloc_def example_build_def example_kernel_def
        scan_string_defines_def getSize_def getBaseSize_def) (simp add: example_scan_value_def)
qed

lemma scan_initialize_wf_witness:
  "scan_wf example_scan \<and> elementSize example_scan = 4"
  using scan_initialize_wf [OF example_build_ok example_kernel_ok example_alloc_ok example_scan_init]
  by (simp add: getSize_def getBaseSize_def)

lemma example_scan_simps [simp]:
  "reduceWorkGroupSize example_scan = 2" "scanWorkGroupSize example_scan = 2" "scanWorkScale example_scan = 1"
  "maxBlocks example_scan = 4" "elementSize example_scan = 4" "sums example_scan = 9" "scan_alg example_scan = new_alg"
  using initialize_fields [OF example_scan_init]
  by (simp_all add: example_scan_value_def getSize_def getBaseSize_def example_alloc_def)

lemma example_scan_wf: "scan_wf example_scan"
  by (rule initialize_wf [OF example_build_ok example_kernel_ok example_alloc_ok example_scan_init, THEN conjunct1])

lemma example_scan_sizes: "scan_sizes_ok example_scan 5"
  by (simp add: scan_sizes_ok_def)

theorem scan_blocks_cover_witness:
  "scan_blockSize example_scan 5 = 2 \<and> scan_allBlocks example_scan 5 = 3
   \<and> (scan_allBlocks example_scan 5 - 1) * scan_blockSize example_scan 5 < 5"
  using scan_blocks_cover [OF example_scan_wf example_scan_sizes]
  by (simp add: scan_blockSize_def scan_allBlocks_def scan_tileSize_def roundUp_def u64_def Let_def)

definition example_queue :: "'a queue" where
  "example_queue = \<lparr>cmds = [], next_ev = 100, trace = []\<rparr>"

definition example_buffer :: "nat \<Rightarrow> buffer" where
  "example_buffer i = \<lparr>buf_id = i, buf_size = 64, buf_flags = CL_MEM_READ_WRITE\<rparr>"

lemma example_scan_validate:
  "scan_validate example_scan (example_buffer 0) (example_buffer 2) 5 (HostOffset 10) = Inr ()"
  by (simp add: scan_validate_def example_buffer_def u64_def readable_def writable_def CL_MEM_READ_WRITE_def
      CL_MEM_READ_ONLY_def CL_MEM_WRITE_ONLY_def)



end
