(* ===== verification/ScanTune.thy ===== *)
theory ScanTune
  imports ScanHost Bench
begin

text \<open>
  The rest of src/scan.cpp: the three tuning callbacks, \<^verbatim>\<open>Scan::tune\<close>, the key of the
  cache, the two constructors, and the public classes \<^verbatim>\<open>ScanProblem\<close> and
  \<^verbatim>\<open>Scan\<close> as far as they construct. Shown: whatever the timings, tuning returns sizes
  that are powers of two where the kernels need them and fit the device's work-group size and
  local memory; and once parameters are stored, later constructions for the same key do not tune.
\<close>

section \<open>Callbacks\<close>

text \<open>The tuning constructor: \<^verbatim>\<open>initialize\<close> in the context of the test.\<close>

definition Scan_construct ::
  "('c, 'a, 'r, 'w) bench \<Rightarrow> 'c \<Rightarrow> scan_problem \<Rightarrow> scan_value \<Rightarrow> 'a scan result" where
  "Scan_construct E c problem params =
     Scan_initialize (be_alloc E c CL_MEM_READ_WRITE) (be_build E c) (be_kernel E c) problem params"

text \<open>The timed operation of the first two callbacks: one launch, without a callback.\<close>

definition launch_kernel ::
  "('a command \<Rightarrow> int) \<Rightarrow> 'a kernel \<Rightarrow> nat \<Rightarrow> nat \<Rightarrow> 'd \<times> 'a queue \<Rightarrow> nat result \<times> 'd \<times> 'a queue" where
  "launch_kernel drv k g l dq = (case enqueueNDRange drv k g l None (snd dq) of (r, q) \<Rightarrow> (r, fst dq, q))"

definition Scan_tuneReduceCallback ::
  "('c, 'a, 'r, 'w) bench \<Rightarrow> scan_problem \<Rightarrow> 'c \<Rightarrow> nat \<Rightarrow> scan_value \<Rightarrow> 'w
    \<Rightarrow> ('r option \<times> 'r option) result \<times> 'w" where
  "Scan_tuneReduceCallback E problem c elements params w =
     (let wgs = s_reduceWorkGroupSize params; blocks = s_scanBlocks params;
          allocSize = u64 (elements * getSize (sp_type problem));
          blockSize = roundUp elements (u64 (wgs * blocks)) div blocks;
          nBlocks = u64 (elements + blockSize - 1) div blockSize
      in case bind_result (be_alloc E c CL_MEM_READ_WRITE allocSize) (\<lambda>buffer.
              bind_result (be_queue E c) (\<lambda>_.
              if nBlocks \<le> 0 then Inl (InternalError ''No blocks to operate on'')
              else bind_result (Scan_construct E c problem params) (\<lambda>scan. Inr (buffer, scan)))) of
           Inl e \<Rightarrow> (Inl e, w)
         | Inr (buffer, scan) \<Rightarrow>
             let k = setArg 2 (AUint (u32 blockSize)) (setArg 1 (ABuf buffer) (reduceKernel scan));
                 go = launch_kernel (be_driver E c) k (u64 (wgs * (nBlocks - 1))) wgs
             in rates E (\<lambda>r. r) (u64 ((nBlocks - 1) * blockSize)) (bench_twice E c go go (\<lambda>e. (e, e)) scan w))"

definition Scan_tuneScanCallback ::
  "('c, 'a, 'r, 'w) bench \<Rightarrow> scan_problem \<Rightarrow> 'c \<Rightarrow> nat \<Rightarrow> scan_value \<Rightarrow> 'w
    \<Rightarrow> ('r option \<times> 'r option) result \<times> 'w" where
  "Scan_tuneScanCallback E problem c elements params w =
     (let wgs = s_scanWorkGroupSize params; blocks = s_scanBlocks params;
          tileSize = u64 (wgs * s_scanWorkScale params);
          blockSize = roundUp elements (u64 (tileSize * blocks)) div blocks;
          nBlocks = u64 (elements + blockSize - 1) div blockSize
      in case bind_result (be_alloc E c CL_MEM_READ_WRITE (u64 (elements * getSize (sp_type problem)))) (\<lambda>buffer.
              bind_result (be_queue E c) (\<lambda>_.
              bind_result (Scan_construct E c problem params) (\<lambda>scan. Inr (buffer, scan)))) of
           Inl e \<Rightarrow> (Inl e, w)
         | Inr (buffer, scan) \<Rightarrow>
             let k = setArg 4 (AUint (u32 elements)) (setArg 3 (AUint (u32 blockSize))
                   (setArg 1 (ABuf buffer) (setArg 0 (ABuf buffer) (scanKernel scan))));
                 go = launch_kernel (be_driver E c) k (u64 (wgs * nBlocks)) wgs
             in rates E (\<lambda>r. r) elements (bench_twice E c go go (\<lambda>e. (e, e)) scan w))"

definition Scan_tuneBlocksCallback ::
  "('c, 'a::zero, 'r, 'w) bench \<Rightarrow> scan_problem \<Rightarrow> 'c \<Rightarrow> nat \<Rightarrow> scan_value \<Rightarrow> 'w
    \<Rightarrow> ('r option \<times> 'r option) result \<times> 'w" where
  "Scan_tuneBlocksCallback E problem c elements params w =
     (let allocSize = u64 (elements * getSize (sp_type problem))
      in case bind_result (be_alloc E c CL_MEM_READ_WRITE allocSize) (\<lambda>buffer.
              bind_result (be_queue E c) (\<lambda>_.
              bind_result (Scan_construct E c problem params) (\<lambda>scan. Inr (buffer, scan)))) of
           Inl e \<Rightarrow> (Inl e, w)
         | Inr (buffer, scan) \<Rightarrow>
             let b = \<lparr>buf_id = buffer, buf_size = allocSize, buf_flags = CL_MEM_READ_WRITE\<rparr>;
                 go = enqueueInternal (be_driver E c) b b elements NoOffset None
             in rates E (be_slack E) elements (bench_twice E c go go (\<lambda>e. (e, e)) scan w))"

text \<open>The callbacks meet the contract of the search.\<close>

lemma Scan_tuneReduceCallback_bound:
  "Scan_tuneReduceCallback E problem c n p w = (Inr (Some a, b), w') \<Longrightarrow> b = Some a"
  unfolding Scan_tuneReduceCallback_def Let_def by (auto split: sum.splits prod.splits dest: rates_bound)

lemma Scan_tuneScanCallback_bound:
  "Scan_tuneScanCallback E problem c n p w = (Inr (Some a, b), w') \<Longrightarrow> b = Some a"
  unfolding Scan_tuneScanCallback_def Let_def by (auto split: sum.splits prod.splits dest: rates_bound)

lemma Scan_tuneBlocksCallback_bound:
  "Scan_tuneBlocksCallback E problem c n p w = (Inr (Some a, b), w') \<Longrightarrow> b = Some (be_slack E a)"
  unfolding Scan_tuneBlocksCallback_def Let_def by (auto split: sum.splits prod.splits dest: rates_bound)

interpretation scan_reduce: rated "bench_tuner E (Scan_tuneReduceCallback E problem)"
  for E :: "('c, 'a, 'r::{linorder, order_bot}, 'w) bench" and problem
  by (rule callback_rated [where slack = "\<lambda>r. r"]) (erule Scan_tuneReduceCallback_bound, simp)

interpretation scan_scan: rated "bench_tuner E (Scan_tuneScanCallback E problem)"
  for E :: "('c, 'a, 'r::{linorder, order_bot}, 'w) bench" and problem
  by (rule callback_rated [where slack = "\<lambda>r. r"]) (erule Scan_tuneScanCallback_bound, simp)

lemma scan_blocks_rated:
  "(\<And>r. r \<le> be_slack E r) \<Longrightarrow> rated (bench_tuner E (Scan_tuneBlocksCallback E problem))"
  for E :: "('c, 'a::zero, 'r::{linorder, order_bot}, 'w) bench"
  by (rule callback_rated [where slack = "be_slack E"]) (erule Scan_tuneBlocksCallback_bound, simp)

section \<open>Tuning\<close>

definition scan_cand :: "device \<Rightarrow> nat \<Rightarrow> nat \<Rightarrow> nat \<Rightarrow> nat \<Rightarrow> scan_value" where
  "scan_cand d r s k b = \<lparr>s_warpSizeMem = getWarpSizeMem d, s_warpSizeSchedule = getWarpSizeSchedule d,
     s_reduceWorkGroupSize = r, s_scanWorkGroupSize = s, s_scanWorkScale = k, s_scanBlocks = b\<rparr>"

definition scan_localMemElements :: "device \<Rightarrow> scan_problem \<Rightarrow> nat" where
  "scan_localMemElements d problem = local_mem_size d div getSize (sp_type problem)"

text \<open>\<^verbatim>\<open>x & ~1\<close>\<close>

definition even_part :: "nat \<Rightarrow> nat" where
  "even_part x = x - x mod 2"

definition scan_maxBlocks :: "device \<Rightarrow> scan_problem \<Rightarrow> nat" where
  "scan_maxBlocks d problem = even_part (min (2 * max_work_group_size d) (scan_localMemElements d problem))"

definition scan_startBlocks :: "device \<Rightarrow> scan_problem \<Rightarrow> nat" where
  "scan_startBlocks d problem = even_part (max 2 (scan_maxBlocks d problem div 2))"

definition scan_reduce_sets :: "device \<Rightarrow> scan_problem \<Rightarrow> scan_value list" where
  "scan_reduce_sets d problem =
     map (\<lambda>r. scan_cand d r 1 1 (scan_startBlocks d problem)) (doubles 1 (max_work_group_size d))"

definition scan_scan_sets :: "device \<Rightarrow> scan_problem \<Rightarrow> nat \<Rightarrow> scan_value list" where
  "scan_scan_sets d problem bestReduce =
     concat (map (\<lambda>s. map (\<lambda>k. scan_cand d bestReduce s k (scan_startBlocks d problem))
         (doubles 1 (min (scan_localMemElements d problem div s) 16)))
       (doubles 1 (max_work_group_size d)))"

definition scan_block_sets :: "device \<Rightarrow> scan_problem \<Rightarrow> nat \<Rightarrow> nat \<Rightarrow> nat \<Rightarrow> scan_value list" where
  "scan_block_sets d problem bestReduce bestScan bestScale =
     map (scan_cand d bestReduce bestScan bestScale) (doubles 2 (scan_maxBlocks d problem))"

definition scan_problemSizes :: "scan_problem \<Rightarrow> nat list" where
  "scan_problemSizes problem = [65536, 32 * 1024 * 1024 div getSize (sp_type problem)]"

definition Scan_tune ::
  "('c, 'a::zero, 'r::{linorder, order_bot}, 'w) bench \<Rightarrow> device \<Rightarrow> scan_problem \<Rightarrow> 'w tstate
    \<Rightarrow> scan_value ending \<times> 'w tstate" where
  "Scan_tune E d problem st =
     (let policy = sp_tunePolicy problem; name = getName (sp_type problem);
          problemSizes = scan_problemSizes problem
      in bind_end (lift_result (assertEnabled policy) st) (\<lambda>_ st.
         bind_end (tuneOne policy (bench_tuner E (Scan_tuneReduceCallback E problem)) (scan_reduce_sets d problem)
             problemSizes (logStartAlgorithm policy (''scan for '' @ name @ '' elements'') d st)) (\<lambda>p1 st1.
         bind_end (tuneOne policy (bench_tuner E (Scan_tuneScanCallback E problem))
             (scan_scan_sets d problem (s_reduceWorkGroupSize p1)) problemSizes st1) (\<lambda>p2 st2.
         bind_end (tuneOne policy (bench_tuner E (Scan_tuneBlocksCallback E problem))
             (scan_block_sets d problem (s_reduceWorkGroupSize p1) (s_scanWorkGroupSize p2) (s_scanWorkScale p2))
             problemSizes st2) (\<lambda>p3 st3.
         if s_reduceWorkGroupSize p1 \<le> 0 \<or> s_scanWorkGroupSize p2 \<le> 0 \<or> s_scanWorkScale p2 \<le> 0
            \<or> s_scanBlocks p3 \<le> 0
         then (Throws (RuntimeError (''Failed to tune '' @ name)), st3)
         else (Returns (scan_cand d (s_reduceWorkGroupSize p1) (s_scanWorkGroupSize p2) (s_scanWorkScale p2)
                 (s_scanBlocks p3)), logEndAlgorithm policy st3))))))"

text \<open>What tuning promises.\<close>

definition scan_fits :: "device \<Rightarrow> cl_type \<Rightarrow> scan_value \<Rightarrow> bool" where
  "scan_fits d t v \<longleftrightarrow>
     pow2 (s_reduceWorkGroupSize v) \<and> s_reduceWorkGroupSize v \<le> max_work_group_size d
     \<and> pow2 (s_scanWorkGroupSize v) \<and> s_scanWorkGroupSize v \<le> max_work_group_size d
     \<and> pow2 (s_scanWorkScale v) \<and> s_scanWorkScale v \<le> 16
     \<and> s_scanWorkGroupSize v * s_scanWorkScale v * getSize t \<le> local_mem_size d
     \<and> pow2 (s_scanBlocks v) \<and> even (s_scanBlocks v)
     \<and> s_scanBlocks v div 2 \<le> max_work_group_size d \<and> s_scanBlocks v * getSize t \<le> local_mem_size d
     \<and> s_warpSizeMem v = getWarpSizeMem d \<and> s_warpSizeSchedule v = getWarpSizeSchedule d"

lemma even_part_le: "even_part x \<le> x"
  by (simp add: even_part_def)

lemma le_div_mult: "x \<le> m div n \<Longrightarrow> x * n \<le> m" for x m n :: nat
  by (meson div_times_less_eq_dividend le_trans mult_le_mono1)

lemma scan_reduce_sets_mem:
  "p \<in> set (scan_reduce_sets d problem) \<Longrightarrow>
   pow2 (s_reduceWorkGroupSize p) \<and> s_reduceWorkGroupSize p \<le> max_work_group_size d"
  using doubles_one by (fastforce simp: scan_reduce_sets_def scan_cand_def)

lemma scan_scan_sets_mem:
  assumes "p \<in> set (scan_scan_sets d problem r)"
  shows "pow2 (s_scanWorkGroupSize p) \<and> s_scanWorkGroupSize p \<le> max_work_group_size d
    \<and> pow2 (s_scanWorkScale p) \<and> s_scanWorkScale p \<le> 16
    \<and> s_scanWorkGroupSize p * s_scanWorkScale p * getSize (sp_type problem) \<le> local_mem_size d"
proof -
  obtain s k where s: "s \<in> set (doubles 1 (max_work_group_size d))"
    and k: "k \<in> set (doubles 1 (min (scan_localMemElements d problem div s) 16))"
    and p: "p = scan_cand d r s k (scan_startBlocks d problem)"
    using assms by (auto simp: scan_scan_sets_def)
  have "k * s \<le> scan_localMemElements d problem" using doubles_one [OF k] by (intro le_div_mult) simp
  then have "k * s * getSize (sp_type problem) \<le> local_mem_size d"
    unfolding scan_localMemElements_def by (rule le_div_mult)
  then show ?thesis using doubles_one [OF s] doubles_one [OF k] p by (simp add: scan_cand_def mult.commute)
qed

lemma scan_block_sets_mem:
  assumes "p \<in> set (scan_block_sets d problem r s k)"
  shows "pow2 (s_scanBlocks p) \<and> even (s_scanBlocks p) \<and> s_scanBlocks p div 2 \<le> max_work_group_size d
    \<and> s_scanBlocks p * getSize (sp_type problem) \<le> local_mem_size d"
proof -
  obtain b where b: "b \<in> set (doubles 2 (scan_maxBlocks d problem))" and p: "p = scan_cand d r s k b"
    using assms by (auto simp: scan_block_sets_def)
  have "pow2 (2 :: nat)" using pow2_power [of 1] by simp
  from doubles_pow2 [OF this b] have "pow2 b" "2 dvd b" "b \<le> scan_maxBlocks d problem" by auto
  moreover have "b \<le> 2 * max_work_group_size d" "b \<le> scan_localMemElements d problem"
    using \<open>b \<le> scan_maxBlocks d problem\<close>
      even_part_le [of "min (2 * max_work_group_size d) (scan_localMemElements d problem)"]
    unfolding scan_maxBlocks_def by linarith+
  moreover have "b * getSize (sp_type problem) \<le> local_mem_size d"
    using \<open>b \<le> scan_localMemElements d problem\<close> unfolding scan_localMemElements_def by (rule le_div_mult)
  ultimately show ?thesis using p by (simp add: scan_cand_def)
qed

lemma Scan_tune_fits:
  assumes slack: "\<And>r. r \<le> be_slack E r" and run: "Scan_tune E d problem st = (Returns v, st')"
  shows "scan_fits d (sp_type problem) v \<and> tp_enabled (sp_tunePolicy problem)"
proof -
  let ?P = "sp_tunePolicy problem" and ?n = "scan_problemSizes problem"
  obtain s0 p1 st1 p2 st2 p3 st3 where
    r1: "tuneOne ?P (bench_tuner E (Scan_tuneReduceCallback E problem)) (scan_reduce_sets d problem) ?n s0
      = (Returns p1, st1)"
    and r2: "tuneOne ?P (bench_tuner E (Scan_tuneScanCallback E problem))
      (scan_scan_sets d problem (s_reduceWorkGroupSize p1)) ?n st1 = (Returns p2, st2)"
    and r3: "tuneOne ?P (bench_tuner E (Scan_tuneBlocksCallback E problem))
      (scan_block_sets d problem (s_reduceWorkGroupSize p1) (s_scanWorkGroupSize p2) (s_scanWorkScale p2)) ?n st2
      = (Returns p3, st3)"
    and v: "v = scan_cand d (s_reduceWorkGroupSize p1) (s_scanWorkGroupSize p2) (s_scanWorkScale p2) (s_scanBlocks p3)"
    using run unfolding Scan_tune_def Let_def
    by (elim bind_end_Returns) (auto split: if_splits)
  note e1 = scan_reduce.tuneOne_end [OF _ r1] and e2 = scan_scan.tuneOne_end [OF _ r2]
    and e3 = rated.tuneOne_end [OF scan_blocks_rated [OF slack] _ r3]
  show ?thesis
    using e1 e2 e3 scan_reduce_sets_mem [of p1 d problem]
      scan_scan_sets_mem [of p2 d problem "s_reduceWorkGroupSize p1"]
      scan_block_sets_mem [of p3 d problem "s_reduceWorkGroupSize p1" "s_scanWorkGroupSize p2" "s_scanWorkScale p2"]
    by (simp add: scan_problemSizes_def scan_fits_def scan_cand_def v)
qed

text \<open>Every test that the search for scan parameters may make gives a rate.\<close>

definition scan_runs :: "('c, 'a::zero, 'r::{linorder, order_bot}, 'w) bench \<Rightarrow> device \<Rightarrow> scan_problem \<Rightarrow> bool" where
  "scan_runs E d problem \<longleftrightarrow> (let ns = scan_problemSizes problem in
     runs (bench_tuner E (Scan_tuneReduceCallback E problem)) ns (scan_reduce_sets d problem)
     \<and> (\<forall>p\<in>set (scan_reduce_sets d problem).
          runs (bench_tuner E (Scan_tuneScanCallback E problem)) ns (scan_scan_sets d problem (s_reduceWorkGroupSize p))
          \<and> (\<forall>q\<in>set (scan_scan_sets d problem (s_reduceWorkGroupSize p)).
               runs (bench_tuner E (Scan_tuneBlocksCallback E problem)) ns
                 (scan_block_sets d problem (s_reduceWorkGroupSize p) (s_scanWorkGroupSize q) (s_scanWorkScale q)))))"

lemma scan_sets_nonempty:
  assumes "0 < max_work_group_size d" "2 \<le> scan_localMemElements d problem"
  shows "scan_reduce_sets d problem \<noteq> []" "scan_scan_sets d problem r \<noteq> []" "scan_block_sets d problem r s k \<noteq> []"
proof -
  show "scan_reduce_sets d problem \<noteq> []" using assms by (simp add: scan_reduce_sets_def doubles_Nil)
  have "doubles 1 (max_work_group_size d) = 1 # doubles 2 (max_work_group_size d)"
    using assms by (subst doubles.simps) simp
  then show "scan_scan_sets d problem r \<noteq> []" using assms by (auto simp: scan_scan_sets_def doubles_Nil)
  have "2 \<le> min (2 * max_work_group_size d) (scan_localMemElements d problem)" using assms by simp
  then have "2 \<le> scan_maxBlocks d problem" unfolding scan_maxBlocks_def even_part_def by presburger
  then show "scan_block_sets d problem r s k \<noteq> []" by (simp add: scan_block_sets_def doubles_Nil)
qed

section \<open>Construction\<close>

definition Scan_makeKey :: "device \<Rightarrow> scan_problem \<Rightarrow> scan_key result" where
  "Scan_makeKey d problem = bind_result (canon_signed (sp_type problem)) (\<lambda>canon.
     Inr \<lparr>sk_device = deviceKey d, sk_elementType = getName canon\<rparr>)"

definition Scan_new ::
  "'db sqlite \<Rightarrow> (string \<rightharpoonup> string) \<Rightarrow> ('c, 'a::zero, 'r::{linorder, order_bot}, 'w) bench \<Rightarrow> 'c \<Rightarrow> device
    \<Rightarrow> scan_problem \<Rightarrow> ('w, 'db) host \<Rightarrow> 'a scan ending \<times> ('w, 'db) host" where
  "Scan_new Q env E c d problem h =
     new_tuned Q env ScanKey_struct ScanValue_struct db_scan
       (Scan_typeSupported d (sp_type problem)) ''type is not a supported integral format on this device''
       (Scan_makeKey d problem) (Scan_tune E d problem) (Scan_construct E c problem) h"

text \<open>The public problem class.\<close>

datatype scan_problem_op =
    SpNew nat
  | SpCopy nat nat
  | SpAssign nat nat
  | SpDelete nat
  | SpSetType nat cl_type
  | SpSetTunePolicy nat tune_policy

text \<open>A setter that throws leaves the object as it is.\<close>

fun scan_problem_vop :: "scan_problem_op \<Rightarrow> scan_problem vop" where
  "scan_problem_vop (SpNew h) = VNew h"
| "scan_problem_vop (SpCopy h g) = VCopy h g"
| "scan_problem_vop (SpAssign h g) = VAssign h g"
| "scan_problem_vop (SpDelete h) = VDelete h"
| "scan_problem_vop (SpSetType h t) =
     VUpdate h (\<lambda>p. case ScanProblem_setType t p of Inl e \<Rightarrow> p | Inr p' \<Rightarrow> p')"
| "scan_problem_vop (SpSetTunePolicy h tp) = VUpdate h (ScanProblem_setTunePolicy tp)"

definition ScanProblem_run :: "scan_problem_op list \<Rightarrow> scan_problem objects \<Rightarrow> scan_problem objects option" where
  "ScanProblem_run xs = obj_run ScanProblem_new (map scan_problem_vop xs)"

text \<open>A problem that is reached by the operations has an integral type, or none yet.\<close>

lemma scan_problem_types:
  "value_run ScanProblem_new (map scan_problem_vop xs) m = Some m'
   \<Longrightarrow> (\<And>h p. m h = Some p \<Longrightarrow> isIntegral (sp_type p) \<or> sp_type p = void_type)
   \<Longrightarrow> m' h = Some p \<Longrightarrow> isIntegral (sp_type p) \<or> sp_type p = void_type"
proof (induction xs arbitrary: m)
  case (Cons x xs)
  have "isIntegral (sp_type q) \<or> sp_type q = void_type"
    if "value_step ScanProblem_new (scan_problem_vop x) m g = Some q" for g q
    using that Cons.prems(2)
    by (cases x)
      (auto simp: ScanProblem_new_def ScanProblem_setType_def ScanProblem_setTunePolicy_def split: if_splits
        dest: Cons.prems(2))
  with Cons show ?case by (auto split: if_splits)
qed simp

section \<open>The properties\<close>

lemma scan_fits_ok:
  assumes "scan_fits d t v" "device_ok d"
  shows "ok_ScanValue v"
proof -
  have m: "max_work_group_size d < 2 ^ 63" using assms(2) by (simp add: device_ok_def)
  have "s_scanBlocks v \<le> 2 * max_work_group_size d"
  proof -
    have "even (s_scanBlocks v)" "s_scanBlocks v div 2 \<le> max_work_group_size d"
      using assms(1) by (simp_all add: scan_fits_def)
    then show ?thesis by (elim evenE) simp
  qed
  then have "s_scanBlocks v < 2 ^ 64" using m by simp
  moreover have "s_warpSizeMem v < 2 ^ 64" "s_warpSizeSchedule v < 2 ^ 64"
    using warp_sizes_bound [OF assms(2)] assms(1) by (simp_all add: scan_fits_def)
  moreover have "s_reduceWorkGroupSize v < 2 ^ 64" "s_scanWorkGroupSize v < 2 ^ 64" "s_scanWorkScale v < 2 ^ 64"
    using m assms(1) by (simp_all add: scan_fits_def)
  ultimately show ?thesis by (simp add: ok_ScanValue_def)
qed

text \<open>A construction to evaluate the properties on.\<close>

definition tiny_scan :: scan_problem where
  "tiny_scan = ScanProblem_new\<lparr>sp_type := \<lparr>baseType = TYPE_UINT, veclen = 1\<rparr>\<rparr>"

lemma tiny_size: "getSize (sp_type tiny_scan) = 4"
  by (simp add: tiny_scan_def getSize_def getBaseSize_def)

lemma tiny_enabled: "tp_enabled (sp_tunePolicy tiny_scan)"
  by (simp add: tiny_scan_def ScanProblem_new_def TunePolicy_new_def)

lemma tiny_construct:
  assumes "0 < s_scanBlocks p"
  shows "\<exists>sc. Scan_construct demo_bench c tiny_scan p = Inr (sc :: 'a scan) \<and> elementSize sc = 4"
proof -
  have "scan_string_defines (sp_type tiny_scan) = Inr (puts [(''SCAN_T'', getName (sp_type tiny_scan))])"
    by (simp add: scan_string_defines_def tiny_scan_def)
  then show ?thesis
    using assms by (simp add: Scan_construct_def Scan_initialize_def tiny_size demo_bench_def)
qed

lemma scan_launches_ok: "\<exists>e q'. scan_launches (\<lambda>_. CL_SUCCESS) sc off n es q = (Inr e, q')"
  by (simp add: scan_launches_def bind_op_def return_op_def update_op_def success_launch)

lemma tiny_callbacks:
  assumes "0 < n" "n < 2 ^ 40" "s_scanBlocks p = 2" "s_reduceWorkGroupSize p = 1"
  shows "\<exists>w'. Scan_tuneReduceCallback (demo_bench :: (unit, 'a::zero, nat, nat) bench) tiny_scan () n p w = (Inr (Some 1, Some 1), w')"
    "\<exists>w'. Scan_tuneScanCallback (demo_bench :: (unit, 'a::zero, nat, nat) bench) tiny_scan () n p w = (Inr (Some 1, Some 1), w')"
    "\<exists>w'. Scan_tuneBlocksCallback (demo_bench :: (unit, 'a::zero, nat, nat) bench) tiny_scan () n p w = (Inr (Some 1, Some 1), w')"
proof -
  obtain sc :: "'a::zero scan" where sc: "Scan_construct demo_bench () tiny_scan p = Inr sc"
    and sc2: "elementSize sc = 4"
    using tiny_construct [of p "()"] assms by auto
  have u: "u64 (n * 4) = n * 4" "u64 2 = 2" "u64 1 = 1" "n * 4 \<noteq> 0" using assms by (simp_all add: u64_def)
  define b where "b = roundUp n 2 div 2"
  have "b = (n + 1) div 2" using assms by (simp add: b_def roundUp_def u64_def)
  then have "0 < b" "b \<le> n + b - 1" "n + b - 1 < 2 ^ 64" using assms by auto
  then have nb: "0 < u64 (n + b - Suc 0) div b" by (simp add: u64_def div_greater_zero_iff)
  note d = sc demo_simps demo_twice launch_kernel_def success_launch
  show "\<exists>w'. Scan_tuneReduceCallback (demo_bench :: (unit, 'a::zero, nat, nat) bench) tiny_scan () n p w = (Inr (Some 1, Some 1), w')"
    using nb assms(1) by (simp add: Scan_tuneReduceCallback_def assms(3,4) tiny_size u d flip: b_def)
  show "\<exists>w'. Scan_tuneScanCallback (demo_bench :: (unit, 'a::zero, nat, nat) bench) tiny_scan () n p w = (Inr (Some 1, Some 1), w')"
    using assms(1) by (simp add: Scan_tuneScanCallback_def Let_def assms(3,4) tiny_size u d)
  let ?b = "\<lparr>buf_id = 9, buf_size = n * 4, buf_flags = CL_MEM_READ_WRITE\<rparr>"
  have v: "scan_validate sc' ?b ?b n NoOffset = Inr ()" if "elementSize sc' = 4" for sc' :: "'a scan"
    using assms(1,2) that u by (simp add: scan_validate_def readable_def writable_def CL_MEM_READ_WRITE_def
      CL_MEM_READ_ONLY_def CL_MEM_WRITE_ONLY_def)
  have e: "elementSize (scan_set_args ?b ?b n NoOffset sc') = elementSize sc'" for sc' :: "'a scan"
    by (simp add: scan_set_args_def Let_def)
  have go: "\<exists>x q'. enqueueInternal (\<lambda>_. CL_SUCCESS) ?b ?b n NoOffset None (sc', q)
      = (Inr x, scan_set_args ?b ?b n NoOffset sc', q')" if "elementSize sc' = 4" for sc' :: "'a scan" and q
    using scan_launches_ok [of "scan_set_args ?b ?b n NoOffset sc'" NoOffset "scan_allBlocks sc' n" None q]
    by (auto simp: enqueueInternal_def v [OF that])
  have "\<exists>x d' q'. enqueueInternal (\<lambda>_. CL_SUCCESS) ?b ?b n NoOffset None (sc, new_queue) = (Inr x, d', q')
      \<and> (\<exists>y d2 q2. enqueueInternal (\<lambda>_. CL_SUCCESS) ?b ?b n NoOffset None (d', q'\<lparr>cmds := []\<rparr>) = (Inr y, d2, q2))"
    using go [OF sc2, of new_queue] go [of "scan_set_args ?b ?b n NoOffset sc"] sc2 e by metis
  then have t: "rates (demo_bench :: (unit, 'a, nat, nat) bench) (\<lambda>r. r) n (bench_twice (demo_bench :: (unit, 'a, nat, nat) bench) ()
      (enqueueInternal (\<lambda>_. CL_SUCCESS) ?b ?b n NoOffset None) (enqueueInternal (\<lambda>_. CL_SUCCESS) ?b ?b n NoOffset None)
      (\<lambda>e. (e, e)) sc w) = (Inr (Some 1, Some 1), Suc (Suc w))"
    by (rule demo_twice)
  have sl: "be_slack (demo_bench :: (unit, 'a, nat, nat) bench) = (\<lambda>r. r)" by (simp add: demo_bench_def)
  show "\<exists>w'. Scan_tuneBlocksCallback (demo_bench :: (unit, 'a::zero, nat, nat) bench) tiny_scan () n p w = (Inr (Some 1, Some 1), w')"
    using t assms(1) by (simp add: Scan_tuneBlocksCallback_def Let_def tiny_size u sc demo_simps sl)
qed

definition tiny_params :: "nat \<Rightarrow> scan_value" where
  "tiny_params k = scan_cand tiny_device 1 1 k 2"

lemma tiny_doubles: "doubles (Suc 0) (Suc 0) = [1]" "doubles (Suc 0) 2 = [1, 2]" "doubles 2 2 = [2]"
  by (simp_all add: doubles.simps [of 2] doubles.simps [of 4] doubles.simps [of "Suc 0"])

lemma tiny_fields:
  "max_work_group_size tiny_device = 1" "local_mem_size tiny_device = 8"
  "scan_localMemElements tiny_device tiny_scan = 2" "scan_maxBlocks tiny_device tiny_scan = 2"
  "scan_startBlocks tiny_device tiny_scan = 2"
  "s_reduceWorkGroupSize (tiny_params k) = 1" "s_scanWorkGroupSize (tiny_params k) = 1"
  "s_scanWorkScale (tiny_params k) = k" "s_scanBlocks (tiny_params k) = 2"
  by (simp_all add: tiny_device_def scan_localMemElements_def scan_maxBlocks_def scan_startBlocks_def tiny_size
      even_part_def tiny_params_def scan_cand_def)

lemma tiny_sets:
  "scan_reduce_sets tiny_device tiny_scan = [tiny_params 1]"
  "scan_scan_sets tiny_device tiny_scan 1 = [tiny_params 1, tiny_params 2]"
  "scan_block_sets tiny_device tiny_scan 1 1 k = [tiny_params k]"
  by (simp_all add: scan_reduce_sets_def scan_scan_sets_def scan_block_sets_def tiny_fields tiny_doubles)
    (simp_all add: tiny_params_def)

lemma tiny_steady:
  fixes E :: "(unit, 'a::zero, nat, nat) bench"
  defines "E \<equiv> demo_bench"
  assumes "\<forall>p\<in>set ps. \<exists>k. p = tiny_params k" and "\<forall>n\<in>set ns. 0 < n \<and> n < 2 ^ 40"
  shows "steady (bench_tuner E (Scan_tuneReduceCallback E tiny_scan)) 1 ns ps"
    "steady (bench_tuner E (Scan_tuneScanCallback E tiny_scan)) 1 ns ps"
    "steady (bench_tuner E (Scan_tuneBlocksCallback E tiny_scan)) 1 ns ps"
proof -
  have p: "0 < n" "n < 2 ^ 40" "s_scanBlocks p = 2" "s_reduceWorkGroupSize p = 1" if "n \<in> set ns" "p \<in> set ps" for n p
    using that assms(2,3) by (auto simp: tiny_fields)
  show "steady (bench_tuner E (Scan_tuneReduceCallback E tiny_scan)) 1 ns ps"
    unfolding E_def by (rule steady_demo, rule tiny_callbacks(1)) (blast intro: p)+
  show "steady (bench_tuner E (Scan_tuneScanCallback E tiny_scan)) 1 ns ps"
    unfolding E_def by (rule steady_demo, rule tiny_callbacks(2)) (blast intro: p)+
  show "steady (bench_tuner E (Scan_tuneBlocksCallback E tiny_scan)) 1 ns ps"
    unfolding E_def by (rule steady_demo, rule tiny_callbacks(3)) (blast intro: p)+
qed

lemma tiny_tune:
  "\<exists>st'. Scan_tune (demo_bench :: (unit, 'a::zero, nat, nat) bench) tiny_device tiny_scan st
    = (Returns (tiny_params 1), st')"
proof -
  let ?E = "demo_bench :: (unit, 'a::zero, nat, nat) bench" and ?P = "sp_tunePolicy tiny_scan"
  let ?st = "logStartAlgorithm ?P (''scan for '' @ getName (sp_type tiny_scan) @ '' elements'') tiny_device st"
  let ?n = "scan_problemSizes tiny_scan"
  have e: "tp_enabled ?P" "assertEnabled ?P = Inr ()"
    by (simp_all add: tiny_enabled assertEnabled_def)
  have r: "tu_ratio (bench_tuner ?E cb) 1 \<le> 1" for cb :: "unit \<Rightarrow> nat \<Rightarrow> scan_value \<Rightarrow> nat \<Rightarrow> (nat option \<times> nat option) result \<times> nat"
    by (simp add: bench_tuner_def demo_bench_def)
  have n: "\<forall>n\<in>set ?n. 0 < n \<and> n < 2 ^ 40" by (simp add: scan_problemSizes_def tiny_size)
  note g = steady_tuneOne [OF tiny_steady(1) [OF _ n] r _ _ e(1)]
    steady_tuneOne [OF tiny_steady(2) [OF _ n] r _ _ e(1)] steady_tuneOne [OF tiny_steady(3) [OF _ n] r _ _ e(1)]
  obtain st1 where 1: "tuneOne ?P (bench_tuner ?E (Scan_tuneReduceCallback ?E tiny_scan))
      (scan_reduce_sets tiny_device tiny_scan) ?n ?st = (Returns (tiny_params 1), st1)"
    by (rule g(1) [of "scan_reduce_sets tiny_device tiny_scan" ?st]) (auto simp: tiny_sets scan_problemSizes_def simp del: One_nat_def)
  obtain st2 where 2: "tuneOne ?P (bench_tuner ?E (Scan_tuneScanCallback ?E tiny_scan))
      (scan_scan_sets tiny_device tiny_scan 1) ?n st1 = (Returns (tiny_params 1), st2)"
    by (rule g(2) [of "scan_scan_sets tiny_device tiny_scan 1" st1]) (auto simp: tiny_sets scan_problemSizes_def simp del: One_nat_def)
  obtain st3 where 3: "tuneOne ?P (bench_tuner ?E (Scan_tuneBlocksCallback ?E tiny_scan))
      (scan_block_sets tiny_device tiny_scan 1 1 1) ?n st2 = (Returns (tiny_params 1), st3)"
    by (rule g(3) [of "scan_block_sets tiny_device tiny_scan 1 1 1" st2]) (auto simp: tiny_sets scan_problemSizes_def simp del: One_nat_def)
  show ?thesis
    unfolding Scan_tune_def Let_def e(2) lift_result_simps bind_end_simps 1 tiny_fields 2 3
    by (simp add: tiny_params_def)
qed

definition tiny_key :: scan_key where
  "tiny_key = \<lparr>sk_device = \<lparr>platformName = ''P'', deviceName = ''D'', deviceVendorId = 1, driverVersion = ''1''\<rparr>,
     sk_elementType = ''int''\<rparr>"

lemma tiny_params_eq: "tiny_params k = \<lparr>s_warpSizeMem = 1, s_warpSizeSchedule = 1, s_reduceWorkGroupSize = 1,
    s_scanWorkGroupSize = 1, s_scanWorkScale = k, s_scanBlocks = 2\<rparr>"
  by (simp add: tiny_params_def scan_cand_def getWarpSizeMem_def getWarpSizeSchedule_def tiny_no_ext)
    (simp add: tiny_device_def example_device_def)

lemma tiny_rows: "(case demo_db of None \<Rightarrow> None
   | Some (d, db) \<Rightarrow> Some (fst (table_run (engine clogs_schemas) ScanKey_struct ScanValue_struct (db_scan d)
       [Lookup tiny_key, Add tiny_key (tiny_params 1)] db))) = Some [Absent, Added]"
  unfolding tiny_params_eq by code_simp

lemma tiny_types:
  "Scan_typeSupported tiny_device (sp_type tiny_scan)"
  "Scan_typeSupported tiny_device \<lparr>baseType = TYPE_INT, veclen = 1\<rparr>"
  by (simp_all add: Scan_typeSupported_def tiny_scan_def isIntegral_def isComputable_def isStorable_def)

lemma tiny_makeKey: "Scan_makeKey tiny_device tiny_scan = Inr tiny_key"
  "Scan_makeKey tiny_device (tiny_scan\<lparr>sp_type := \<lparr>baseType = TYPE_INT, veclen = 1\<rparr>\<rparr>) = Inr tiny_key"
  by (simp_all add: Scan_makeKey_def tiny_scan_def canon_signed_def make_type_def tiny_key_def deviceKey_def
    tiny_device_def example_device_def getName_def)

text \<open>
  C17. Tuning a scan is safe whatever the timings are: if \<^verbatim>\<open>Scan::tune\<close> returns, tuning was
  enabled, every size is a power of two as the kernels demand, no launch needs a work-group
  larger than the device allows, the tiles and the array of block sums fit into local memory, and
  the preprocessor accepts the parameters if the device's warp sizes are powers of two.
\<close>

theorem scan_tune_fits:
  fixes E :: "('c, 'a::zero, 'r::{linorder, order_bot}, 'w) bench"
  assumes "\<And>r. r \<le> be_slack E r" and "Scan_tune E d problem st = (Returns v, st')"
  shows "tp_enabled (sp_tunePolicy problem) \<and> scan_fits d (sp_type problem) v
    \<and> (pow2 (getWarpSizeMem d) \<and> pow2 (getWarpSizeSchedule d) \<longrightarrow> scan_cl_accepts (scan_defines v))"
proof -
  have f: "scan_fits d (sp_type problem) v" "tp_enabled (sp_tunePolicy problem)"
    using Scan_tune_fits [OF assms] by simp_all
  moreover have "and (s_scanBlocks v) 1 = 0"
    using f(1) by (simp add: scan_fits_def and_one_eq even_iff_mod_2_eq_zero)
  ultimately show ?thesis by (simp add: scan_cl_accepts_def is_power2_iff scan_fits_def)
qed

theorem scan_tune_fits_witness:
  "\<exists>st'. Scan_tune (demo_bench :: (unit, 32 word, nat, nat) bench) tiny_device tiny_scan demo_start
    = (Returns (tiny_params 1), st') \<and> scan_fits tiny_device (sp_type tiny_scan) (tiny_params 1)"
proof -
  obtain st' where run: "Scan_tune (demo_bench :: (unit, 32 word, nat, nat) bench) tiny_device tiny_scan demo_start
      = (Returns (tiny_params 1), st')" using tiny_tune by blast
  then show ?thesis using scan_tune_fits [OF _ run] by (simp add: demo_simps)
qed

text \<open>
  C20. A scan is tuned once: after a constructor has returned, the cache holds its parameters, and
  a later constructor whose key is the same (for the same device and an element type that
  differs at most in signedness) builds its kernels with the same parameters without running or
  logging a single test, or throws a \<^verbatim>\<open>CacheError\<close> of the database or an error of
  \<^verbatim>\<open>initialize\<close>. The hypotheses are that of SQLite, a database object with a well-formed
  table, and device attributes within their types.
\<close>

theorem scan_tuned_once:
  fixes E :: "('c, 'a::zero, 'r::{linorder, order_bot}, 'w) bench"
  assumes "sqlite_ok Q W clogs_schemas" and "snd (h_static h) = Some dbo"
    and "table_inv W scan_schema (db_scan dbo) (h_db h)"
    and "device_ok d" and "\<And>r. r \<le> be_slack E r"
    and "Scan_new Q env E c d problem h = (Returns sc, h1)"
    and "Scan_makeKey d' problem' = Scan_makeKey d problem" and "Scan_typeSupported d' (sp_type problem')"
    and "Scan_new Q env E' c' d' problem' h1 = (r, h2)"
  shows "h_tune h2 = h_tune h1 \<and> (\<exists>v. Scan_construct E c problem v = Inr sc
    \<and> (case r of Returns sc' \<Rightarrow> Scan_construct E' c' problem' v = Inr sc'
        | Throws e \<Rightarrow> (\<exists>m. e = CacheError m) \<or> Scan_construct E' c' problem' v = Inl e
        | Aborts \<Rightarrow> False))"
proof (rule scan_table.new_tuned_once [where sel = db_scan, OF assms(1) _ _ assms(2)])
  show "schema_of scan_tableName ScanKey_struct ScanValue_struct \<in> set clogs_schemas"
    by (simp add: schema_of_tables clogs_schemas_def)
  show "table_inv W (schema_of scan_tableName ScanKey_struct ScanValue_struct) (db_scan dbo) (h_db h)"
    using assms(3) by (simp add: schema_of_tables)
  show "ok_ScanKey key" if "Scan_makeKey d problem = Inr key" for key
    using that deviceKey_ok [OF assms(4)]
    by (cases "canon_signed (sp_type problem)") (auto simp: Scan_makeKey_def ok_ScanKey_def)
  show "ok_ScanValue v" if "Scan_tune E d problem ts = (Returns v, ts')" for ts v ts'
    using Scan_tune_fits [OF assms(5) that] scan_fits_ok assms(4) by blast
qed (use assms(6-9) in \<open>simp_all add: Scan_new_def\<close>)

theorem scan_tuned_once_witness:
  "\<exists>d db sc h1 r h2. demo_db = Some (d, db)
     \<and> Scan_new (engine clogs_schemas) (\<lambda>_. None) (demo_bench :: (unit, 32 word, nat, nat) bench) () tiny_device
          tiny_scan (demo_host d db) = (Returns sc, h1)
     \<and> Scan_new (engine clogs_schemas) (\<lambda>_. None) (demo_bench :: (unit, 32 word, nat, nat) bench) () tiny_device
          (tiny_scan\<lparr>sp_type := \<lparr>baseType = TYPE_INT, veclen = 1\<rparr>\<rparr>) h1 = (r, h2)
     \<and> h_tune h2 = h_tune h1"
proof -
  let ?Q = "engine clogs_schemas" and ?E = "demo_bench :: (unit, 32 word, nat, nat) bench"
  let ?p = "tiny_scan\<lparr>sp_type := \<lparr>baseType = TYPE_INT, veclen = 1\<rparr>\<rparr>"
  obtain d db where d: "demo_db = Some (d, db)" using demo by (cases demo_db) auto
  have "fst (table_run ?Q ScanKey_struct ScanValue_struct (db_scan d)
      [Lookup tiny_key, Add tiny_key (tiny_params 1)] (h_db (demo_host d db))) = [Absent, Added]"
    using tiny_rows unfolding d option.case prod.case by (simp add: demo_host_def)
  then obtain db1 where run: "table_run ?Q ScanKey_struct ScanValue_struct (db_scan d)
      [Lookup tiny_key, Add tiny_key (tiny_params 1)] (h_db (demo_host d db)) = ([Absent, Added], db1)"
    by (metis prod.collapse)
  obtain ts where ts: "Scan_tune ?E tiny_device tiny_scan (h_tune (demo_host d db)) = (Returns (tiny_params 1), ts)"
    using tiny_tune by blast
  obtain sc where sc: "Scan_construct ?E () tiny_scan (tiny_params 1) = Inr sc"
    using tiny_construct [of "tiny_params 1" "()"] by (auto simp: tiny_fields)
  have st: "snd (h_static (demo_host d db)) = Some d" by (simp add: demo_host_def)
  let ?h = "(demo_host d db)\<lparr>h_db := db1, h_tune := ts\<rparr>"
  have new: "Scan_new ?Q (\<lambda>_. None) ?E () tiny_device tiny_scan (demo_host d db) = (Returns sc, ?h)"
    using tuned_first [where sel = db_scan and tune = "Scan_tune ?E tiny_device tiny_scan", OF run st ts] sc
    by (simp add: Scan_new_def new_tuned_def tiny_types tiny_makeKey)
  obtain r h2 where new2: "Scan_new ?Q (\<lambda>_. None) ?E () tiny_device ?p ?h = (r, h2)"
    by (cases "Scan_new ?Q (\<lambda>_. None) ?E () tiny_device ?p ?h")
  have dev: "device_ok tiny_device" "max_compute_units tiny_device < 2 ^ 26"
    by (simp_all add: device_ok_def tiny_device_def example_device_def)
  have "table_inv engine_view scan_schema (db_scan d) (h_db (demo_host d db))"
    using demo_tables_all(1) [OF d] by (simp add: demo_host_def)
  moreover have "Scan_makeKey tiny_device ?p = Scan_makeKey tiny_device tiny_scan" by (simp only: tiny_makeKey)
  moreover have "Scan_typeSupported tiny_device (sp_type ?p)" using tiny_types(2) by simp
  ultimately have "h_tune h2 = h_tune ?h"
    using scan_tuned_once [OF engine_ok [OF clogs_texts_apart] st _ dev(1) _ new _ _ new2] by (simp add: demo_simps)
  then show ?thesis using d new new2 by blast
qed


text \<open>
  C25. Tuning a scan succeeds: when tuning is enabled, the device has work-groups and room for two
  elements, and every test that the search may make gives a rate, \<^verbatim>\<open>Scan::tune\<close> returns
  parameters: no candidate list is empty, no pass drops all candidates, and the check at the end
  of the function does not fail.
\<close>

theorem scan_tune_returns:
  fixes E :: "('c, 'a::zero, 'r::{linorder, order_bot}, 'w) bench"
  assumes "\<And>r. r \<le> be_slack E r" and "\<And>r. be_ratio E r \<le> r"
    and "tp_enabled (sp_tunePolicy problem)" and "0 < max_work_group_size d"
    and "2 \<le> scan_localMemElements d problem" and "scan_runs E d problem"
  shows "\<exists>v st'. Scan_tune E d problem st = (Returns v, st')"
proof -
  let ?P = "sp_tunePolicy problem" and ?ns = "scan_problemSizes problem"
  let ?st = "logStartAlgorithm ?P (''scan for '' @ getName (sp_type problem) @ '' elements'') d st"
  have e: "assertEnabled ?P = Inr ()" using assms(3) by (simp add: assertEnabled_def)
  have ra: "tu_ratio (bench_tuner E cb) r \<le> r" for cb :: "'c \<Rightarrow> nat \<Rightarrow> scan_value \<Rightarrow> 'w \<Rightarrow> ('r option \<times> 'r option) result \<times> 'w" and r
    using assms(2) by (simp add: bench_tuner_def)
  have ns: "?ns \<noteq> []" by (simp add: scan_problemSizes_def)
  note ne = scan_sets_nonempty [OF assms(4,5)]
  note R = assms(6) [unfolded scan_runs_def Let_def]
  obtain p1 st1 where 1: "tuneOne ?P (bench_tuner E (Scan_tuneReduceCallback E problem)) (scan_reduce_sets d problem)
      ?ns ?st = (Returns p1, st1)" "p1 \<in> set (scan_reduce_sets d problem)"
    using scan_reduce.runs_tuneOne [OF ra ns ne(1) _ assms(3)] R by blast
  obtain p2 st2 where 2: "tuneOne ?P (bench_tuner E (Scan_tuneScanCallback E problem))
      (scan_scan_sets d problem (s_reduceWorkGroupSize p1)) ?ns st1 = (Returns p2, st2)"
      "p2 \<in> set (scan_scan_sets d problem (s_reduceWorkGroupSize p1))"
    using scan_scan.runs_tuneOne [OF ra ns ne(2) _ assms(3)] R 1(2) by blast
  obtain p3 st3 where 3: "tuneOne ?P (bench_tuner E (Scan_tuneBlocksCallback E problem))
      (scan_block_sets d problem (s_reduceWorkGroupSize p1) (s_scanWorkGroupSize p2) (s_scanWorkScale p2))
      ?ns st2 = (Returns p3, st3)"
      "p3 \<in> set (scan_block_sets d problem (s_reduceWorkGroupSize p1) (s_scanWorkGroupSize p2) (s_scanWorkScale p2))"
    using rated.runs_tuneOne [OF scan_blocks_rated [OF assms(1)] ra ns ne(3) _ assms(3)] R 1(2) 2(2) by blast
  have pos: "pow2 x \<Longrightarrow> 0 < x" for x :: nat by (auto elim: pow2_E)
  have "0 < s_reduceWorkGroupSize p1" "0 < s_scanWorkGroupSize p2" "0 < s_scanWorkScale p2" "0 < s_scanBlocks p3"
    using scan_reduce_sets_mem [OF 1(2)] scan_scan_sets_mem [OF 2(2)] scan_block_sets_mem [OF 3(2)] pos by blast+
  then show ?thesis
    unfolding Scan_tune_def Let_def e lift_result_simps bind_end_simps scan_problemSizes_def [symmetric] 1(1) 2(1) 3(1)
    by auto
qed

theorem scan_tune_returns_witness:
  "\<exists>v st'. Scan_tune (demo_bench :: (unit, 32 word, nat, nat) bench) tiny_device tiny_scan demo_start = (Returns v, st')"
proof -
  let ?E = "demo_bench :: (unit, 32 word, nat, nat) bench"
  have n: "\<forall>n\<in>set (scan_problemSizes tiny_scan). 0 < n \<and> n < 2 ^ 40" by (simp add: scan_problemSizes_def tiny_size)
  have "scan_runs ?E tiny_device tiny_scan"
    unfolding scan_runs_def Let_def
    by (intro conjI ballI; rule tiny_steady [OF _ n, THEN steady_runs])
      (auto simp: tiny_sets tiny_fields simp del: One_nat_def)
  then show ?thesis
    by (intro scan_tune_returns) (simp_all add: demo_simps tiny_enabled tiny_fields)
qed
end
