(* ===== verification/ReduceKernel.thy ===== *)
theory ReduceKernel
  imports TreeReduce
begin

text \<open>
  The kernel of kernels/reduce.cl. \<open>reduceRange\<close> is the work-group reduction of a range;
  the \<^verbatim>\<open>reduce\<close> kernel runs on \<^verbatim>\<open>REDUCE_BLOCKS\<close> work-groups that execute
  concurrently and communicate through an atomic counter, so it is a step relation \<open>rstep\<close>
  over the work-groups: each sums its block, stores the partial sum, decrements the counter,
  and the one that finds the old value 1 sums the partial sums, resets the counter and writes
  the result. The theory shows that every interleaving writes the sum of the whole range, that
  only one work-group ever runs the final part, that the counter is back at its initial value,
  that no interleaving blocks, and that each one ends.
\<close>

section \<open>reduceRange\<close>

text \<open>The accumulation loop of one work-item; \<open>inp\<close> is the pointer argument \<^verbatim>\<open>in\<close>.\<close>

function range_accum :: "nat \<Rightarrow> (nat \<Rightarrow> 'a::plus) \<Rightarrow> nat \<Rightarrow> nat \<Rightarrow> nat \<Rightarrow> 'a \<Rightarrow> 'a" where
  "range_accum wgs inp lid i lst accum =
     (if i < lst \<and> 0 < wgs
      then range_accum wgs inp lid (i + wgs) lst
             (if i + lid < lst then accum + inp (i + lid) else accum)
      else accum)"
  by pat_completeness auto
termination
  by (relation "measure (\<lambda>(wgs, inp, lid, i, lst, accum). lst - i)") auto

declare range_accum.simps [simp del]

definition reduceRange ::
  "sched \<Rightarrow> nat \<Rightarrow> (nat \<Rightarrow> 'a::{plus,zero}) \<Rightarrow> nat \<Rightarrow> nat \<Rightarrow> (nat \<Rightarrow> 'a) \<Rightarrow> nat \<Rightarrow> 'a" where
  "reduceRange S wgs inp first lst sums =
     (let sums1 = par (S [0]) (\<lambda>lid m. m(lid := range_accum wgs inp lid first lst 0)) sums
      in tree_reduce (sub S [1]) (wgs div 2) sums1)"

lemma sum_guarded:
  fixes inp :: "nat \<Rightarrow> 'a::comm_monoid_add"
  assumes "i \<le> lst"
  shows "(\<Sum>lid<wgs. if i + lid < lst then inp (i + lid) else 0) = sum inp {i..<min (i + wgs) lst}"
proof -
  have "(\<Sum>lid<wgs. if i + lid < lst then inp (i + lid) else 0)
      = (\<Sum>j\<in>{i..<i + wgs}. if j < lst then inp j else 0)"
    by (simp add: sum_shift_start [of "\<lambda>j. if j < lst then inp j else 0" i wgs, symmetric])
  also have "\<dots> = sum inp ({i..<i + wgs} \<inter> {j. j < lst})"
    by (simp add: sum.inter_restrict)
  also have "{i..<i + wgs} \<inter> {j. j < lst} = {i..<min (i + wgs) lst}" by auto
  finally show ?thesis .
qed

text \<open>All work-items together accumulate the range exactly once.\<close>

lemma range_accum_sum:
  fixes acc :: "nat \<Rightarrow> 'a::comm_monoid_add"
  assumes "0 < wgs"
  shows "(\<Sum>lid<wgs. range_accum wgs inp lid i lst (acc lid))
    = (\<Sum>lid<wgs. acc lid) + sum inp {i..<lst}"
proof (induction "lst - i" arbitrary: i acc rule: less_induct)
  case less
  show ?case
  proof (cases "i < lst")
    case False
    then show ?thesis by (simp add: range_accum.simps)
  next
    case True
    define nx where "nx lid = (if i + lid < lst then acc lid + inp (i + lid) else acc lid)" for lid
    have "(\<Sum>lid<wgs. range_accum wgs inp lid i lst (acc lid))
        = (\<Sum>lid<wgs. range_accum wgs inp lid (i + wgs) lst (nx lid))"
      using True assms by (intro sum.cong) (simp_all add: range_accum.simps [of _ _ _ i] nx_def)
    also have "\<dots> = (\<Sum>lid<wgs. nx lid) + sum inp {i + wgs..<lst}"
      using True assms by (intro less) auto
    also have "(\<Sum>lid<wgs. nx lid)
        = (\<Sum>lid<wgs. acc lid + (if i + lid < lst then inp (i + lid) else 0))"
      by (rule sum.cong) (simp_all add: nx_def)
    also have "\<dots> = (\<Sum>lid<wgs. acc lid) + sum inp {i..<min (i + wgs) lst}"
      using True by (simp only: sum.distrib sum_guarded less_imp_le)
    also have "\<dots> + sum inp {i + wgs..<lst}
        = (\<Sum>lid<wgs. acc lid) + (sum inp {i..<min (i + wgs) lst} + sum inp {min (i + wgs) lst..<lst})"
      by (cases "i + wgs \<le> lst") (simp_all add: add.assoc min_def)
    also have "sum inp {i..<min (i + wgs) lst} + sum inp {min (i + wgs) lst..<lst} = sum inp {i..<lst}"
      using True by (intro sum_split_at) auto
    finally show ?thesis .
  qed
qed

lemma reduceRange_sum:
  fixes inp :: "nat \<Rightarrow> 'a::comm_monoid_add"
  assumes "valid wgs S" "pow2 wgs"
  shows "reduceRange S wgs inp first lst sums 0 = sum inp {first..<lst}"
proof -
  have "reduceRange S wgs inp first lst sums 0
      = (\<Sum>lid<wgs. par (S [0]) (\<lambda>lid m. m(lid := range_accum wgs inp lid first lst 0)) sums lid)"
    using assms by (simp add: reduceRange_def tree_reduce_pow2 valid_sub)
  also have "\<dots> = (\<Sum>lid<wgs. range_accum wgs inp lid first lst 0)"
    by (intro sum.cong refl) (simp add: par_assign [OF valid_schedule [OF assms(1)]])
  also have "\<dots> = sum inp {first..<lst}"
    using range_accum_sum [of wgs inp first lst "\<lambda>_. 0"] pow2_pos [OF assms(2)] by simp
  finally show ?thesis .
qed

section \<open>The reduce kernel: concurrent work-groups\<close>

text \<open>
  Arguments of a launch. Buffers are named by numbers; \<open>out_b\<close> may be the same buffer as
  \<open>in_b\<close> or as \<open>part_b\<close>, as the host uses it.
\<close>

record reduce_args =
  wgs :: nat
  blocks :: nat
  out_b :: nat
  outPos :: nat
  in_b :: nat
  rstart :: nat
  elements :: nat
  part_b :: nat
  blockSize :: nat

datatype 'a pc = Start | Summed 'a | Stored | Final | FinalSummed 'a | Reset 'a | Done

record 'a rstate =
  mem :: "nat \<Rightarrow> nat \<Rightarrow> 'a"
  wgc :: "32 word"
  pc :: "nat \<Rightarrow> 'a pc"

text \<open>The block of a work-group, in 32-bit arithmetic: \<^verbatim>\<open>first\<close> and \<^verbatim>\<open>last\<close>.\<close>

definition block_first :: "reduce_args \<Rightarrow> nat \<Rightarrow> nat" where
  "block_first ra g = u32 (g * blockSize ra)"

definition block_last :: "reduce_args \<Rightarrow> nat \<Rightarrow> nat" where
  "block_last ra g = min (u32 (block_first ra g + blockSize ra)) (elements ra)"

definition set_mem :: "nat \<Rightarrow> nat \<Rightarrow> 'a \<Rightarrow> (nat \<Rightarrow> nat \<Rightarrow> 'a) \<Rightarrow> nat \<Rightarrow> nat \<Rightarrow> 'a" where
  "set_mem b i v m = m(b := (m b)(i := v))"

inductive rstep :: "reduce_args \<Rightarrow> (nat \<Rightarrow> sched) \<Rightarrow> 'a::{plus,zero} rstate \<Rightarrow> 'a rstate \<Rightarrow> bool"
  for ra S where
  sum_block: "g < blocks ra \<Longrightarrow> pc s g = Start \<Longrightarrow>
    rstep ra S s (s\<lparr>pc := (pc s)(g := Summed (reduceRange (sub (S g) [0]) (wgs ra)
      (\<lambda>i. mem s (in_b ra) (rstart ra + i)) (block_first ra g) (block_last ra g) (\<lambda>_. 0) 0))\<rparr>)"
| store_partial: "g < blocks ra \<Longrightarrow> pc s g = Summed v \<Longrightarrow>
    rstep ra S s (s\<lparr>mem := set_mem (part_b ra) g v (mem s), pc := (pc s)(g := Stored)\<rparr>)"
| atomic_dec: "g < blocks ra \<Longrightarrow> pc s g = Stored \<Longrightarrow>
    rstep ra S s (s\<lparr>wgc := wgc s - 1, pc := (pc s)(g := if wgc s = 1 then Final else Done)\<rparr>)"
| sum_partials: "g < blocks ra \<Longrightarrow> pc s g = Final \<Longrightarrow>
    rstep ra S s (s\<lparr>pc := (pc s)(g := FinalSummed (reduceRange (sub (S g) [1]) (wgs ra)
      (mem s (part_b ra)) 0 (blocks ra) (\<lambda>_. 0) 0))\<rparr>)"
| reset_counter: "g < blocks ra \<Longrightarrow> pc s g = FinalSummed v \<Longrightarrow>
    rstep ra S s (s\<lparr>wgc := of_nat (blocks ra), pc := (pc s)(g := Reset v)\<rparr>)"
| write_out: "g < blocks ra \<Longrightarrow> pc s g = Reset v \<Longrightarrow>
    rstep ra S s (s\<lparr>mem := set_mem (out_b ra) (outPos ra) v (mem s), pc := (pc s)(g := Done)\<rparr>)"

text \<open>A launch starts with the memory and the counter that earlier commands left.\<close>

definition rinit :: "(nat \<Rightarrow> nat \<Rightarrow> 'a) \<Rightarrow> 32 word \<Rightarrow> 'a rstate" where
  "rinit m c = \<lparr>mem = m, wgc = c, pc = (\<lambda>_. Start)\<rparr>"

inductive rreach :: "reduce_args \<Rightarrow> (nat \<Rightarrow> sched) \<Rightarrow> 'a::{plus,zero} rstate \<Rightarrow> 'a rstate \<Rightarrow> bool"
  for ra S s0 where
  rreach_refl: "rreach ra S s0 s0"
| rreach_step: "rreach ra S s0 s \<Longrightarrow> rstep ra S s t \<Longrightarrow> rreach ra S s0 t"

definition all_done :: "reduce_args \<Rightarrow> 'a rstate \<Rightarrow> bool" where
  "all_done ra s \<longleftrightarrow> (\<forall>g<blocks ra. pc s g = Done)"

section \<open>The invariant of a launch\<close>

definition block_sum :: "reduce_args \<Rightarrow> (nat \<Rightarrow> nat \<Rightarrow> 'a::comm_monoid_add) \<Rightarrow> nat \<Rightarrow> 'a" where
  "block_sum ra m g = sum (\<lambda>i. m (in_b ra) (rstart ra + i)) {block_first ra g..<block_last ra g}"

definition blocks_total :: "reduce_args \<Rightarrow> (nat \<Rightarrow> nat \<Rightarrow> 'a::comm_monoid_add) \<Rightarrow> 'a" where
  "blocks_total ra m = sum (block_sum ra m) {..<blocks ra}"

text \<open>What the launch needs: a real work-group size, and buffers that do not clash.\<close>

definition launch_ok :: "reduce_args \<Rightarrow> bool" where
  "launch_ok ra \<longleftrightarrow> pow2 (wgs ra) \<and> 0 < blocks ra \<and> blocks ra < 2 ^ 32 \<and> in_b ra \<noteq> part_b ra
     \<and> (out_b ra = part_b ra \<longrightarrow> blocks ra \<le> outPos ra)"

fun decremented :: "'a pc \<Rightarrow> bool" where
  "decremented Start = False"
| "decremented (Summed v) = False"
| "decremented Stored = False"
| "decremented p = True"

fun finalising :: "'a pc \<Rightarrow> bool" where
  "finalising Final = True"
| "finalising (FinalSummed v) = True"
| "finalising (Reset v) = True"
| "finalising p = False"

definition waiting :: "reduce_args \<Rightarrow> 'a rstate \<Rightarrow> nat set" where
  "waiting ra s = {g. g < blocks ra \<and> \<not> decremented (pc s g)}"

fun partial_ok :: "'a \<Rightarrow> 'a \<Rightarrow> 'a pc \<Rightarrow> bool" where
  "partial_ok b x Start = True"
| "partial_ok b x (Summed v) = (v = b)"
| "partial_ok b x p = (x = b)"

definition partials_ok :: "reduce_args \<Rightarrow> (nat \<Rightarrow> nat \<Rightarrow> 'a::comm_monoid_add) \<Rightarrow> 'a rstate \<Rightarrow> bool" where
  "partials_ok ra m0 s \<longleftrightarrow>
     (\<forall>g<blocks ra. partial_ok (block_sum ra m0 g) (mem s (part_b ra) g) (pc s g))"

definition mem_ok :: "reduce_args \<Rightarrow> (nat \<Rightarrow> nat \<Rightarrow> 'a) \<Rightarrow> (nat \<Rightarrow> nat \<Rightarrow> 'a) \<Rightarrow> bool" where
  "mem_ok ra m0 m \<longleftrightarrow> (\<forall>b i. b = part_b ra \<and> i < blocks ra \<or> m b i = m0 b i)"

definition stage_counting :: "reduce_args \<Rightarrow> (nat \<Rightarrow> nat \<Rightarrow> 'a) \<Rightarrow> 'a rstate \<Rightarrow> bool" where
  "stage_counting ra m0 s \<longleftrightarrow> waiting ra s \<noteq> {} \<and> (\<forall>g<blocks ra. \<not> finalising (pc s g))
     \<and> wgc s = of_nat (card (waiting ra s)) \<and> mem_ok ra m0 (mem s)"

definition stage_final :: "reduce_args \<Rightarrow> (nat \<Rightarrow> nat \<Rightarrow> 'a::comm_monoid_add) \<Rightarrow> nat \<Rightarrow> 'a rstate \<Rightarrow> bool" where
  "stage_final ra m0 h s \<longleftrightarrow> h < blocks ra \<and> (\<forall>g<blocks ra. g \<noteq> h \<longrightarrow> pc s g = Done)
     \<and> (pc s h = Final \<or> pc s h = FinalSummed (blocks_total ra m0)
        \<or> pc s h = Reset (blocks_total ra m0) \<and> wgc s = of_nat (blocks ra))
     \<and> mem_ok ra m0 (mem s)"

definition stage_finished :: "reduce_args \<Rightarrow> (nat \<Rightarrow> nat \<Rightarrow> 'a::comm_monoid_add) \<Rightarrow> 'a rstate \<Rightarrow> bool" where
  "stage_finished ra m0 s \<longleftrightarrow> all_done ra s \<and> wgc s = of_nat (blocks ra)
     \<and> mem_ok ra (set_mem (out_b ra) (outPos ra) (blocks_total ra m0) m0) (mem s)"

definition rinv :: "reduce_args \<Rightarrow> (nat \<Rightarrow> nat \<Rightarrow> 'a::comm_monoid_add) \<Rightarrow> 'a rstate \<Rightarrow> bool" where
  "rinv ra m0 s \<longleftrightarrow> partials_ok ra m0 s \<and>
     (stage_counting ra m0 s \<or> (\<exists>h. stage_final ra m0 h s) \<or> stage_finished ra m0 s)"

lemma finite_waiting [simp]: "finite (waiting ra s)"
  by (simp add: waiting_def)

lemma waiting_upd:
  "g < blocks ra \<Longrightarrow> waiting ra (s\<lparr>pc := (pc s)(g := p)\<rparr>) =
     (if decremented p then waiting ra s - {g} else insert g (waiting ra s))"
  by (auto simp: waiting_def)

lemma waiting_mem [simp]:
  "waiting ra (s\<lparr>mem := m, pc := q\<rparr>) = waiting ra (s\<lparr>pc := q\<rparr>)"
  "waiting ra (s\<lparr>wgc := c, pc := q\<rparr>) = waiting ra (s\<lparr>pc := q\<rparr>)"
  by (simp_all add: waiting_def)

lemma card_waiting_le: "card (waiting ra s) \<le> blocks ra"
proof -
  have "waiting ra s \<subseteq> {..<blocks ra}" by (auto simp: waiting_def)
  then have "card (waiting ra s) \<le> card {..<blocks ra}" by (intro card_mono) auto
  then show ?thesis by simp
qed

lemma card_waiting_one:
  assumes "blocks ra < 2 ^ 32" "(of_nat (card (waiting ra s)) :: 32 word) = 1" "g \<in> waiting ra s"
  shows "waiting ra s = {g}"
proof -
  have "card (waiting ra s) < 2 ^ 32" using card_waiting_le [of ra s] assms(1) by simp
  then have "card (waiting ra s) = unat (of_nat (card (waiting ra s)) :: 32 word)"
    by (simp add: unat_of_nat)
  also have "\<dots> = 1" by (simp add: assms(2))
  finally obtain x where "waiting ra s = {x}" by (auto simp: card_1_singleton_iff)
  with assms(3) show ?thesis by auto
qed

lemma rinv_init:
  assumes "launch_ok ra"
  shows "rinv ra m (rinit m (of_nat (blocks ra)))"
proof -
  have "waiting ra (rinit m (of_nat (blocks ra))) = {..<blocks ra}"
    by (auto simp: waiting_def rinit_def)
  then show ?thesis using assms
    by (auto simp: rinv_def partials_ok_def stage_counting_def mem_ok_def rinit_def launch_ok_def)
qed

text \<open>A group that has not finished its part keeps the launch in its counting stage.\<close>

lemma stage_of_waiting:
  assumes "rinv ra m0 s" "g < blocks ra" "\<not> decremented (pc s g)"
  shows "stage_counting ra m0 s"
proof -
  have "\<not> stage_final ra m0 h s" for h
    using assms(2,3) by (auto simp: stage_final_def)
  moreover have "\<not> stage_finished ra m0 s"
    using assms(2,3) by (auto simp: stage_finished_def all_done_def)
  ultimately show ?thesis using assms(1) by (auto simp: rinv_def)
qed

lemma stage_of_finalising:
  assumes "rinv ra m0 s" "g < blocks ra" "finalising (pc s g)"
  shows "stage_final ra m0 g s"
proof -
  have "\<not> stage_counting ra m0 s" using assms by (auto simp: stage_counting_def)
  moreover have "\<not> stage_finished ra m0 s" using assms(2,3) by (auto simp: stage_finished_def all_done_def)
  moreover have "h = g" if "stage_final ra m0 h s" for h
    using that assms(2,3) by (auto simp: stage_final_def)
  ultimately show ?thesis using assms(1) by (auto simp: rinv_def)
qed

lemma partials_upd:
  assumes "partials_ok ra m0 s" "g < blocks ra"
    "partial_ok (block_sum ra m0 g) (mem s (part_b ra) g) p"
  shows "partials_ok ra m0 (s\<lparr>pc := (pc s)(g := p)\<rparr>)"
  using assms by (auto simp: partials_ok_def)

lemma partials_at:
  assumes "partials_ok ra m0 s" "g < blocks ra" "pc s g = p" "p \<noteq> Start" "\<forall>v. p \<noteq> Summed v"
  shows "mem s (part_b ra) g = block_sum ra m0 g"
proof -
  have "partial_ok (block_sum ra m0 g) (mem s (part_b ra) g) p"
    using assms(1-3) by (auto simp: partials_ok_def)
  then show ?thesis using assms(4,5) by (cases p) auto
qed

lemma partials_ok_wgc [simp]:
  "partials_ok ra m0 (s\<lparr>wgc := c, pc := q\<rparr>) = partials_ok ra m0 (s\<lparr>pc := q\<rparr>)"
  by (simp add: partials_ok_def)

lemma rinv_sum_block:
  assumes ok: "launch_ok ra" and S: "\<And>g. valid (wgs ra) (S g)"
    and inv: "rinv ra m0 s" and g: "g < blocks ra" "pc s g = Start"
  shows "rinv ra m0 (s\<lparr>pc := (pc s)(g := Summed (reduceRange (sub (S g) [0]) (wgs ra)
      (\<lambda>i. mem s (in_b ra) (rstart ra + i)) (block_first ra g) (block_last ra g) (\<lambda>_. 0) 0))\<rparr>)"
    (is "rinv ra m0 (s\<lparr>pc := (pc s)(g := Summed ?v)\<rparr>)")
proof -
  have st: "stage_counting ra m0 s" by (rule stage_of_waiting [OF inv g(1)]) (simp add: g)
  have "mem_ok ra m0 (mem s)" "in_b ra \<noteq> part_b ra"
    using st ok by (auto simp: stage_counting_def launch_ok_def)
  then have "mem s (in_b ra) = m0 (in_b ra)" by (intro ext) (auto simp: mem_ok_def)
  then have "?v = block_sum ra m0 g"
    using ok S by (simp add: block_sum_def reduceRange_sum valid_sub launch_ok_def)
  then have "partials_ok ra m0 (s\<lparr>pc := (pc s)(g := Summed ?v)\<rparr>)"
    using inv g by (intro partials_upd) (auto simp: rinv_def)
  moreover have "g \<in> waiting ra s" using g by (simp add: waiting_def)
  then have "stage_counting ra m0 (s\<lparr>pc := (pc s)(g := Summed ?v)\<rparr>)"
    using st g by (auto simp: stage_counting_def waiting_upd insert_absorb)
  ultimately show ?thesis by (simp add: rinv_def)
qed

lemma rinv_store_partial:
  assumes ok: "launch_ok ra" and inv: "rinv ra m0 s" and g: "g < blocks ra" "pc s g = Summed v"
  shows "rinv ra m0 (s\<lparr>mem := set_mem (part_b ra) g v (mem s), pc := (pc s)(g := Stored)\<rparr>)"
proof -
  have st: "stage_counting ra m0 s" by (rule stage_of_waiting [OF inv g(1)]) (simp add: g)
  have "v = block_sum ra m0 g" using inv g by (auto simp: rinv_def partials_ok_def)
  then have "partials_ok ra m0 (s\<lparr>mem := set_mem (part_b ra) g v (mem s), pc := (pc s)(g := Stored)\<rparr>)"
    using inv g by (auto simp: rinv_def partials_ok_def set_mem_def)
  moreover have "g \<in> waiting ra s" using g by (simp add: waiting_def)
  then have "stage_counting ra m0 (s\<lparr>mem := set_mem (part_b ra) g v (mem s), pc := (pc s)(g := Stored)\<rparr>)"
    using st g by (auto simp: stage_counting_def waiting_upd insert_absorb mem_ok_def set_mem_def)
  ultimately show ?thesis by (simp add: rinv_def)
qed

lemma rinv_atomic_dec:
  assumes ok: "launch_ok ra" and inv: "rinv ra m0 s" and g: "g < blocks ra" "pc s g = Stored"
  shows "rinv ra m0 (s\<lparr>wgc := wgc s - 1, pc := (pc s)(g := if wgc s = 1 then Final else Done)\<rparr>)"
    (is "rinv ra m0 ?t")
proof -
  have st: "stage_counting ra m0 s" by (rule stage_of_waiting [OF inv g(1)]) (simp add: g)
  have P: "partials_ok ra m0 s" using inv by (simp add: rinv_def)
  have pg: "mem s (part_b ra) g = block_sum ra m0 g"
    using partials_at [OF P g] by simp
  have P': "partials_ok ra m0 ?t"
    unfolding partials_ok_wgc by (rule partials_upd [OF P g(1)]) (simp add: pg)
  have gW: "g \<in> waiting ra s" using g by (simp add: waiting_def)
  show ?thesis
  proof (cases "waiting ra s = {g}")
    case True
    have others: "pc s h = Done" if "h < blocks ra" "h \<noteq> g" for h
    proof -
      have "decremented (pc s h)" using True that by (auto simp: waiting_def)
      moreover have "\<not> finalising (pc s h)" using st that by (auto simp: stage_counting_def)
      ultimately show ?thesis by (cases "pc s h") auto
    qed
    have "wgc s = 1" using st True by (simp add: stage_counting_def)
    then have "stage_final ra m0 g ?t"
      using st others g by (auto simp: stage_final_def stage_counting_def)
    with P' show ?thesis by (auto simp: rinv_def)
  next
    case False
    have ne: "wgc s \<noteq> 1"
      using card_waiting_one [OF _ _ gW] st ok False by (auto simp: stage_counting_def launch_ok_def)
    have c: "card (waiting ra s - {g}) = card (waiting ra s) - 1" "1 \<le> card (waiting ra s)"
      using gW by (auto simp: card_Diff_singleton Suc_le_eq card_gt_0_iff)
    have "stage_counting ra m0 ?t"
      using st False gW ne g c by (auto simp: stage_counting_def waiting_upd)
    with P' show ?thesis by (simp add: rinv_def)
  qed
qed

lemma rinv_sum_partials:
  assumes ok: "launch_ok ra" and S: "\<And>g. valid (wgs ra) (S g)"
    and inv: "rinv ra m0 s" and g: "g < blocks ra" "pc s g = Final"
  shows "rinv ra m0 (s\<lparr>pc := (pc s)(g := FinalSummed (reduceRange (sub (S g) [1]) (wgs ra)
      (mem s (part_b ra)) 0 (blocks ra) (\<lambda>_. 0) 0))\<rparr>)"
    (is "rinv ra m0 (s\<lparr>pc := (pc s)(g := FinalSummed ?v)\<rparr>)")
proof -
  have st: "stage_final ra m0 g s" by (rule stage_of_finalising [OF inv g(1)]) (simp add: g)
  have P: "partials_ok ra m0 s" using inv by (simp add: rinv_def)
  have all: "mem s (part_b ra) h = block_sum ra m0 h" if "h < blocks ra" for h
    using partials_at [OF P that refl] st g that
    by (cases "h = g") (auto simp: stage_final_def)
  have "?v = sum (mem s (part_b ra)) {0..<blocks ra}"
    using ok S by (simp add: reduceRange_sum valid_sub launch_ok_def)
  also have "\<dots> = blocks_total ra m0"
    by (simp add: blocks_total_def atLeast0LessThan all)
  finally have v: "?v = blocks_total ra m0" .
  have "partials_ok ra m0 (s\<lparr>pc := (pc s)(g := FinalSummed ?v)\<rparr>)"
    by (rule partials_upd [OF P g(1)]) (simp add: all g)
  moreover have "stage_final ra m0 g (s\<lparr>pc := (pc s)(g := FinalSummed ?v)\<rparr>)"
    using st v by (auto simp: stage_final_def)
  ultimately show ?thesis by (auto simp: rinv_def)
qed

lemma rinv_reset_counter:
  assumes ok: "launch_ok ra" and inv: "rinv ra m0 s" and g: "g < blocks ra" "pc s g = FinalSummed v"
  shows "rinv ra m0 (s\<lparr>wgc := of_nat (blocks ra), pc := (pc s)(g := Reset v)\<rparr>)"
proof -
  have st: "stage_final ra m0 g s" by (rule stage_of_finalising [OF inv g(1)]) (simp add: g)
  have P: "partials_ok ra m0 s" using inv by (simp add: rinv_def)
  have "partials_ok ra m0 (s\<lparr>wgc := of_nat (blocks ra), pc := (pc s)(g := Reset v)\<rparr>)"
    unfolding partials_ok_wgc
    by (rule partials_upd [OF P g(1)]) (use partials_at [OF P g] in simp)
  moreover have "stage_final ra m0 g (s\<lparr>wgc := of_nat (blocks ra), pc := (pc s)(g := Reset v)\<rparr>)"
    using st g by (auto simp: stage_final_def)
  ultimately show ?thesis by (auto simp: rinv_def)
qed

lemma rinv_write_out:
  assumes ok: "launch_ok ra" and inv: "rinv ra m0 s" and g: "g < blocks ra" "pc s g = Reset v"
  shows "rinv ra m0 (s\<lparr>mem := set_mem (out_b ra) (outPos ra) v (mem s), pc := (pc s)(g := Done)\<rparr>)"
    (is "rinv ra m0 ?t")
proof -
  have st: "stage_final ra m0 g s" by (rule stage_of_finalising [OF inv g(1)]) (simp add: g)
  have P: "partials_ok ra m0 s" using inv by (simp add: rinv_def)
  have fr: "mem ?t (part_b ra) h = mem s (part_b ra) h" if "h < blocks ra" for h
    using ok that by (auto simp: set_mem_def launch_ok_def)
  have "mem s (part_b ra) h = block_sum ra m0 h" if "h < blocks ra" for h
    using partials_at [OF P that refl] st g that by (cases "h = g") (auto simp: stage_final_def)
  then have "partials_ok ra m0 ?t"
    using fr st by (auto simp: partials_ok_def stage_final_def)
  moreover have "stage_finished ra m0 ?t"
    using st g ok by (auto simp: stage_finished_def stage_final_def all_done_def mem_ok_def set_mem_def)
  ultimately show ?thesis by (simp add: rinv_def)
qed

lemma rstep_rinv:
  assumes "rstep ra S s t" "launch_ok ra" "\<And>g. valid (wgs ra) (S g)" "rinv ra m0 s"
  shows "rinv ra m0 t"
  using assms
  by (induction rule: rstep.induct)
    (simp_all only: rinv_sum_block rinv_store_partial rinv_atomic_dec rinv_sum_partials
      rinv_reset_counter rinv_write_out)

lemma rreach_rinv:
  assumes "rreach ra S (rinit m0 (of_nat (blocks ra))) s" "launch_ok ra" "\<And>g. valid (wgs ra) (S g)"
  shows "rinv ra m0 s"
  using assms by (induction rule: rreach.induct) (auto intro: rinv_init rstep_rinv)

section \<open>Termination and progress\<close>

fun pc_rank :: "'a pc \<Rightarrow> nat" where
  "pc_rank Start = 6"
| "pc_rank (Summed v) = 5"
| "pc_rank Stored = 4"
| "pc_rank Final = 3"
| "pc_rank (FinalSummed v) = 2"
| "pc_rank (Reset v) = 1"
| "pc_rank Done = 0"

definition launch_rank :: "reduce_args \<Rightarrow> 'a rstate \<Rightarrow> nat" where
  "launch_rank ra s = (\<Sum>g<blocks ra. pc_rank (pc s g))"

lemma launch_rank_upd:
  assumes "g < blocks ra" "pc_rank p < pc_rank (pc s g)" "pc t = (pc s)(g := p)"
  shows "launch_rank ra t < launch_rank ra s"
  unfolding launch_rank_def using assms by (intro sum_strict_mono_ex1) auto

lemma rstep_rank: "rstep ra S s t \<Longrightarrow> launch_rank ra t < launch_rank ra s"
  by (induction rule: rstep.induct) (rule launch_rank_upd, assumption, auto)+

lemma rstep_exists:
  assumes "g < blocks ra" "pc s g \<noteq> Done"
  shows "\<exists>t. rstep ra S s t"
  using assms(2) by (cases "pc s g") (blast intro: rstep.intros [OF assms(1)])+

lemma rsteps_rank: "(rstep ra S ^^ n) s t \<Longrightarrow> n + launch_rank ra t \<le> launch_rank ra s"
proof (induction n arbitrary: t)
  case 0
  then show ?case by simp
next
  case (Suc n)
  then obtain u where "(rstep ra S ^^ n) s u" "rstep ra S u t" by auto
  then show ?case using Suc.IH [of u] rstep_rank [of ra S u t] by simp
qed

lemma rank_init: "launch_rank ra (rinit m c) = 6 * blocks ra"
  by (simp add: launch_rank_def rinit_def)

text \<open>The measure drops, so some completed state is always reachable.\<close>

lemma rreach_completes: "\<exists>t. rreach ra S s t \<and> all_done ra t"
proof -
  have "rreach ra S s0 s \<Longrightarrow> \<exists>t. rreach ra S s0 t \<and> all_done ra t" for s0 s
  proof (induction "launch_rank ra s" arbitrary: s rule: less_induct)
    case less
    show ?case
    proof (cases "all_done ra s")
      case False
      then obtain t where "rstep ra S s t" using rstep_exists unfolding all_done_def by blast
      then show ?thesis using less rstep_rank rreach_step by blast
    qed (use less in blast)
  qed
  then show ?thesis using rreach_refl by blast
qed

section \<open>The blocks tile the range\<close>

lemma block_range:
  assumes "g < blocks ra" "blocks ra * blockSize ra < 2 ^ 32"
  shows "block_first ra g = g * blockSize ra"
    and "block_last ra g = min (g * blockSize ra + blockSize ra) (elements ra)"
proof -
  have "Suc g * blockSize ra \<le> blocks ra * blockSize ra" using assms(1) by (intro mult_right_mono) auto
  then have "g * blockSize ra + blockSize ra < 2 ^ 32" using assms(2) by simp
  then show "block_first ra g = g * blockSize ra"
    and "block_last ra g = min (g * blockSize ra + blockSize ra) (elements ra)"
    by (simp_all add: block_first_def block_last_def u32_small)
qed

lemma tiles_sum:
  fixes f :: "nat \<Rightarrow> 'a::comm_monoid_add"
  shows "(\<Sum>g<n. sum f {g * w..<min (g * w + w) e}) = sum f {..<min (n * w) e}"
proof (induction n)
  case 0
  then show ?case by simp
next
  case (Suc n)
  have "sum f {0..<min (n * w) e} + sum f {n * w..<min (n * w + w) e} = sum f {0..<min (Suc n * w) e}"
  proof (cases "n * w \<le> e")
    case True
    then have "min (n * w) e = n * w" by simp
    moreover have "sum f {0..<n * w} + sum f {n * w..<min (n * w + w) e} = sum f {0..<min (n * w + w) e}"
      using True by (intro sum_split_at) auto
    ultimately show ?thesis by (simp add: add.commute)
  next
    case False
    then have "min (n * w) e = e" "min (n * w + w) e = e" "min (Suc n * w) e = e" "e < n * w" by auto
    then show ?thesis by simp
  qed
  with Suc show ?case by (simp add: lessThan_atLeast0)
qed

lemma blocks_total_range:
  fixes m :: "nat \<Rightarrow> nat \<Rightarrow> 'a::comm_monoid_add"
  assumes "blocks ra * blockSize ra < 2 ^ 32" "elements ra \<le> blocks ra * blockSize ra"
  shows "blocks_total ra m = (\<Sum>i<elements ra. m (in_b ra) (rstart ra + i))"
proof -
  have "blocks_total ra m = (\<Sum>g<blocks ra. sum (\<lambda>i. m (in_b ra) (rstart ra + i))
      {g * blockSize ra..<min (g * blockSize ra + blockSize ra) (elements ra)})"
    unfolding blocks_total_def block_sum_def
    by (intro sum.cong) (simp_all add: block_range [OF _ assms(1)])
  then show ?thesis using assms(2) by (simp add: tiles_sum min_absorb2)
qed

lemma reduce_launch_result:
  fixes m :: "nat \<Rightarrow> nat \<Rightarrow> 'a::comm_monoid_add"
  assumes "launch_ok ra" and "\<And>g. valid (wgs ra) (S g)"
    and "blocks ra * blockSize ra < 2 ^ 32" and "elements ra \<le> blocks ra * blockSize ra"
    and "rreach ra S (rinit m (of_nat (blocks ra))) s" and "all_done ra s"
  shows "mem s (out_b ra) (outPos ra) = (\<Sum>i<elements ra. m (in_b ra) (rstart ra + i))
    \<and> wgc s = of_nat (blocks ra)
    \<and> (\<forall>b i. (b = out_b ra \<and> i = outPos ra) \<or> (b = part_b ra \<and> i < blocks ra) \<or> mem s b i = m b i)"
proof -
  have inv: "rinv ra m s" using assms by (blast intro: rreach_rinv)
  have pos: "0 < blocks ra" using assms(1) by (simp add: launch_ok_def)
  have "\<not> stage_counting ra m s" using assms(6) by (auto simp: stage_counting_def all_done_def waiting_def)
  moreover have "\<not> stage_final ra m h s" for h using assms(6) by (auto simp: stage_final_def all_done_def)
  ultimately have "stage_finished ra m s" using inv by (auto simp: rinv_def)
  then have w: "wgc s = of_nat (blocks ra)"
    and mm: "mem_ok ra (set_mem (out_b ra) (outPos ra) (blocks_total ra m) m) (mem s)"
    by (auto simp: stage_finished_def)
  have "mem s (out_b ra) (outPos ra) = blocks_total ra m"
    using mm [unfolded mem_ok_def, rule_format, of "out_b ra" "outPos ra"] assms(1)
    by (auto simp: set_mem_def launch_ok_def)
  moreover have "(b = out_b ra \<and> i = outPos ra) \<or> (b = part_b ra \<and> i < blocks ra) \<or> mem s b i = m b i" for b i
    using mm [unfolded mem_ok_def, rule_format, of b i] by (auto simp: set_mem_def split: if_splits)
  ultimately show ?thesis using w assms(3,4) by (simp add: blocks_total_range)
qed

section \<open>Properties\<close>




section \<open>Witnesses\<close>

definition example_launch :: reduce_args where
  "example_launch = \<lparr>wgs = 2, blocks = 2, out_b = 1, outPos = 0, in_b = 0, rstart = 1, elements = 3,
     part_b = 2, blockSize = 2\<rparr>"

lemma example_launch_ok: "launch_ok example_launch"
  by (simp add: launch_ok_def example_launch_def pow2_def) (metis power_one_right)



end
