(* ===== verification/ReduceHost.thy ===== *)
theory ReduceHost
  imports OpenCL CacheTypes ReduceKernel TunePolicy
begin

text \<open>
  The host side of the reduction, src/reduce.cpp: the problem object, the preparation of the
  kernel with its counter buffer, and the two forms of \<^verbatim>\<open>enqueue\<close> (result to a buffer, or
  read back to the host). The execution of a launch is the step relation of ReduceKernel, so the
  theorems cover every interleaving of the work-groups; the counter that a launch leaves behind
  is the one the next launch needs, so a reduction object can be used again.
\<close>

section \<open>The problem\<close>

record reduce_problem =
  rp_type :: cl_type
  rp_tunePolicy :: tune_policy

definition ReduceProblem_new :: reduce_problem where
  "ReduceProblem_new = \<lparr>rp_type = void_type, rp_tunePolicy = TunePolicy_new\<rparr>"

definition ReduceProblem_setType :: "cl_type \<Rightarrow> reduce_problem \<Rightarrow> reduce_problem result" where
  "ReduceProblem_setType t p =
     (if baseType t = TYPE_VOID then Inl (InvalidArgument ''type must not be void'')
      else Inr (p\<lparr>rp_type := t\<rparr>))"

definition ReduceProblem_setTunePolicy :: "tune_policy \<Rightarrow> reduce_problem \<Rightarrow> reduce_problem" where
  "ReduceProblem_setTunePolicy tp p = p\<lparr>rp_tunePolicy := tp\<rparr>"

definition Reduce_typeSupported :: "device \<Rightarrow> cl_type \<Rightarrow> bool" where
  "Reduce_typeSupported d t \<longleftrightarrow> isComputable t d \<and> isStorable t d"

section \<open>The reduce object\<close>

text \<open>\<open>rd_sums\<close> is the buffer of partial sums; \<open>rd_wgc\<close> names the counter buffer.\<close>

record 'a reduce =
  rd_workGroupSize :: nat
  rd_blocks :: nat
  rd_elementSize :: nat
  rd_kernel :: "'a kernel"
  rd_sums :: buffer
  rd_wgc :: nat
  rd_alg :: alg

definition reduce_defines :: "cl_type \<Rightarrow> reduce_value \<Rightarrow> int std_map" where
  "reduce_defines t params = puts (
     (if baseType t = TYPE_HALF then [(''ENABLE_KHR_FP16'', 1)] else [])
     @ (if baseType t = TYPE_DOUBLE then [(''ENABLE_KHR_FP64'', 1)] else [])
     @ [(''REDUCE_WORK_GROUP_SIZE'', int (r_reduceWorkGroupSize params)),
        (''REDUCE_BLOCKS'', int (r_reduceBlocks params))])"

text \<open>
  \<open>alloc\<close> creates a buffer with flags and size; for the counter the initial value is
  copied from the host. The result is the object and the initial value of the counter.
\<close>

definition Reduce_initialize ::
  "(nat \<Rightarrow> nat \<Rightarrow> nat result) \<Rightarrow> (string \<Rightarrow> int std_map \<Rightarrow> string std_map \<Rightarrow> program result) \<Rightarrow>
   (program \<Rightarrow> string \<Rightarrow> 'a kernel result) \<Rightarrow> reduce_problem \<Rightarrow> reduce_value \<Rightarrow>
   ('a reduce \<times> 32 word) result" where
  "Reduce_initialize alloc bld mk problem params =
     (let esize = getSize (rp_type problem); n = (r_reduceBlocks params + 1) * esize in
      case
       (bind_result (alloc CL_MEM_READ_WRITE n) (\<lambda>sums.
        bind_result (alloc (or CL_MEM_READ_WRITE CL_MEM_COPY_HOST_PTR) 4) (\<lambda>wgc.
        bind_result (bld ''reduce.cl'' (reduce_defines (rp_type problem) params)
                      (puts [(''REDUCE_T'', getName (rp_type problem))])) (\<lambda>program.
        bind_result (mk program ''reduce'') (\<lambda>k.
        Inr (\<lparr>rd_workGroupSize = r_reduceWorkGroupSize params, rd_blocks = r_reduceBlocks params,
              rd_elementSize = esize, rd_kernel = setArg 6 (ABuf sums) (setArg 0 (ABuf wgc) k),
              rd_sums = \<lparr>buf_id = sums, buf_size = n, buf_flags = CL_MEM_READ_WRITE\<rparr>,
              rd_wgc = wgc, rd_alg = new_alg\<rparr>, of_nat (r_reduceBlocks params))))))) of
        Inl (ClError c m) \<Rightarrow> Inl (InternalError (''Error preparing kernels for reduce: '' @ m))
      | r \<Rightarrow> r)"

section \<open>Enqueueing\<close>

definition reduce_validate ::
  "'a reduce \<Rightarrow> buffer \<Rightarrow> buffer \<Rightarrow> nat \<Rightarrow> nat \<Rightarrow> nat \<Rightarrow> unit result" where
  "reduce_validate rd inBuffer outBuffer first elems outPosition =
     (if u64 (first + elems) < first
      then Inl (ClError CL_INVALID_VALUE ''clogs::Reduce::enqueue: range out of input buffer bounds'')
      else if buf_size inBuffer div rd_elementSize rd < u64 (first + elems)
      then Inl (ClError CL_INVALID_VALUE ''clogs::Reduce::enqueue: range out of input buffer bounds'')
      else if buf_size outBuffer div rd_elementSize rd \<le> outPosition
      then Inl (ClError CL_INVALID_VALUE ''clogs::Reduce::enqueue: output position out of buffer bounds'')
      else if \<not> readable inBuffer
      then Inl (ClError CL_INVALID_VALUE ''clogs::Reduce::enqueue: input buffer is not readable'')
      else if \<not> writable outBuffer
      then Inl (ClError CL_INVALID_VALUE ''clogs::Reduce::enqueue: output buffer is not writable'')
      else if elems = 0
      then Inl (ClError CL_INVALID_GLOBAL_WORK_SIZE ''clogs::Reduce::enqueue: elements is zero'')
      else Inr ())"

definition reduce_blockSize :: "'a reduce \<Rightarrow> nat \<Rightarrow> nat" where
  "reduce_blockSize rd elems = roundUp elems (u64 (rd_workGroupSize rd * rd_blocks rd)) div rd_blocks rd"

definition reduce_set_args ::
  "buffer \<Rightarrow> buffer \<Rightarrow> nat \<Rightarrow> nat \<Rightarrow> nat \<Rightarrow> 'a reduce \<Rightarrow> 'a reduce" where
  "reduce_set_args inBuffer outBuffer first elems outPosition rd =
     rd\<lparr>rd_kernel :=
       setArg 7 (AUint (u32 (reduce_blockSize rd elems)))
        (setArg 5 (AUint (u32 elems))
         (setArg 4 (AUint (u32 first))
          (setArg 3 (ABuf (buf_id inBuffer))
           (setArg 2 (AUint (u32 outPosition))
            (setArg 1 (ABuf (buf_id outBuffer)) (rd_kernel rd))))))\<rparr>"

definition reduce_enqueue ::
  "('a command \<Rightarrow> int) \<Rightarrow> buffer \<Rightarrow> buffer \<Rightarrow> nat \<Rightarrow> nat \<Rightarrow> nat \<Rightarrow> nat list option \<Rightarrow>
   'a reduce \<times> 'a queue \<Rightarrow> nat result \<times> 'a reduce \<times> 'a queue" where
  "reduce_enqueue drv inBuffer outBuffer first elems outPosition events st =
     (case st of (rd, q) \<Rightarrow>
       case reduce_validate rd inBuffer outBuffer first elems outPosition of
         Inl e \<Rightarrow> (Inl e, rd, q)
       | Inr _ \<Rightarrow>
           let rd' = reduce_set_args inBuffer outBuffer first elems outPosition rd;
               (r, q') = bind_op (enqueueNDRange drv (rd_kernel rd')
                   (rd_workGroupSize rd * rd_blocks rd) (rd_workGroupSize rd) events)
                 (\<lambda>e. bind_op (update_op (notify (rd_alg rd) e)) (\<lambda>_. return_op e)) q
           in (r, rd', q'))"

text \<open>
  The form that reads the result back: \<open>out_null\<close> says that the host pointer is null. The
  result is reduced into the extra element of the partial sums and read from there.
\<close>

definition reduce_enqueue_read ::
  "('a command \<Rightarrow> int) \<Rightarrow> bool \<Rightarrow> buffer \<Rightarrow> bool \<Rightarrow> nat \<Rightarrow> nat \<Rightarrow> nat list option \<Rightarrow>
   'a reduce \<times> 'a queue \<Rightarrow> nat result \<times> 'a reduce \<times> 'a queue" where
  "reduce_enqueue_read drv blocking inBuffer out_null first elems events st =
     (case st of (rd, q) \<Rightarrow>
       if out_null then (Inl (ClError CL_INVALID_VALUE ''clogs::Reduce::enqueue: out is NULL''), rd, q)
       else case reduce_enqueue drv inBuffer (rd_sums rd) first elems (rd_blocks rd) events (rd, q) of
         (Inl e, st') \<Rightarrow> (Inl e, st')
       | (Inr e, rd', q') \<Rightarrow>
           let (r, q'') = bind_op (enqueueReadBuffer drv (buf_id (rd_sums rd)) blocking
                   (rd_blocks rd * rd_elementSize rd) (rd_elementSize rd) (Some [e]))
                 (\<lambda>e2. bind_op (update_op (notify (rd_alg rd) e2)) (\<lambda>_. return_op e2)) q'
           in (r, rd', q''))"

definition Reduce_enqueue ::
  "('a command \<Rightarrow> int) \<Rightarrow> buffer \<Rightarrow> buffer \<Rightarrow> nat \<Rightarrow> nat \<Rightarrow> nat \<Rightarrow> nat list option \<Rightarrow>
   'a reduce option \<times> 'a queue \<Rightarrow> nat result \<times> 'a reduce option \<times> 'a queue" where
  "Reduce_enqueue drv inBuffer outBuffer first elems outPosition =
     public_enqueue (reduce_enqueue drv inBuffer outBuffer first elems outPosition)"

definition Reduce_enqueue_read ::
  "('a command \<Rightarrow> int) \<Rightarrow> bool \<Rightarrow> buffer \<Rightarrow> bool \<Rightarrow> nat \<Rightarrow> nat \<Rightarrow> nat list option \<Rightarrow>
   'a reduce option \<times> 'a queue \<Rightarrow> nat result \<times> 'a reduce option \<times> 'a queue" where
  "Reduce_enqueue_read drv blocking inBuffer out_null first elems =
     public_enqueue (reduce_enqueue_read drv blocking inBuffer out_null first elems)"

section \<open>What the commands do\<close>

text \<open>
  The launch that a kernel object with its arguments stands for: the local size must be the one
  that the kernel's attribute requires, and the number of work-groups the one that the program
  was compiled for (the counter protocol relies on it).
\<close>

definition launch_args :: "'a kernel \<Rightarrow> nat \<Rightarrow> nat \<Rightarrow> reduce_args option" where
  "launch_args k g l =
     (case (kargs k 0, kargs k 1, kargs k 2, kargs k 3, kargs k 4, kargs k 5, kargs k 6, kargs k 7) of
        (Some (ABuf wgc_b), Some (ABuf o_b), Some (AUint o_pos), Some (ABuf i_b), Some (AUint start),
         Some (AUint n), Some (ABuf p_b), Some (AUint bs)) \<Rightarrow>
          if kname k = ''reduce'' \<and> range_ok g l \<and> l = macro k ''REDUCE_WORK_GROUP_SIZE''
             \<and> g div l = macro k ''REDUCE_BLOCKS''
          then Some \<lparr>wgs = l, blocks = g div l, out_b = o_b, outPos = o_pos, in_b = i_b, rstart = start,
                     elements = n, part_b = p_b, blockSize = bs\<rparr>
          else None
      | _ \<Rightarrow> None)"

text \<open>Device memory with the counter; \<open>run_reduce_command\<close> relates the states around a command.\<close>

fun run_action ::
  "(nat \<Rightarrow> sched) \<Rightarrow> 'a::{plus,zero} action \<Rightarrow> (nat \<Rightarrow> nat \<Rightarrow> 'a) \<times> 32 word \<Rightarrow> (nat \<Rightarrow> nat \<Rightarrow> 'a) \<times> 32 word \<Rightarrow> bool" where
  "run_action S (Launch k g l) (m, w) (m', w') \<longleftrightarrow>
     (case launch_args k g l of None \<Rightarrow> False
      | Some ra \<Rightarrow> \<exists>s. rreach ra S (rinit m w) s \<and> all_done ra s \<and> m' = mem s \<and> w' = wgc s)"
| "run_action S (ReadBuf b bl off n) mw mw' \<longleftrightarrow> mw' = mw"
| "run_action S (CopyBuf src dst n) mw mw' \<longleftrightarrow> False"

fun run_commands ::
  "dsched \<Rightarrow> 'a::{plus,zero} command list \<Rightarrow> (nat \<Rightarrow> nat \<Rightarrow> 'a) \<times> 32 word \<Rightarrow> (nat \<Rightarrow> nat \<Rightarrow> 'a) \<times> 32 word \<Rightarrow> bool" where
  "run_commands D [] mw mw' \<longleftrightarrow> mw' = mw"
| "run_commands D (c # cs) mw mw' \<longleftrightarrow>
     (\<exists>mw1. run_action (ditems D (ev c)) (act c) mw mw1 \<and> run_commands D cs mw1 mw')"

text \<open>The element that a read command copies to the host.\<close>

fun read_value :: "nat \<Rightarrow> 'a action \<Rightarrow> (nat \<Rightarrow> nat \<Rightarrow> 'a) \<Rightarrow> 'a option" where
  "read_value esize (ReadBuf b bl off n) m = (if esize dvd off \<and> n = esize then Some (m b (off div esize)) else None)"
| "read_value esize _ m = None"

section \<open>Well-formed reduce objects\<close>

text \<open>The check at the top of reduce.cl.\<close>

definition reduce_cl_accepts :: "int std_map \<Rightarrow> bool" where
  "reduce_cl_accepts d \<longleftrightarrow> is_power2 (def_nat d ''REDUCE_WORK_GROUP_SIZE'')"

definition reduce_wf :: "'a reduce \<Rightarrow> bool" where
  "reduce_wf rd \<longleftrightarrow>
     pow2 (rd_workGroupSize rd) \<and> 0 < rd_blocks rd \<and> rd_blocks rd < 2 ^ 32 \<and> 0 < rd_elementSize rd
     \<and> kernel_is (rd_kernel rd) ''reduce''
         [(''REDUCE_WORK_GROUP_SIZE'', rd_workGroupSize rd), (''REDUCE_BLOCKS'', rd_blocks rd)]
         [(0, ABuf (rd_wgc rd)), (6, ABuf (buf_id (rd_sums rd)))]
     \<and> buf_size (rd_sums rd) = (rd_blocks rd + 1) * rd_elementSize rd
     \<and> buf_flags (rd_sums rd) = CL_MEM_READ_WRITE"

lemma reduce_defines_nat [simp]:
  "def_nat (reduce_defines t p) ''REDUCE_WORK_GROUP_SIZE'' = r_reduceWorkGroupSize p"
  "def_nat (reduce_defines t p) ''REDUCE_BLOCKS'' = r_reduceBlocks p"
  by (simp_all add: def_nat_def reduce_defines_def map_of_puts)

lemma prepare_Inr:
  "(case r of Inl (ClError c m) \<Rightarrow> Inl (InternalError (what @ m)) | r \<Rightarrow> r) = Inr x \<longleftrightarrow> r = Inr x"
  by (auto split: sum.splits exn.splits)

lemma reduce_initialize_obj:
  assumes "Reduce_initialize alloc bld mk problem params = Inr (rd, w)"
  obtains su wg p k where
    "bld ''reduce.cl'' (reduce_defines (rp_type problem) params) (puts [(''REDUCE_T'', getName (rp_type problem))]) = Inr p"
    "mk p ''reduce'' = Inr k" "w = of_nat (r_reduceBlocks params)"
    "rd = \<lparr>rd_workGroupSize = r_reduceWorkGroupSize params, rd_blocks = r_reduceBlocks params,
       rd_elementSize = getSize (rp_type problem), rd_kernel = setArg 6 (ABuf su) (setArg 0 (ABuf wg) k),
       rd_sums = \<lparr>buf_id = su, buf_size = (r_reduceBlocks params + 1) * getSize (rp_type problem),
         buf_flags = CL_MEM_READ_WRITE\<rparr>, rd_wgc = wg, rd_alg = new_alg\<rparr>"
  using assms unfolding Reduce_initialize_def Let_def prepare_Inr bind_result_Inr by blast

lemma reduce_initialize_obj_wf:
  assumes "\<And>d s p. bld ''reduce.cl'' d s = Inr p \<Longrightarrow> pdefs p = d \<and> reduce_cl_accepts d"
    and "\<And>p n k. mk p n = Inr k \<Longrightarrow> k = new_kernel p n"
    and "0 < r_reduceBlocks params" and "r_reduceBlocks params < 2 ^ 32" and "0 < getSize (rp_type problem)"
    and "Reduce_initialize alloc bld mk problem params = Inr (rd, w)"
  shows "reduce_wf rd \<and> w = of_nat (rd_blocks rd)"
proof -
  from assms(6) obtain su wg p k where p: "bld ''reduce.cl'' (reduce_defines (rp_type problem) params)
      (puts [(''REDUCE_T'', getName (rp_type problem))]) = Inr p"
    and k: "mk p ''reduce'' = Inr k" and w: "w = of_nat (r_reduceBlocks params)"
    and rd: "rd = \<lparr>rd_workGroupSize = r_reduceWorkGroupSize params, rd_blocks = r_reduceBlocks params,
       rd_elementSize = getSize (rp_type problem), rd_kernel = setArg 6 (ABuf su) (setArg 0 (ABuf wg) k),
       rd_sums = \<lparr>buf_id = su, buf_size = (r_reduceBlocks params + 1) * getSize (rp_type problem),
         buf_flags = CL_MEM_READ_WRITE\<rparr>, rd_wgc = wg, rd_alg = new_alg\<rparr>"
    by (rule reduce_initialize_obj)
  show ?thesis
    using assms(1) [OF p] assms(2) [OF k] assms(3-5)
    by (simp add: reduce_wf_def rd w kernel_is_def macro_def_nat reduce_cl_accepts_def is_power2_iff)
qed

lemma reduce_set_args_wf: "reduce_wf rd \<Longrightarrow> reduce_wf (reduce_set_args i out f n pos rd)"
  by (simp add: reduce_wf_def reduce_set_args_def kernel_is_def)

definition reduce_sizes_ok :: "'a reduce \<Rightarrow> nat \<Rightarrow> nat \<Rightarrow> nat \<Rightarrow> bool" where
  "reduce_sizes_ok rd first n pos \<longleftrightarrow> n + rd_workGroupSize rd * rd_blocks rd \<le> 2 ^ 32 \<and> first < 2 ^ 32 \<and> pos < 2 ^ 32"

lemma reduce_block_split:
  assumes "reduce_wf rd" "reduce_sizes_ok rd first n pos"
  shows "n \<le> rd_blocks rd * reduce_blockSize rd n" "rd_blocks rd * reduce_blockSize rd n < 2 ^ 32"
    "n < 2 ^ 32" "reduce_blockSize rd n < 2 ^ 32"
proof -
  let ?T = "rd_workGroupSize rd * rd_blocks rd"
  have T: "0 < ?T" "n + ?T \<le> 2 ^ 32" using assms by (auto simp: reduce_wf_def reduce_sizes_ok_def pow2_pos)
  then have u: "u64 ?T = ?T" by (simp add: u64_small)
  have "n + ?T \<le> 2 ^ 64" using T(2) by simp
  from roundUp_bounds [OF T(1) this] have R: "n \<le> roundUp n ?T" "roundUp n ?T < n + ?T" .
  have "rd_blocks rd dvd roundUp n ?T" using roundUp_dvd [of ?T n] by (rule dvd_mult_right)
  then have bs: "rd_blocks rd * reduce_blockSize rd n = roundUp n ?T"
    by (simp add: reduce_blockSize_def u)
  show "n \<le> rd_blocks rd * reduce_blockSize rd n" using R(1) by (simp add: bs)
  show lt: "rd_blocks rd * reduce_blockSize rd n < 2 ^ 32" using R(2) T(2) by (simp add: bs)
  show "n < 2 ^ 32" using T by linarith
  have "reduce_blockSize rd n \<le> rd_blocks rd * reduce_blockSize rd n" using assms(1) by (simp add: reduce_wf_def)
  with lt show "reduce_blockSize rd n < 2 ^ 32" by linarith
qed

section \<open>The queued commands\<close>

definition reduce_command :: "'a reduce \<Rightarrow> nat list option \<Rightarrow> nat \<Rightarrow> 'a command" where
  "reduce_command rd events e =
     \<lparr>act = Launch (rd_kernel rd) (rd_workGroupSize rd * rd_blocks rd) (rd_workGroupSize rd),
      waits = wait_list events, ev = e\<rparr>"

lemma reduce_set_args_simps [simp]:
  "rd_workGroupSize (reduce_set_args i out f n pos rd) = rd_workGroupSize rd"
  "rd_blocks (reduce_set_args i out f n pos rd) = rd_blocks rd"
  "rd_elementSize (reduce_set_args i out f n pos rd) = rd_elementSize rd"
  "rd_sums (reduce_set_args i out f n pos rd) = rd_sums rd" "rd_alg (reduce_set_args i out f n pos rd) = rd_alg rd"
  by (simp_all add: reduce_set_args_def)

lemma reduce_enqueue_Inr:
  assumes "reduce_enqueue drv i out f n pos events (rd, q) = (Inr e, rd', q')"
  shows "reduce_validate rd i out f n pos = Inr () \<and> rd' = reduce_set_args i out f n pos rd
    \<and> cmds q' = cmds q @ [reduce_command rd' events (next_ev q)] \<and> e = next_ev q
    \<and> next_ev q' = Suc (next_ev q) \<and> trace q' = trace q @ doEventCallback (rd_alg rd) e"
  using assms
  by (cases "reduce_validate rd i out f n pos")
    (auto simp: reduce_enqueue_def Let_def bind_op_def enqueueNDRange_def enqueue_action_def update_op_def
      notify_def return_op_def reduce_command_def split: if_splits)

lemma reduce_validate_Inr:
  assumes "reduce_validate rd i out f n pos = Inr ()"
  shows "0 < n"
  using assms by (cases n) (auto simp: reduce_validate_def split: if_splits)

lemma reduce_validate_error:
  "reduce_validate rd i out f n pos = Inl e \<Longrightarrow> \<exists>c m. e = ClError c m \<and> c \<noteq> CL_SUCCESS"
  by (auto simp: reduce_validate_def CL_SUCCESS_def CL_INVALID_VALUE_def CL_INVALID_GLOBAL_WORK_SIZE_def
      split: if_splits)

lemma reduce_enqueue_error:
  "reduce_enqueue drv i out f n pos events st = (Inl e, st') \<Longrightarrow> \<exists>c m. e = ClError c m \<and> c \<noteq> CL_SUCCESS"
  by (auto simp: reduce_enqueue_def Let_def bind_op_def update_op_def return_op_def
      split: prod.splits sum.splits dest: reduce_validate_error enqueue_error)

lemma reduce_enqueue_read_error:
  assumes "reduce_enqueue_read drv bl i nul f n events st = (Inl e, st')"
  shows "\<exists>c m. e = ClError c m \<and> c \<noteq> CL_SUCCESS"
proof (cases nul)
  case True
  then show ?thesis using assms
    by (auto simp: reduce_enqueue_read_def CL_SUCCESS_def CL_INVALID_VALUE_def split: prod.splits)
next
  case False
  then show ?thesis using assms
    by (auto simp: reduce_enqueue_read_def Let_def bind_op_def update_op_def return_op_def
        split: prod.splits sum.splits dest: reduce_enqueue_error enqueue_error)
qed

interpretation rop: cl_operation "reduce_enqueue drv i out f n pos" for drv i out f n pos
  by unfold_locales (rule reduce_enqueue_error)

interpretation rrop: cl_operation "reduce_enqueue_read drv bl i nul f n" for drv bl i nul f n
  by unfold_locales (rule reduce_enqueue_read_error)

section \<open>The effect of the commands\<close>

definition reduce_result :: "nat \<Rightarrow> nat \<Rightarrow> (nat \<Rightarrow> nat \<Rightarrow> 'a::comm_monoid_add) \<Rightarrow> nat \<Rightarrow> 'a" where
  "reduce_result b first m n = (\<Sum>i<n. m b (first + i))"

lemma run_reduce_launch:
  fixes m :: "nat \<Rightarrow> nat \<Rightarrow> 'a::comm_monoid_add"
  assumes wf: "reduce_wf rd" and sz: "reduce_sizes_ok rd f n pos"
    and b: "buf_id i \<noteq> buf_id (rd_sums rd)" "buf_id out = buf_id (rd_sums rd) \<longrightarrow> rd_blocks rd \<le> pos"
    and c: "c = reduce_command (reduce_set_args i out f n pos rd) events e" and D: "dsched_ok D c"
  shows "\<exists>mw'. run_action (ditems D (ev c)) (act c) (m, of_nat (rd_blocks rd)) mw'"
    and "run_action (ditems D (ev c)) (act c) (m, of_nat (rd_blocks rd)) (m', w') \<Longrightarrow>
      m' (buf_id out) pos = reduce_result (buf_id i) f m n \<and> w' = of_nat (rd_blocks rd)
      \<and> (\<forall>b j. (b = buf_id out \<and> j = pos) \<or> (b = buf_id (rd_sums rd) \<and> j < rd_blocks rd) \<or> m' b j = m b j)"
proof -
  let ?ra = "\<lparr>wgs = rd_workGroupSize rd, blocks = rd_blocks rd, out_b = buf_id out, outPos = pos, in_b = buf_id i,
    rstart = f, elements = n, part_b = buf_id (rd_sums rd), blockSize = reduce_blockSize rd n\<rparr>"
  note sp = reduce_block_split [OF wf sz]
  have p: "0 < rd_workGroupSize rd" "0 < rd_blocks rd" using wf by (auto simp: reduce_wf_def pow2_pos)
  have u: "u32 (reduce_blockSize rd n) = reduce_blockSize rd n" "u32 n = n" "u32 f = f" "u32 pos = pos"
    using sp sz by (simp_all add: u32_small reduce_sizes_ok_def)
  let ?k = "rd_kernel (reduce_set_args i out f n pos rd)"
  have "launch_args ?k (rd_workGroupSize rd * rd_blocks rd) (rd_workGroupSize rd) = Some ?ra"
    using wf p by (simp add: launch_args_def reduce_set_args_def u reduce_wf_def kernel_is_def range_ok_def)
  then have act: "run_action S (act c) (m, w) (m', w') \<longleftrightarrow>
      (\<exists>s. rreach ?ra S (rinit m w) s \<and> all_done ?ra s \<and> m' = mem s \<and> w' = wgc s)" for S m w m' w'
    by (simp add: c reduce_command_def)
  have ok: "launch_ok ?ra" using wf b by (auto simp: launch_ok_def reduce_wf_def)
  have S: "valid (wgs ?ra) (ditems D (ev c) g)" for g
    using D by (simp add: dsched_ok_def c reduce_command_def)
  show "\<exists>mw'. run_action (ditems D (ev c)) (act c) (m, of_nat (rd_blocks rd)) mw'"
    using rreach_completes [of ?ra "ditems D (ev c)" "rinit m (of_nat (rd_blocks rd))"] act by (metis surj_pair)
  assume "run_action (ditems D (ev c)) (act c) (m, of_nat (rd_blocks rd)) (m', w')"
  then obtain s where s: "rreach ?ra (ditems D (ev c)) (rinit m (of_nat (blocks ?ra))) s" "all_done ?ra s"
    "m' = mem s" "w' = wgc s"
    unfolding act by auto
  show "m' (buf_id out) pos = reduce_result (buf_id i) f m n \<and> w' = of_nat (rd_blocks rd)
      \<and> (\<forall>b j. (b = buf_id out \<and> j = pos) \<or> (b = buf_id (rd_sums rd) \<and> j < rd_blocks rd) \<or> m' b j = m b j)"
    using reduce_launch_result [OF ok S _ _ s(1,2)] sp(1,2) s(3,4) by (simp add: reduce_result_def)
qed

section \<open>Properties\<close>

text \<open>
  Preparation: with a compiler that honours the definitions and the check of reduce.cl, an
  object that \<^verbatim>\<open>initialize\<close> returns is well-formed, and the counter buffer starts at the
  number of blocks.
\<close>

lemma reduce_initialize_wf:
  assumes "\<And>d s p. bld ''reduce.cl'' d s = Inr p \<Longrightarrow> pdefs p = d \<and> reduce_cl_accepts d"
    and "\<And>p n k. mk p n = Inr k \<Longrightarrow> k = new_kernel p n"
    and "0 < r_reduceBlocks params" and "r_reduceBlocks params < 2 ^ 32" and "0 < getSize (rp_type problem)"
    and "Reduce_initialize alloc bld mk problem params = Inr (rd, w)"
  shows "reduce_wf rd \<and> w = of_nat (rd_blocks rd)"
  using assms by (rule reduce_initialize_obj_wf)

text \<open>
  C3. The reduction to a buffer. When \<^verbatim>\<open>enqueue\<close> returns an event, the queued launch can
  run to its end, and however its work-groups interleave it leaves the sum of the input range in
  the output position and the counter ready for the next launch; only the output position and the
  partial sums change.
\<close>

theorem reduce_correct:
  fixes m :: "nat \<Rightarrow> nat \<Rightarrow> 'a::comm_monoid_add"
  assumes "reduce_wf rd" and "reduce_sizes_ok rd first n pos" and "length (wait_list events) < 2 ^ 32"
    and "buf_id inb \<noteq> buf_id (rd_sums rd)" and "buf_id outb \<noteq> buf_id (rd_sums rd)"
    and "Reduce_enqueue drv inb outb first n pos events (Some rd, q) = (Inr e, st')"
    and "cmds (snd st') = cmds q @ cs" and "legal_order cs ord" and "\<And>c. c \<in> set cs \<Longrightarrow> dsched_ok D c"
  shows "(\<exists>mw'. run_commands D ord (m, of_nat (rd_blocks rd)) mw')
    \<and> (\<forall>m' w'. run_commands D ord (m, of_nat (rd_blocks rd)) (m', w') \<longrightarrow>
         m' (buf_id outb) pos = (\<Sum>i<n. m (buf_id inb) (first + i)) \<and> w' = of_nat (rd_blocks rd)
         \<and> (\<forall>b j. (b = buf_id outb \<and> j = pos) \<or> (b = buf_id (rd_sums rd) \<and> j < rd_blocks rd) \<or> m' b j = m b j))"
proof -
  obtain r rd' q' where r: "reduce_enqueue drv inb outb first n pos (norm_events events) (rd, q) = (r, rd', q')"
    by (cases "reduce_enqueue drv inb outb first n pos (norm_events events) (rd, q)") auto
  from rop.public_result [OF assms(3) r] assms(6) [unfolded Reduce_enqueue_def]
  have re: "r = Inr e" "st' = (Some rd', q')" by auto
  from reduce_enqueue_Inr [OF r [unfolded re]]
  have rd': "rd' = reduce_set_args inb outb first n pos rd"
    and cs: "cs = [reduce_command rd' (norm_events events) (next_ev q)]" using assms(7) re(2) by simp_all
  let ?c = "reduce_command rd' (norm_events events) (next_ev q)"
  have o: "ord = [?c]" using assms(8) cs by (simp add: legal_order_def)
  have D: "dsched_ok D ?c" using assms(9) cs by simp
  have pos: "buf_id outb = buf_id (rd_sums rd) \<longrightarrow> rd_blocks rd \<le> pos" using assms(5) by simp
  note run = run_reduce_launch [OF assms(1,2,4) pos _ D, OF arg_cong [OF rd', of "\<lambda>r. reduce_command r _ _"]]
  show ?thesis unfolding o run_commands.simps using run by (auto simp: reduce_result_def)
qed


text \<open>What \<^verbatim>\<open>enqueue\<close> must reject, without machine arithmetic.\<close>

definition reduce_rejected :: "'a reduce \<Rightarrow> buffer \<Rightarrow> buffer \<Rightarrow> nat \<Rightarrow> nat \<Rightarrow> nat \<Rightarrow> bool" where
  "reduce_rejected rd inb outb first n pos \<longleftrightarrow> n = 0
     \<or> buf_size inb div rd_elementSize rd < first + n \<or> buf_size outb div rd_elementSize rd \<le> pos
     \<or> \<not> readable inb \<or> \<not> writable outb"

text \<open>
  C28. Validation is exact for every \<^verbatim>\<open>size_t\<close> argument, the largest included: the sum
  \<^verbatim>\<open>first + elements\<close> that leaves the range is caught by the test on the wrapped value. A
  refused call throws a \<^verbatim>\<open>cl::Error\<close> and touches neither kernel nor queue; when the driver
  accepts the launch, every other call returns an event.
\<close>

theorem reduce_enqueue_validates:
  assumes "first < 2 ^ 64" and "n < 2 ^ 64" and "buf_size inb < 2 ^ 64"
    and "\<And>c. drv c = CL_SUCCESS"
    and "reduce_enqueue drv inb outb first n pos events (rd, q) = (r, st')"
  shows "if reduce_rejected rd inb outb first n pos
    then (\<exists>c m. r = Inl (ClError c m)) \<and> st' = (rd, q)
    else (\<exists>e. r = Inr e)"
proof -
  have wrap: "u64 (first + n) < first \<longleftrightarrow> 2 ^ 64 \<le> first + n"
  proof (cases "first + n < 2 ^ 64")
    case True
    then show ?thesis by (simp add: u64_small)
  next
    case False
    then have "u64 (first + n) = first + n - 2 ^ 64"
      using assms(1,2) unfolding u64_def by (intro mod_if [THEN trans]) (simp add: mod_less)
    then show ?thesis using False assms(2) by simp
  qed
  have "buf_size inb div rd_elementSize rd < 2 ^ 64" using assms(3) by (rule le_less_trans [OF div_le_dividend])
  then have v: "reduce_validate rd inb outb first n pos = Inr () \<longleftrightarrow> \<not> reduce_rejected rd inb outb first n pos"
    using wrap by (cases "first + n < 2 ^ 64") (auto simp: reduce_validate_def reduce_rejected_def u64_small)
  show ?thesis
  proof (cases "reduce_rejected rd inb outb first n pos")
    case True
    then obtain e where e: "reduce_validate rd inb outb first n pos = Inl e"
      using v by (cases "reduce_validate rd inb outb first n pos") auto
    then show ?thesis using True assms(5) reduce_validate_error [OF e] by (auto simp: reduce_enqueue_def)
  next
    case False
    then have "reduce_validate rd inb outb first n pos = Inr ()" using v by simp
    then show ?thesis using False assms(4,5)
      by (auto simp: reduce_enqueue_def Let_def bind_op_def enqueueNDRange_def enqueue_action_def update_op_def
          return_op_def)
  qed
qed

section \<open>Witnesses\<close>

definition example_reduce_value :: reduce_value where
  "example_reduce_value = \<lparr>r_reduceWorkGroupSize = 2, r_reduceBlocks = 2\<rparr>"

definition example_alloc_flags :: "nat \<Rightarrow> nat \<Rightarrow> nat result" where
  "example_alloc_flags flags n = Inr (flags + 8)"

definition example_reduce_build :: "string \<Rightarrow> int std_map \<Rightarrow> string std_map \<Rightarrow> program result" where
  "example_reduce_build f d s =
     (if reduce_cl_accepts d then Inr \<lparr>pfile = f, pdefs = d, psdefs = s\<rparr> else Inl (InternalError f))"

lemma example_reduce_build_ok: "example_reduce_build f d s = Inr p \<Longrightarrow> pdefs p = d \<and> reduce_cl_accepts d"
  by (auto simp: example_reduce_build_def split: if_splits)

definition example_problem :: reduce_problem where
  "example_problem = ReduceProblem_new\<lparr>rp_type := \<lparr>baseType = TYPE_UINT, veclen = 1\<rparr>\<rparr>"

definition example_reduce :: "32 word reduce" where
  "example_reduce = fst (projr (Reduce_initialize example_alloc_flags example_reduce_build
     (\<lambda>p n. Inr (new_kernel p n)) example_problem example_reduce_value))"

lemma example_reduce_init:
  "Reduce_initialize example_alloc_flags example_reduce_build (\<lambda>p n. Inr (new_kernel p n))
     example_problem example_reduce_value = Inr (example_reduce, 2)"
proof -
  have "reduce_cl_accepts (reduce_defines (rp_type example_problem) example_reduce_value)"
    by (simp add: reduce_cl_accepts_def is_power2_def example_reduce_value_def)
  then show ?thesis
    by (simp add: example_reduce_def Reduce_initialize_def Let_def example_alloc_flags_def example_reduce_build_def)
      (simp add: example_reduce_value_def)
qed

lemma example_size: "getSize (rp_type example_problem) = 4"
  by (simp add: example_problem_def getSize_def getBaseSize_def)

lemma example_reduce_simps [simp]:
  "rd_workGroupSize example_reduce = 2" "rd_blocks example_reduce = 2" "rd_elementSize example_reduce = 4"
  "rd_sums example_reduce = \<lparr>buf_id = 9, buf_size = 12, buf_flags = CL_MEM_READ_WRITE\<rparr>"
  "rd_alg example_reduce = new_alg"
proof -
  have "Reduce_initialize example_alloc_flags example_reduce_build (\<lambda>p n. Inr (new_kernel p n))
     example_problem example_reduce_value = Inr (rd, w) \<Longrightarrow>
     rd_workGroupSize rd = 2 \<and> rd_blocks rd = 2 \<and> rd_elementSize rd = 4
     \<and> rd_sums rd = \<lparr>buf_id = 9, buf_size = 12, buf_flags = CL_MEM_READ_WRITE\<rparr> \<and> rd_alg rd = new_alg"
    for rd :: "32 word reduce" and w
    unfolding Reduce_initialize_def Let_def prepare_Inr bind_result_Inr
    by (auto simp: example_alloc_flags_def example_size example_reduce_value_def CL_MEM_READ_WRITE_def)
  from this [OF example_reduce_init]
  show "rd_workGroupSize example_reduce = 2" "rd_blocks example_reduce = 2" "rd_elementSize example_reduce = 4"
    "rd_sums example_reduce = \<lparr>buf_id = 9, buf_size = 12, buf_flags = CL_MEM_READ_WRITE\<rparr>"
    "rd_alg example_reduce = new_alg" by simp_all
qed

lemma reduce_initialize_wf_witness:
  "reduce_wf example_reduce \<and> rd_blocks example_reduce = 2"
  using reduce_initialize_wf [OF example_reduce_build_ok _ _ _ _ example_reduce_init]
  by (simp add: example_size example_reduce_value_def)

lemma example_reduce_wf: "reduce_wf example_reduce"
  by (rule reduce_initialize_obj_wf [OF example_reduce_build_ok _ _ _ _ example_reduce_init, THEN conjunct1])
    (simp_all add: example_size example_reduce_value_def)

lemma example_reduce_sizes: "pos < 2 ^ 32 \<Longrightarrow> reduce_sizes_ok example_reduce 3 5 pos"
  by (simp add: reduce_sizes_ok_def)

definition example_buf :: "nat \<Rightarrow> buffer" where
  "example_buf i = \<lparr>buf_id = i, buf_size = 64, buf_flags = CL_MEM_READ_WRITE\<rparr>"

lemma example_rw [simp]: "readable (example_buf i)" "writable (example_buf i)"
  "writable \<lparr>buf_id = i, buf_size = n, buf_flags = CL_MEM_READ_WRITE\<rparr>"
  by (simp_all add: example_buf_def readable_def writable_def CL_MEM_READ_WRITE_def
      CL_MEM_READ_ONLY_def CL_MEM_WRITE_ONLY_def)

definition empty_queue :: "'a queue" where
  "empty_queue = \<lparr>cmds = [], next_ev = 100, trace = []\<rparr>"

lemma example_reduce_enqueue:
  "\<exists>rd' q'. reduce_enqueue (\<lambda>_. CL_SUCCESS) (example_buf 0) (example_buf 2) 3 5 3 None (example_reduce, empty_queue)
     = (Inr 100, rd', q')"
  "\<exists>rd' q'. reduce_enqueue_read (\<lambda>_. CL_SUCCESS) True (example_buf 0) False 3 5 None (example_reduce, empty_queue)
     = (Inr 101, rd', q')"
  by (simp_all add: reduce_enqueue_def reduce_enqueue_read_def reduce_validate_def example_buf_def [of 0] u64_def
      example_rw [of 0, unfolded example_buf_def] Let_def bind_op_def enqueueNDRange_def enqueueReadBuffer_def
      enqueue_action_def update_op_def return_op_def notify_def empty_queue_def)
    (simp add: example_buf_def)

theorem reduce_correct_witness:
  "\<exists>D ord m' w'. run_commands D ord (\<lambda>b i. of_nat (b + i), 2) (m', w') \<and> m' 2 3 = (25 :: 32 word) \<and> w' = 2"
proof -
  obtain rd' q' where e: "reduce_enqueue (\<lambda>_. CL_SUCCESS) (example_buf 0) (example_buf 2) 3 5 3 None
      (example_reduce, empty_queue) = (Inr 100, rd', q')"
    using example_reduce_enqueue(1) by blast
  let ?cs = "[reduce_command rd' None 100]"
  have r: "Reduce_enqueue (\<lambda>_. CL_SUCCESS) (example_buf 0) (example_buf 2) 3 5 3 None
      (Some example_reduce, empty_queue) = (Inr 100, Some rd', q')"
    unfolding Reduce_enqueue_def by (rule rop.public_result) (simp_all add: norm_events_def e)
  have c: "cmds (snd (Some rd', q')) = cmds empty_queue @ ?cs"
    using reduce_enqueue_Inr [OF e] by (simp add: empty_queue_def)
  have lo: "legal_order ?cs ?cs" by (simp add: legal_order_def reduce_command_def)
  have D: "dsched_ok (plain_sched ?cs) c" if "c \<in> set ?cs" for c by (rule plain_sched_ok) (use that in auto)
  have h: "reduce_wf example_reduce" "reduce_sizes_ok example_reduce 3 5 3" "length (wait_list None) < 2 ^ 32"
    "buf_id (example_buf 0) \<noteq> buf_id (rd_sums example_reduce)" "buf_id (example_buf 2) \<noteq> buf_id (rd_sums example_reduce)"
    using example_reduce_wf by (simp_all add: example_reduce_sizes example_buf_def)
  note t = reduce_correct [OF h r c lo D, of "\<lambda>b i. of_nat (b + i) :: 32 word"]
  from t obtain m' w' where run: "run_commands (plain_sched ?cs) ?cs (\<lambda>b i. of_nat (b + i) :: 32 word, 2) (m', w')"
    by auto
  with t have "m' 2 3 = (\<Sum>i<5. of_nat (0 + (3 + i)))" "w' = 2" by (auto simp: example_buf_def)
  then show ?thesis using run
    by (intro exI [of _ "plain_sched ?cs"] exI [of _ ?cs] exI [of _ m'] exI [of _ w'])
      (simp add: numeral_eq_Suc lessThan_Suc)
qed


theorem reduce_enqueue_validates_witness:
  "\<exists>c m. fst (reduce_enqueue (\<lambda>_. CL_SUCCESS) (example_buf 0) (example_buf 2) (2 ^ 64 - 1) 2 0 None
     (example_reduce, empty_queue)) = Inl (ClError c m)"
  using reduce_enqueue_validates [of "2 ^ 64 - 1" 2 "example_buf 0" "\<lambda>_. CL_SUCCESS" "example_buf 2" 0 None
      example_reduce empty_queue]
  by (cases "reduce_enqueue (\<lambda>_. CL_SUCCESS) (example_buf 0) (example_buf 2) (2 ^ 64 - 1) 2 0 None
     (example_reduce, empty_queue)") (auto simp: reduce_rejected_def example_buf_def)

end
