(* ===== verification/ReduceTune.thy ===== *)
theory ReduceTune
  imports ReduceHost ScanTune
begin

text \<open>
  The rest of src/reduce.cpp: the tuning callback, \<^verbatim>\<open>Reduce::tune\<close>, the key of the cache, the
  two constructors and the public problem class. Shown, as for the scan: tuning returns sizes
  that the kernel accepts and the device can run, the parameters of a key are tuned for once, and
  the object that a constructor returns satisfies what the theorems on \<^verbatim>\<open>enqueue\<close> need.
\<close>

section \<open>The callback\<close>

text \<open>The tuning constructor; the initial value of the counter comes with the object.\<close>

definition Reduce_construct ::
  "('c, 'a, 'r, 'w) bench \<Rightarrow> 'c \<Rightarrow> reduce_problem \<Rightarrow> reduce_value \<Rightarrow> ('a reduce \<times> 32 word) result" where
  "Reduce_construct E c problem params = Reduce_initialize (be_alloc E c) (be_build E c) (be_kernel E c) problem params"

definition Reduce_tuneReduceCallback ::
  "('c, 'a, 'r, 'w) bench \<Rightarrow> reduce_problem \<Rightarrow> 'c \<Rightarrow> nat \<Rightarrow> reduce_value \<Rightarrow> 'w
    \<Rightarrow> ('r option \<times> 'r option) result \<times> 'w" where
  "Reduce_tuneReduceCallback E problem c elems params w =
     (let group_size = r_reduceWorkGroupSize params; num_blocks = r_reduceBlocks params;
          esize = getSize (rp_type problem); allocSize = u64 (elems * esize);
          block_size = roundUp elems (u64 (group_size * num_blocks)) div num_blocks
      in case bind_result (be_alloc E c CL_MEM_READ_ONLY allocSize) (\<lambda>buffer.
              bind_result (be_alloc E c CL_MEM_WRITE_ONLY esize) (\<lambda>output.
              bind_result (be_queue E c) (\<lambda>_.
              bind_result (Reduce_construct E c problem params) (\<lambda>(rd, counter). Inr (buffer, output, rd))))) of
           Inl e \<Rightarrow> (Inl e, w)
         | Inr (buffer, output, rd) \<Rightarrow>
             let b = \<lparr>buf_id = buffer, buf_size = allocSize, buf_flags = CL_MEM_READ_ONLY\<rparr>;
                 out = \<lparr>buf_id = output, buf_size = esize, buf_flags = CL_MEM_WRITE_ONLY\<rparr>;
                 go = reduce_enqueue (be_driver E c) b out 0 elems 0 None
             in rates E (be_slack E) (u64 (num_blocks * block_size)) (bench_twice E c go go (\<lambda>e. (e, e)) rd w))"

lemma Reduce_tuneReduceCallback_bound:
  "Reduce_tuneReduceCallback E problem c n p w = (Inr (Some a, b), w') \<Longrightarrow> b = Some (be_slack E a)"
  unfolding Reduce_tuneReduceCallback_def Let_def by (auto split: sum.splits prod.splits dest: rates_bound)

lemma reduce_rated:
  "(\<And>r. r \<le> be_slack E r) \<Longrightarrow> rated (bench_tuner E (Reduce_tuneReduceCallback E problem))"
  for E :: "('c, 'a, 'r::{linorder, order_bot}, 'w) bench"
  by (rule callback_rated [where slack = "be_slack E"]) (erule Reduce_tuneReduceCallback_bound, simp)

section \<open>Tuning\<close>

definition reduce_maxWorkGroupSize :: "device \<Rightarrow> reduce_problem \<Rightarrow> nat" where
  "reduce_maxWorkGroupSize d problem = min (max_work_group_size d) (local_mem_size d div getSize (rp_type problem))"

definition reduce_problemSizes :: "reduce_problem \<Rightarrow> nat list" where
  "reduce_problemSizes problem = [65536, 32 * 1024 * 1024 div getSize (rp_type problem)]"

definition reduce_group_sets :: "device \<Rightarrow> reduce_problem \<Rightarrow> reduce_value list" where
  "reduce_group_sets d problem =
     map (\<lambda>r. \<lparr>r_reduceWorkGroupSize = r, r_reduceBlocks = 16 * max_compute_units d\<rparr>)
       (doubles 1 (reduce_maxWorkGroupSize d problem))"

text \<open>
  The loop \<^verbatim>\<open>for (x = a; x <= limit; x += step)\<close>. A device has at least one compute unit;
  with none the loop of the source, whose step would be 0, would not end.
\<close>

function steps :: "nat \<Rightarrow> nat \<Rightarrow> nat \<Rightarrow> nat list" where
  "steps x limit inc = (if 0 < inc \<and> x \<le> limit then x # steps (x + inc) limit inc else [])"
  by pat_completeness auto
termination
  by (relation "measure (\<lambda>(x, limit, inc). Suc limit - x)") auto

declare steps.simps [simp del]

lemma steps_mem: "y \<in> set (steps x limit inc) \<Longrightarrow> x \<le> y \<and> y \<le> limit"
proof (induction x limit inc rule: steps.induct)
  case (1 x limit inc)
  then have "0 < inc \<and> x \<le> limit"
    by (cases "0 < inc \<and> x \<le> limit") (simp_all add: steps.simps [of x limit inc])
  with 1 show ?case by (auto simp: steps.simps [of x limit inc])
qed

definition reduce_block_sets :: "device \<Rightarrow> reduce_value \<Rightarrow> reduce_value list" where
  "reduce_block_sets d cand =
     map (\<lambda>b. cand\<lparr>r_reduceBlocks := b\<rparr>)
       (steps (4 * max_compute_units d) (64 * max_compute_units d) (4 * max_compute_units d))"

definition Reduce_tune ::
  "('c, 'a, 'r::{linorder, order_bot}, 'w) bench \<Rightarrow> device \<Rightarrow> reduce_problem \<Rightarrow> 'w tstate
    \<Rightarrow> reduce_value ending \<times> 'w tstate" where
  "Reduce_tune E d problem st =
     (let policy = rp_tunePolicy problem; problemSizes = reduce_problemSizes problem;
          T = bench_tuner E (Reduce_tuneReduceCallback E problem)
      in bind_end (lift_result (assertEnabled policy) st) (\<lambda>_ st.
         bind_end (tuneOne policy T (reduce_group_sets d problem) problemSizes
             (logStartAlgorithm policy (''reduce for '' @ getName (rp_type problem) @ '' elements'') d st)) (\<lambda>cand st1.
         bind_end (tuneOne policy T (reduce_block_sets d cand) problemSizes st1) (\<lambda>cand2 st2.
         (Returns cand2, logEndAlgorithm policy st2)))))"

definition reduce_fits :: "device \<Rightarrow> cl_type \<Rightarrow> reduce_value \<Rightarrow> bool" where
  "reduce_fits d t v \<longleftrightarrow>
     pow2 (r_reduceWorkGroupSize v) \<and> r_reduceWorkGroupSize v \<le> max_work_group_size d
     \<and> r_reduceWorkGroupSize v * getSize t \<le> local_mem_size d
     \<and> 0 < r_reduceBlocks v \<and> r_reduceBlocks v \<le> 64 * max_compute_units d"

lemma reduce_group_sets_mem:
  assumes "p \<in> set (reduce_group_sets d problem)"
  shows "pow2 (r_reduceWorkGroupSize p) \<and> r_reduceWorkGroupSize p \<le> max_work_group_size d
    \<and> r_reduceWorkGroupSize p * getSize (rp_type problem) \<le> local_mem_size d"
proof -
  have r: "r_reduceWorkGroupSize p \<in> set (doubles 1 (reduce_maxWorkGroupSize d problem))"
    using assms by (auto simp: reduce_group_sets_def)
  from doubles_one [OF this] show ?thesis by (auto simp: reduce_maxWorkGroupSize_def intro: le_div_mult)
qed

lemma reduce_block_sets_mem:
  assumes "p \<in> set (reduce_block_sets d cand)"
  shows "r_reduceWorkGroupSize p = r_reduceWorkGroupSize cand \<and> 0 < r_reduceBlocks p
    \<and> r_reduceBlocks p \<le> 64 * max_compute_units d"
proof -
  obtain b where b: "b \<in> set (steps (4 * max_compute_units d) (64 * max_compute_units d) (4 * max_compute_units d))"
    and p: "p = cand\<lparr>r_reduceBlocks := b\<rparr>"
    using assms by (auto simp: reduce_block_sets_def)
  have "max_compute_units d \<noteq> 0"
  proof
    assume "max_compute_units d = 0"
    then show False using b by (simp add: steps.simps)
  qed
  then show ?thesis using steps_mem [OF b] p by auto
qed

lemma Reduce_tune_fits:
  assumes slack: "\<And>r. r \<le> be_slack E r" and run: "Reduce_tune E d problem st = (Returns v, st')"
  shows "reduce_fits d (rp_type problem) v \<and> tp_enabled (rp_tunePolicy problem)"
proof -
  let ?P = "rp_tunePolicy problem" and ?n = "reduce_problemSizes problem"
  let ?T = "bench_tuner E (Reduce_tuneReduceCallback E problem)"
  obtain s0 p1 st1 st2 where
    r1: "tuneOne ?P ?T (reduce_group_sets d problem) ?n s0 = (Returns p1, st1)"
    and r2: "tuneOne ?P ?T (reduce_block_sets d p1) ?n st1 = (Returns v, st2)"
    using run unfolding Reduce_tune_def Let_def by (elim bind_end_Returns) auto
  note e1 = rated.tuneOne_end [OF reduce_rated [OF slack] _ r1]
    and e2 = rated.tuneOne_end [OF reduce_rated [OF slack] _ r2]
  show ?thesis
    using e1 e2 reduce_group_sets_mem [of p1 d problem] reduce_block_sets_mem [of v d p1]
    by (simp add: reduce_problemSizes_def reduce_fits_def)
qed

section \<open>Construction\<close>

definition Reduce_makeKey :: "device \<Rightarrow> reduce_problem \<Rightarrow> reduce_key result" where
  "Reduce_makeKey d problem = bind_result (canon_signed (rp_type problem)) (\<lambda>canon.
     Inr \<lparr>rk_device = deviceKey d, rk_elementType = getName canon\<rparr>)"

definition Reduce_new ::
  "'db sqlite \<Rightarrow> (string \<rightharpoonup> string) \<Rightarrow> ('c, 'a, 'r::{linorder, order_bot}, 'w) bench \<Rightarrow> 'c \<Rightarrow> device
    \<Rightarrow> reduce_problem \<Rightarrow> ('w, 'db) host \<Rightarrow> ('a reduce \<times> 32 word) ending \<times> ('w, 'db) host" where
  "Reduce_new Q env E c d problem h =
     new_tuned Q env ReduceKey_struct ReduceValue_struct db_reduce
       (Reduce_typeSupported d (rp_type problem)) ''type is not a supported format on this device''
       (Reduce_makeKey d problem) (Reduce_tune E d problem) (Reduce_construct E c problem) h"

text \<open>The public problem class.\<close>

datatype reduce_problem_op =
    RpNew nat
  | RpCopy nat nat
  | RpAssign nat nat
  | RpDelete nat
  | RpSetType nat cl_type
  | RpSetTunePolicy nat tune_policy

fun reduce_problem_vop :: "reduce_problem_op \<Rightarrow> reduce_problem vop" where
  "reduce_problem_vop (RpNew h) = VNew h"
| "reduce_problem_vop (RpCopy h g) = VCopy h g"
| "reduce_problem_vop (RpAssign h g) = VAssign h g"
| "reduce_problem_vop (RpDelete h) = VDelete h"
| "reduce_problem_vop (RpSetType h t) =
     VUpdate h (\<lambda>p. case ReduceProblem_setType t p of Inl e \<Rightarrow> p | Inr p' \<Rightarrow> p')"
| "reduce_problem_vop (RpSetTunePolicy h tp) = VUpdate h (ReduceProblem_setTunePolicy tp)"

definition ReduceProblem_run :: "reduce_problem_op list \<Rightarrow> reduce_problem objects \<Rightarrow> reduce_problem objects option" where
  "ReduceProblem_run xs = obj_run ReduceProblem_new (map reduce_problem_vop xs)"

section \<open>The properties\<close>

lemma reduce_fits_ok:
  assumes "reduce_fits d t v" "device_ok d" "max_compute_units d < 2 ^ 26"
  shows "ok_ReduceValue v"
  using assms by (simp add: ok_ReduceValue_def reduce_fits_def device_ok_def)

lemma Reduce_construct_wf:
  assumes b: "\<And>f defs s p. be_build E c f defs s = Inr p \<Longrightarrow> pdefs p = defs"
    and m: "\<And>p n k. be_kernel E c p n = Inr k \<Longrightarrow> k = new_kernel p n"
    and v: "reduce_fits d (rp_type problem) v" "max_compute_units d < 2 ^ 26" "0 < getSize (rp_type problem)"
    and "Reduce_construct E c problem v = Inr (rd, w)"
  shows "reduce_wf rd \<and> rd_workGroupSize rd = r_reduceWorkGroupSize v \<and> w = of_nat (rd_blocks rd)"
proof -
  from assms(6) [unfolded Reduce_construct_def] obtain su wg p k where
    p: "be_build E c ''reduce.cl'' (reduce_defines (rp_type problem) v) (puts [(''REDUCE_T'', getName (rp_type problem))]) = Inr p"
    and k: "be_kernel E c p ''reduce'' = Inr k" and w: "w = of_nat (r_reduceBlocks v)"
    and rd: "rd = \<lparr>rd_workGroupSize = r_reduceWorkGroupSize v, rd_blocks = r_reduceBlocks v,
       rd_elementSize = getSize (rp_type problem), rd_kernel = setArg 6 (ABuf su) (setArg 0 (ABuf wg) k),
       rd_sums = \<lparr>buf_id = su, buf_size = (r_reduceBlocks v + 1) * getSize (rp_type problem),
         buf_flags = CL_MEM_READ_WRITE\<rparr>, rd_wgc = wg, rd_alg = new_alg\<rparr>"
    by (rule reduce_initialize_obj)
  have "r_reduceBlocks v < 2 ^ 32" using v(1,2) by (simp add: reduce_fits_def)
  then show ?thesis
    using b [OF p] m [OF k] v by (simp add: reduce_wf_def rd w kernel_is_def macro_def_nat reduce_fits_def)
qed

text \<open>A construction to evaluate the properties on.\<close>

definition tiny_reduce :: reduce_problem where
  "tiny_reduce = ReduceProblem_new\<lparr>rp_type := \<lparr>baseType = TYPE_UINT, veclen = 1\<rparr>\<rparr>"

lemma tiny_reduce_simps: "getSize (rp_type tiny_reduce) = 4" "tp_enabled (rp_tunePolicy tiny_reduce)"
  by (simp_all add: tiny_reduce_def ReduceProblem_new_def TunePolicy_new_def getSize_def getBaseSize_def)

lemma tiny_reduce_construct:
  "\<exists>rd w. Reduce_construct demo_bench c tiny_reduce p = Inr (rd :: 'a reduce, w) \<and> rd_elementSize rd = 4"
  by (simp add: Reduce_construct_def Reduce_initialize_def Let_def tiny_reduce_simps demo_bench_def)

lemma tiny_reduce_callback:
  assumes "0 < n" "n < 2 ^ 40"
  shows "\<exists>w'. Reduce_tuneReduceCallback (demo_bench :: (unit, 'a, nat, nat) bench) tiny_reduce () n p w
    = (Inr (Some 1, Some 1), w')"
proof -
  let ?E = "demo_bench :: (unit, 'a, nat, nat) bench"
  obtain rd :: "'a reduce" and ctr where rd: "Reduce_construct ?E () tiny_reduce p = Inr (rd, ctr)" "rd_elementSize rd = 4"
    using tiny_reduce_construct by blast
  have u: "u64 (n * 4) = n * 4" "u64 n = n" "n * 4 \<noteq> 0" using assms by (simp_all add: u64_def)
  let ?b = "\<lparr>buf_id = 9, buf_size = n * 4, buf_flags = CL_MEM_READ_ONLY\<rparr>"
  let ?o = "\<lparr>buf_id = 9, buf_size = 4, buf_flags = CL_MEM_WRITE_ONLY\<rparr>"
  let ?go = "reduce_enqueue (\<lambda>_. CL_SUCCESS) ?b ?o 0 n 0 None :: 'a reduce \<times> 'a queue \<Rightarrow> _"
  have go: "\<exists>x q'. ?go (r, q) = (Inr x, reduce_set_args ?b ?o 0 n 0 r, q')" if "rd_elementSize r = 4" for r q
    using assms that u
    by (simp add: reduce_enqueue_def reduce_validate_def readable_def writable_def CL_MEM_READ_ONLY_def
        CL_MEM_WRITE_ONLY_def CL_MEM_READ_WRITE_def bind_op_def success_launch update_op_def return_op_def Let_def)
  have "rd_elementSize (reduce_set_args ?b ?o 0 n 0 rd) = 4" using rd by (simp add: reduce_set_args_def)
  then have "\<exists>x d' q'. ?go (rd, new_queue) = (Inr x, d', q') \<and> (\<exists>y d2 q2. ?go (d', q'\<lparr>cmds := []\<rparr>) = (Inr y, d2, q2))"
    using go [OF rd(2), of new_queue] go by metis
  then have t: "rates ?E (\<lambda>r. r) k (bench_twice ?E () ?go ?go (\<lambda>e. (e, e)) rd w) = (Inr (Some 1, Some 1), Suc (Suc w))" for k
    by (rule demo_twice)
  have sl: "be_slack ?E = (\<lambda>r. r)" by (simp add: demo_bench_def)
  show ?thesis using t u by (simp add: Reduce_tuneReduceCallback_def Let_def tiny_reduce_simps rd demo_simps sl)
qed

lemma tiny_reduce_steady:
  assumes "\<forall>n\<in>set ns. 0 < n \<and> n < 2 ^ 40"
  shows "steady (bench_tuner (demo_bench :: (unit, 'a, nat, nat) bench) (Reduce_tuneReduceCallback demo_bench tiny_reduce)) 1 ns ps"
  by (rule steady_demo, rule tiny_reduce_callback) (use assms in auto)

definition tiny_reduce_value :: reduce_value where
  "tiny_reduce_value = \<lparr>r_reduceWorkGroupSize = 1, r_reduceBlocks = 32\<rparr>"

lemma tiny_reduce_sets:
  "reduce_group_sets tiny_device tiny_reduce = [\<lparr>r_reduceWorkGroupSize = 1, r_reduceBlocks = 128\<rparr>]"
  "\<exists>ps. reduce_block_sets tiny_device \<lparr>r_reduceWorkGroupSize = 1, r_reduceBlocks = 128\<rparr> = tiny_reduce_value # ps"
  by (simp_all add: reduce_group_sets_def reduce_block_sets_def reduce_maxWorkGroupSize_def tiny_reduce_simps
      tiny_device_def example_device_def tiny_doubles steps.simps [of 32] tiny_reduce_value_def)

lemma tiny_reduce_tune:
  "\<exists>st'. Reduce_tune (demo_bench :: (unit, 'a, nat, nat) bench) tiny_device tiny_reduce st = (Returns tiny_reduce_value, st')"
proof -
  let ?E = "demo_bench :: (unit, 'a, nat, nat) bench" and ?P = "rp_tunePolicy tiny_reduce"
  let ?T = "bench_tuner ?E (Reduce_tuneReduceCallback ?E tiny_reduce)" and ?n = "reduce_problemSizes tiny_reduce"
  let ?st = "logStartAlgorithm ?P (''reduce for '' @ getName (rp_type tiny_reduce) @ '' elements'') tiny_device st"
  have e: "assertEnabled ?P = Inr ()" by (simp add: tiny_reduce_simps assertEnabled_def)
  have r: "tu_ratio ?T 1 \<le> 1" by (simp add: bench_tuner_def demo_bench_def)
  have n: "\<forall>n\<in>set ?n. 0 < n \<and> n < 2 ^ 40" "?n \<noteq> []" by (simp_all add: reduce_problemSizes_def tiny_reduce_simps)
  obtain ps where ps: "reduce_block_sets tiny_device \<lparr>r_reduceWorkGroupSize = 1, r_reduceBlocks = 128\<rparr> = tiny_reduce_value # ps"
    using tiny_reduce_sets(2) by blast
  note g = steady_tuneOne [OF tiny_reduce_steady [OF n(1)] r _ n(2) tiny_reduce_simps(2)]
  obtain st1 where 1: "tuneOne ?P ?T (reduce_group_sets tiny_device tiny_reduce) ?n ?st
      = (Returns \<lparr>r_reduceWorkGroupSize = 1, r_reduceBlocks = 128\<rparr>, st1)"
    by (rule g [of "reduce_group_sets tiny_device tiny_reduce" ?st]) (simp_all add: tiny_reduce_sets)
  obtain st2 where 2: "tuneOne ?P ?T (tiny_reduce_value # ps) ?n st1 = (Returns tiny_reduce_value, st2)"
    by (rule g [of "tiny_reduce_value # ps" st1]) simp_all
  show ?thesis unfolding Reduce_tune_def Let_def e lift_result_simps bind_end_simps 1 ps 2 by simp
qed

definition tiny_reduce_key :: reduce_key where
  "tiny_reduce_key = \<lparr>rk_device = \<lparr>platformName = ''P'', deviceName = ''D'', deviceVendorId = 1, driverVersion = ''1''\<rparr>,
     rk_elementType = ''int''\<rparr>"

lemma tiny_reduce_rows: "(case demo_db of None \<Rightarrow> None
   | Some (d, db) \<Rightarrow> Some (fst (table_run (engine clogs_schemas) ReduceKey_struct ReduceValue_struct (db_reduce d)
       [Lookup tiny_reduce_key, Add tiny_reduce_key tiny_reduce_value] db))) = Some [Absent, Added]"
  by code_simp

lemma tiny_reduce_key: "Reduce_makeKey tiny_device tiny_reduce = Inr tiny_reduce_key"
  "Reduce_makeKey tiny_device (tiny_reduce\<lparr>rp_type := \<lparr>baseType = TYPE_INT, veclen = 1\<rparr>\<rparr>) = Inr tiny_reduce_key"
  by (simp_all add: Reduce_makeKey_def tiny_reduce_def canon_signed_def make_type_def tiny_reduce_key_def deviceKey_def
    tiny_device_def example_device_def getName_def)

lemma tiny_reduce_types: "Reduce_typeSupported tiny_device (rp_type tiny_reduce)"
  "Reduce_typeSupported tiny_device \<lparr>baseType = TYPE_INT, veclen = 1\<rparr>"
  by (simp_all add: Reduce_typeSupported_def tiny_reduce_def isComputable_def isStorable_def)

text \<open>
  C18. Tuning a reduction is safe whatever the timings are: if \<^verbatim>\<open>Reduce::tune\<close> returns, tuning
  was enabled, the work-group size is a power of two that the device allows and whose elements fit
  into local memory, and the number of blocks is between 1 and 64 times the compute units. Any
  object then built from these parameters, by a runtime whose programs carry the given macros and
  whose kernel objects start without arguments, is well-formed: it meets what the theorems on
  \<^verbatim>\<open>enqueue\<close> require, and its counter starts at the number of blocks.
\<close>

theorem reduce_tune_fits:
  fixes E :: "('c, 'a, 'r::{linorder, order_bot}, 'w) bench"
  assumes "\<And>r. r \<le> be_slack E r" and "Reduce_tune E d problem st = (Returns v, st')"
    and "\<And>f defs s p. be_build E c f defs s = Inr p \<Longrightarrow> pdefs p = defs"
    and "\<And>p n k. be_kernel E c p n = Inr k \<Longrightarrow> k = new_kernel p n"
    and "max_compute_units d < 2 ^ 26" and "0 < getSize (rp_type problem)"
    and "Reduce_construct E c problem v = Inr (rd, w)"
  shows "tp_enabled (rp_tunePolicy problem) \<and> reduce_fits d (rp_type problem) v
    \<and> reduce_wf rd \<and> rd_workGroupSize rd = r_reduceWorkGroupSize v \<and> w = of_nat (rd_blocks rd)"
proof -
  have f: "reduce_fits d (rp_type problem) v" "tp_enabled (rp_tunePolicy problem)"
    using Reduce_tune_fits [OF assms(1,2)] by simp_all
  moreover note Reduce_construct_wf [OF _ _ f(1) assms(5-7), OF assms(3,4)]
  ultimately show ?thesis by simp
qed

theorem reduce_tune_fits_witness:
  "\<exists>st' rd w. Reduce_tune (demo_bench :: (unit, 32 word, nat, nat) bench) tiny_device tiny_reduce demo_start
      = (Returns tiny_reduce_value, st')
    \<and> Reduce_construct (demo_bench :: (unit, 32 word, nat, nat) bench) () tiny_reduce tiny_reduce_value = Inr (rd, w)
    \<and> reduce_wf rd \<and> w = 32"
proof -
  let ?E = "demo_bench :: (unit, 32 word, nat, nat) bench"
  obtain st' where run: "Reduce_tune ?E tiny_device tiny_reduce demo_start = (Returns tiny_reduce_value, st')"
    using tiny_reduce_tune by blast
  obtain rd w where c: "Reduce_construct ?E () tiny_reduce tiny_reduce_value = Inr (rd, w)"
    using tiny_reduce_construct by blast
  have w: "w = 32"
    using c [unfolded Reduce_construct_def] by (rule reduce_initialize_obj) (simp add: tiny_reduce_value_def)
  have "reduce_wf rd"
    by (rule reduce_tune_fits [OF _ run _ _ _ _ c, THEN conjunct2, THEN conjunct2, THEN conjunct1])
      (auto simp: demo_bench_def tiny_reduce_simps tiny_device_def example_device_def)
  then show ?thesis using run c w by blast
qed

text \<open>
  C21. A reduction is tuned once: after a constructor has returned, a later constructor with the
  same key takes the same parameters from the cache without running or logging a single test, or
  throws a \<^verbatim>\<open>CacheError\<close> of the database or an error of \<^verbatim>\<open>initialize\<close>.
\<close>

theorem reduce_tuned_once:
  fixes E :: "('c, 'a, 'r::{linorder, order_bot}, 'w) bench"
  assumes "sqlite_ok Q W clogs_schemas" and "snd (h_static h) = Some dbo"
    and "table_inv W reduce_schema (db_reduce dbo) (h_db h)"
    and "device_ok d" and "max_compute_units d < 2 ^ 26" and "\<And>r. r \<le> be_slack E r"
    and "Reduce_new Q env E c d problem h = (Returns rd, h1)"
    and "Reduce_makeKey d' problem' = Reduce_makeKey d problem" and "Reduce_typeSupported d' (rp_type problem')"
    and "Reduce_new Q env E' c' d' problem' h1 = (r, h2)"
  shows "h_tune h2 = h_tune h1 \<and> (\<exists>v. Reduce_construct E c problem v = Inr rd
    \<and> (case r of Returns rd' \<Rightarrow> Reduce_construct E' c' problem' v = Inr rd'
        | Throws e \<Rightarrow> (\<exists>m. e = CacheError m) \<or> Reduce_construct E' c' problem' v = Inl e
        | Aborts \<Rightarrow> False))"
proof (rule reduce_table.new_tuned_once [where sel = db_reduce, OF assms(1) _ _ assms(2)])
  show "schema_of reduce_tableName ReduceKey_struct ReduceValue_struct \<in> set clogs_schemas"
    by (simp add: schema_of_tables clogs_schemas_def)
  show "table_inv W (schema_of reduce_tableName ReduceKey_struct ReduceValue_struct) (db_reduce dbo) (h_db h)"
    using assms(3) by (simp add: schema_of_tables)
  show "ok_ReduceKey key" if "Reduce_makeKey d problem = Inr key" for key
    using that deviceKey_ok [OF assms(4)]
    by (cases "canon_signed (rp_type problem)") (auto simp: Reduce_makeKey_def ok_ReduceKey_def)
  show "ok_ReduceValue v" if "Reduce_tune E d problem ts = (Returns v, ts')" for ts v ts'
    using Reduce_tune_fits [OF assms(6) that] reduce_fits_ok assms(4,5) by blast
qed (use assms(7-10) in \<open>simp_all add: Reduce_new_def\<close>)

theorem reduce_tuned_once_witness:
  "\<exists>d db rd h1 r h2. demo_db = Some (d, db)
     \<and> Reduce_new (engine clogs_schemas) (\<lambda>_. None) (demo_bench :: (unit, 32 word, nat, nat) bench) () tiny_device
          tiny_reduce (demo_host d db) = (Returns rd, h1)
     \<and> Reduce_new (engine clogs_schemas) (\<lambda>_. None) (demo_bench :: (unit, 32 word, nat, nat) bench) () tiny_device
          (tiny_reduce\<lparr>rp_type := \<lparr>baseType = TYPE_INT, veclen = 1\<rparr>\<rparr>) h1 = (r, h2)
     \<and> h_tune h2 = h_tune h1"
proof -
  let ?Q = "engine clogs_schemas" and ?E = "demo_bench :: (unit, 32 word, nat, nat) bench"
  let ?p = "tiny_reduce\<lparr>rp_type := \<lparr>baseType = TYPE_INT, veclen = 1\<rparr>\<rparr>"
  obtain d db where d: "demo_db = Some (d, db)" using demo by (cases demo_db) auto
  have "fst (table_run ?Q ReduceKey_struct ReduceValue_struct (db_reduce d)
      [Lookup tiny_reduce_key, Add tiny_reduce_key tiny_reduce_value] (h_db (demo_host d db))) = [Absent, Added]"
    using tiny_reduce_rows unfolding d option.case prod.case by (simp add: demo_host_def)
  then obtain db1 where run: "table_run ?Q ReduceKey_struct ReduceValue_struct (db_reduce d)
      [Lookup tiny_reduce_key, Add tiny_reduce_key tiny_reduce_value] (h_db (demo_host d db)) = ([Absent, Added], db1)"
    by (metis prod.collapse)
  obtain ts where ts: "Reduce_tune ?E tiny_device tiny_reduce (h_tune (demo_host d db)) = (Returns tiny_reduce_value, ts)"
    using tiny_reduce_tune by blast
  obtain rd where rd: "Reduce_construct ?E () tiny_reduce tiny_reduce_value = Inr rd"
    using tiny_reduce_construct by blast
  have st: "snd (h_static (demo_host d db)) = Some d" by (simp add: demo_host_def)
  let ?h = "(demo_host d db)\<lparr>h_db := db1, h_tune := ts\<rparr>"
  have new: "Reduce_new ?Q (\<lambda>_. None) ?E () tiny_device tiny_reduce (demo_host d db) = (Returns rd, ?h)"
    using tuned_first [where sel = db_reduce and tune = "Reduce_tune ?E tiny_device tiny_reduce", OF run st ts] rd
    by (simp add: Reduce_new_def new_tuned_def tiny_reduce_types tiny_reduce_key)
  obtain r h2 where new2: "Reduce_new ?Q (\<lambda>_. None) ?E () tiny_device ?p ?h = (r, h2)"
    by (cases "Reduce_new ?Q (\<lambda>_. None) ?E () tiny_device ?p ?h")
  have dev: "device_ok tiny_device" "max_compute_units tiny_device < 2 ^ 26"
    by (simp_all add: device_ok_def tiny_device_def example_device_def)
  have "table_inv engine_view reduce_schema (db_reduce d) (h_db (demo_host d db))"
    using demo_tables_all(2) [OF d] by (simp add: demo_host_def)
  moreover have "Reduce_makeKey tiny_device ?p = Reduce_makeKey tiny_device tiny_reduce" by (simp only: tiny_reduce_key)
  moreover have "Reduce_typeSupported tiny_device (rp_type ?p)" using tiny_reduce_types(2) by simp
  ultimately have "h_tune h2 = h_tune ?h"
    using reduce_tuned_once [OF engine_ok [OF clogs_texts_apart] st _ dev _ new _ _ new2] by (simp add: demo_simps)
  then show ?thesis using d new new2 by blast
qed

end
