(* ===== verification/RadixBytes.thy ===== *)
theory RadixBytes
  imports Workgroup
begin

text \<open>
  The byte-parallel building blocks of kernels/radixsort.cl: arrays of \<^verbatim>\<open>uchar\<close> that are
  also read and written as \<^verbatim>\<open>ushort\<close> or \<^verbatim>\<open>uint\<close> (the unions of
  \<^verbatim>\<open>ScatterData\<close>, little-endian), the packed sums \<^verbatim>\<open>sum4\<close> and \<^verbatim>\<open>sum2\<close>, and
  the six sweep functions. Bytes are naturals below 256; \<open>u32\<close> marks the wrap-around of the
  packed arithmetic. Each function is shown to do, byte by byte, what its comment promises.

  The work-items of a slice run a function in lockstep or between barriers
  (\<^verbatim>\<open>fastsync\<close>), so those that repeat the work of another one read the same old values:
  the values are taken from the memory at the start of the phase.
\<close>

section \<open>Views of a byte array\<close>

definition uchar :: "nat \<Rightarrow> nat" where
  "uchar v = v mod 2 ^ 8"

definition pack4 :: "nat \<Rightarrow> nat \<Rightarrow> nat \<Rightarrow> nat \<Rightarrow> nat" where
  "pack4 a b c d = a + 2 ^ 8 * b + 2 ^ 16 * c + 2 ^ 24 * d"

definition get4 :: "(nat \<Rightarrow> nat) \<Rightarrow> nat \<Rightarrow> nat" where
  "get4 m k = pack4 (m (4 * k)) (m (4 * k + 1)) (m (4 * k + 2)) (m (4 * k + 3))"

definition put4 :: "nat \<Rightarrow> nat \<Rightarrow> (nat \<Rightarrow> nat) \<Rightarrow> nat \<Rightarrow> nat" where
  "put4 k v m = m(4 * k := uchar v, 4 * k + 1 := uchar (v div 2 ^ 8),
     4 * k + 2 := uchar (v div 2 ^ 16), 4 * k + 3 := uchar (v div 2 ^ 24))"

definition get2 :: "(nat \<Rightarrow> nat) \<Rightarrow> nat \<Rightarrow> nat" where
  "get2 m k = m (2 * k) + 2 ^ 8 * m (2 * k + 1)"

definition put2 :: "nat \<Rightarrow> nat \<Rightarrow> (nat \<Rightarrow> nat) \<Rightarrow> nat \<Rightarrow> nat" where
  "put2 k v m = m(2 * k := uchar v, 2 * k + 1 := uchar (v div 2 ^ 8))"

section \<open>Packed sums\<close>

definition sum4 :: "nat \<Rightarrow> nat" where
  "sum4 v = u32 (v * 0x01010101) div 2 ^ 24"

definition sum2 :: "nat \<Rightarrow> nat" where
  "sum2 v = u32 (v * 0x0101) div 2 ^ 8"

lemma uchar_low: "a < 256 \<Longrightarrow> uchar (a + 256 * x) = a"
  by (simp only: uchar_def mod_mult_self2 mod_less power2_eq_square) simp

lemma div_low: "a < 256 \<Longrightarrow> (a + 256 * x) div 256 = (x :: nat)"
  by simp

lemma pack4_nested: "pack4 a b c d = a + 256 * (b + 256 * (c + 256 * d))"
  by (simp add: pack4_def)

lemma div_div_256: "(v :: nat) div 2 ^ 8 = v div 256" "v div 2 ^ 16 = v div 256 div 256"
  "v div 2 ^ 24 = v div 256 div 256 div 256"
  by (simp_all add: div_mult2_eq [symmetric])

lemma pack4_inverse:
  assumes "a < 256" "b < 256" "c < 256"
  shows "uchar (pack4 a b c d) = a" "uchar (pack4 a b c d div 2 ^ 8) = b"
    "uchar (pack4 a b c d div 2 ^ 16) = c" "pack4 a b c d div 2 ^ 24 = d"
  unfolding pack4_nested div_div_256 by (simp_all only: div_low uchar_low assms)

lemma pack4_bound: "a < 256 \<Longrightarrow> b < 256 \<Longrightarrow> c < 256 \<Longrightarrow> d < 256 \<Longrightarrow> pack4 a b c d < 2 ^ 32"
  by (simp add: pack4_def)

text \<open>Multiplication by \<^verbatim>\<open>0x01010101\<close> makes running sums of the bytes.\<close>

lemma pack4_times:
  assumes "a + b + c + d < 256"
  shows "u32 (pack4 a b c d * 0x01010101) = pack4 a (a + b) (a + b + c) (a + b + c + d)"
proof -
  have "pack4 a b c d * 0x01010101 = pack4 a (a + b) (a + b + c) (a + b + c + d)
      + 2 ^ 32 * ((b + c + d) + 256 * (c + d) + 65536 * d)"
    by (simp add: pack4_def algebra_simps)
  moreover have "pack4 a (a + b) (a + b + c) (a + b + c + d) < 2 ^ 32"
    using assms by (intro pack4_bound) auto
  ultimately show ?thesis by (simp only: u32_def mod_mult_self2 mod_less)
qed

lemma sum4_pack: "a + b + c + d < 256 \<Longrightarrow> sum4 (pack4 a b c d) = a + b + c + d"
  unfolding sum4_def by (simp only: pack4_times) (intro pack4_inverse, auto)

lemma sum2_pack:
  assumes "a + b < 256"
  shows "uchar (sum2 (a + 2 ^ 8 * b)) = a + b"
proof -
  have e: "(a + 2 ^ 8 * b) * 0x0101 = a + 256 * ((a + b) + 256 * b)" by (simp add: algebra_simps)
  have "a + 256 * ((a + b) + 256 * b) < 2 ^ 32" using assms by simp
  then have "sum2 (a + 2 ^ 8 * b) = (a + 256 * ((a + b) + 256 * b)) div 2 ^ 8"
    unfolding sum2_def e by (simp only: u32_small)
  also have "\<dots> = (a + b) + 256 * b" unfolding div_div_256 using assms by (intro div_low) simp
  finally show ?thesis using assms by (simp only: uchar_low)
qed

section \<open>The sweep functions\<close>

text \<open>
  Pointers are offsets: \<open>off\<close> is the number that is added both to the \<^verbatim>\<open>uint\<close> or
  \<^verbatim>\<open>ushort\<close> pointer of the data and to the \<^verbatim>\<open>uchar\<close> pointer of the sums in the
  same array. The order of the work-items is \<open>ord\<close>.
\<close>

definition upsweepMulti ::
  "nat list \<Rightarrow> (nat \<Rightarrow> nat) \<Rightarrow> nat \<Rightarrow> nat \<Rightarrow> nat \<Rightarrow> (nat \<Rightarrow> nat) \<Rightarrow> nat \<Rightarrow> nat" where
  "upsweepMulti ord data soff fullSize sumsSize =
     (let rounds = fullSize div sumsSize div 4
      in par ord (\<lambda>lid sums. sums(soff + lid :=
           uchar (sum4 (fold (\<lambda>i sum. u32 (sum + get4 data (lid * rounds + i))) [0..<rounds] 0)))))"

definition masked :: "nat \<Rightarrow> nat \<Rightarrow> nat \<Rightarrow> nat" where
  "masked sumsSize threads lid = (if sumsSize < threads then and lid (sumsSize - 1) else lid)"

definition upsweep4 :: "nat list \<Rightarrow> nat \<Rightarrow> nat \<Rightarrow> nat \<Rightarrow> (nat \<Rightarrow> nat) \<Rightarrow> nat \<Rightarrow> nat" where
  "upsweep4 ord off sumsSize threads m =
     par ord (\<lambda>lid m'. let l = masked sumsSize threads lid
                       in m'(off + l := uchar (sum4 (get4 m (off + l))))) m"

definition upsweep2 :: "nat list \<Rightarrow> nat \<Rightarrow> nat \<Rightarrow> nat \<Rightarrow> (nat \<Rightarrow> nat) \<Rightarrow> nat \<Rightarrow> nat" where
  "upsweep2 ord off sumsSize threads m =
     par ord (\<lambda>lid m'. let l = masked sumsSize threads lid
                       in m'(off + l := uchar (sum2 (get2 m (off + l))))) m"

definition downsweepMulti ::
  "nat list \<Rightarrow> (nat \<Rightarrow> nat) \<Rightarrow> nat \<Rightarrow> nat \<Rightarrow> nat \<Rightarrow> (nat \<Rightarrow> nat) \<Rightarrow> nat \<Rightarrow> nat" where
  "downsweepMulti ord sums soff fullSize sumsSize =
     (let rounds = fullSize div sumsSize div 4
      in par ord (\<lambda>lid data. fst (fold (\<lambda>i (data, sum).
           let old = get4 data (lid * rounds + i);
               m = u32 (u32 (old + sum) * 0x01010101)
           in (put4 (lid * rounds + i) (u32 (m + 2 ^ 32 - old)) data, m div 2 ^ 24)) [0..<rounds]
           (data, sums (soff + lid)))))"

text \<open>Work-items with nothing to do repeat the work of others within a warp, or return.\<close>

definition down_active :: "nat \<Rightarrow> nat \<Rightarrow> nat \<Rightarrow> nat \<Rightarrow> bool" where
  "down_active warp sumsSize threads lid \<longleftrightarrow> \<not> (sumsSize < threads \<and> \<not> threads \<le> warp \<and> sumsSize \<le> lid)"

definition down_lid :: "nat \<Rightarrow> nat \<Rightarrow> nat \<Rightarrow> nat \<Rightarrow> nat" where
  "down_lid warp sumsSize threads lid =
     (if sumsSize < threads \<and> threads \<le> warp then and lid (sumsSize - 1) else lid)"

definition downsweep4 ::
  "nat \<Rightarrow> nat list \<Rightarrow> nat \<Rightarrow> nat \<Rightarrow> nat \<Rightarrow> bool \<Rightarrow> (nat \<Rightarrow> nat) \<Rightarrow> nat \<Rightarrow> nat" where
  "downsweep4 warp ord off sumsSize threads forceZero m =
     par ord (\<lambda>lid m'.
       if down_active warp sumsSize threads lid
       then let l = down_lid warp sumsSize threads lid; old = get4 m (off + l); s = m (off + l)
            in put4 (off + l)
                 (if \<not> forceZero then u32 (u32 (old + s) * 0x01010100 + s) else u32 (old * 0x01010100)) m'
       else m') m"

definition downsweep2 ::
  "nat \<Rightarrow> nat list \<Rightarrow> nat \<Rightarrow> nat \<Rightarrow> nat \<Rightarrow> bool \<Rightarrow> (nat \<Rightarrow> nat) \<Rightarrow> nat \<Rightarrow> nat" where
  "downsweep2 warp ord off sumsSize threads forceZero m =
     par ord (\<lambda>lid m'.
       if down_active warp sumsSize threads lid
       then let l = down_lid warp sumsSize threads lid; old = get2 m (off + l); s = m (off + l)
            in put2 (off + l)
                 (if \<not> forceZero then u32 (u32 (old + s) * 0x0100 + s) else u32 (old * 0x0100)) m'
       else m') m"

section \<open>Which work-items do the work\<close>

lemma masked_range:
  assumes "schedule threads ord" "pow2 sumsSize" "sumsSize \<le> threads"
  shows "masked sumsSize threads ` set ord = {..<sumsSize}"
proof -
  obtain k where k: "sumsSize = 2 ^ k" using assms(2) by (rule pow2_E)
  have m: "and lid (sumsSize - 1) = lid mod sumsSize" for lid
    by (simp add: k take_bit_eq_mask mask_eq_exp_minus_1 flip: take_bit_eq_mod)
  have "masked sumsSize threads lid = lid mod sumsSize" if "lid < threads" for lid
    using that m [of lid] by (auto simp: masked_def simp del: One_nat_def)
  moreover have "l mod sumsSize < sumsSize" for l using assms(2) by (simp add: pow2_pos)
  ultimately show ?thesis using assms(1,3)
    by (auto simp: schedule_def image_iff) (metis less_le_trans lessThan_iff mod_less)
qed

lemma down_range:
  assumes "schedule threads ord" "pow2 sumsSize" "sumsSize \<le> threads"
  shows "down_lid warp sumsSize threads ` {lid \<in> set ord. down_active warp sumsSize threads lid} = {..<sumsSize}"
proof (cases "threads \<le> warp")
  case True
  then have "down_lid warp sumsSize threads = masked sumsSize threads" "\<And>lid. down_active warp sumsSize threads lid"
    by (auto simp: down_lid_def masked_def down_active_def fun_eq_iff)
  then show ?thesis using masked_range [OF assms] by simp
next
  case False
  then have d: "down_lid warp sumsSize threads = (\<lambda>lid. lid)" by (simp add: down_lid_def fun_eq_iff)
  have "{lid \<in> set ord. down_active warp sumsSize threads lid} = {..<sumsSize}"
  proof (intro set_eqI)
    fix lid
    have "lid \<in> set ord \<longleftrightarrow> lid < threads" using assms(1) by (simp add: schedule_def)
    then show "lid \<in> {lid \<in> set ord. down_active warp sumsSize threads lid} \<longleftrightarrow> lid \<in> {..<sumsSize}"
      using False assms(3) unfolding down_active_def by (cases "sumsSize = threads") auto
  qed
  then show ?thesis by (simp add: d)
qed

section \<open>What the upsweep functions do\<close>

lemma get4_sum: "(m :: nat \<Rightarrow> nat) (4 * k) + m (4 * k + 1) + m (4 * k + 2) + m (4 * k + 3) = (\<Sum>t<4. m (4 * k + t))"
  by (simp add: numeral_eq_Suc lessThan_Suc add_ac)

lemma upsweep4_result:
  assumes "schedule threads ord" "pow2 sumsSize" "sumsSize \<le> threads"
    and "\<And>a. off \<le> a \<Longrightarrow> a < off + sumsSize \<Longrightarrow> (\<Sum>t<4. m (4 * a + t)) < 256"
  shows "upsweep4 ord off sumsSize threads m a =
    (if off \<le> a \<and> a < off + sumsSize then \<Sum>t<4. m (4 * a + t) else m a)"
proof -
  let ?W = "\<lambda>lid. {off + masked sumsSize threads lid}"
  have "upsweep4 ord off sumsSize threads m a = (if \<exists>i\<in>set ord. a \<in> ?W i then uchar (sum4 (get4 m a)) else m a)"
    unfolding upsweep4_def by (rule par_consistent) (auto simp: Let_def)
  moreover have "(\<exists>i\<in>set ord. a \<in> ?W i) \<longleftrightarrow> a - off \<in> masked sumsSize threads ` set ord \<and> off \<le> a"
    by (auto simp: image_iff) (metis add_diff_inverse_nat not_less)
  moreover have "uchar (sum4 (get4 m a)) = (\<Sum>t<4. m (4 * a + t))" if "off \<le> a" "a < off + sumsSize"
    using assms(4) [OF that] unfolding get4_sum [symmetric] get4_def by (simp add: sum4_pack uchar_def)
  ultimately show ?thesis by (auto simp: masked_range [OF assms(1-3)])
qed

lemma upsweep2_result:
  assumes "schedule threads ord" "pow2 sumsSize" "sumsSize \<le> threads"
    and "\<And>a. off \<le> a \<Longrightarrow> a < off + sumsSize \<Longrightarrow> (\<Sum>t<2. m (2 * a + t)) < 256"
  shows "upsweep2 ord off sumsSize threads m a =
    (if off \<le> a \<and> a < off + sumsSize then \<Sum>t<2. m (2 * a + t) else m a)"
proof -
  let ?W = "\<lambda>lid. {off + masked sumsSize threads lid}"
  have "upsweep2 ord off sumsSize threads m a = (if \<exists>i\<in>set ord. a \<in> ?W i then uchar (sum2 (get2 m a)) else m a)"
    unfolding upsweep2_def by (rule par_consistent) (auto simp: Let_def)
  moreover have "(\<exists>i\<in>set ord. a \<in> ?W i) \<longleftrightarrow> a - off \<in> masked sumsSize threads ` set ord \<and> off \<le> a"
    by (auto simp: image_iff) (metis add_diff_inverse_nat not_less)
  moreover have "uchar (sum2 (get2 m a)) = (\<Sum>t<2. m (2 * a + t))" if "off \<le> a" "a < off + sumsSize"
    using assms(4) [OF that] unfolding get2_def by (subst sum2_pack) (simp_all add: numeral_eq_Suc lessThan_Suc add.commute)
  ultimately show ?thesis by (auto simp: masked_range [OF assms(1-3)])
qed

text \<open>Packed accumulation: as long as no byte sum overflows, the four lanes add up separately.\<close>

lemma packed_accum:
  assumes "(\<Sum>u<4 * n. m (4 * b + u)) < 256"
  shows "\<exists>w x y z. fold (\<lambda>i sum. u32 (sum + get4 m (b + i))) [0..<n] 0 = pack4 w x y z
    \<and> w + x + y + z = (\<Sum>u<4 * n. m (4 * b + u))"
  using assms
proof (induction n)
  case 0
  then show ?case by (intro exI [of _ 0]) (simp add: pack4_def)
next
  case (Suc n)
  have split: "(\<Sum>u<4 * Suc n. m (4 * b + u)) = (\<Sum>u<4 * n. m (4 * b + u)) + (\<Sum>t<4. m (4 * (b + n) + t))"
    by (simp add: numeral_eq_Suc lessThan_Suc algebra_simps)
  then have "(\<Sum>u<4 * n. m (4 * b + u)) < 256" using Suc.prems by linarith
  then obtain w x y z where f: "fold (\<lambda>i sum. u32 (sum + get4 m (b + i))) [0..<n] 0 = pack4 w x y z"
    and s: "w + x + y + z = (\<Sum>u<4 * n. m (4 * b + u))" using Suc.IH by blast
  let ?k = "4 * (b + n)"
  have tot: "(w + m ?k) + (x + m (?k + 1)) + (y + m (?k + 2)) + (z + m (?k + 3)) = (\<Sum>u<4 * Suc n. m (4 * b + u))"
    unfolding split s [symmetric] get4_sum [symmetric] by simp
  have "pack4 w x y z + get4 m (b + n) = pack4 (w + m ?k) (x + m (?k + 1)) (y + m (?k + 2)) (z + m (?k + 3))"
    by (simp add: get4_def pack4_def algebra_simps)
  moreover have "pack4 (w + m ?k) (x + m (?k + 1)) (y + m (?k + 2)) (z + m (?k + 3)) < 2 ^ 32"
    using Suc.prems tot by (intro pack4_bound) linarith+
  ultimately have "fold (\<lambda>i sum. u32 (sum + get4 m (b + i))) [0..<Suc n] 0 =
      pack4 (w + m ?k) (x + m (?k + 1)) (y + m (?k + 2)) (z + m (?k + 3))"
    by (simp add: f u32_small)
  then show ?case using tot by blast
qed

lemma upsweepMulti_result:
  assumes "schedule sumsSize ord" "fullSize = sumsSize * (4 * rounds)" "0 < sumsSize"
    and "\<And>j. j < sumsSize \<Longrightarrow> (\<Sum>u<4 * rounds. data (4 * rounds * j + u)) < 256"
  shows "upsweepMulti ord data soff fullSize sumsSize m a =
    (if soff \<le> a \<and> a < soff + sumsSize then \<Sum>u<4 * rounds. data (4 * rounds * (a - soff) + u) else m a)"
proof -
  let ?F = "\<lambda>a. uchar (sum4 (fold (\<lambda>i sum. u32 (sum + get4 data ((a - soff) * rounds + i))) [0..<rounds] 0))"
  have r: "fullSize div sumsSize div 4 = rounds" using assms(2,3) by simp
  have "upsweepMulti ord data soff fullSize sumsSize m a = (if \<exists>i\<in>set ord. a \<in> {soff + i} then ?F a else m a)"
    unfolding upsweepMulti_def r Let_def by (rule par_consistent) auto
  moreover have "(\<exists>i\<in>set ord. a \<in> {soff + i}) \<longleftrightarrow> soff \<le> a \<and> a < soff + sumsSize"
  proof
    assume "soff \<le> a \<and> a < soff + sumsSize"
    then have "a - soff < sumsSize" "a \<in> {soff + (a - soff)}" by (linarith, simp)
    then have "a - soff \<in> set ord" "a \<in> {soff + (a - soff)}"
      using schedule_mem [OF assms(1), of "a - soff"] by blast+
    then show "\<exists>i\<in>set ord. a \<in> {soff + i}" ..
  qed (auto simp: schedule_mem [OF assms(1)])
  moreover have "?F a = (\<Sum>u<4 * rounds. data (4 * rounds * (a - soff) + u))" if "soff \<le> a" "a < soff + sumsSize"
  proof -
    let ?j = "a - soff"
    have "?j < sumsSize" using that by linarith
    have e: "4 * rounds * ?j = 4 * (?j * rounds)" by simp
    have b: "(\<Sum>u<4 * rounds. data (4 * (?j * rounds) + u)) < 256"
      using assms(4) [OF \<open>?j < sumsSize\<close>] by (simp only: e)
    from packed_accum [OF b] obtain w x y z where
      f: "fold (\<lambda>i sum. u32 (sum + get4 data (?j * rounds + i))) [0..<rounds] 0 = pack4 w x y z"
      and s: "w + x + y + z = (\<Sum>u<4 * rounds. data (4 * (?j * rounds) + u))" by blast
    show ?thesis unfolding f e using b s by (simp add: sum4_pack uchar_def)
  qed
  ultimately show ?thesis by auto
qed

section \<open>What the downsweep functions do\<close>

lemma put4_apply: "put4 k v m a = (if a div 4 = k then uchar (v div 2 ^ (8 * (a mod 4))) else m a)"
proof (cases "a div 4 = k")
  case True
  then have a: "a = 4 * k + a mod 4" by auto
  have "a mod 4 = 0 \<or> a mod 4 = 1 \<or> a mod 4 = 2 \<or> a mod 4 = 3" by linarith
  then show ?thesis using True a by (elim disjE) (auto simp: put4_def)
next
  case False
  then show ?thesis by (auto simp: put4_def)
qed

lemma put2_apply: "put2 k v m a = (if a div 2 = k then uchar (v div 2 ^ (8 * (a mod 2))) else m a)"
proof (cases "a div 2 = k")
  case True
  then have a: "a = 2 * k + a mod 2" by auto
  have "a mod 2 = 0 \<or> a mod 2 = 1" by linarith
  then show ?thesis using True a by (elim disjE) (auto simp: put2_def)
next
  case False
  then show ?thesis by (auto simp: put2_def)
qed

lemma pack4_lane:
  assumes "a < 256" "b < 256" "c < 256" "d < 256" "t < 4"
  shows "uchar (pack4 a b c d div 2 ^ (8 * t)) = [a, b, c, d] ! t"
proof -
  have "t = 0 \<or> t = 1 \<or> t = 2 \<or> t = 3" using assms(5) by linarith
  moreover have "uchar d = d" using assms(4) by (simp add: uchar_def)
  ultimately show ?thesis using pack4_inverse [OF assms(1-3), of d] by auto
qed

lemma down4_value:
  assumes "s + a + b + c + d < 256"
  shows "u32 (u32 (pack4 a b c d + s) * 0x01010100 + s) = pack4 s (s + a) (s + a + b) (s + a + b + c)"
proof -
  have "pack4 a b c d + s = pack4 (s + a) b c d" by (simp add: pack4_def)
  moreover have "pack4 (s + a) b c d < 2 ^ 32" using assms by (intro pack4_bound) auto
  ultimately have "u32 (pack4 a b c d + s) = pack4 (s + a) b c d" by (simp only: u32_small)
  moreover have "pack4 (s + a) b c d * 0x01010100 + s = pack4 s (s + a) (s + a + b) (s + a + b + c)
      + 2 ^ 32 * ((b + c + d) + 256 * (c + d) + 65536 * d)"
    by (simp add: pack4_def algebra_simps)
  moreover have "pack4 s (s + a) (s + a + b) (s + a + b + c) < 2 ^ 32"
    using assms by (intro pack4_bound) auto
  ultimately show ?thesis by (simp only: u32_def mod_mult_self2 mod_less)
qed

lemma down_multi_value:
  assumes "s + a + b + c + d < 256"
  defines "m \<equiv> u32 (u32 (pack4 a b c d + s) * 0x01010101)"
  shows "u32 (m + 2 ^ 32 - pack4 a b c d) = pack4 s (s + a) (s + a + b) (s + a + b + c)"
    and "m div 2 ^ 24 = s + a + b + c + d"
proof -
  have "pack4 a b c d + s = pack4 (s + a) b c d" by (simp add: pack4_def)
  moreover have "pack4 (s + a) b c d < 2 ^ 32" using assms by (intro pack4_bound) auto
  ultimately have m: "m = pack4 (s + a) (s + a + b) (s + a + b + c) (s + a + b + c + d)"
    unfolding m_def using assms(1) by (simp only: u32_small pack4_times)
  then show "m div 2 ^ 24 = s + a + b + c + d" using assms(1) by (simp only:) (intro pack4_inverse, auto)
  have "m = pack4 a b c d + pack4 s (s + a) (s + a + b) (s + a + b + c)" by (simp add: m pack4_def)
  then have "m + 2 ^ 32 - pack4 a b c d = pack4 s (s + a) (s + a + b) (s + a + b + c) + 2 ^ 32 * 1" by simp
  moreover have "pack4 s (s + a) (s + a + b) (s + a + b + c) < 2 ^ 32" using assms(1) by (intro pack4_bound) auto
  ultimately show "u32 (m + 2 ^ 32 - pack4 a b c d) = pack4 s (s + a) (s + a + b) (s + a + b + c)"
    by (simp only: u32_def mod_mult_self2 mod_less)
qed

lemma get4_bound: "(\<Sum>t<4. m (4 * k + t)) < 256 \<Longrightarrow> get4 m k < 2 ^ 32"
  unfolding get4_sum [symmetric] get4_def by (rule pack4_bound) linarith+

lemma bytes4: "(t :: nat) < 4 \<Longrightarrow> t = 0 \<or> t = 1 \<or> t = 2 \<or> t = 3"
  by linarith

lemma running4:
  fixes m :: "nat \<Rightarrow> nat"
  assumes "(t :: nat) < 4"
  shows "[s, s + m (4 * k), s + m (4 * k) + m (4 * k + 1), s + m (4 * k) + m (4 * k + 1) + m (4 * k + 2)] ! t
    = s + (\<Sum>u<t. m (4 * k + u))"
  using bytes4 [OF assms] by (elim disjE) (simp_all add: numeral_eq_Suc lessThan_Suc)

text \<open>One word of a factor-4 downsweep: the running sums of its four bytes, from \<open>s\<close>.\<close>

lemma put4_down:
  assumes "s + (\<Sum>u<4. m (4 * k + u)) < 256"
  shows "put4 k (u32 (u32 (get4 m k + s) * 0x01010100 + s)) m' a =
    (if a div 4 = k then s + (\<Sum>u<a mod 4. m (4 * k + u)) else m' a)"
proof -
  let ?m = "\<lambda>t. m (4 * k + t)"
  have b: "s + m (4 * k) + ?m 1 + ?m 2 + ?m 3 < 256" using assms unfolding get4_sum [symmetric] by simp
  note v = down4_value [OF b, folded get4_def]
  have l: "uchar (pack4 s (s + m (4 * k)) (s + m (4 * k) + ?m 1) (s + m (4 * k) + ?m 1 + ?m 2) div 2 ^ (8 * (a mod 4)))
      = s + (\<Sum>u<a mod 4. m (4 * k + u))"
    unfolding running4 [OF mod_less_divisor [OF zero_less_numeral], of s m k a, symmetric]
    by (rule pack4_lane) (use b in auto)
  show ?thesis unfolding put4_apply v l ..
qed

lemma down_lid_less:
  assumes "schedule threads ord" "pow2 sumsSize" "sumsSize \<le> threads"
    and "lid \<in> set ord" "down_active warp sumsSize threads lid"
  shows "down_lid warp sumsSize threads lid < sumsSize"
  using down_range [OF assms(1-3), of warp] assms(4,5) by blast

lemma down_written:
  assumes "schedule threads ord" "pow2 sumsSize" "sumsSize \<le> threads"
  shows "(\<exists>i\<in>set ord. a \<in> (if down_active warp sumsSize threads i then {a. a div k = off + down_lid warp sumsSize threads i} else {}))
    \<longleftrightarrow> off \<le> a div k \<and> a div k < off + sumsSize"
proof
  assume h: "off \<le> a div k \<and> a div k < off + sumsSize"
  then have "a div k - off \<in> {..<sumsSize}" by auto
  then obtain i where "i \<in> set ord" "down_active warp sumsSize threads i" "a div k - off = down_lid warp sumsSize threads i"
    unfolding down_range [OF assms, of warp, symmetric] by blast
  then show "\<exists>i\<in>set ord. a \<in> (if down_active warp sumsSize threads i then {a. a div k = off + down_lid warp sumsSize threads i} else {})"
    using h by (intro bexI [of _ i]) auto
next
  assume "\<exists>i\<in>set ord. a \<in> (if down_active warp sumsSize threads i then {a. a div k = off + down_lid warp sumsSize threads i} else {})"
  then obtain i where i: "i \<in> set ord" "down_active warp sumsSize threads i" "a div k = off + down_lid warp sumsSize threads i"
    by (auto split: if_splits)
  then show "off \<le> a div k \<and> a div k < off + sumsSize" using down_lid_less [OF assms i(1,2)] by linarith
qed

lemma downsweep4_result:
  assumes "schedule threads ord" "pow2 sumsSize" "sumsSize \<le> threads"
    and "\<And>l. off \<le> l \<Longrightarrow> l < off + sumsSize \<Longrightarrow> (if forceZero then 0 else m l) + (\<Sum>t<4. m (4 * l + t)) < 256"
  shows "downsweep4 warp ord off sumsSize threads forceZero m a =
    (if off \<le> a div 4 \<and> a div 4 < off + sumsSize
     then (if forceZero then 0 else m (a div 4)) + (\<Sum>t<a mod 4. m (4 * (a div 4) + t)) else m a)"
proof -
  let ?s = "\<lambda>l. if forceZero then 0 else m l"
  let ?W = "\<lambda>lid. if down_active warp sumsSize threads lid then {a. a div 4 = off + down_lid warp sumsSize threads lid} else {}"
  let ?v = "\<lambda>k. if \<not> forceZero then u32 (u32 (get4 m k + m k) * 0x01010100 + m k) else u32 (get4 m k * 0x01010100)"
  have val: "put4 k (?v k) m' b = (if b div 4 = k then ?s k + (\<Sum>t<b mod 4. m (4 * k + t)) else m' b)"
    if "off \<le> k" "k < off + sumsSize" for k m' b
  proof (cases forceZero)
    case True
    have "(\<Sum>t<4. m (4 * k + t)) < 256" using assms(4) [OF that] True by simp
    then have "u32 (get4 m k + 0) = get4 m k" using get4_bound [of m k] by (simp add: u32_small)
    then have "?v k = u32 (u32 (get4 m k + 0) * 0x01010100 + 0)" using True by simp
    then show ?thesis using put4_down [of 0 m k m' b] assms(4) [OF that] True by simp
  next
    case False
    then show ?thesis using put4_down [of "m k" m k m' b] assms(4) [OF that] by simp
  qed
  have "downsweep4 warp ord off sumsSize threads forceZero m a =
      (if \<exists>i\<in>set ord. a \<in> ?W i then ?s (a div 4) + (\<Sum>t<a mod 4. m (4 * (a div 4) + t)) else m a)"
    unfolding downsweep4_def
  proof (rule par_consistent, goal_cases)
    case (1 i m' a)
    then have i: "down_active warp sumsSize threads i" "a div 4 = off + down_lid warp sumsSize threads i"
      by (auto split: if_splits)
    then show ?case using val [of "off + down_lid warp sumsSize threads i" m' a] down_lid_less [OF assms(1-3) 1(1) i(1)]
      by (simp add: Let_def)
  next
    case (2 i m' a)
    then show ?case using down_lid_less [OF assms(1-3) 2(1)] val [of "off + down_lid warp sumsSize threads i" m' a]
      by (auto simp: Let_def put4_apply split: if_splits)
  qed
  then show ?thesis unfolding down_written [OF assms(1-3)] .
qed

text \<open>One half-word of a factor-2 downsweep.\<close>

lemma put2_down:
  assumes "s + (\<Sum>u<2. m (2 * k + u)) < 256" "v = u32 (u32 (get2 m k + s) * 0x0100 + s)"
  shows "put2 k v m' a = (if a div 2 = k then s + (\<Sum>u<a mod 2. m (2 * k + u)) else m' a)"
proof -
  let ?x = "m (2 * k)" and ?y = "m (2 * k + 1)"
  have b: "s + ?x + ?y < 256" using assms(1) by (simp add: numeral_eq_Suc lessThan_Suc)
  have u: "u32 (get2 m k + s) = get2 m k + s" using b by (intro u32_small) (simp add: get2_def)
  have e: "(get2 m k + s) * 0x0100 + s = s + 256 * ((s + ?x) + 256 * ?y)"
    by (simp add: get2_def algebra_simps)
  have "s + 256 * ((s + ?x) + 256 * ?y) < 2 ^ 32" using b by simp
  then have v: "v = s + 256 * ((s + ?x) + 256 * ?y)" unfolding assms(2) u e by (rule u32_small)
  have "uchar v = s" unfolding v by (rule uchar_low) (use b in linarith)
  moreover have "v div 2 ^ 8 = (s + ?x) + 256 * ?y" unfolding v div_div_256 by (rule div_low) (use b in linarith)
  then have "uchar (v div 2 ^ 8) = s + ?x" using b by (simp only: uchar_low)
  moreover have "a mod 2 = 0 \<or> a mod 2 = 1" by linarith
  ultimately show ?thesis by (auto simp: put2_apply)
qed

lemma downsweep2_result:
  assumes "schedule threads ord" "pow2 sumsSize" "sumsSize \<le> threads"
    and "\<And>l. off \<le> l \<Longrightarrow> l < off + sumsSize \<Longrightarrow> (if forceZero then 0 else m l) + (\<Sum>t<2. m (2 * l + t)) < 256"
  shows "downsweep2 warp ord off sumsSize threads forceZero m a =
    (if off \<le> a div 2 \<and> a div 2 < off + sumsSize
     then (if forceZero then 0 else m (a div 2)) + (\<Sum>t<a mod 2. m (2 * (a div 2) + t)) else m a)"
proof -
  let ?s = "\<lambda>l. if forceZero then 0 else m l"
  let ?W = "\<lambda>lid. if down_active warp sumsSize threads lid then {a. a div 2 = off + down_lid warp sumsSize threads lid} else {}"
  let ?v = "\<lambda>k. if \<not> forceZero then u32 (u32 (get2 m k + m k) * 0x0100 + m k) else u32 (get2 m k * 0x0100)"
  have val: "put2 k (?v k) m' b = (if b div 2 = k then ?s k + (\<Sum>t<b mod 2. m (2 * k + t)) else m' b)"
    if "off \<le> k" "k < off + sumsSize" for k m' b
  proof (rule put2_down)
    show b: "?s k + (\<Sum>u<2. m (2 * k + u)) < 256" using assms(4) [OF that] .
    have "(\<Sum>u<2. m (2 * k + u)) = m (2 * k) + m (2 * k + 1)" by (simp add: numeral_eq_Suc lessThan_Suc)
    then have "m (2 * k) < 256" "m (2 * k + 1) < 256" using b by linarith+
    then have "get2 m k < 2 ^ 32" by (simp add: get2_def)
    then have "u32 (get2 m k + 0) = get2 m k" by (simp only: add_0_right u32_small)
    then show "?v k = u32 (u32 (get2 m k + ?s k) * 0x0100 + ?s k)" by (cases forceZero) simp_all
  qed
  have "downsweep2 warp ord off sumsSize threads forceZero m a =
      (if \<exists>i\<in>set ord. a \<in> ?W i then ?s (a div 2) + (\<Sum>t<a mod 2. m (2 * (a div 2) + t)) else m a)"
    unfolding downsweep2_def
  proof (rule par_consistent, goal_cases)
    case (1 i m' a)
    then have i: "down_active warp sumsSize threads i" "a div 2 = off + down_lid warp sumsSize threads i"
      by (auto split: if_splits)
    then show ?case using val [of "off + down_lid warp sumsSize threads i" m' a] down_lid_less [OF assms(1-3) 1(1) i(1)]
      by (simp add: Let_def)
  next
    case (2 i m' a)
    then show ?case using down_lid_less [OF assms(1-3) 2(1)] val [of "off + down_lid warp sumsSize threads i" m' a]
      by (auto simp: Let_def put2_apply split: if_splits)
  qed
  then show ?thesis unfolding down_written [OF assms(1-3)] .
qed

text \<open>The rounds of one work-item of \<^verbatim>\<open>downsweepMulti\<close>, on its own words.\<close>

lemma down_multi_item:
  assumes "\<And>b. 4 * k \<le> b \<Longrightarrow> b < 4 * (k + rounds) \<Longrightarrow> m' b = m b"
    and "s + (\<Sum>u<4 * rounds. m (4 * k + u)) < 256"
  shows "fold (\<lambda>i (data, sum).
           let old = get4 data (k + i); x = u32 (u32 (old + sum) * 0x01010101)
           in (put4 (k + i) (u32 (x + 2 ^ 32 - old)) data, x div 2 ^ 24)) [0..<rounds] (m', s)
    = (\<lambda>a. if 4 * k \<le> a \<and> a < 4 * (k + rounds) then s + sum m {4 * k..<a} else m' a,
       s + sum m {4 * k..<4 * (k + rounds)})"
  using assms
proof (induction rounds)
  case 0
  then show ?case by (auto simp: fun_eq_iff)
next
  case (Suc n)
  let ?d = "\<lambda>a. if 4 * k \<le> a \<and> a < 4 * (k + n) then s + sum m {4 * k..<a} else m' a"
  let ?s = "s + sum m {4 * k..<4 * (k + n)}" and ?k = "4 * (k + n)"
  have split: "(\<Sum>u<4 * Suc n. m (4 * k + u)) = (\<Sum>u<4 * n. m (4 * k + u)) + (\<Sum>t<4. m (?k + t))"
    by (simp add: numeral_eq_Suc lessThan_Suc algebra_simps)
  have sh: "(\<Sum>u<4 * n. m (4 * k + u)) = sum m {4 * k..<?k}"
    unfolding sum_shift_start by (simp only: add_mult_distrib2)
  have b: "?s + m ?k + m (?k + 1) + m (?k + 2) + m (?k + 3) < 256"
    using Suc.prems(2) unfolding split get4_sum [symmetric] sh by linarith
  have old: "get4 ?d (k + n) = get4 m (k + n)"
    using Suc.prems(1) by (simp add: get4_def)
  have IH: "fold (\<lambda>i (data, sum).
           let old = get4 data (k + i); x = u32 (u32 (old + sum) * 0x01010101)
           in (put4 (k + i) (u32 (x + 2 ^ 32 - old)) data, x div 2 ^ 24)) [0..<n] (m', s) = (?d, ?s)"
    using Suc.prems split by (intro Suc.IH) auto
  note v = down_multi_value [OF b, folded get4_def]
  have w: "put4 (k + n) (pack4 ?s (?s + m ?k) (?s + m ?k + m (?k + 1)) (?s + m ?k + m (?k + 1) + m (?k + 2))) ?d a
      = (if 4 * k \<le> a \<and> a < 4 * (k + Suc n) then s + sum m {4 * k..<a} else m' a)" for a
  proof (cases "a div 4 = k + n")
    case True
    then have "a = ?k + a mod 4" using div_mult_mod_eq [of a 4] by (simp add: ac_simps)
    moreover have "a mod 4 < 4" by simp
    ultimately have a: "?k \<le> a" "a < ?k + 4" "a = ?k + a mod 4" by linarith+
    have "sum m {4 * k..<a} = sum m {4 * k..<?k} + sum m {?k..<a}" using a(1) by (simp add: sum_split_at)
    also have "sum m {?k..<a} = (\<Sum>u<a mod 4. m (?k + u))" unfolding sum_shift_start using a(3) by simp
    finally have "s + sum m {4 * k..<a} = ?s + (\<Sum>u<a mod 4. m (?k + u))" by simp
    moreover have "uchar (pack4 ?s (?s + m ?k) (?s + m ?k + m (?k + 1)) (?s + m ?k + m (?k + 1) + m (?k + 2)) div 2 ^ (8 * (a mod 4)))
        = ?s + (\<Sum>u<a mod 4. m (?k + u))"
      unfolding running4 [OF mod_less_divisor [OF zero_less_numeral], of ?s m "k + n" a, symmetric]
      by (rule pack4_lane) (use b in auto)
    ultimately show ?thesis using True a by (simp add: put4_apply)
  next
    case False
    then have "(4 * k \<le> a \<and> a < 4 * (k + Suc n)) = (4 * k \<le> a \<and> a < ?k)" by auto
    then show ?thesis using False by (simp add: put4_apply)
  qed
  have t: "?s + m ?k + m (?k + 1) + m (?k + 2) + m (?k + 3) = s + sum m {4 * k..<4 * (k + Suc n)}"
    by (simp add: numeral_eq_Suc add_ac)
  show ?case using IH old v w t by (simp add: Let_def fun_eq_iff)
qed

lemma area_div:
  assumes "(0::nat) < w"
  shows "w * i \<le> a \<and> a < w * i + w \<longleftrightarrow> a div w = i"
proof
  assume h: "w * i \<le> a \<and> a < w * i + w"
  have "a div w = (w * i + (a - w * i)) div w" using h by simp
  also have "\<dots> = i + (a - w * i) div w" by (rule div_mult_self4) (use assms in simp)
  also have "(a - w * i) div w = 0" by (rule div_less) (use h in linarith)
  finally show "a div w = i" by simp
next
  assume h: "a div w = i"
  have "w * (a div w) + a mod w = a" by simp
  moreover have "a mod w < w" using assms by simp
  ultimately show "w * i \<le> a \<and> a < w * i + w" using h by auto
qed

lemma downsweepMulti_result:
  assumes ord: "schedule sumsSize ord" and full: "fullSize = sumsSize * w" and w: "w = 4 * rounds" "0 < w"
    and pos: "0 < sumsSize"
    and b: "\<And>j. j < sumsSize \<Longrightarrow> sums (soff + j) + (\<Sum>u<w. m (w * j + u)) < 256"
  shows "downsweepMulti ord sums soff fullSize sumsSize m a =
    (if a < fullSize then sums (soff + a div w) + sum m {w * (a div w)..<a} else m a)"
proof -
  have r: "fullSize div sumsSize div 4 = rounds" using full w pos by simp
  let ?W = "\<lambda>lid. {a. 4 * (lid * rounds) \<le> a \<and> a < 4 * (lid * rounds + rounds)}"
  have W: "a \<in> ?W lid \<longleftrightarrow> a div w = lid" for a lid
  proof -
    have e: "4 * (lid * rounds) = w * lid" "4 * (lid * rounds + rounds) = w * lid + w"
      by (simp_all add: w(1) algebra_simps)
    show ?thesis unfolding e mem_Collect_eq by (rule area_div [OF w(2)])
  qed
  let ?F = "\<lambda>a. sums (soff + a div w) + sum m {w * (a div w)..<a}"
  have "downsweepMulti ord sums soff fullSize sumsSize m a = (if \<exists>i\<in>set ord. a \<in> ?W i then ?F a else m a)"
    unfolding downsweepMulti_def r Let_def
  proof (rule par_areas, goal_cases)
    case 1
    then show ?case using ord by (simp add: schedule_def)
  next
    case (2 lid m' a)
    have lid: "lid < sumsSize" using 2(1) ord by (simp add: schedule_mem)
    have e: "w * lid = 4 * (lid * rounds)" by (simp add: w(1))
    have "sums (soff + lid) + (\<Sum>u<4 * rounds. m (4 * (lid * rounds) + u)) < 256"
      using b [OF lid] unfolding e unfolding w(1) .
    note item = down_multi_item [of "lid * rounds" rounds m' m, OF _ this, unfolded Let_def]
    have "{4 * (lid * rounds)..<a} = {w * (a div w)..<a}" if "a div w = lid" unfolding that e ..
    then show ?case using 2(2) W [of a lid] by (subst item) auto
  next
    case (3 i j a)
    then show ?case unfolding W by simp
  qed
  moreover have "(\<exists>i\<in>set ord. a \<in> ?W i) \<longleftrightarrow> a < fullSize"
    unfolding W using schedule_mem [OF ord, of "a div w"] w(2) full
    by (simp add: div_less_iff_less_mult)
  ultimately show ?thesis by simp
qed

end
