(* ===== verification/RadixSweep.thy ===== *)
theory RadixSweep
  imports RadixBytes
begin

text \<open>
  The upsweep and downsweep code that \<^verbatim>\<open>Radixsort::initialize\<close> (src/radixsort.cpp)
  generates for the scatter kernel: the list of calls, their execution on the
  \<^verbatim>\<open>level1\<close> and \<^verbatim>\<open>level2\<close> arrays of a slice, and the proof that the generated
  code is right for every radix and slice size: the upsweep leaves the digit counts at
  \<^verbatim>\<open>level2.c[RADIX + d]\<close>, the downsweep replaces \<^verbatim>\<open>level1\<close> by its exclusive scan and
  the digit counts by theirs.

  A level of size \<open>n\<close> below the slice-times-radix level is stored at
  \<^verbatim>\<open>level2.c[n .. 2n)\<close>; entry \<open>j\<close> is the sum of the \<open>j\<close>-th of \<open>n\<close> equal parts of
  \<^verbatim>\<open>level1\<close> (\<open>part\<close>), and after the downsweep the sum of all that precedes it.
\<close>

section \<open>The generated statements\<close>

datatype sweep = SweepMulti nat nat | Sweep4 nat bool | Sweep2 nat bool

fun s_from :: "sweep \<Rightarrow> nat" where
  "s_from (SweepMulti from to) = from"
| "s_from (Sweep4 to z) = 4 * to"
| "s_from (Sweep2 to z) = 2 * to"

fun s_to :: "sweep \<Rightarrow> nat" where
  "s_to (SweepMulti from to) = to"
| "s_to (Sweep4 to z) = to"
| "s_to (Sweep2 to z) = to"

text \<open>The inner loop for a pair of stops below the slice size.\<close>

function between :: "nat \<Rightarrow> nat \<Rightarrow> sweep list" where
  "between from to =
     (if to * 4 \<le> from \<and> 0 < to then Sweep4 (from div 4) (from = 4) # between (from div 4) to
      else if from = to * 2 then [Sweep2 (from div 2) (from = 2)] else [])"
  by pat_completeness auto
termination
  by (relation "measure fst") auto

declare between.simps [simp del]

definition stops :: "nat \<Rightarrow> nat \<Rightarrow> nat list" where
  "stops radix slc = [1, radix] @ (if radix < slc then [slc] else []) @ [slc * radix]"

definition sweeps :: "nat \<Rightarrow> nat \<Rightarrow> sweep list" where
  "sweeps radix slc =
     (let st = stops radix slc
      in concat (map (\<lambda>i. if slc \<le> st ! i then [SweepMulti (st ! (i + 1)) (st ! i)]
                          else between (st ! (i + 1)) (st ! i)) (rev [0..<length st - 1])))"

section \<open>Execution\<close>

text \<open>The pair of arrays of a slice: \<^verbatim>\<open>level1.c\<close> and \<^verbatim>\<open>level2.c\<close>.\<close>

type_synonym levels = "(nat \<Rightarrow> nat) \<times> (nat \<Rightarrow> nat)"

fun up_one :: "nat \<Rightarrow> nat list \<Rightarrow> sweep \<Rightarrow> levels \<Rightarrow> levels" where
  "up_one slc ord (SweepMulti from to) (l1, l2) = (l1, upsweepMulti ord l1 to from to l2)"
| "up_one slc ord (Sweep4 to z) (l1, l2) = (l1, upsweep4 ord to to slc l2)"
| "up_one slc ord (Sweep2 to z) (l1, l2) = (l1, upsweep2 ord to to slc l2)"

fun down_one :: "nat \<Rightarrow> nat \<Rightarrow> nat list \<Rightarrow> sweep \<Rightarrow> levels \<Rightarrow> levels" where
  "down_one warp slc ord (SweepMulti from to) (l1, l2) = (downsweepMulti ord l2 to from to l1, l2)"
| "down_one warp slc ord (Sweep4 to z) (l1, l2) = (l1, downsweep4 warp ord to to slc z l2)"
| "down_one warp slc ord (Sweep2 to z) (l1, l2) = (l1, downsweep2 warp ord to to slc z l2)"

text \<open>The statements run in order; \<open>S [k]\<close> orders the work-items in statement \<open>k\<close>.\<close>

fun run_from :: "sched \<Rightarrow> (nat list \<Rightarrow> sweep \<Rightarrow> 's \<Rightarrow> 's) \<Rightarrow> nat \<Rightarrow> sweep list \<Rightarrow> 's \<Rightarrow> 's" where
  "run_from S one k [] s = s"
| "run_from S one k (x # xs) s = run_from S one (Suc k) xs (one (S [k]) x s)"

definition upsweep :: "sched \<Rightarrow> nat \<Rightarrow> sweep list \<Rightarrow> levels \<Rightarrow> levels" where
  "upsweep S slc ss = run_from S (up_one slc) 0 ss"

definition downsweep :: "sched \<Rightarrow> nat \<Rightarrow> nat \<Rightarrow> sweep list \<Rightarrow> levels \<Rightarrow> levels" where
  "downsweep S warp slc ss = run_from S (down_one warp slc) 0 (rev ss)"

lemma run_from_append: "run_from S one k (xs @ ys) s = run_from S one (k + length xs) ys (run_from S one k xs s)"
  by (induction xs arbitrary: k s) simp_all

section \<open>The chain of levels\<close>

text \<open>
  What the generated code looks like: each statement goes from the level the last one made
  to a smaller one, the last level has size 1, the first statement starts at
  \<open>slice * radix\<close>, and \<open>forceZero\<close> is passed exactly where the sums are the single total.
\<close>

fun sweep_ok :: "nat \<Rightarrow> sweep \<Rightarrow> bool" where
  "sweep_ok slc (SweepMulti from to) = False"
| "sweep_ok slc (Sweep4 to z) \<longleftrightarrow> pow2 to \<and> to \<le> slc \<and> (z \<longleftrightarrow> to = 1)"
| "sweep_ok slc (Sweep2 to z) \<longleftrightarrow> pow2 to \<and> to \<le> slc \<and> (z \<longleftrightarrow> to = 1)"

fun linked :: "nat \<Rightarrow> nat \<Rightarrow> sweep list \<Rightarrow> nat \<Rightarrow> bool" where
  "linked slc n [] m \<longleftrightarrow> n = m"
| "linked slc n (s # ss) m \<longleftrightarrow> s_from s = n \<and> sweep_ok slc s \<and> linked slc (s_to s) ss m"

lemma linked_append:
  "linked slc n (xs @ ys) m \<longleftrightarrow> (\<exists>k. linked slc n xs k \<and> linked slc k ys m)"
  by (induction xs arbitrary: n) auto

lemma linked_between:
  "linked slc (2 ^ (i + d)) (between (2 ^ (i + d)) (2 ^ i)) (2 ^ i)" if "(2::nat) ^ (i + d) \<le> slc"
  using that
proof (induction d rule: less_induct)
  case (less d)
  consider "d = 0" | "d = 1" | e where "d = e + 2"
    by (metis One_nat_def Suc_pred add_2_eq_Suc' neq0_conv)
  then show ?case
  proof cases
    case 1
    then show ?thesis by (simp add: between.simps)
  next
    case 2
    have "\<not> (2 ^ i * 4 \<le> 2 * (2 ^ i :: nat))" by simp
    then have "between (2 * 2 ^ i) (2 ^ i) = [Sweep2 (2 ^ i) (2 * 2 ^ i = (2 :: nat))]"
      by (subst between.simps) simp
    then show ?thesis using less.prems 2 by (auto simp: linked.simps)
  next
    case (3 e)
    have f: "(2::nat) ^ (i + d) = 4 * 2 ^ (i + e)" by (simp add: 3 power_add)
    have c: "(2::nat) ^ i * 4 \<le> 4 * 2 ^ (i + e) \<and> 0 < (2::nat) ^ i" by (simp add: power_add)
    have "between (2 ^ (i + d)) (2 ^ i) = Sweep4 (2 ^ (i + e)) (2 ^ (i + e) = (1 :: nat)) # between (2 ^ (i + e)) (2 ^ i)"
      unfolding f by (subst between.simps) (simp only: c if_True, simp)
    moreover have "linked slc (2 ^ (i + e)) (between (2 ^ (i + e)) (2 ^ i)) (2 ^ i)"
      using less.prems f by (intro less.IH) (simp_all add: 3)
    moreover have "2 ^ (i + e) \<le> slc" using less.prems f by linarith
    ultimately show ?thesis using f by simp
  qed
qed

text \<open>The code generated for a radix and a slice size.\<close>

lemma sweeps_shape:
  assumes "pow2 radix" "pow2 slc" "1 < radix" "radix \<le> slc"
  shows "\<exists>ss. sweeps radix slc = SweepMulti (slc * radix) slc # ss \<and> linked slc slc ss 1
    \<and> radix \<in> insert slc (s_to ` set ss)"
proof -
  obtain i where i: "radix = 2 ^ i" using assms(1) by (rule pow2_E)
  obtain j where j: "slc = 2 ^ j" using assms(2) by (rule pow2_E)
  have ij: "i \<le> j" using assms(4) by (simp add: i j)
  have low: "linked slc radix (between radix 1) 1"
    using linked_between [of 0 i slc] assms(4) by (simp add: i)
  have sr: "slc \<le> slc * radix" using assms(3) by simp
  show ?thesis
  proof (cases "radix < slc")
    case True
    have "rev [0..<3] = [2, 1, 0 :: nat]" by (simp add: numeral_eq_Suc)
    then have s: "sweeps radix slc = SweepMulti (slc * radix) slc # (between slc radix @ between radix 1)"
      using True assms(3) by (simp add: sweeps_def stops_def numeral_eq_Suc)
    have "linked slc slc (between slc radix) radix"
      using linked_between [of i "j - i" slc] ij by (simp add: i j)
    moreover from this have "radix \<in> insert slc (s_to ` set (between slc radix))"
    proof (cases "between slc radix = []")
      case False
      have "linked slc n xs m \<Longrightarrow> xs \<noteq> [] \<Longrightarrow> m \<in> s_to ` set xs" for n xs m
        by (induction xs arbitrary: n) (auto, case_tac xs, auto)
      then show ?thesis using False \<open>linked slc slc (between slc radix) radix\<close> by blast
    qed simp
    ultimately show ?thesis using low by (intro exI [of _ "between slc radix @ between radix 1"]) (auto simp: s linked_append)
  next
    case False
    then have e: "slc = radix" using assms(4) by simp
    have "rev [0..<2] = [1, 0 :: nat]" by (simp add: numeral_eq_Suc)
    then have "sweeps radix slc = SweepMulti (slc * radix) slc # between radix 1"
      using e assms(3) by (simp add: sweeps_def stops_def numeral_eq_Suc)
    then show ?thesis using low e by auto
  qed
qed

section \<open>Levels of partial sums\<close>

definition part :: "(nat \<Rightarrow> nat) \<Rightarrow> nat \<Rightarrow> nat \<Rightarrow> nat" where
  "part A w j = sum A {j * w..<j * w + w}"

definition before :: "(nat \<Rightarrow> nat) \<Rightarrow> nat \<Rightarrow> nat \<Rightarrow> nat" where
  "before A w j = sum A {..<j * w}"

lemma before_parts: "before A (k * w) j + (\<Sum>u<t. part A w (k * j + u)) = before A w (k * j + t)"
proof (induction t)
  case 0
  then show ?case by (simp add: before_def mult_ac)
next
  case (Suc t)
  have "before A w (k * j + t) + part A w (k * j + t) = before A w (k * j + Suc t)"
    using sum_split_at [of 0 "(k * j + t) * w" "(k * j + t) * w + w" A]
    by (simp add: before_def part_def lessThan_atLeast0 add.commute)
  then show ?case using Suc.IH by simp
qed

lemma part_parts: "(\<Sum>u<k. part A w (k * j + u)) = part A (k * w) j"
proof -
  have "before A (k * w) j + part A (k * w) j = before A (k * w) (Suc j)"
    using sum_split_at [of 0 "j * (k * w)" "j * (k * w) + k * w" A]
    by (simp add: before_def part_def lessThan_atLeast0 add.commute)
  also have "\<dots> = before A w (k * j + k)" by (simp add: before_def algebra_simps)
  finally show ?thesis using before_parts [of A k w j k] by simp
qed

lemma before_part_le:
  assumes "j < n"
  shows "before A w j + part A w j \<le> sum A {..<n * w}"
proof -
  have "before A w j + part A w j = sum A {0..<j * w + w}"
    using sum_split_at [of 0 "j * w" "j * w + w" A] by (simp add: before_def part_def lessThan_atLeast0)
  moreover have "Suc j * w \<le> n * w" using assms by (intro mult_right_mono) auto
  then have "{0..<j * w + w} \<subseteq> {..<n * w}" by (auto simp: add.commute)
  ultimately show ?thesis by (simp add: sum_mono2)
qed

section \<open>One statement below the slice size\<close>

fun s_factor :: "sweep \<Rightarrow> nat" where
  "s_factor (Sweep4 to z) = 4"
| "s_factor (Sweep2 to z) = 2"
| "s_factor (SweepMulti from to) = from div to"

lemma sweep_okD:
  assumes "sweep_ok slc s"
  shows "s_from s = s_factor s * s_to s" "pow2 (s_to s)" "s_to s \<le> slc" "2 \<le> s_factor s" "0 < s_to s"
proof -
  show "pow2 (s_to s)" using assms by (cases s) auto
  then show "0 < s_to s" by (rule pow2_pos)
qed (use assms in \<open>cases s; auto\<close>)+

lemma up_step:
  assumes "sweep_ok slc s" "schedule slc ord"
    and "\<And>a. s_to s \<le> a \<Longrightarrow> a < 2 * s_to s \<Longrightarrow> (\<Sum>t< s_factor s. M (s_factor s * a + t)) < 256"
  shows "up_one slc ord s (l1, M) = (l1, \<lambda>a. if s_to s \<le> a \<and> a < 2 * s_to s
    then \<Sum>t< s_factor s. M (s_factor s * a + t) else M a)"
proof (cases s)
  case (SweepMulti f t)
  then show ?thesis using assms(1) by simp
next
  case (Sweep4 to z)
  then show ?thesis using assms upsweep4_result [OF assms(2), of to to M] by (auto simp: fun_eq_iff mult_2)
next
  case (Sweep2 to z)
  then show ?thesis using assms upsweep2_result [OF assms(2), of to to M] by (auto simp: fun_eq_iff mult_2)
qed

lemma down_step:
  assumes "sweep_ok slc s" "schedule slc ord"
    and "\<And>a. s_to s \<le> a \<Longrightarrow> a < 2 * s_to s \<Longrightarrow>
      (if s_to s = 1 then 0 else M a) + (\<Sum>t< s_factor s. M (s_factor s * a + t)) < 256"
  shows "down_one warp slc ord s (l1, M) = (l1, \<lambda>a. let l = a div s_factor s in
    if s_to s \<le> l \<and> l < 2 * s_to s
    then (if s_to s = 1 then 0 else M l) + (\<Sum>t<a mod s_factor s. M (s_factor s * l + t)) else M a)"
proof (cases s)
  case (SweepMulti f t)
  then show ?thesis using assms(1) by simp
next
  case (Sweep4 to z)
  then show ?thesis using assms downsweep4_result [OF assms(2), of to to z M warp]
    by (auto simp: fun_eq_iff mult_2 Let_def)
next
  case (Sweep2 to z)
  then show ?thesis using assms downsweep2_result [OF assms(2), of to to z M warp]
    by (auto simp: fun_eq_iff mult_2 Let_def)
qed

section \<open>All statements below the slice size\<close>

text \<open>What a level holds after the upsweep and after the downsweep.\<close>

definition level_done :: "(nat \<Rightarrow> nat) \<Rightarrow> nat \<Rightarrow> (nat \<Rightarrow> nat) \<Rightarrow> (nat \<Rightarrow> nat) \<Rightarrow> nat \<Rightarrow> bool" where
  "level_done A N U D m \<longleftrightarrow> (\<exists>w. m * w = N \<and> (\<forall>j<m. U (m + j) = part A w j)
     \<and> (1 < m \<longrightarrow> (\<forall>j<m. D (m + j) = before A w j)))"

lemma sweep_levels:
  assumes S: "valid slc S" "valid slc S'"
    and link: "linked slc n ss 1" and n: "0 < n" and w: "n * w = N" and tot: "sum A {..<N} < 256"
    and M: "\<And>j. j < n \<Longrightarrow> M (n + j) = part A w j"
  shows "\<exists>U D. run_from S (up_one slc) k ss (l1, M) = (l1, U)
    \<and> run_from S' (down_one warp slc) k' (rev ss) (l1', U) = (l1', D)
    \<and> (\<forall>m\<in>insert n (s_to ` set ss). level_done A N U D m)
    \<and> (\<forall>a. a = 0 \<or> 2 * n \<le> a \<longrightarrow> U a = M a \<and> D a = M a)"
  using link n w M
proof (induction ss arbitrary: n w M k)
  case Nil
  then have "level_done A N M M n" unfolding level_done_def by (intro exI [of _ w]) auto
  then show ?case by simp
next
  case (Cons s ss)
  define q where "q = s_factor s"
  define t where "t = s_to s"
  note ok = sweep_okD [of slc s, folded q_def t_def]
  have sok: "sweep_ok slc s" and nq: "n = q * t" and rest: "linked slc t ss 1"
    using Cons.prems(1) ok by (auto simp: t_def)
  have q: "2 \<le> q" "0 < t" using ok sok by auto
  have addr: "q * (t + j) + u = n + (q * j + u)" for j u by (simp add: nq algebra_simps)
  have small: "q * j + u < n" if "j < t" "u < q" for j u
  proof -
    have "q * Suc j \<le> q * t" using that(1) by (intro mult_left_mono) auto
    then show ?thesis using that(2) by (simp add: nq)
  qed
  have sumM: "(\<Sum>u<q. M (q * (t + j) + u)) = part A (q * w) j" if "j < t" for j
    unfolding part_parts [symmetric] addr using small [OF that] by (intro sum.cong refl Cons.prems(4)) auto
  have w': "t * (q * w) = N" using Cons.prems(3) nq by (simp add: mult_ac)
  have b: "before A (q * w) j + part A (q * w) j < 256" if "j < t" for j
    using before_part_le [OF that, of A "q * w"] tot unfolding w' by linarith
  define M1 where "M1 a = (if t \<le> a \<and> a < 2 * t then \<Sum>u<q. M (q * a + u) else M a)" for a
  have up: "up_one slc (S [k]) s (l1, M) = (l1, M1)"
  proof -
    have "(\<Sum>u<q. M (q * a + u)) < 256" if "t \<le> a" "a < 2 * t" for a
    proof -
      have "a - t < t" "t + (a - t) = a" using that by linarith+
      then show ?thesis using sumM [of "a - t"] b [of "a - t"] by simp
    qed
    then show ?thesis using up_step [OF sok valid_schedule [OF S(1)], of M "[k]" l1]
      by (simp add: q_def t_def M1_def fun_eq_iff)
  qed
  have M1: "M1 (t + j) = part A (q * w) j" if "j < t" for j
    using sumM [OF that] that by (simp add: M1_def)
  obtain U D where UD: "run_from S (up_one slc) (Suc k) ss (l1, M1) = (l1, U)"
    "run_from S' (down_one warp slc) k' (rev ss) (l1', U) = (l1', D)"
    and lev: "\<forall>m\<in>insert t (s_to ` set ss). level_done A N U D m"
    and fr: "\<forall>a. a = 0 \<or> 2 * t \<le> a \<longrightarrow> U a = M1 a \<and> D a = M1 a"
    using Cons.IH [OF rest q(2) w' M1, of "Suc k"] by blast
  have nt: "2 * t \<le> n" using q nq by simp
  have high: "U a = M a \<and> D a = M a" if "2 * t \<le> a" for a
    using fr that by (auto simp: M1_def)
  define D1 where "D1 = (\<lambda>a. let l = a div q in if t \<le> l \<and> l < 2 * t
    then (if t = 1 then 0 else D l) + (\<Sum>u<a mod q. D (q * l + u)) else D a)" for a
  have Dt: "(if t = 1 then 0 else D (t + j)) = before A (q * w) j" if "j < t" for j
  proof (cases "t = 1")
    case True
    then show ?thesis using that by (simp add: before_def)
  next
    case False
    then have "1 < t" using q by simp
    have "level_done A N U D t" using lev by simp
    then obtain w2 where w2': "t * w2 = N \<and> (\<forall>j<t. U (t + j) = part A w2 j) \<and> (1 < t \<longrightarrow> (\<forall>j<t. D (t + j) = before A w2 j))"
      unfolding level_done_def by (rule exE)
    have w2: "t * w2 = N" using w2' by (elim conjE)
    have w2b: "1 < t \<longrightarrow> (\<forall>j<t. D (t + j) = before A w2 j)" using w2' by (elim conjE)
    have "t * w2 = t * (q * w)" using w2 w' by simp
    then have "w2 = q * w" unfolding mult_cancel1 using q(2) by simp
    then show ?thesis using w2b [rule_format, OF \<open>1 < t\<close> that] False by simp
  qed
  have Dq: "D (q * (t + j) + u) = part A w (q * j + u)" if "j < t" "u < q" for j u
    using high [of "n + (q * j + u)"] nt Cons.prems(4) [OF small [OF that]] by (simp add: addr)
  have dsum: "(\<Sum>u<v. D (q * (t + j) + u)) = (\<Sum>u<v. part A w (q * j + u))" if "j < t" "v \<le> q" for j v
    using Dq [OF that(1)] that(2) by (intro sum.cong) auto
  have down: "down_one warp slc (S' [k' + length ss]) s (l1', D) = (l1', D1)"
  proof -
    have b2: "(if t = 1 then 0 else D a) + (\<Sum>u<q. D (q * a + u)) < 256" if "t \<le> a" "a < 2 * t" for a
    proof -
      have a: "a - t < t" "t + (a - t) = a" using that by linarith+
      show ?thesis using Dt [OF a(1)] dsum [OF a(1) order_refl] b [OF a(1)] unfolding a(2) part_parts by simp
    qed
    show ?thesis unfolding D1_def unfolding q_def t_def
      by (rule down_step [OF sok valid_schedule [OF S(2)]]) (rule b2 [unfolded q_def t_def])
  qed
  have lowdiv: "\<not> (t \<le> a div q)" if "a < n" for a
    using that nq q by (simp add: not_le less_mult_imp_div_less mult.commute)
  have D1low: "D1 a = D a" if "a < n" for a using lowdiv [OF that] by (simp add: D1_def)
  have D1n: "D1 (n + j) = before A w j" if "j < n" for j
  proof -
    have j: "j div q < t" using that nq by (simp add: less_mult_imp_div_less mult.commute)
    have a: "(n + j) div q = t + j div q" "(n + j) mod q = j mod q" using q by (simp_all add: nq)
    have jq: "j mod q \<le> q" using q by (simp add: less_imp_le)
    have "D1 (n + j) = before A (q * w) (j div q) + (\<Sum>u<j mod q. part A w (q * (j div q) + u))"
      unfolding D1_def Let_def a using j Dt [OF j] dsum [OF j jq] by simp
    also have "\<dots> = before A w j" unfolding before_parts by simp
    finally show ?thesis .
  qed
  have nN: "level_done A N U D1 n"
    unfolding level_done_def using Cons.prems(3) D1n high nt Cons.prems(4)
    by (intro exI [of _ w]) auto
  have levs: "level_done A N U D1 m" if "m \<in> insert t (s_to ` set ss)" for m
  proof -
    have "m \<le> t" using that rest
    proof -
      have "linked slc t xs z \<Longrightarrow> m \<in> insert t (s_to ` set xs) \<Longrightarrow> m \<le> t" for xs t z
      proof (induction xs arbitrary: t)
        case (Cons y ys)
        have "s_to y \<le> t" using sweep_okD [of slc y] Cons.prems(1) by auto
        then show ?case using Cons.IH [of "s_to y"] Cons.prems by auto
      qed simp
      then show ?thesis using that rest by blast
    qed
    then have "D1 (m + j) = D (m + j)" if "j < m" for j using nt that by (intro D1low) auto
    then show ?thesis using lev that by (auto simp: level_done_def)
  qed
  have frame: "U a = M a \<and> D1 a = M a" if "a = 0 \<or> 2 * n \<le> a" for a
  proof (cases "a = 0")
    case True
    then show ?thesis using fr n q nq by (simp add: D1_def M1_def)
  next
    case False
    then have a: "2 * n \<le> a" using that by simp
    then have "\<not> (a div q < 2 * t)" using q nq
      by (metis (no_types, lifting) div_le_mono mult.left_commute nonzero_mult_div_cancel_left not_le not_numeral_le_zero)
    then have "D1 a = D a" by (simp add: D1_def)
    moreover have "2 * t \<le> a" using a nt by linarith
    ultimately show ?thesis using high by simp
  qed
  have "run_from S (up_one slc) k (s # ss) (l1, M) = (l1, U)" using UD(1) up by simp
  moreover have "run_from S' (down_one warp slc) k' (rev (s # ss)) (l1', U) = (l1', D1)"
    using UD(2) down by (simp add: run_from_append)
  moreover have "\<forall>m\<in>insert n (s_to ` set (s # ss)). level_done A N U D1 m"
    using nN levs by (auto simp: t_def)
  ultimately show ?case using frame by blast
qed

section \<open>The generated code\<close>

lemma level_doneD:
  assumes "level_done A N U D m" "m * w = N" "0 < m" "j < m"
  shows "U (m + j) = part A w j" "1 < m \<Longrightarrow> D (m + j) = before A w j"
proof -
  obtain v where v: "m * v = N" "\<forall>j<m. U (m + j) = part A v j" "1 < m \<longrightarrow> (\<forall>j<m. D (m + j) = before A v j)"
    using assms(1) unfolding level_done_def by (elim exE conjE)
  have "m * v = m * w" using v(1) assms(2) by simp
  then have "v = w" unfolding mult_cancel1 using assms(3) by simp
  then show "U (m + j) = part A w j" "1 < m \<Longrightarrow> D (m + j) = before A w j"
    using v(2,3) assms(4) by simp_all
qed

text \<open>
  For every radix and slice size that the kernel accepts, with \<open>A\<close> the bytes of
  \<^verbatim>\<open>level1\<close> before and any contents of \<^verbatim>\<open>level2\<close>.
\<close>

lemma sweeps_result:
  assumes radix: "pow2 radix" "4 \<le> radix" "radix \<le> slc" and slc: "pow2 slc"
    and S: "valid slc S" "valid slc S'" and tot: "sum A {..<slc * radix} < 256"
  obtains U E D where
    "upsweep S slc (sweeps radix slc) (A, B) = (A, U)"
    "downsweep S' warp slc (sweeps radix slc) (A, U) = (E, D)"
    "\<And>d. d < radix \<Longrightarrow> U (radix + d) = sum A {d * slc..<d * slc + slc}"
    "\<And>d. d < radix \<Longrightarrow> D (radix + d) = sum A {..<d * slc}"
    "\<And>a. a < slc * radix \<Longrightarrow> E a = sum A {..<a}"
proof -
  obtain ss where ss: "sweeps radix slc = SweepMulti (slc * radix) slc # ss" "linked slc slc ss 1"
    "radix \<in> insert slc (s_to ` set ss)"
    using sweeps_shape [OF radix(1) slc _ radix(3)] radix(2) by auto
  have pos: "0 < slc" "1 < slc" using radix by auto
  have "4 dvd radix" using pow2_div_dvd(1) [of 4 radix] radix pow2_power [of 2] by simp
  then obtain r where r: "radix = 4 * r" by blast
  let ?N = "slc * radix"
  have parts: "(\<Sum>u<radix. A (radix * j + u)) = part A radix j" for j
    by (simp add: part_def sum_shift_start mult.commute)
  have b: "before A radix j + part A radix j < 256" if "j < slc" for j
    using before_part_le [OF that, of A radix] tot by linarith
  define M where "M = upsweepMulti (S [0]) A slc ?N slc B"
  have M: "M (slc + j) = part A radix j" if "j < slc" for j
  proof -
    have "(\<Sum>u<4 * r. A (4 * r * j + u)) < 256" if "j < slc" for j
      using parts [of j] b [OF that] unfolding r by simp
    then have "M a = (if slc \<le> a \<and> a < slc + slc then \<Sum>u<4 * r. A (4 * r * (a - slc) + u) else B a)" for a
      unfolding M_def r using upsweepMulti_result [OF valid_schedule [OF S(1)] _ pos(1), of _ r A "[0]" slc B a]
      by blast
    then show ?thesis using that parts [of j] r by simp
  qed
  obtain U D where up: "run_from S (up_one slc) 1 ss (A, M) = (A, U)"
    and down: "run_from S' (down_one warp slc) 0 (rev ss) (A, U) = (A, D)"
    and lev: "\<forall>m\<in>insert slc (s_to ` set ss). level_done A ?N U D m"
    using sweep_levels [OF S ss(2) pos(1) refl tot M, of 1 A warp 0 A] by blast
  define E where "E = downsweepMulti (S' [length ss]) D slc ?N slc A"
  have "upsweep S slc (sweeps radix slc) (A, B) = (A, U)"
    using up by (simp add: upsweep_def ss(1) M_def)
  moreover have "downsweep S' warp slc (sweeps radix slc) (A, U) = (E, D)"
    using down by (simp add: downsweep_def ss(1) run_from_append E_def)
  moreover have "U (radix + d) = sum A {d * slc..<d * slc + slc}" "D (radix + d) = sum A {..<d * slc}"
    if "d < radix" for d
    using level_doneD [OF lev [rule_format, OF ss(3)], of slc d] that radix(2)
    by (simp_all add: mult.commute part_def before_def)
  moreover have "E a = sum A {..<a}" if "a < ?N" for a
  proof -
    have sl: "D (slc + j) = before A radix j" if "j < slc" for j
      using level_doneD(2) [OF lev [rule_format, of slc] refl pos(1) that pos(2)] by simp
    have "D (slc + j) + (\<Sum>u<radix. A (radix * j + u)) < 256" if "j < slc" for j
      using sl [OF that] b [OF that] parts [of j] by simp
    then have "E a = D (slc + a div radix) + sum A {radix * (a div radix)..<a}"
      unfolding E_def using downsweepMulti_result [OF valid_schedule [OF S(2)] refl r _ pos(1), of D slc A "[length ss]" a] that radix(2)
      by simp
    also have "a div radix < slc" using that by (simp add: less_mult_imp_div_less)
    then have "D (slc + a div radix) = sum A {0..<radix * (a div radix)}"
      using sl by (simp add: before_def mult.commute lessThan_atLeast0)
    also have "\<dots> + sum A {radix * (a div radix)..<a} = sum A {0..<a}"
      by (rule sum_split_at) simp_all
    finally show ?thesis by (simp add: lessThan_atLeast0)
  qed
  ultimately show ?thesis using that by blast
qed

end
