(* ===== verification/RadixText.thy ===== *)
theory RadixText
  imports RadixSweep CoreTypes
begin

text \<open>
  The text of the macros \<^verbatim>\<open>UPSWEEP()\<close> and \<^verbatim>\<open>DOWNSWEEP()\<close> that
  \<^verbatim>\<open>Radixsort::initialize\<close> (src/radixsort.cpp) generates, and how the compiler reads it:
  \<open>sweep_macros\<close> finds the statements of a pair of texts and accepts them only when they
  print as exactly these texts. The theory shows that the texts of any list of statements are
  read back as that list.
\<close>

section \<open>The generated text\<close>

fun upsweep_stmt :: "sweep \<Rightarrow> string" where
  "upsweep_stmt (SweepMulti from to) = ''upsweepMulti(wg->hist.level1.i, wg->hist.level2.c + '' @ show_nat to
     @ '', '' @ show_nat from @ '', '' @ show_nat to @ '', lid);''"
| "upsweep_stmt (Sweep4 to z) = ''upsweep4(wg->hist.level2.i + '' @ show_nat to @ '', wg->hist.level2.c + ''
     @ show_nat to @ '', '' @ show_nat to @ '', lid, SCATTER_SLICE);''"
| "upsweep_stmt (Sweep2 to z) = ''upsweep2(wg->hist.level2.s + '' @ show_nat to @ '', wg->hist.level2.c + ''
     @ show_nat to @ '', '' @ show_nat to @ '', lid, SCATTER_SLICE);''"

definition show_bool :: "bool \<Rightarrow> string" where
  "show_bool z = (if z then ''true'' else ''false'')"

fun downsweep_stmt :: "sweep \<Rightarrow> string" where
  "downsweep_stmt (SweepMulti from to) = ''downsweepMulti(wg->hist.level1.i, wg->hist.level2.c + '' @ show_nat to
     @ '', '' @ show_nat from @ '', '' @ show_nat to @ '', lid);''"
| "downsweep_stmt (Sweep4 to z) = ''downsweep4(wg->hist.level2.i + '' @ show_nat to @ '', wg->hist.level2.c + ''
     @ show_nat to @ '', '' @ show_nat to @ '', lid, SCATTER_SLICE, '' @ show_bool z @ '');''"
| "downsweep_stmt (Sweep2 to z) = ''downsweep2(wg->hist.level2.s + '' @ show_nat to @ '', wg->hist.level2.c + ''
     @ show_nat to @ '', '' @ show_nat to @ '', lid, SCATTER_SLICE, '' @ show_bool z @ '');''"

definition upsweep_text :: "sweep list \<Rightarrow> string" where
  "upsweep_text ss = ''do { '' @ concat (map upsweep_stmt ss) @ '' } while (0)''"

definition downsweep_text :: "sweep list \<Rightarrow> string" where
  "downsweep_text ss = ''do { '' @ concat (map downsweep_stmt (rev ss)) @ ''} while (0)''"

section \<open>Reading it back\<close>

definition is_digit :: "char \<Rightarrow> bool" where
  "is_digit c \<longleftrightarrow> 48 \<le> (of_char c :: nat) \<and> (of_char c :: nat) \<le> 57"

text \<open>The decimal numbers of a text; \<open>a\<close> is the number that is being read.\<close>

fun nums_at :: "nat option \<Rightarrow> string \<Rightarrow> nat list" where
  "nums_at a [] = (case a of None \<Rightarrow> [] | Some n \<Rightarrow> [n])"
| "nums_at a (c # s) =
     (if is_digit c then nums_at (Some ((case a of None \<Rightarrow> 0 | Some n \<Rightarrow> n) * 10 + (of_char c - 48))) s
      else case a of None \<Rightarrow> nums_at None s | Some n \<Rightarrow> n # nums_at None s)"

text \<open>The statements that a text could be, from its numbers, and the one that it is.\<close>

definition candidates :: "nat list \<Rightarrow> sweep list" where
  "candidates ns = [SweepMulti (ns ! 3) (ns ! 2), Sweep4 (ns ! 2) True, Sweep4 (ns ! 2) False,
     Sweep2 (ns ! 2) True, Sweep2 (ns ! 2) False]"

definition read_stmt :: "string \<Rightarrow> sweep option" where
  "read_stmt s = find (\<lambda>c. downsweep_stmt c = s) (candidates (nums_at None s))"

fun split_semi :: "string \<Rightarrow> string \<Rightarrow> string list" where
  "split_semi acc [] = []"
| "split_semi acc (c # s) = (if c = CHR '';'' then rev (c # acc) # split_semi [] s else split_semi (c # acc) s)"

definition sweep_macros :: "string \<Rightarrow> string \<Rightarrow> sweep list option" where
  "sweep_macros u d =
     (let ss = rev (map the (filter (\<lambda>x. x \<noteq> None) (map read_stmt (split_semi [] (drop 5 d)))))
      in if upsweep_text ss = u \<and> downsweep_text ss = d then Some ss else None)"

lemma digit_cases:
  assumes "n < 10"
  shows "is_digit (digit n)" "of_char (digit n) = 48 + n" "digit n \<noteq> CHR '';''"
proof -
  have "n \<in> {0, 1, 2, 3, 4, 5, 6, 7, 8, 9}" using assms by auto
  then show "is_digit (digit n)" "of_char (digit n) = 48 + n" "digit n \<noteq> CHR '';''"
    by (elim insertE; simp add: digit_def is_digit_def)+
qed

lemma nums_show: "nums_at None (show_nat n @ t) = nums_at (Some n) t"
proof (induction n arbitrary: t rule: less_induct)
  case (less n)
  show ?case
  proof (cases "n < 10")
    case True
    then show ?thesis by (subst show_nat.simps) (simp add: digit_cases)
  next
    case False
    have "nums_at None (show_nat n @ t) = nums_at (Some (n div 10)) (digit (n mod 10) # t)"
      using False less.IH [of "n div 10" "digit (n mod 10) # t"] by (subst show_nat.simps) simp
    then show ?thesis using digit_cases [of "n mod 10"] by simp
  qed
qed

lemma show_no_semi: "CHR '';'' \<notin> set (show_nat n)"
proof (induction n rule: less_induct)
  case (less n)
  then show ?case using digit_cases(3) [of n] digit_cases(3) [of "n mod 10"] by (subst show_nat.simps) auto
qed

lemma split_semi_stmt:
  "CHR '';'' \<notin> set b \<Longrightarrow> split_semi acc (b @ CHR '';'' # t) = (rev acc @ b @ '';'') # split_semi [] t"
  by (induction b arbitrary: acc) auto

lemma split_semi_none: "CHR '';'' \<notin> set b \<Longrightarrow> split_semi acc b = []"
  by (induction b arbitrary: acc) auto

lemma downsweep_stmt_semi: "\<exists>b. downsweep_stmt c = b @ '';'' \<and> CHR '';'' \<notin> set b"
proof -
  have "downsweep_stmt c = butlast (downsweep_stmt c) @ '';''"
    by (cases c) (simp_all add: butlast_append)
  moreover have "CHR '';'' \<notin> set (butlast (downsweep_stmt c))"
    by (cases c) (auto simp: butlast_append show_no_semi show_bool_def)
  ultimately show ?thesis by blast
qed

lemma downsweep_stmt_differ:
  "downsweep_stmt (SweepMulti f t) \<noteq> downsweep_stmt (Sweep4 t' z)"
  "downsweep_stmt (SweepMulti f t) \<noteq> downsweep_stmt (Sweep2 t' z)"
  "downsweep_stmt (Sweep4 f y) \<noteq> downsweep_stmt (Sweep2 t' z)"
  "downsweep_stmt (Sweep4 t True) \<noteq> downsweep_stmt (Sweep4 t False)"
  "downsweep_stmt (Sweep2 t True) \<noteq> downsweep_stmt (Sweep2 t False)"
  by (simp_all add: show_bool_def)

lemma downsweep_stmt_nums:
  "nums_at None (downsweep_stmt (SweepMulti f t)) = [1, 2, t, f, t]"
  "\<exists>ns. nums_at None (downsweep_stmt (Sweep4 t z)) = 4 # 2 # t # ns"
  "\<exists>ns. nums_at None (downsweep_stmt (Sweep2 t z)) = 2 # 2 # t # ns"
  by (simp_all add: is_digit_def nums_show)

lemma read_stmt: "read_stmt (downsweep_stmt c) = Some c"
proof (cases c)
  case (SweepMulti f t)
  show ?thesis unfolding read_stmt_def SweepMulti downsweep_stmt_nums
    by (simp add: candidates_def del: downsweep_stmt.simps)
next
  case (Sweep4 t z)
  obtain ns where n: "nums_at None (downsweep_stmt (Sweep4 t z)) = 4 # 2 # t # ns" using downsweep_stmt_nums(2) by blast
  show ?thesis unfolding read_stmt_def Sweep4 n candidates_def
    by (cases z) (simp_all add: downsweep_stmt_differ del: downsweep_stmt.simps)
next
  case (Sweep2 t z)
  obtain ns where n: "nums_at None (downsweep_stmt (Sweep2 t z)) = 2 # 2 # t # ns" using downsweep_stmt_nums(3) by blast
  show ?thesis unfolding read_stmt_def Sweep2 n candidates_def
    by (cases z) (simp_all add: downsweep_stmt_differ del: downsweep_stmt.simps)
qed

lemma split_semi_stmts:
  "CHR '';'' \<notin> set t \<Longrightarrow> split_semi [] (concat (map downsweep_stmt ss) @ t) = map downsweep_stmt ss"
proof (induction ss)
  case Nil
  then show ?case by (simp add: split_semi_none)
next
  case (Cons c ss)
  obtain b where "downsweep_stmt c = b @ '';''" "CHR '';'' \<notin> set b" using downsweep_stmt_semi by blast
  then show ?case using Cons by (simp add: split_semi_stmt)
qed

lemma sweep_macros_text: "sweep_macros (upsweep_text ss) (downsweep_text ss) = Some ss"
proof -
  have "split_semi [] (drop 5 (downsweep_text ss)) = map downsweep_stmt (rev ss)"
    unfolding downsweep_text_def by (simp add: split_semi_stmts)
  then show ?thesis by (simp add: sweep_macros_def comp_def read_stmt rev_map)
qed



end
