(* ===== verification/RadixSpec.thy ===== *)
theory RadixSpec
  imports Workgroup
begin

text \<open>
  The abstract side of the radix sort: digits of keys, how often a digit occurs, the place
  (\<open>rank\<close>) that a stable counting sort gives to an element, and the two facts that connect
  the kernels with sorting: moving every element to its rank is \<open>sort_key\<close> by the digit, and
  sorting stably digit by digit, lowest first, sorts by the number the digits make.
\<close>

section \<open>Digits\<close>

text \<open>\<^verbatim>\<open>(key >> firstBit) & (RADIX - 1)\<close>.\<close>

definition key_digit :: "nat \<Rightarrow> nat \<Rightarrow> nat \<Rightarrow> nat" where
  "key_digit radixBits firstBit key = and (drop_bit firstBit key) (2 ^ radixBits - 1)"

lemma key_digit_eq: "key_digit rb fb key = key div 2 ^ fb mod 2 ^ rb"
proof -
  have "and x (2 ^ rb - 1) = x mod 2 ^ rb" for x :: nat
    by (simp add: take_bit_eq_mask mask_eq_exp_minus_1 flip: take_bit_eq_mod)
  then show ?thesis by (simp add: key_digit_def drop_bit_eq_div)
qed

lemma key_digit_less: "key_digit rb fb key < 2 ^ rb"
  by (simp add: key_digit_eq)

section \<open>Occurrences\<close>

definition occ :: "(nat \<Rightarrow> nat) \<Rightarrow> nat \<Rightarrow> nat set \<Rightarrow> nat" where
  "occ f d A = (\<Sum>p\<in>A. if f p = d then 1 else 0)"

lemma occ_empty [simp]: "occ f d {} = 0"
  by (simp add: occ_def)

lemma occ_insert: "finite A \<Longrightarrow> p \<notin> A \<Longrightarrow> occ f d (insert p A) = (if f p = d then 1 else 0) + occ f d A"
  by (simp add: occ_def)

lemma occ_split: "a \<le> b \<Longrightarrow> b \<le> c \<Longrightarrow> occ f d {a..<b} + occ f d {b..<c} = occ f d {a..<c}"
  by (simp add: occ_def sum_split_at)

lemma occ_le_card: "finite A \<Longrightarrow> occ f d A \<le> card A"
  by (induction A rule: finite_induct) (auto simp: occ_insert)

lemma occ_mono: "finite B \<Longrightarrow> A \<subseteq> B \<Longrightarrow> occ f d A \<le> occ f d B"
  by (auto simp: occ_def intro: sum_mono2)

lemma occ_cong: "(\<And>p. p \<in> A \<Longrightarrow> f p = g p) \<Longrightarrow> occ f d A = occ g d A"
  unfolding occ_def by (rule sum.cong) auto

lemma occ_filter: "finite A \<Longrightarrow> occ f d {j \<in> A. P j} = (\<Sum>j\<in>A. if P j then (if f j = d then 1 else 0) else 0)"
  unfolding occ_def by (rule sum.inter_filter)

text \<open>All digits below \<open>k\<close> together.\<close>

lemma occ_sum: "finite A \<Longrightarrow> (\<Sum>d<k. occ f d A) = (\<Sum>p\<in>A. if f p < k then 1 else 0)"
  unfolding occ_def by (subst sum.swap) (auto intro!: sum.cong)

lemma occ_sum_le: "finite A \<Longrightarrow> (\<Sum>d<k. occ f d A) \<le> card A"
  unfolding occ_sum card_eq_sum by (rule sum_mono) simp

lemma occ_sum_all: "finite A \<Longrightarrow> (\<And>p. p \<in> A \<Longrightarrow> f p < k) \<Longrightarrow> (\<Sum>d<k. occ f d A) = card A"
  unfolding occ_sum card_eq_sum by (rule sum.cong) simp_all

section \<open>Ranks\<close>

definition rank :: "(nat \<Rightarrow> nat) \<Rightarrow> nat \<Rightarrow> nat \<Rightarrow> nat" where
  "rank f n p = (\<Sum>d<f p. occ f d {..<n}) + occ f (f p) {..<p}"

lemma rank_bounds:
  assumes "p < n"
  shows "(\<Sum>d<f p. occ f d {..<n}) \<le> rank f n p" "rank f n p < (\<Sum>d<Suc (f p). occ f d {..<n})" "rank f n p < n"
proof -
  show "(\<Sum>d<f p. occ f d {..<n}) \<le> rank f n p" by (simp add: rank_def)
  have "occ f (f p) (insert p {..<p}) \<le> occ f (f p) {..<n}" using assms by (intro occ_mono) auto
  then show lt: "rank f n p < (\<Sum>d<Suc (f p). occ f d {..<n})" by (simp add: rank_def occ_insert)
  also have "\<dots> \<le> n" using occ_sum_le [of "{..<n}" f "Suc (f p)"] by simp
  finally show "rank f n p < n" .
qed

lemma rank_less:
  assumes "p < n" "q < n" "f p < f q \<or> f p = f q \<and> p < q"
  shows "rank f n p < rank f n q"
  using assms(3)
proof
  assume "f p < f q"
  then have "(\<Sum>d<Suc (f p). occ f d {..<n}) \<le> (\<Sum>d<f q. occ f d {..<n})" by (intro sum_mono2) auto
  then show ?thesis using rank_bounds [OF assms(1), of f] rank_bounds [OF assms(2), of f] by linarith
next
  assume h: "f p = f q \<and> p < q"
  then have "occ f (f p) (insert p {..<p}) \<le> occ f (f p) {..<q}" by (intro occ_mono) auto
  then show ?thesis using h by (simp add: rank_def occ_insert)
qed

lemma rank_inj:
  assumes "p < n" "q < n" "rank f n p = rank f n q"
  shows "p = q"
proof (rule ccontr)
  assume "p \<noteq> q"
  then have "(f p < f q \<or> f p = f q \<and> p < q) \<or> (f q < f p \<or> f q = f p \<and> q < p)" by auto
  then show False using rank_less [OF assms(1,2), of f] rank_less [OF assms(2,1), of f] assms(3) by auto
qed

lemma rank_image: "rank f n ` {..<n} = {..<n}"
proof (rule card_seteq)
  show "rank f n ` {..<n} \<subseteq> {..<n}" using rank_bounds(3) by auto
  have "inj_on (rank f n) {..<n}"
    by (rule inj_onI, rule rank_inj [where n = n and f = f]) simp_all
  then show "card {..<n} \<le> card (rank f n ` {..<n})" by (simp add: card_image)
qed simp

lemma rank_onto:
  assumes "i < n" obtains p where "p < n" "rank f n p = i"
proof -
  have "i \<in> rank f n ` {..<n}" unfolding rank_image using assms by simp
  then obtain p where p: "p \<in> {..<n}" "i = rank f n p" by (elim imageE)
  show ?thesis by (rule that [of p]) (use p in simp_all)
qed

text \<open>Elements at the end with digits not below the others keep the end of the order.\<close>

lemma rank_pads:
  assumes "\<And>q p. q < n \<Longrightarrow> n \<le> p \<Longrightarrow> p < T \<Longrightarrow> f q \<le> f p" "n \<le> T" "p < T"
  shows "rank f T p < n \<longleftrightarrow> p < n"
proof
  have less: "rank f T q < rank f T p" if "q < n" "n \<le> p" "p < T" for q p
  proof -
    have "f q < f p \<or> f q = f p" using assms(1) [OF that] by (simp add: le_less)
    then show ?thesis using rank_less [of q T p f] that assms(2) by auto
  qed
  have inj: "inj_on (rank f T) {..<T}" by (rule inj_onI, rule rank_inj [where n = T and f = f]) simp_all
  show "p < n" if "rank f T p < n"
  proof (rule ccontr)
    assume "\<not> p < n"
    then have "rank f T ` {..<n} \<subseteq> {..<rank f T p}" using less [of _ p] assms(3) by auto
    then have "card (rank f T ` {..<n}) \<le> rank f T p" using card_mono [of "{..<rank f T p}"] by fastforce
    moreover have "inj_on (rank f T) {..<n}" by (rule inj_on_subset [OF inj]) (use assms(2) in auto)
    ultimately show False using that by (simp add: card_image)
  qed
  show "rank f T p < n" if "p < n"
  proof -
    have "rank f T ` {n..<T} \<subseteq> {Suc (rank f T p)..<T}" using less [OF that] rank_bounds(3) [of _ T f] by (auto simp: Suc_le_eq)
    then have "card (rank f T ` {n..<T}) \<le> T - Suc (rank f T p)"
      using card_mono [of "{Suc (rank f T p)..<T}"] by fastforce
    moreover have "inj_on (rank f T) {n..<T}" by (rule inj_on_subset [OF inj]) auto
    ultimately have "T - n \<le> T - Suc (rank f T p)" by (simp add: card_image)
    then show ?thesis using rank_bounds(3) [OF assms(3), of f] assms(2) that by linarith
  qed
qed

text \<open>Occurrences, block by block.\<close>

lemma occ_blocks: "(\<Sum>l<n. occ f d {l * w..<l * w + w}) = occ f d {..<n * w}"
  unfolding occ_def sum_shift_start [symmetric] by (rule sum_block)

text \<open>Keys of all ones have the largest digit.\<close>

lemma key_digit_ones:
  assumes "k < 2 ^ kb" "fb \<le> kb"
  shows "key_digit rb fb k \<le> key_digit rb fb (2 ^ kb - 1)"
proof -
  have ones: "(2 ^ kb - 1) div 2 ^ fb = 2 ^ (kb - fb) - (1::nat)"
  proof -
    have "drop_bit fb (mask kb :: nat) = mask (kb - fb)" by (rule drop_bit_mask_eq)
    then show ?thesis by (simp add: mask_eq_exp_minus_1 drop_bit_eq_div)
  qed
  have le: "k div 2 ^ fb \<le> 2 ^ (kb - fb) - 1"
    using div_le_mono [of k "2 ^ kb - 1" "2 ^ fb"] assms(1) unfolding ones by simp
  show ?thesis
  proof (cases "kb - fb \<le> rb")
    case True
    then have "(2::nat) ^ (kb - fb) \<le> 2 ^ rb" by simp
    moreover have "0 < (2::nat) ^ (kb - fb)" by simp
    ultimately have "2 ^ (kb - fb) - 1 < (2::nat) ^ rb" by linarith
    then show ?thesis using le unfolding key_digit_eq ones by simp
  next
    case False
    then obtain e where e: "kb - fb = rb + e" by (metis le_add_diff_inverse linear)
    have "(2::nat) ^ (kb - fb) - 1 = 2 ^ rb * (2 ^ e - 1) + (2 ^ rb - 1)"
      by (simp add: e power_add diff_mult_distrib2)
    also have "\<dots> mod 2 ^ rb = (2 ^ rb - 1) mod 2 ^ rb" by (rule mod_mult_self4)
    also have "\<dots> = 2 ^ rb - 1" by (rule mod_less) simp
    finally have "(2 ^ (kb - fb) - 1) mod 2 ^ rb = (2::nat) ^ rb - 1" .
    moreover have "k div 2 ^ fb mod 2 ^ rb < 2 ^ rb" by simp
    ultimately show ?thesis unfolding key_digit_eq ones by linarith
  qed
qed

section \<open>Ranks and stable sorting\<close>

lemma filter_less_sorted:
  assumes "sorted (map f ys)"
  shows "i < length ys \<Longrightarrow> f (ys ! i) < c \<longleftrightarrow> i < length (filter (\<lambda>y. f y < c) ys)"
  using assms
proof (induction ys arbitrary: i)
  case (Cons y ys)
  show ?case
  proof (cases "f y < c")
    case True
    then show ?thesis using Cons by (cases i) auto
  next
    case False
    then have "\<forall>z\<in>set (y # ys). \<not> f z < c" using Cons.prems by auto
    then have "filter (\<lambda>y. f y < c) (y # ys) = []" by (simp only: filter_empty_conv)
    moreover have "\<not> f ((y # ys) ! i) < c" using \<open>\<forall>z\<in>set (y # ys). \<not> f z < c\<close> Cons.prems by (meson nth_mem)
    ultimately show ?thesis by simp
  qed
qed simp

lemma nth_insort:
  fixes f :: "'a \<Rightarrow> nat" and x :: 'a
  assumes "sorted (map f ys)"
  defines "m \<equiv> length (filter (\<lambda>y. f y < f x) ys)"
  shows "insort_key f x ys ! m = x"
    and "i < m \<Longrightarrow> insort_key f x ys ! i = ys ! i"
    and "m \<le> i \<Longrightarrow> insort_key f x ys ! Suc i = ys ! i"
proof -
  have "insort_key f x ys ! m = x \<and> (\<forall>i. (i < m \<longrightarrow> insort_key f x ys ! i = ys ! i)
      \<and> (m \<le> i \<longrightarrow> insort_key f x ys ! Suc i = ys ! i))"
    using assms(1) unfolding m_def
  proof (induction ys)
    case (Cons y ys)
    show ?case
    proof (cases "f x \<le> f y")
      case True
      then have "\<forall>z\<in>set (y # ys). \<not> f z < f x" using Cons.prems by auto
      then have "filter (\<lambda>y. f y < f x) (y # ys) = []" by (simp only: filter_empty_conv)
      then show ?thesis using True by simp
    next
      case False
      then show ?thesis using Cons by (auto simp: nth_Cons split: nat.splits)
    qed
  qed auto
  then show "insort_key f x ys ! m = x" "i < m \<Longrightarrow> insort_key f x ys ! i = ys ! i"
    "m \<le> i \<Longrightarrow> insort_key f x ys ! Suc i = ys ! i" by auto
qed

text \<open>The rank of a list position, as numbers of smaller elements and of earlier equals.\<close>

definition lrank :: "('a \<Rightarrow> nat) \<Rightarrow> 'a list \<Rightarrow> nat \<Rightarrow> nat" where
  "lrank f xs p = length (filter (\<lambda>y. f y < f (xs ! p)) xs) + length (filter (\<lambda>y. f y = f (xs ! p)) (take p xs))"

lemma lrank_less: "p < length xs \<Longrightarrow> lrank f xs p < length xs"
proof -
  assume p: "p < length xs"
  have "length (filter (\<lambda>y. f y < c) xs) + length (filter (\<lambda>y. f y = c) xs) \<le> length xs" for c
    by (induction xs) auto
  from this [of "f (xs ! p)"]
  have "length (filter (\<lambda>y. f y < f (xs ! p)) xs) + length (filter (\<lambda>y. f y = f (xs ! p)) xs) \<le> length xs" .
  moreover have "length (filter (\<lambda>y. f y = f (xs ! p)) (take (Suc p) xs)) \<le> length (filter (\<lambda>y. f y = f (xs ! p)) xs)"
    by (metis append_take_drop_id filter_append le_add1 length_append)
  ultimately show ?thesis using p by (simp add: lrank_def take_Suc_conv_app_nth)
qed

lemma sort_key_nth: "p < length xs \<Longrightarrow> sort_key f xs ! lrank f xs p = xs ! p"
proof (induction xs arbitrary: p)
  case (Cons x xs)
  let ?ys = "sort_key f xs"
  have m: "length (filter (\<lambda>y. f y < f x) ?ys) = length (filter (\<lambda>y. f y < f x) xs)"
    by (metis mset_filter mset_sort size_mset)
  note ins = nth_insort [where f = f and ys = ?ys and x = x, OF sorted_sort_key, unfolded m]
  show ?case
  proof (cases p)
    case 0
    then show ?thesis using ins(1) by (simp add: lrank_def)
  next
    case (Suc q)
    then have q: "q < length xs" using Cons.prems by simp
    have "lrank f xs q < length ?ys" using lrank_less [OF q] by simp
    from filter_less_sorted [OF sorted_sort_key this, of "f x", unfolded m] Cons.IH [OF q]
    have lt: "f (xs ! q) < f x \<longleftrightarrow> lrank f xs q < length (filter (\<lambda>y. f y < f x) xs)" by simp
    show ?thesis
    proof (cases "f (xs ! q) < f x")
      case True
      then have "lrank f (x # xs) p = lrank f xs q" using Suc by (auto simp: lrank_def)
      then show ?thesis using ins(2) lt True Cons.IH [OF q] Suc by simp
    next
      case False
      then have "lrank f (x # xs) p = Suc (lrank f xs q)" using Suc by (auto simp: lrank_def)
      then show ?thesis using ins(3) lt False Cons.IH [OF q] Suc by simp
    qed
  qed
qed simp

lemma length_filter_upt: "length (filter P (map g [0..<n])) = (\<Sum>p<n. if P (g p) then 1 else 0)"
  by (induction n) auto

lemma lrank_rank:
  assumes "p < n"
  shows "lrank f (map x [0..<n]) p = rank (\<lambda>p. f (x p)) n p"
proof -
  have "take p (map x [0..<n]) = map x [0..<p]" using assms by (simp add: take_map)
  then show ?thesis using assms
    by (simp only: lrank_def length_filter_upt rank_def occ_sum finite_lessThan)
      (simp add: occ_def nth_map_upt)
qed

text \<open>Moving every element to its rank sorts stably.\<close>

lemma place_sort_key:
  assumes "\<And>p. p < n \<Longrightarrow> out (rank (\<lambda>p. f (x p)) n p) = x p"
  shows "map out [0..<n] = sort_key f (map x [0..<n])"
proof (rule nth_equalityI)
  fix i assume "i < length (map out [0..<n])"
  then have "i < n" by simp
  then obtain p where p: "p < n" "rank (\<lambda>p. f (x p)) n p = i" by (rule rank_onto)
  then have "sort_key f (map x [0..<n]) ! i = x p"
    using sort_key_nth [of p "map x [0..<n]" f] lrank_rank [OF p(1), of f x] by simp
  then show "map out [0..<n] ! i = sort_key f (map x [0..<n]) ! i" using assms [OF p(1)] p(2) \<open>i < n\<close> by simp
qed simp

section \<open>Digit by digit\<close>

text \<open>A stable sort by the high part after one by the low part sorts by both.\<close>

lemma sort_key_refine:
  fixes f g h :: "'a \<Rightarrow> nat"
  assumes "\<And>x y. x \<in> set xs \<Longrightarrow> y \<in> set xs \<Longrightarrow> h x \<le> h y \<longleftrightarrow> f x < f y \<or> f x = f y \<and> g x \<le> g y"
  shows "sort_key f (sort_key g xs) = sort_key h xs"
proof (rule properties_for_sort_key [symmetric])
  show "mset (sort_key f (sort_key g xs)) = mset xs" by simp
next
  fix k
  assume k: "k \<in> set (sort_key f (sort_key g xs))"
  have eq: "(h k = h x) = (f x = f k \<and> g x = g k)" if "x \<in> set xs" for x
  proof -
    have ks: "k \<in> set xs" using k by simp
    show ?thesis unfolding eq_iff [of "h k" "h x"] assms [OF ks that] assms [OF that ks] by auto
  qed
  have "filter (\<lambda>x. h k = h x) (sort_key f (sort_key g xs))
      = filter (\<lambda>x. g x = g k) (filter (\<lambda>x. f x = f k) (sort_key f (sort_key g xs)))"
    unfolding filter_filter by (rule filter_cong [OF refl]) (simp only: set_sort eq)
  also have "\<dots> = filter (\<lambda>x. g x = g k) (filter (\<lambda>x. f x = f k) (sort_key g xs))"
    by (simp only: sort_key_stable)
  also have "\<dots> = filter (\<lambda>x. f x = f k) (filter (\<lambda>x. g x = g k) (sort_key g xs))"
    unfolding filter_filter by (rule filter_cong) auto
  also have "\<dots> = filter (\<lambda>x. f x = f k) (filter (\<lambda>x. g x = g k) xs)"
    by (simp only: sort_key_stable)
  also have "\<dots> = filter (\<lambda>x. h k = h x) xs"
    unfolding filter_filter by (rule filter_cong [OF refl]) (simp only: eq conj_commute)
  finally show "filter (\<lambda>x. h k = h x) (sort_key f (sort_key g xs)) = filter (\<lambda>x. h k = h x) xs" .
next
  let ?ys = "sort_key f (sort_key g xs)"
  have "h (?ys ! i) \<le> h (?ys ! j)" if ij: "i \<le> j" "j < length ?ys" for i j
  proof -
    have m: "?ys ! i \<in> set xs" "?ys ! j \<in> set xs"
      using ij nth_mem [of i ?ys] nth_mem [of j ?ys] by simp_all
    have "sorted (map f ?ys)" by (rule sorted_sort_key)
    then have f: "f (?ys ! i) \<le> f (?ys ! j)" using ij by (auto simp: sorted_iff_nth_mono)
    have "g (?ys ! i) \<le> g (?ys ! j)" if e: "f (?ys ! i) = f (?ys ! j)"
    proof (cases "i = j")
      case False
      then have "i < j" using ij by simp
      let ?P = "\<lambda>x. f x = f (?ys ! j)"
      have "filter ?P ?ys = filter ?P (sort_key g xs)" by (simp add: sort_key_stable)
      moreover have "sorted (map g (filter ?P (sort_key g xs)))" by (rule sorted_filter) simp
      ultimately have s: "sorted (map g (filter ?P ?ys))" by simp
      have "?ys = take j ?ys @ ?ys ! j # drop (Suc j) ?ys" using ij(2) by (rule id_take_nth_drop)
      then have "filter ?P ?ys = filter ?P (take j ?ys) @ ?ys ! j # filter ?P (drop (Suc j) ?ys)"
        by (metis (mono_tags, lifting) filter.simps(2) filter_append)
      moreover have "?ys ! i \<in> set (filter ?P (take j ?ys))"
        using \<open>i < j\<close> ij(2) e by (auto simp: in_set_conv_nth intro!: exI [of _ i])
      ultimately show ?thesis using s by (auto simp: sorted_append)
    qed simp
    then show ?thesis using f assms [OF m] by auto
  qed
  then show "sorted (map h ?ys)" by (simp add: sorted_iff_nth_mono)
qed

text \<open>One pass more: the low \<open>b + r\<close> bits are the digit at \<open>b\<close> and the low \<open>b\<close> bits.\<close>

lemma sort_key_pass:
  fixes key :: "'a \<Rightarrow> nat"
  shows "sort_key (\<lambda>x. key_digit r b (key x)) (sort_key (\<lambda>x. key x mod 2 ^ b) xs)
    = sort_key (\<lambda>x. key x mod 2 ^ (b + r)) xs"
proof (rule sort_key_refine)
  fix x y
  have split: "k mod 2 ^ (b + r) = 2 ^ b * (k div 2 ^ b mod 2 ^ r) + k mod 2 ^ b" for k :: nat
    by (simp add: power_add mod_mult2_eq)
  have lt: "k mod 2 ^ b < 2 ^ b" for k :: nat by simp
  have cmp: "B * u + v \<le> B * u' + v' \<longleftrightarrow> u < u' \<or> u = u' \<and> v \<le> v'" if "v < B" "v' < B" for B u u' v v' :: nat
  proof (cases u u' rule: linorder_cases)
    case less
    then have "B * Suc u \<le> B * u'" by (intro mult_left_mono) auto
    then show ?thesis using less that by auto
  next
    case greater
    then have "B * Suc u' \<le> B * u" by (intro mult_left_mono) auto
    then show ?thesis using greater that by auto
  qed simp
  show "key x mod 2 ^ (b + r) \<le> key y mod 2 ^ (b + r) \<longleftrightarrow>
      key_digit r b (key x) < key_digit r b (key y)
      \<or> key_digit r b (key x) = key_digit r b (key y) \<and> key x mod 2 ^ b \<le> key y mod 2 ^ b"
    unfolding split key_digit_eq by (rule cmp [OF lt lt])
qed

lemma sort_key_trivial: "(\<And>x. x \<in> set xs \<Longrightarrow> f x = (0::nat)) \<Longrightarrow> sort_key f xs = xs"
proof (induction xs)
  case (Cons x xs)
  then have "sort_key f xs = xs" "f x = 0" by auto
  then show ?case using Cons.prems by (cases xs) auto
qed simp

lemma insort_key_cong: "(\<And>y. y \<in> set (x # ys) \<Longrightarrow> f y = g y) \<Longrightarrow> insort_key f x ys = insort_key g x ys"
  by (induction ys) auto

lemma sort_key_cong: "(\<And>x. x \<in> set xs \<Longrightarrow> f x = g x) \<Longrightarrow> sort_key f xs = sort_key g xs"
proof (induction xs)
  case (Cons x xs)
  then have "sort_key f xs = sort_key g xs" by simp
  then show ?case using insort_key_cong [of x "sort_key g xs" f g] Cons.prems by simp
qed simp

end
