(* ===== verification/RadixTile.thy ===== *)
theory RadixTile
  imports RadixSweep RadixSpec
begin

text \<open>
  \<^verbatim>\<open>radixsortScatterTile\<close> of kernels/radixsort.cl: one slice of work-items moves one tile of
  keys (and values) to the places that the digit offsets give. The theory shows that for every
  schedule, any contents of local memory, and a tile that may reach beyond the end of the
  data, element \<open>p\<close> of the tile goes to \<open>offset(digit) + number of equal digits before p\<close>,
  nothing else is written, and the offsets advance by the digit counts.
\<close>

section \<open>The code\<close>

record scatter_cfg =
  c_rb :: nat
  c_kb :: nat
  c_ws :: nat
  c_slc :: nat
  c_wgs :: nat
  c_warp :: nat
  c_sweeps :: "sweep list"
  c_values :: bool

text \<open>\<^verbatim>\<open>ScatterData\<close>; the values share the storage of the levels.\<close>

record 'v slice_mem =
  sl_levels :: levels
  sl_bias :: "nat \<Rightarrow> nat"
  sl_digits :: "nat \<Rightarrow> nat"
  sl_shuf :: "nat \<Rightarrow> nat"
  sl_keys :: "nat \<Rightarrow> nat"
  sl_values :: "nat \<Rightarrow> 'v"

text \<open>The loads; beyond \<open>fin\<close> the key is \<^verbatim>\<open>~(KEY_T) 0\<close>.\<close>

definition tile_key :: "nat \<Rightarrow> (nat \<Rightarrow> nat) \<Rightarrow> nat \<Rightarrow> nat \<Rightarrow> nat \<Rightarrow> nat" where
  "tile_key kb inKeys start fin kidx = (if start + kidx < fin then inKeys (start + kidx) else 2 ^ kb - 1)"

definition load_keys :: "scatter_cfg \<Rightarrow> (nat \<Rightarrow> nat) \<Rightarrow> nat \<Rightarrow> nat \<Rightarrow> nat \<Rightarrow> (nat \<Rightarrow> nat) \<Rightarrow> nat \<Rightarrow> nat" where
  "load_keys C inKeys start fin lid =
     stores (c_ws C) (\<lambda>_. True) (\<lambda>i. lid + i * c_slc C) (\<lambda>i. tile_key (c_kb C) inKeys start fin (lid + i * c_slc C))"

definition load_digits :: "scatter_cfg \<Rightarrow> (nat \<Rightarrow> nat) \<Rightarrow> nat \<Rightarrow> nat \<Rightarrow> nat \<Rightarrow> nat \<Rightarrow> (nat \<Rightarrow> nat) \<Rightarrow> nat \<Rightarrow> nat" where
  "load_digits C inKeys start fin fb lid =
     stores (c_ws C) (\<lambda>_. True) (\<lambda>i. lid + i * c_slc C)
       (\<lambda>i. uchar (key_digit (c_rb C) fb (tile_key (c_kb C) inKeys start fin (lid + i * c_slc C))))"

definition zero_level1 :: "scatter_cfg \<Rightarrow> nat \<Rightarrow> (nat \<Rightarrow> nat) \<Rightarrow> nat \<Rightarrow> nat" where
  "zero_level1 C lid l1 = fold (\<lambda>i m. put4 (i * c_slc C + lid) 0 m) [0..<2 ^ c_rb C div 4] l1"

text \<open>The counting loop of a work-item: its part of \<^verbatim>\<open>level1\<close>, and its \<^verbatim>\<open>level0\<close>.\<close>

definition count_item ::
  "scatter_cfg \<Rightarrow> (nat \<Rightarrow> nat) \<Rightarrow> nat \<Rightarrow> (nat \<Rightarrow> nat) \<Rightarrow> (nat \<Rightarrow> nat) \<times> (nat \<Rightarrow> nat)" where
  "count_item C digits lid l1 =
     fold (\<lambda>i (l1, l0). let a = digits (lid * c_ws C + i) * c_slc C + lid; v = l1 a
                        in (l1(a := uchar (v + 1)), l0(i := v))) [0..<c_ws C] (l1, \<lambda>_. 0)"

definition load_values :: "scatter_cfg \<Rightarrow> (nat \<Rightarrow> 'v) \<Rightarrow> nat \<Rightarrow> nat \<Rightarrow> nat \<Rightarrow> (nat \<Rightarrow> 'v) \<Rightarrow> nat \<Rightarrow> 'v" where
  "load_values C inValues start fin lid =
     stores (c_ws C) (\<lambda>i. start + (i * c_slc C + lid) < fin) (\<lambda>i. i * c_slc C + lid)
       (\<lambda>i. inValues (start + (i * c_slc C + lid)))"

text \<open>\<^verbatim>\<open>(int) oidx < (int) end - (int) start\<close>, in 32-bit arithmetic.\<close>

definition i32 :: "nat \<Rightarrow> int" where
  "i32 x = (if x < 2 ^ 31 then int x else int x - 2 ^ 32)"

definition in_tile :: "nat \<Rightarrow> nat \<Rightarrow> nat \<Rightarrow> bool" where
  "in_tile start fin oidx \<longleftrightarrow> i32 oidx < i32 (u32 (fin + 2 ^ 32 - start))"

definition put_out ::
  "scatter_cfg \<Rightarrow> nat \<Rightarrow> nat \<Rightarrow> (nat \<Rightarrow> nat) \<Rightarrow> (nat \<Rightarrow> nat) \<Rightarrow> (nat \<Rightarrow> nat) \<Rightarrow> (nat \<Rightarrow> 'v) \<Rightarrow> nat \<Rightarrow> (nat \<Rightarrow> 'v) \<Rightarrow> nat \<Rightarrow> 'v" where
  "put_out C start fin shuf digits bias src lid =
     stores (c_ws C) (\<lambda>i. in_tile start fin (lid + i * c_slc C))
       (\<lambda>i. u32 (lid + i * c_slc C + bias (digits (shuf (lid + i * c_slc C)))))
       (\<lambda>i. src (shuf (lid + i * c_slc C)))"

text \<open>
  The tile. \<open>view\<close> says what the stored values look like as levels (the union). The state is
  the local memory, the private \<^verbatim>\<open>offset\<close> of every work-item, and the two outputs.
\<close>

type_synonym 'v tile_state = "'v slice_mem \<times> (nat \<Rightarrow> nat) \<times> (nat \<Rightarrow> nat) \<times> (nat \<Rightarrow> 'v)"

definition scatter_tile ::
  "scatter_cfg \<Rightarrow> sched \<Rightarrow> ((nat \<Rightarrow> 'v) \<Rightarrow> levels) \<Rightarrow> (nat \<Rightarrow> nat) \<Rightarrow> (nat \<Rightarrow> 'v) \<Rightarrow> nat \<Rightarrow> nat \<Rightarrow> nat \<Rightarrow>
   'v tile_state \<Rightarrow> 'v tile_state" where
  "scatter_tile C S view inKeys inValues start fin fb st =
     (case st of (m, offset, outKeys, outValues) \<Rightarrow>
       let R = 2 ^ c_rb C;
           keys = par (S [0]) (load_keys C inKeys start fin) (sl_keys m);
           digits = par (S [0]) (load_digits C inKeys start fin fb) (sl_digits m);
           l1z = par (S [0]) (zero_level1 C) (fst (sl_levels m));
           level0 = (\<lambda>lid. snd (count_item C digits lid l1z));
           l1addr = (\<lambda>lid i. digits (lid * c_ws C + i) * c_slc C + lid);
           l1c = par (S [1]) (\<lambda>lid l1. fst (count_item C digits lid l1)) l1z;
           up = upsweep (sub S [2]) (c_slc C) (c_sweeps C) (l1c, snd (sl_levels m));
           digitCount = (\<lambda>lid. snd up (R + lid));
           dn = downsweep (sub S [3]) (c_warp C) (c_slc C) (c_sweeps C) up;
           bias = par (S [4]) (\<lambda>lid b. if lid < R then b(lid := u32 (offset lid + 2 ^ 32 - snd dn (R + lid))) else b) (sl_bias m);
           offset' = (\<lambda>lid. if lid < R then u32 (offset lid + digitCount lid) else offset lid);
           shuf = par (S [4]) (\<lambda>lid. stores (c_ws C) (\<lambda>_. True)
                    (\<lambda>i. level0 lid i + fst dn (l1addr lid i)) (\<lambda>i. uchar (lid * c_ws C + i))) (sl_shuf m);
           values = if c_values C then par (S [5]) (load_values C inValues start fin) (sl_values m) else sl_values m;
           outKeys' = par (S [6]) (put_out C start fin shuf digits bias keys) outKeys;
           outValues' = if c_values C then par (S [6]) (put_out C start fin shuf digits bias values) outValues else outValues
       in (\<lparr>sl_levels = if c_values C then view values else dn, sl_bias = bias, sl_digits = digits,
            sl_shuf = shuf, sl_keys = keys, sl_values = values\<rparr>, offset', outKeys', outValues'))"

section \<open>What the preprocessor guarantees\<close>

definition scatter_cfg_ok :: "scatter_cfg \<Rightarrow> bool" where
  "scatter_cfg_ok C \<longleftrightarrow> 2 \<le> c_rb C \<and> pow2 (c_slc C) \<and> 2 ^ c_rb C \<le> c_slc C \<and> 0 < c_ws C
     \<and> c_slc C * c_ws C < 256 \<and> pow2 (c_wgs C) \<and> c_slc C dvd c_wgs C
     \<and> c_sweeps C = sweeps (2 ^ c_rb C) (c_slc C)"

section \<open>Loading and counting\<close>

text \<open>Two ways to number the elements of a tile by work-item and round.\<close>

lemma tile_strided:
  assumes "schedule slc ord"
  shows "(\<exists>i\<in>set ord. \<exists>k<ws. a = i + k * slc) \<longleftrightarrow> a < slc * ws"
proof
  assume "\<exists>i\<in>set ord. \<exists>k<ws. a = i + k * slc"
  then show "a < slc * ws" using assms stride_less [of _ ws _ slc] by (auto simp: schedule_mem mult.commute add.commute)
next
  assume "a < slc * ws"
  then have "a < ws * slc" by (simp add: mult.commute)
  then obtain i k where "i < slc" "k < ws" "a = i + k * slc" by (rule stride_split)
  then show "\<exists>i\<in>set ord. \<exists>k<ws. a = i + k * slc" using assms by (auto simp: schedule_mem)
qed

lemma tile_blocked:
  assumes "schedule slc ord"
  shows "(\<exists>i\<in>set ord. \<exists>k<ws. a = i * ws + k) \<longleftrightarrow> a < slc * ws"
proof
  assume "\<exists>i\<in>set ord. \<exists>k<ws. a = i * ws + k"
  then show "a < slc * ws" using assms stride_less [of _ slc _ ws] by (auto simp: schedule_mem)
next
  assume "a < slc * ws"
  then obtain k i where "k < ws" "i < slc" "a = k + i * ws" by (rule stride_split)
  then show "\<exists>i\<in>set ord. \<exists>k<ws. a = i * ws + k" using assms by (auto simp: schedule_mem add.commute)
qed

lemma load_keys_result:
  assumes "schedule (c_slc C) ord" "a < c_slc C * c_ws C"
  shows "par ord (load_keys C inKeys start fin) m a = tile_key (c_kb C) inKeys start fin a"
  using par_stores [where ord = ord and F = "tile_key (c_kb C) inKeys start fin" and g = "\<lambda>_ _. True"
      and w = "c_ws C" and adr = "\<lambda>lid i. lid + i * c_slc C" and a = a and m = m, OF refl] assms
  unfolding load_keys_def [abs_def] by (simp add: tile_strided)

lemma load_digits_result:
  assumes "schedule (c_slc C) ord" "a < c_slc C * c_ws C" "2 ^ c_rb C \<le> (256 :: nat)"
  shows "par ord (load_digits C inKeys start fin fb) m a = key_digit (c_rb C) fb (tile_key (c_kb C) inKeys start fin a)"
proof -
  have "uchar (key_digit (c_rb C) fb x) = key_digit (c_rb C) fb x" for x
    using key_digit_less [of "c_rb C" fb x] assms(3) by (simp add: uchar_def)
  then show ?thesis
    using par_stores [where ord = ord and F = "\<lambda>a. uchar (key_digit (c_rb C) fb (tile_key (c_kb C) inKeys start fin a))"
        and g = "\<lambda>_ _. True" and w = "c_ws C" and adr = "\<lambda>lid i. lid + i * c_slc C" and a = a and m = m, OF refl] assms
    unfolding load_digits_def [abs_def] by (simp add: tile_strided)
qed

lemma zero_level1_result:
  assumes ord: "schedule (c_slc C) ord" and rb: "2 \<le> c_rb C" and a: "a < c_slc C * 2 ^ c_rb C"
  shows "par ord (zero_level1 C) m a = 0"
proof -
  have z: "fold (\<lambda>i m. put4 (i * c_slc C + lid) 0 m) [0..<w] m a = (if \<exists>i<w. a div 4 = i * c_slc C + lid then 0 else m a)"
    for w lid m a
    by (induction w) (auto simp: put4_apply uchar_def less_Suc_eq)
  let ?W = "\<lambda>lid. {a. \<exists>i<2 ^ c_rb C div 4. a div 4 = i * c_slc C + lid}"
  have "par ord (zero_level1 C) m a = (if \<exists>lid\<in>set ord. a \<in> ?W lid then 0 else m a)"
    unfolding zero_level1_def by (rule par_consistent) (unfold z, auto)
  moreover have "\<exists>lid\<in>set ord. a \<in> ?W lid"
  proof -
    obtain e where "c_rb C = 2 + e" using rb by (rule less_eqE)
    then have R: "(2::nat) ^ c_rb C = 4 * (2 ^ c_rb C div 4)" by (simp add: power_add)
    have "a < 4 * (2 ^ c_rb C div 4 * c_slc C)" using a by (subst (asm) R) (simp only: ac_simps)
    then have "a div 4 < 2 ^ c_rb C div 4 * c_slc C" by (simp add: less_mult_imp_div_less mult.commute)
    then obtain lid i where "lid < c_slc C" "i < 2 ^ c_rb C div 4" "a div 4 = lid + i * c_slc C" by (rule stride_split)
    then show ?thesis using ord by (intro bexI [of _ lid]) (auto simp: schedule_mem)
  qed
  ultimately show ?thesis by simp
qed

lemma count_item_result:
  assumes lid: "lid < c_slc C" and n: "n \<le> c_ws C" "c_ws C < 256"
    and dig: "\<And>i. i < c_ws C \<Longrightarrow> digits (lid * c_ws C + i) = f (lid * c_ws C + i) \<and> f (lid * c_ws C + i) < R"
    and zero: "\<And>d. d < R \<Longrightarrow> l1 (d * c_slc C + lid) = 0"
  shows "fold (\<lambda>i (l1, l0). let a = digits (lid * c_ws C + i) * c_slc C + lid; v = l1 a
        in (l1(a := uchar (v + 1)), l0(i := v))) [0..<n] (l1, \<lambda>_. 0) =
    (\<lambda>a. if a mod c_slc C = lid \<and> a div c_slc C < R then occ f (a div c_slc C) {lid * c_ws C..<lid * c_ws C + n} else l1 a,
     \<lambda>i. if i < n then occ f (f (lid * c_ws C + i)) {lid * c_ws C..<lid * c_ws C + i} else 0)"
  using n(1)
proof (induction n)
  case 0
  have "l1 a = 0" if "a mod c_slc C = lid" "a div c_slc C < R" for a
  proof -
    have "a = a div c_slc C * c_slc C + lid" using that(1) by (metis div_mult_mod_eq)
    then show ?thesis using zero [OF that(2)] by simp
  qed
  then show ?case by (auto simp: fun_eq_iff)
next
  case (Suc n)
  let ?b = "lid * c_ws C" and ?s = "c_slc C"
  let ?l1 = "\<lambda>n a. if a mod ?s = lid \<and> a div ?s < R then occ f (a div ?s) {?b..<?b + n} else l1 a"
  let ?l0 = "\<lambda>n i. if i < n then occ f (f (?b + i)) {?b..<?b + i} else 0"
  let ?d = "f (?b + n)"
  let ?a = "?d * ?s + lid"
  have d: "digits (?b + n) = ?d" "?d < R" using dig [of n] Suc.prems by auto
  have a: "?a mod ?s = lid" "?a div ?s = ?d" using lid by simp_all
  have "occ f ?d {?b..<?b + n} \<le> n" using occ_le_card [of "{?b..<?b + n}" f ?d] by simp
  then have u: "uchar (?l1 n ?a + 1) = occ f ?d {?b..<?b + Suc n}"
    using a d(2) Suc.prems n(2) by (simp add: uchar_def atLeastLessThanSuc occ_insert)
  have l1: "(?l1 n)(?a := uchar (?l1 n ?a + 1)) = ?l1 (Suc n)"
  proof
    fix x
    show "((?l1 n)(?a := uchar (?l1 n ?a + 1))) x = ?l1 (Suc n) x"
    proof (cases "x mod ?s = lid \<and> x div ?s = ?d")
      case True
      then have "x = ?a" by (metis div_mult_mod_eq)
      then show ?thesis using u a d(2) by simp
    next
      case False
      then have "x \<noteq> ?a" using a by metis
      moreover have "occ f (x div ?s) {?b..<?b + Suc n} = occ f (x div ?s) {?b..<?b + n}" if "x mod ?s = lid"
        using False that by (simp add: atLeastLessThanSuc occ_insert)
      ultimately show ?thesis by simp
    qed
  qed
  have l0: "(?l0 n)(n := ?l1 n ?a) = ?l0 (Suc n)" using a d(2) by (auto simp: fun_eq_iff)
  let ?g = "\<lambda>i (l1, l0). let a = digits (?b + i) * ?s + lid; v = l1 a in (l1(a := uchar (v + 1)), l0(i := v))"
  have "fold ?g [0..<Suc n] (l1, \<lambda>_. 0) = ?g n (fold ?g [0..<n] (l1, \<lambda>_. 0))" by simp
  also have "fold ?g [0..<n] (l1, \<lambda>_. 0) = (?l1 n, ?l0 n)"
    by (rule Suc.IH) (use Suc.prems in simp)
  also have "?g n (?l1 n, ?l0 n) = ((?l1 n)(?a := uchar (?l1 n ?a + 1)), (?l0 n)(n := ?l1 n ?a))"
    by (simp only: d(1) Let_def prod.case)
  finally show ?case unfolding l1 l0 .
qed

section \<open>The levels of a tile\<close>

text \<open>
  \<open>counts\<close> is \<^verbatim>\<open>level1\<close> after the counting loop, for a tile whose element \<open>p\<close>
  has the digit \<open>f p\<close>: per digit, one count for every work-item.
\<close>

definition counts :: "nat \<Rightarrow> nat \<Rightarrow> (nat \<Rightarrow> nat) \<Rightarrow> nat \<Rightarrow> nat" where
  "counts slc ws f a = occ f (a div slc) {a mod slc * ws..<a mod slc * ws + ws}"

lemma counts_row: "(\<Sum>l<n. counts slc ws f (d * slc + l)) = occ f d {..<n * ws}" if "n \<le> slc"
proof -
  have "(\<Sum>l<n. counts slc ws f (d * slc + l)) = (\<Sum>l<n. occ f d {l * ws..<l * ws + ws})"
    using that by (intro sum.cong refl) (simp add: counts_def)
  then show ?thesis by (simp add: occ_blocks)
qed

lemma counts_before:
  assumes "lid \<le> slc"
  shows "sum (counts slc ws f) {..<d * slc + lid} = (\<Sum>d<d. occ f d {..< slc * ws}) + occ f d {..<lid * ws}"
proof -
  have "sum (counts slc ws f) {..<d * slc + lid}
      = sum (counts slc ws f) {0..<d * slc} + sum (counts slc ws f) {d * slc..<d * slc + lid}"
    by (simp only: lessThan_atLeast0 sum_split_at le_add1 le0)
  also have "sum (counts slc ws f) {0..<d * slc} = (\<Sum>d<d. \<Sum>l< slc. counts slc ws f (d * slc + l))"
    using sum_block [of "counts slc ws f" slc d] by (simp add: lessThan_atLeast0)
  also have "\<dots> = (\<Sum>d<d. occ f d {..< slc * ws})" by (simp only: counts_row order_refl)
  also have "sum (counts slc ws f) {d * slc..<d * slc + lid} = occ f d {..<lid * ws}"
    using counts_row [OF assms] by (simp add: sum_shift_start)
  finally show ?thesis .
qed

lemma counts_digit: "sum (counts slc ws f) {d * slc..<d * slc + slc} = occ f d {..< slc * ws}"
  using counts_row [of slc slc ws f d] by (simp add: sum_shift_start)

lemma counts_total:
  assumes "\<And>p. p < slc * ws \<Longrightarrow> f p < R"
  shows "sum (counts slc ws f) {..< slc * R} = slc * ws"
  using counts_before [of 0 slc ws f R] occ_sum_all [of "{..< slc * ws}" f R] assms by (simp add: mult.commute)

section \<open>The tile\<close>

lemma in_tile_iff:
  assumes "start < 2 ^ 31" "fin < 2 ^ 31" "oidx < 2 ^ 31"
  shows "in_tile start fin oidx \<longleftrightarrow> start + oidx < fin"
proof -
  have "i32 (u32 (fin + 2 ^ 32 - start)) = int fin - int start"
  proof (cases "start \<le> fin")
    case True
    then have "u32 (fin + 2 ^ 32 - start) = fin - start" using assms by (simp add: u32_def le_mod_geq)
    then show ?thesis using assms True by (simp add: i32_def)
  next
    case False
    then have "u32 (fin + 2 ^ 32 - start) = 2 ^ 32 - (start - fin)" using assms by (simp add: u32_def)
    moreover have "\<not> 2 ^ 32 - (start - fin) < 2 ^ 31" using assms False by simp
    ultimately show ?thesis using assms False by (simp add: i32_def)
  qed
  moreover have "i32 oidx = int oidx" using assms(3) by (simp add: i32_def)
  ultimately show ?thesis unfolding in_tile_def by linarith
qed

text \<open>
  \<open>place\<close> is where the element \<open>p\<close> of the tile must go; the contents of the outputs at the
  places are given by \<open>FK\<close> and \<open>FV\<close>.
\<close>

definition tile_digit :: "scatter_cfg \<Rightarrow> (nat \<Rightarrow> nat) \<Rightarrow> nat \<Rightarrow> nat \<Rightarrow> nat \<Rightarrow> nat \<Rightarrow> nat" where
  "tile_digit C inKeys start fin fb p = key_digit (c_rb C) fb (tile_key (c_kb C) inKeys start fin p)"

definition place :: "(nat \<Rightarrow> nat) \<Rightarrow> (nat \<Rightarrow> nat) \<Rightarrow> nat \<Rightarrow> nat" where
  "place offset f p = offset (f p) + occ f (f p) {..<p}"

lemma put_out_result:
  assumes cfg: "scatter_cfg_ok C" and ord: "schedule (c_slc C) ord"
    and sz: "start < 2 ^ 31" "fin < 2 ^ 31"
    and f: "\<And>p. p < c_slc C * c_ws C \<Longrightarrow> digits p = f p \<and> f p < 2 ^ c_rb C"
    and shuf: "\<And>p. p < c_slc C * c_ws C \<Longrightarrow> shuf (rank f (c_slc C * c_ws C) p) = p"
    and bias: "\<And>d. d < 2 ^ c_rb C \<Longrightarrow> bias d = u32 (offset d + 2 ^ 32 - (\<Sum>d<d. occ f d {..<c_slc C * c_ws C}))"
    and pads: "\<And>q p. start + q < fin \<Longrightarrow> \<not> start + p < fin \<Longrightarrow> p < c_slc C * c_ws C \<Longrightarrow> f q \<le> f p"
    and small: "\<And>p. p < c_slc C * c_ws C \<Longrightarrow> start + p < fin \<Longrightarrow> place offset f p < 2 ^ 32"
    and F: "\<And>p. p < c_slc C * c_ws C \<Longrightarrow> start + p < fin \<Longrightarrow> src p = F (place offset f p)"
  shows "par ord (put_out C start fin shuf digits bias src) out a =
    (if \<exists>p<c_slc C * c_ws C. start + p < fin \<and> a = place offset f p then F a else out a)"
proof -
  let ?T = "c_slc C * c_ws C" and ?s = "c_slc C"
  let ?n = "min (fin - start) ?T"
  have T: "?T < 256" "0 < ?s" using cfg by (auto simp: scatter_cfg_ok_def pow2_pos)
  have real: "start + p < fin \<longleftrightarrow> p < ?n" if "p < ?T" for p using that by (auto simp: min_def)
  have rp: "rank f ?T p < ?n \<longleftrightarrow> p < ?n" if "p < ?T" for p
  proof (rule rank_pads [OF _ _ that])
    fix q p assume "q < ?n" "?n \<le> p" "p < ?T"
    then show "f q \<le> f p" using pads [of q p] real [of q] real [of p] by auto
  qed simp
  have adr: "u32 (rank f ?T p + bias (digits (shuf (rank f ?T p)))) = place offset f p" if p: "p < ?n" for p
  proof -
    have pT: "p < ?T" "start + p < fin" using p real [of p] by auto
    let ?e = "\<Sum>d<f p. occ f d {..<?T}"
    have e: "?e \<le> rank f ?T p" "rank f ?T p = ?e + occ f (f p) {..<p}" using rank_bounds(1) [OF pT(1), of f] by (simp_all add: rank_def)
    moreover have "rank f ?T p < 256" using rank_bounds(3) [OF pT(1), of f] T by simp
    ultimately have "?e < 256" by simp
    then have "rank f ?T p + (offset (f p) + 2 ^ 32 - ?e) = place offset f p + 2 ^ 32"
      using e by (simp add: place_def)
    then have "u32 (rank f ?T p + bias (f p)) = u32 (place offset f p + 2 ^ 32)"
      using bias [of "f p"] f [OF pT(1)] by (simp add: u32_def mod_simps)
    also have "\<dots> = place offset f p" using small [OF pT] by (simp add: u32_def)
    finally show ?thesis using shuf [OF pT(1)] f [OF pT(1)] by simp
  qed
  have o: "\<exists>p<?n. rank f ?T p = o'" if "in_tile start fin o'" "o' < ?T" for o'
  proof -
    have "o' < ?n" using that in_tile_iff [OF sz, of o'] T(1) by auto
    moreover obtain p where "p < ?T" "rank f ?T p = o'" using \<open>o' < ?T\<close> by (rule rank_onto)
    ultimately show ?thesis using rp by auto
  qed
  have lt: "lid + i * ?s < ?T" if "lid \<in> set ord" "i < c_ws C" for lid i
    using tile_strided [OF ord, of "c_ws C" "lid + i * ?s"] that by blast
  have "par ord (put_out C start fin shuf digits bias src) out a =
      (if \<exists>lid\<in>set ord. \<exists>i<c_ws C. in_tile start fin (lid + i * ?s)
          \<and> a = u32 (lid + i * ?s + bias (digits (shuf (lid + i * ?s)))) then F a else out a)"
    unfolding put_out_def [abs_def]
  proof (rule par_stores)
    fix lid i assume h: "lid \<in> set ord" "i < c_ws C" "in_tile start fin (lid + i * ?s)"
    obtain p where p: "p < ?n" "rank f ?T p = lid + i * ?s" using o [OF h(3) lt [OF h(1,2)]] by blast
    then show "src (shuf (lid + i * ?s)) = F (u32 (lid + i * ?s + bias (digits (shuf (lid + i * ?s)))))"
      using adr [OF p(1)] F [of p] shuf [of p] real [of p] by (simp add: p(2))
  qed
  also have "(\<exists>lid\<in>set ord. \<exists>i<c_ws C. in_tile start fin (lid + i * ?s)
      \<and> a = u32 (lid + i * ?s + bias (digits (shuf (lid + i * ?s)))))
      \<longleftrightarrow> (\<exists>p<?T. start + p < fin \<and> a = place offset f p)" (is "?L \<longleftrightarrow> ?R")
  proof
    assume ?L
    then obtain lid i where h: "lid \<in> set ord" "i < c_ws C" "in_tile start fin (lid + i * ?s)"
      and a: "a = u32 (lid + i * ?s + bias (digits (shuf (lid + i * ?s))))" by blast
    obtain p where p: "p < ?n" "rank f ?T p = lid + i * ?s" using o [OF h(3) lt [OF h(1,2)]] by blast
    have "a = place offset f p" unfolding a p(2) [symmetric] by (rule adr [OF p(1)])
    then show ?R using p(1) real [of p] by (intro exI [of _ p]) auto
  next
    assume ?R
    then obtain p where p: "p < ?T" "start + p < fin" "a = place offset f p" by blast
    then have n: "p < ?n" using real by simp
    have r: "rank f ?T p < ?T" by (rule rank_bounds(3) [OF p(1)])
    then obtain lid i where li: "lid \<in> set ord" "i < c_ws C" "rank f ?T p = lid + i * ?s"
      using tile_strided [OF ord, of "c_ws C" "rank f ?T p"] by blast
    have "in_tile start fin (rank f ?T p)"
      using in_tile_iff [OF sz, of "rank f ?T p"] rp [OF p(1)] n r T by auto
    then show ?L using li adr [OF n] p(3) by metis
  qed
  finally show ?thesis .
qed

lemma shuf_result:
  assumes cfg: "scatter_cfg_ok C" and ord: "schedule (c_slc C) ord"
    and pos: "\<And>lid i. lid < c_slc C \<Longrightarrow> i < c_ws C \<Longrightarrow> pos lid i = rank f (c_slc C * c_ws C) (lid * c_ws C + i)"
    and p: "p < c_slc C * c_ws C"
  shows "par ord (\<lambda>lid. stores (c_ws C) (\<lambda>_. True) (pos lid) (\<lambda>i. uchar (lid * c_ws C + i))) m
    (rank f (c_slc C * c_ws C) p) = p"
proof -
  let ?T = "c_slc C * c_ws C"
  have T: "?T < 256" using cfg by (simp add: scatter_cfg_ok_def)
  let ?F = "inv_into {..<?T} (rank f ?T)"
  have inj: "inj_on (rank f ?T) {..<?T}" by (rule inj_onI, rule rank_inj [where n = ?T and f = f]) simp_all
  have F: "?F (rank f ?T q) = q" if "q < ?T" for q using inv_into_f_f [OF inj] that by simp
  obtain lid i where li: "lid \<in> set ord" "i < c_ws C" "p = lid * c_ws C + i"
    using tile_blocked [OF ord, of "c_ws C" p] p by blast
  have "par ord (\<lambda>lid. stores (c_ws C) (\<lambda>_. True) (pos lid) (\<lambda>i. uchar (lid * c_ws C + i))) m (rank f ?T p)
      = (if \<exists>lid\<in>set ord. \<exists>k<c_ws C. True \<and> rank f ?T p = pos lid k then ?F (rank f ?T p) else m (rank f ?T p))"
  proof (rule par_stores)
    fix lid i assume h: "lid \<in> set ord" "i < c_ws C"
    then have q: "lid * c_ws C + i < ?T" using tile_blocked [OF ord, of "c_ws C" "lid * c_ws C + i"] by blast
    have "uchar (lid * c_ws C + i) = lid * c_ws C + i" using q T by (simp add: uchar_def)
    then show "uchar (lid * c_ws C + i) = ?F (pos lid i)"
      using pos [of lid i] h F [OF q] ord by (simp add: schedule_mem)
  qed
  moreover have "rank f ?T p = pos lid i" using li pos [of lid i] ord by (simp add: schedule_mem)
  then have "\<exists>lid\<in>set ord. \<exists>k<c_ws C. True \<and> rank f ?T p = pos lid k" using li by blast
  ultimately show ?thesis using F [OF p] by simp
qed

lemma load_values_result:
  assumes "schedule (c_slc C) ord" "a < c_slc C * c_ws C" "start + a < fin"
  shows "par ord (load_values C inValues start fin) m a = inValues (start + a)"
proof -
  have "par ord (load_values C inValues start fin) m a = (if \<exists>lid\<in>set ord. \<exists>i<c_ws C.
      start + (i * c_slc C + lid) < fin \<and> a = i * c_slc C + lid then inValues (start + a) else m a)"
    unfolding load_values_def [abs_def] by (rule par_stores) simp
  moreover have "\<exists>lid\<in>set ord. \<exists>i<c_ws C. start + (i * c_slc C + lid) < fin \<and> a = i * c_slc C + lid"
  proof -
    obtain lid i where "lid \<in> set ord" "i < c_ws C" "a = i * c_slc C + lid"
      using tile_strided [OF assms(1), of "c_ws C" a] assms(2) by (auto simp: add.commute)
    then show ?thesis using assms(3) by blast
  qed
  ultimately show ?thesis by simp
qed

lemma count_phase_result:
  assumes cfg: "scatter_cfg_ok C" and ord: "schedule (c_slc C) ord"
    and dig: "\<And>p. p < c_slc C * c_ws C \<Longrightarrow> digits p = f p \<and> f p < 2 ^ c_rb C"
    and zero: "\<And>a. a < c_slc C * 2 ^ c_rb C \<Longrightarrow> l1 a = 0"
  shows "a < c_slc C * 2 ^ c_rb C \<Longrightarrow> par ord (\<lambda>lid l1. fst (count_item C digits lid l1)) l1 a = counts (c_slc C) (c_ws C) f a"
    and "lid < c_slc C \<Longrightarrow> i < c_ws C \<Longrightarrow> snd (count_item C digits lid l1) i
      = occ f (f (lid * c_ws C + i)) {lid * c_ws C..<lid * c_ws C + i}"
proof -
  let ?s = "c_slc C" and ?R = "(2::nat) ^ c_rb C"
  have s: "0 < ?s" "1 \<le> ?s" "c_ws C < 256"
  proof -
    show "0 < ?s" "1 \<le> ?s" using cfg by (auto simp: scatter_cfg_ok_def Suc_le_eq pow2_pos)
    then have "1 * c_ws C \<le> ?s * c_ws C" by (intro mult_right_mono) auto
    moreover have "?s * c_ws C < 256" using cfg by (simp add: scatter_cfg_ok_def)
    ultimately show "c_ws C < 256" by linarith
  qed
  have cell: "d * ?s + lid < ?s * ?R" if "d < ?R" "lid < ?s" for d lid
    using stride_less [OF that] by (simp only: mult.commute)
  have item: "count_item C digits lid m' =
    (\<lambda>a. if a mod ?s = lid \<and> a div ?s < ?R then occ f (a div ?s) {lid * c_ws C..<lid * c_ws C + c_ws C} else m' a,
     \<lambda>i. if i < c_ws C then occ f (f (lid * c_ws C + i)) {lid * c_ws C..<lid * c_ws C + i} else 0)"
    if lid: "lid < ?s" and m': "\<And>d. d < ?R \<Longrightarrow> m' (d * ?s + lid) = 0" for lid m'
    unfolding count_item_def
  proof (rule count_item_result [OF lid order_refl s(3)])
    show "digits (lid * c_ws C + i) = f (lid * c_ws C + i) \<and> f (lid * c_ws C + i) < ?R" if "i < c_ws C" for i
      by (rule dig, rule stride_less [OF lid that])
  qed (rule m')
  show "snd (count_item C digits lid l1) i = occ f (f (lid * c_ws C + i)) {lid * c_ws C..<lid * c_ws C + i}"
    if "lid < ?s" "i < c_ws C"
    using item [OF that(1), of l1] zero [OF cell [OF _ that(1)]] that(2) by simp
  assume a: "a < ?s * ?R"
  let ?W = "\<lambda>lid. {a. a mod ?s = lid \<and> a div ?s < ?R}"
  have "par ord (\<lambda>lid l1. fst (count_item C digits lid l1)) l1 a =
      (if \<exists>lid\<in>set ord. a \<in> ?W lid then counts ?s (c_ws C) f a else l1 a)"
  proof (rule par_areas, goal_cases)
    case 1
    then show ?case using ord by (simp add: schedule_def)
  next
    case (2 lid m' a)
    have lid: "lid < ?s" using 2(1) ord by (simp add: schedule_mem)
    have m0: "m' (d * ?s + lid) = 0" if "d < ?R" for d
    proof -
      have "m' (d * ?s + lid) = l1 (d * ?s + lid)" by (rule 2(2)) (use lid that in simp)
      then show ?thesis using zero [OF cell [OF that lid]] by simp
    qed
    show ?case using item [OF lid, of m'] m0 by (auto simp: counts_def)
  next
    case (3 i j a)
    then show ?case by simp
  qed
  moreover have "a div ?s < ?R" using a by (simp add: less_mult_imp_div_less mult.commute)
  then have "\<exists>lid\<in>set ord. a \<in> ?W lid" using ord s(1) by (intro bexI [of _ "a mod ?s"]) (simp_all add: schedule_mem)
  ultimately show "par ord (\<lambda>lid l1. fst (count_item C digits lid l1)) l1 a = counts ?s (c_ws C) f a" by simp
qed

text \<open>The tile as a whole.\<close>

lemma scatter_tile_result:
  assumes cfg: "scatter_cfg_ok C" and S: "valid (c_slc C) S"
    and sz: "start < 2 ^ 31" "fin < 2 ^ 31" and fb: "fb \<le> c_kb C"
    and keys: "\<And>q. q < fin \<Longrightarrow> inKeys q < 2 ^ c_kb C"
    and small: "\<And>p. p < c_slc C * c_ws C \<Longrightarrow> start + p < fin \<Longrightarrow>
      place offset (tile_digit C inKeys start fin fb) p < 2 ^ 32"
    and FK: "\<And>p. p < c_slc C * c_ws C \<Longrightarrow> start + p < fin \<Longrightarrow>
      inKeys (start + p) = FK (place offset (tile_digit C inKeys start fin fb) p)"
    and FV: "\<And>p. p < c_slc C * c_ws C \<Longrightarrow> start + p < fin \<Longrightarrow>
      inValues (start + p) = FV (place offset (tile_digit C inKeys start fin fb) p)"
  obtains m' offset' K V where
    "scatter_tile C S view inKeys inValues start fin fb (m, offset, outK, outV) = (m', offset', K, V)"
    "\<And>d. d < 2 ^ c_rb C \<Longrightarrow> offset' d =
      u32 (offset d + occ (tile_digit C inKeys start fin fb) d {..<c_slc C * c_ws C})"
    "\<And>a. K a = (if \<exists>p<c_slc C * c_ws C. start + p < fin \<and> a = place offset (tile_digit C inKeys start fin fb) p
      then FK a else outK a)"
    "\<And>a. V a = (if c_values C \<and> (\<exists>p<c_slc C * c_ws C. start + p < fin \<and> a = place offset (tile_digit C inKeys start fin fb) p)
      then FV a else outV a)"
proof -
  let ?f = "tile_digit C inKeys start fin fb" and ?T = "c_slc C * c_ws C" and ?R = "(2::nat) ^ c_rb C" and ?s = "c_slc C"
  have ord: "schedule ?s (S l)" for l using S by (rule valid_schedule)
  have R: "4 \<le> ?R" "pow2 ?R" "?R \<le> ?s" "pow2 ?s" and T: "?T < 256" and ws: "0 < c_ws C"
    and sw: "c_sweeps C = sweeps ?R ?s"
    using cfg power_increasing [of 2 "c_rb C" "2::nat"] by (auto simp: scatter_cfg_ok_def)
  have "?s * 1 \<le> ?T" using ws by (intro mult_le_mono) auto
  then have R256: "?R \<le> 256" using R(3) T by linarith
  define ks where "ks = par (S [0]) (load_keys C inKeys start fin) (sl_keys m)"
  define dg where "dg = par (S [0]) (load_digits C inKeys start fin fb) (sl_digits m)"
  define l1z where "l1z = par (S [0]) (zero_level1 C) (fst (sl_levels m))"
  define l1c where "l1c = par (S [1]) (\<lambda>lid l1. fst (count_item C dg lid l1)) l1z"
  have ks: "ks p = tile_key (c_kb C) inKeys start fin p" if "p < ?T" for p
    unfolding ks_def by (rule load_keys_result [OF ord that])
  have dg: "dg p = ?f p \<and> ?f p < ?R" if "p < ?T" for p
    unfolding dg_def using load_digits_result [OF ord that R256] by (simp add: tile_digit_def key_digit_less)
  have z: "l1z a = 0" if "a < ?s * ?R" for a
    unfolding l1z_def using cfg that by (intro zero_level1_result [OF ord]) (simp_all add: scatter_cfg_ok_def)
  have cnt: "l1c a = counts ?s (c_ws C) ?f a" if "a < ?s * ?R" for a
    unfolding l1c_def by (rule count_phase_result(1) [OF cfg ord dg z that])
  have l0: "snd (count_item C dg lid l1z) i = occ ?f (?f (lid * c_ws C + i)) {lid * c_ws C..<lid * c_ws C + i}"
    if "lid < ?s" "i < c_ws C" for lid i
    by (rule count_phase_result(2) [OF cfg ord dg z that])
  have csum: "sum l1c A = sum (counts ?s (c_ws C) ?f) A" if "A \<subseteq> {..<?s * ?R}" for A
    using that cnt by (intro sum.cong) auto
  have "sum l1c {..<?s * ?R} < 256"
    unfolding csum [OF order_refl] using counts_total [of ?s "c_ws C" ?f ?R] dg T by simp
  from sweeps_result [OF R(2,1,3,4) valid_sub [OF S, of "[2]"] valid_sub [OF S, of "[3]"] this,
      of "snd (sl_levels m)" "c_warp C"]
  obtain U E D where
    up: "upsweep (sub S [2]) ?s (c_sweeps C) (l1c, snd (sl_levels m)) = (l1c, U)"
    and dn: "downsweep (sub S [3]) (c_warp C) ?s (c_sweeps C) (l1c, U) = (E, D)"
    and U: "\<And>d. d < ?R \<Longrightarrow> U (?R + d) = sum l1c {d * ?s..<d * ?s + ?s}"
    and D: "\<And>d. d < ?R \<Longrightarrow> D (?R + d) = sum l1c {..<d * ?s}"
    and E: "\<And>a. a < ?s * ?R \<Longrightarrow> E a = sum l1c {..<a}"
    unfolding sw by blast
  have row: "{d * ?s..<d * ?s + ?s} \<subseteq> {..<?s * ?R}" if "d < ?R" for d
  proof -
    have "Suc d * ?s \<le> ?R * ?s" by (rule mult_right_mono, rule Suc_leI, rule that, simp)
    then have "d * ?s + ?s \<le> ?s * ?R" by (simp add: mult.commute add.commute)
    then show ?thesis by (meson atLeastLessThan_iff lessThan_iff less_le_trans subsetI)
  qed
  have U': "U (?R + d) = occ ?f d {..<?T}" if "d < ?R" for d
    unfolding U [OF that] csum [OF row [OF that]] by (rule counts_digit)
  have before: "sum l1c {..<d * ?s + lid} = (\<Sum>d<d. occ ?f d {..<?T}) + occ ?f d {..<lid * c_ws C}"
    if "d < ?R" "lid < ?s" for d lid
  proof -
    have "d * ?s + lid < ?s * ?R" using stride_less [OF that] by (simp only: mult.commute)
    then have "{..<d * ?s + lid} \<subseteq> {..<?s * ?R}" by auto
    from csum [OF this] counts_before [of lid ?s "c_ws C" ?f d] that(2) show ?thesis by simp
  qed
  have D': "D (?R + d) = (\<Sum>d<d. occ ?f d {..<?T})" if "d < ?R" for d
    using D [OF that] before [OF that, of 0] R(3,1) by simp
  define pos where "pos lid i = snd (count_item C dg lid l1z) i + E (dg (lid * c_ws C + i) * ?s + lid)" for lid i
  have pos: "pos lid i = rank ?f ?T (lid * c_ws C + i)" if "lid < ?s" "i < c_ws C" for lid i
  proof -
    let ?p = "lid * c_ws C + i"
    have p: "?p < ?T" by (rule stride_less [OF that])
    have "?f ?p * ?s + lid < ?s * ?R" using stride_less [of "?f ?p" ?R lid ?s] dg [OF p] that(1) by (simp only: mult.commute)
    then have "E (dg ?p * ?s + lid) = (\<Sum>d<?f ?p. occ ?f d {..<?T}) + occ ?f (?f ?p) {0..<lid * c_ws C}"
      using dg [OF p] E before [of "?f ?p" lid] that(1) by (simp add: lessThan_atLeast0)
    then show ?thesis
      using occ_split [of 0 "lid * c_ws C" ?p ?f "?f ?p"] l0 [OF that]
      by (simp add: pos_def rank_def lessThan_atLeast0)
  qed
  define shuf where "shuf = par (S [4]) (\<lambda>lid. stores (c_ws C) (\<lambda>_. True) (pos lid) (\<lambda>i. uchar (lid * c_ws C + i))) (sl_shuf m)"
  have shuf: "shuf (rank ?f ?T p) = p" if "p < ?T" for p
    unfolding shuf_def by (rule shuf_result [OF cfg ord pos that])
  define bias where "bias = par (S [4]) (\<lambda>lid b. if lid < ?R then b(lid := u32 (offset lid + 2 ^ 32 - D (?R + lid))) else b) (sl_bias m)"
  have bias: "bias d = u32 (offset d + 2 ^ 32 - (\<Sum>d<d. occ ?f d {..<?T}))" if "d < ?R" for d
  proof -
    have swr: "single_write ?s (\<lambda>lid. lid < ?R) (\<lambda>lid. lid) (\<lambda>lid b. u32 (offset lid + 2 ^ 32 - D (?R + lid)))"
      by unfold_locales auto
    have "d < ?s" using that R(3) by linarith
    from single_write.at [OF swr ord [of "[4]"] this that, of "sl_bias m"] show ?thesis
      unfolding bias_def D' [OF that] .
  qed
  define vs where "vs = (if c_values C then par (S [5]) (load_values C inValues start fin) (sl_values m) else sl_values m)"
  define K where "K = par (S [6]) (put_out C start fin shuf dg bias ks) outK"
  define V where "V = (if c_values C then par (S [6]) (put_out C start fin shuf dg bias vs) outV else outV)"
  have pads: "?f q \<le> ?f p" if "start + q < fin" "\<not> start + p < fin" "p < ?T" for q p
    using key_digit_ones [OF keys [OF that(1)] fb] that by (simp add: tile_digit_def tile_key_def)
  have eq: "scatter_tile C S view inKeys inValues start fin fb (m, offset, outK, outV) =
      (\<lparr>sl_levels = if c_values C then view vs else (E, D), sl_bias = bias, sl_digits = dg,
        sl_shuf = shuf, sl_keys = ks, sl_values = vs\<rparr>,
       \<lambda>lid. if lid < ?R then u32 (offset lid + U (?R + lid)) else offset lid, K, V)"
    unfolding scatter_tile_def prod.case Let_def ks_def [symmetric] dg_def [symmetric] l1z_def [symmetric]
      l1c_def [symmetric] up dn fst_conv snd_conv pos_def [symmetric] bias_def [symmetric]
      vs_def [symmetric]
    unfolding K_def V_def shuf_def vs_def pos_def by simp
  have "(if d < ?R then u32 (offset d + U (?R + d)) else offset d) = u32 (offset d + occ ?f d {..<?T})" if "d < ?R" for d
    using that U' by simp
  moreover have "K a = (if \<exists>p<?T. start + p < fin \<and> a = place offset ?f p then FK a else outK a)" for a
    unfolding K_def
  proof (rule put_out_result [OF cfg ord sz dg shuf bias pads small])
    fix p assume p: "p < ?T" "start + p < fin"
    then show "ks p = FK (place offset ?f p)" using ks [OF p(1)] FK [OF p] by (simp add: tile_key_def)
  qed assumption+
  moreover have "V a = (if c_values C \<and> (\<exists>p<?T. start + p < fin \<and> a = place offset ?f p) then FV a else outV a)" for a
  proof (cases "c_values C")
    case True
    have "par (S [6]) (put_out C start fin shuf dg bias vs) outV a =
        (if \<exists>p<?T. start + p < fin \<and> a = place offset ?f p then FV a else outV a)"
    proof (rule put_out_result [OF cfg ord sz dg shuf bias pads small])
      fix p assume p: "p < ?T" "start + p < fin"
      then show "vs p = FV (place offset ?f p)"
        using load_values_result [OF ord [of "[5]"] p, of inValues "sl_values m"] FV [OF p] True by (simp add: vs_def)
    qed assumption+
    then show ?thesis using True by (simp add: V_def)
  qed (simp add: V_def)
  ultimately show ?thesis using that [OF eq] by blast
qed

end
