(* ===== verification/RadixHist.thy ===== *)
theory RadixHist
  imports RadixSpec
begin

text \<open>
  The first two kernels of kernels/radixsort.cl. \<^verbatim>\<open>radixsortReduce\<close>: each work-group
  counts the digits of one block; every work-item counts into its own column of the local array
  \<^verbatim>\<open>hist\<close>, then the rows are summed. \<^verbatim>\<open>radixsortScan\<close>: one work-group turns the
  counts, read digit by digit and within a digit block by block, into their exclusive prefix
  sums. Both theorems hold for every contents of local memory at the start and every schedule.
  Counts are kept modulo \<open>2 ^ 32\<close>; addresses inside loops are exact because the host keeps
  block ends below \<open>2 ^ 32\<close>.
\<close>

section \<open>radixsortReduce\<close>

function red_loop ::
  "nat \<Rightarrow> nat \<Rightarrow> nat \<Rightarrow> (nat \<Rightarrow> nat) \<Rightarrow> nat \<Rightarrow> nat \<Rightarrow> nat \<Rightarrow> (nat \<times> nat \<Rightarrow> nat) \<Rightarrow> nat \<times> nat \<Rightarrow> nat" where
  "red_loop rb fb wgs keys fin lid i hist =
     (if i < fin \<and> 0 < wgs
      then let bucket = key_digit rb fb (keys i)
           in red_loop rb fb wgs keys fin lid (i + wgs) (hist((bucket, lid) := u32 (hist (bucket, lid) + 1)))
      else hist)"
  by pat_completeness auto
termination
  by (relation "measure (\<lambda>(rb, fb, wgs, keys, fin, lid, i, hist). fin - i)") auto

declare red_loop.simps [simp del]

definition red_item ::
  "nat \<Rightarrow> nat \<Rightarrow> nat \<Rightarrow> (nat \<Rightarrow> nat) \<Rightarrow> nat \<Rightarrow> nat \<Rightarrow> nat \<Rightarrow> (nat \<times> nat \<Rightarrow> nat) \<Rightarrow> nat \<times> nat \<Rightarrow> nat" where
  "red_item rb fb wgs keys base fin lid hist =
     red_loop rb fb wgs keys fin lid (base + lid) (fold (\<lambda>i h. h((i, lid) := 0)) [0..<2 ^ rb] hist)"

text \<open>The tree over the columns of every row; \<open>sm\<close> is the private variable \<^verbatim>\<open>sum\<close>.\<close>

fun red_tree ::
  "sched \<Rightarrow> nat \<Rightarrow> nat \<Rightarrow> (nat \<Rightarrow> nat) \<Rightarrow> (nat \<times> nat \<Rightarrow> nat) \<Rightarrow> nat \<times> nat \<Rightarrow> nat" where
  "red_tree S ratio scale sm hist =
     (if 1 \<le> scale
      then red_tree S ratio (scale div 2)
             (\<lambda>lid. if and lid (ratio - 1) < scale
                    then u32 (sm lid + hist (lid div ratio, and lid (ratio - 1) + scale)) else sm lid)
             (par (S [scale]) (\<lambda>lid h. if and lid (ratio - 1) < scale
                then h((lid div ratio, and lid (ratio - 1)) :=
                       u32 (sm lid + h (lid div ratio, and lid (ratio - 1) + scale))) else h) hist)
      else hist)"

declare red_tree.simps [simp del]

definition reduce_block ::
  "sched \<Rightarrow> (nat \<times> nat \<Rightarrow> nat) \<Rightarrow> nat \<Rightarrow> nat \<Rightarrow> nat \<Rightarrow> (nat \<Rightarrow> nat) \<Rightarrow> nat \<Rightarrow> nat \<Rightarrow> nat \<Rightarrow> (nat \<Rightarrow> nat) \<Rightarrow> nat \<Rightarrow> nat" where
  "reduce_block S junk rb fb wgs keys len tot grp out =
     (let base = u32 (grp * len); fin = min (u32 (base + len)) tot;
          hist = par (S [0]) (red_item rb fb wgs keys base fin) junk;
          ratio = wgs div 2 ^ rb;
          sm = (\<lambda>lid. fold (\<lambda>i s. u32 (s + hist (lid div ratio, i * ratio + and lid (ratio - 1)))) [0..<2 ^ rb] 0);
          hist = par (S [1]) (\<lambda>lid h. h((lid div ratio, and lid (ratio - 1)) := sm lid)) hist;
          hist = red_tree (sub S [2]) ratio (ratio div 2) sm hist
      in par (S [3]) (\<lambda>lid m. if lid < 2 ^ rb then m(grp * 2 ^ rb + lid := hist (lid, 0)) else m) out)"

definition radixsortReduce ::
  "(nat \<Rightarrow> sched) \<Rightarrow> nat list \<Rightarrow> (nat \<Rightarrow> nat \<times> nat \<Rightarrow> nat) \<Rightarrow> nat \<Rightarrow> nat \<Rightarrow> nat \<Rightarrow> (nat \<Rightarrow> nat) \<Rightarrow> nat \<Rightarrow> nat \<Rightarrow>
   (nat \<Rightarrow> nat) \<Rightarrow> nat \<Rightarrow> nat" where
  "radixsortReduce S groups junk rb fb wgs keys len tot out =
     par groups (\<lambda>g. reduce_block (S g) (junk g) rb fb wgs keys len tot g) out"

section \<open>Counting\<close>

lemma zero_fold: "fold (\<lambda>i h. h((i, lid) := 0)) [0..<n] hist (b, l) = (if l = lid \<and> b < n then 0 else hist (b, l))"
  by (induction n) auto

lemma red_loop_other: "l \<noteq> lid \<Longrightarrow> red_loop rb fb wgs keys fin lid i hist (b, l) = hist (b, l)"
proof (induction "fin - i" arbitrary: i hist rule: less_induct)
  case less
  then show ?case by (subst red_loop.simps) (auto simp: Let_def)
qed

lemma red_loop_high: "2 ^ rb \<le> b \<Longrightarrow> red_loop rb fb wgs keys fin lid i hist (b, l) = hist (b, l)"
proof (induction "fin - i" arbitrary: i hist rule: less_induct)
  case less
  have "(key_digit rb fb (keys i), lid) \<noteq> (b, l)" using key_digit_less [of rb fb "keys i"] less.prems by auto
  then show ?case using less by (subst red_loop.simps) (auto simp: Let_def)
qed

lemma stride_insert:
  assumes "i < fin" "(0::nat) < w"
  shows "{j \<in> {i..<fin}. j mod w = i mod w} = insert i {j \<in> {i + w..<fin}. j mod w = (i + w) mod w}"
proof -
  have "i + w \<le> j" if "i \<le> j" "j mod w = i mod w" "j \<noteq> i" for j
  proof (rule ccontr)
    assume h: "\<not> i + w \<le> j"
    then have "(j - i) mod w = 0" using that(1,2) by (metis mod_eq_dvd_iff_nat dvd_imp_mod_0)
    moreover have "0 < j - i" "j - i < w" using h that by auto
    ultimately show False by simp
  qed
  then show ?thesis using assms by auto
qed

lemma red_loop_count:
  assumes "0 < wgs" "hist (b, lid) + occ (\<lambda>p. key_digit rb fb (keys p)) b {j \<in> {i..<fin}. j mod wgs = i mod wgs} < 2 ^ 32"
  shows "red_loop rb fb wgs keys fin lid i hist (b, lid)
    = hist (b, lid) + occ (\<lambda>p. key_digit rb fb (keys p)) b {j \<in> {i..<fin}. j mod wgs = i mod wgs}"
  using assms(2)
proof (induction "fin - i" arbitrary: i hist rule: less_induct)
  case less
  show ?case
  proof (cases "i < fin")
    case False
    then have "{j \<in> {i..<fin}. j mod wgs = i mod wgs} = {}" by auto
    then show ?thesis using False by (simp add: red_loop.simps)
  next
    case True
    let ?f = "\<lambda>p. key_digit rb fb (keys p)"
    let ?h = "hist((?f i, lid) := u32 (hist (?f i, lid) + 1))"
    note ins = stride_insert [OF True assms(1)]
    have o: "occ ?f b {j \<in> {i..<fin}. j mod wgs = i mod wgs}
        = (if ?f i = b then 1 else 0) + occ ?f b {j \<in> {i + wgs..<fin}. j mod wgs = (i + wgs) mod wgs}"
      unfolding ins using assms(1) by (intro occ_insert) auto
    have h: "?h (b, lid) = hist (b, lid) + (if ?f i = b then 1 else 0)"
      using less.prems unfolding o by (auto simp: u32_def)
    have "red_loop rb fb wgs keys fin lid i hist (b, lid) = red_loop rb fb wgs keys fin lid (i + wgs) ?h (b, lid)"
      using True assms(1) by (subst red_loop.simps) (simp add: Let_def)
    also have "\<dots> = ?h (b, lid) + occ ?f b {j \<in> {i + wgs..<fin}. j mod wgs = (i + wgs) mod wgs}"
      by (rule less.hyps) (use True assms(1) less.prems h o in auto)
    finally show ?thesis unfolding o h by simp
  qed
qed

lemma red_item_result:
  assumes "0 < wgs" "b < 2 ^ rb" "occ (\<lambda>p. key_digit rb fb (keys p)) b {base..<fin} < 2 ^ 32"
  shows "red_item rb fb wgs keys base fin lid hist (b, l) = (if l = lid
    then occ (\<lambda>p. key_digit rb fb (keys p)) b {j \<in> {base + lid..<fin}. j mod wgs = (base + lid) mod wgs} else hist (b, l))"
proof (cases "l = lid")
  case True
  let ?A = "{j \<in> {base + lid..<fin}. j mod wgs = (base + lid) mod wgs}"
  have "occ (\<lambda>p. key_digit rb fb (keys p)) b ?A \<le> occ (\<lambda>p. key_digit rb fb (keys p)) b {base..<fin}"
    by (rule occ_mono) auto
  then show ?thesis using assms True
    unfolding red_item_def by (subst True, subst red_loop_count) (simp_all add: zero_fold)
next
  case False
  then show ?thesis by (simp add: red_item_def red_loop_other zero_fold)
qed

text \<open>The columns of a row together count the block.\<close>

lemma occ_columns:
  assumes "0 < w"
  shows "(\<Sum>lid<w. occ f d {j \<in> {base + lid..<fin}. j mod w = (base + lid) mod w}) = occ f d {base..<fin}"
proof -
  have iff: "base + lid \<le> j \<and> j mod w = (base + lid) mod w \<longleftrightarrow> base \<le> j \<and> (j - base) mod w = lid" if "lid < w" for lid j
  proof
    assume h: "base + lid \<le> j \<and> j mod w = (base + lid) mod w"
    then have "w dvd j - (base + lid)" by (metis mod_eq_dvd_iff_nat)
    then obtain c where "j - (base + lid) = w * c" ..
    then have "j - base = lid + w * c" using h by linarith
    then show "base \<le> j \<and> (j - base) mod w = lid" using h that by simp
  next
    assume h: "base \<le> j \<and> (j - base) mod w = lid"
    then have "j - base = w * ((j - base) div w) + lid" by (metis mult_div_mod_eq)
    then have "j = base + lid + w * ((j - base) div w)" using h by linarith
    then show "base + lid \<le> j \<and> j mod w = (base + lid) mod w" by (metis le_add1 mod_mult_self2)
  qed
  have "{j \<in> {base + lid..<fin}. j mod w = (base + lid) mod w} = {j \<in> {base..<fin}. (j - base) mod w = lid}" if "lid < w" for lid
    using iff [OF that] by auto
  then have "(\<Sum>lid<w. occ f d {j \<in> {base + lid..<fin}. j mod w = (base + lid) mod w})
      = (\<Sum>lid<w. \<Sum>j\<in>{base..<fin}. if (j - base) mod w = lid then (if f j = d then 1 else 0) else 0)"
    by (intro sum.cong refl) (simp only: lessThan_iff occ_filter finite_atLeastLessThan)
  also have "\<dots> = (\<Sum>j\<in>{base..<fin}. \<Sum>lid<w. if (j - base) mod w = lid then (if f j = d then 1 else 0) else 0)"
    by (rule sum.swap)
  also have "\<dots> = occ f d {base..<fin}"
    unfolding occ_def using assms by (intro sum.cong refl) simp
  finally show ?thesis .
qed

section \<open>The tree over the columns\<close>

text \<open>Work-item \<open>lid\<close> owns the cell \<open>(lid div ratio, lid mod ratio)\<close>.\<close>

interpretation rt: single_write n "\<lambda>lid. lid mod ratio < scale" "\<lambda>lid. (lid div ratio, lid mod ratio)"
    "\<lambda>lid h. u32 (sm lid + h (lid div ratio, lid mod ratio + scale))" for n ratio scale sm
proof (unfold_locales, goal_cases)
  case (1 i j)
  then show ?case by (metis div_mult_mod_eq prod.inject)
next
  case (2 i m m')
  have "m (i div ratio, i mod ratio + scale) = m' (i div ratio, i mod ratio + scale)" by (rule 2) auto
  then show ?case by simp
qed

interpretation rc: single_write n "\<lambda>_. True" "\<lambda>lid. (lid div ratio, lid mod ratio)" "\<lambda>lid h. sm lid :: nat" for n ratio sm
  by unfold_locales (metis div_mult_mod_eq prod.inject, simp)

definition row_ok :: "nat \<Rightarrow> nat \<Rightarrow> (nat \<times> nat \<Rightarrow> nat) \<Rightarrow> nat \<Rightarrow> (nat \<Rightarrow> nat) \<Rightarrow> nat \<Rightarrow> bool" where
  "row_ok ratio scale h T sm r \<longleftrightarrow> (\<Sum>c< scale. h (r, c)) = T \<and> (\<forall>c<ratio. sm (r * ratio + c) = h (r, c))"

lemma red_tree_result:
  assumes S: "valid (radix * ratio) S" and ratio: "pow2 ratio" and r: "r < radix" and T: "T < 2 ^ 32"
    and k: "2 ^ k \<le> ratio" and row: "row_ok ratio (2 ^ k) hist T sm r"
  shows "red_tree S ratio (2 ^ k div 2) sm hist (r, 0) = T"
  using k row
proof (induction k arbitrary: sm hist)
  case 0
  then show ?case by (simp add: red_tree.simps row_ok_def)
next
  case (Suc k)
  let ?s = "(2 :: nat) ^ k"
  let ?sm = "\<lambda>lid. if lid mod ratio < ?s then u32 (sm lid + hist (lid div ratio, lid mod ratio + ?s)) else sm lid"
  let ?h = "par (S [?s]) (\<lambda>lid h. if lid mod ratio < ?s then h((lid div ratio, lid mod ratio) :=
      u32 (sm lid + h (lid div ratio, lid mod ratio + ?s))) else h) hist"
  have ks: "?s + ?s \<le> ratio" "0 < ratio" using Suc.prems(1) by (simp_all add: ratio pow2_pos)
  have half: "2 ^ Suc k div 2 = ?s" by simp
  have tree: "red_tree S ratio (2 ^ Suc k div 2) sm hist = red_tree S ratio (?s div 2) ?sm ?h"
    unfolding half by (subst red_tree.simps, unfold and_pred_mod [OF ratio]) simp
  have split: "(\<Sum>c<?s. hist (r, c) + hist (r, c + ?s)) = T"
  proof -
    have "(\<Sum>c<?s. hist (r, c + ?s)) = (\<Sum>c=?s..<?s + ?s. hist (r, c))"
      using sum_shift_start [where f = "\<lambda>c. hist (r, c)" and a = ?s and m = ?s] by (simp only: add.commute)
    then have "(\<Sum>c<?s. hist (r, c) + hist (r, c + ?s)) = (\<Sum>c<?s. hist (r, c)) + (\<Sum>c=?s..<?s + ?s. hist (r, c))"
      by (simp only: sum.distrib)
    also have "\<dots> = (\<Sum>c=0..<?s + ?s. hist (r, c))" by (simp only: lessThan_atLeast0 sum_split_at le_add1 le0)
    finally show ?thesis using Suc.prems(2) by (simp add: row_ok_def lessThan_atLeast0 mult_2)
  qed
  have le: "hist (r, c) + hist (r, c + ?s) < 2 ^ 32" if "c < ?s" for c
    using member_le_sum [of c "{..<?s}" "\<lambda>c. hist (r, c) + hist (r, c + ?s)"] that T unfolding split by simp
  have lid: "r * ratio + c < radix * ratio" "(r * ratio + c) div ratio = r" "(r * ratio + c) mod ratio = c" if "c < ratio" for c
  proof -
    have "Suc r * ratio \<le> radix * ratio" using r by (intro mult_right_mono) auto
    then show "r * ratio + c < radix * ratio" using that by simp
  qed (use that in simp_all)
  have sm: "sm (r * ratio + c) = hist (r, c)" if "c < ratio" for c using Suc.prems(2) that by (simp add: row_ok_def)
  have h: "?h (r, c) = (if c < ?s then hist (r, c) + hist (r, c + ?s) else hist (r, c))" if c: "c < ratio" for c
  proof (cases "c < ?s")
    case True
    then show ?thesis
      using rt.at [OF valid_schedule [OF S] lid(1) [OF c], of ratio ?s "[?s]" sm hist, unfolded lid [OF c]]
        le [OF True] sm [OF c]
      by (simp add: u32_small)
  next
    case False
    then show ?thesis using rt.off [OF valid_schedule [OF S], of ratio ?s "(r, c)" "[?s]" sm hist] by auto
  qed
  have "(\<Sum>c<?s. ?h (r, c)) = T"
    unfolding split [symmetric] using ks(1) by (intro sum.cong refl) (subst h, auto)
  moreover have "?sm (r * ratio + c) = ?h (r, c)" if "c < ratio" for c
    unfolding lid [OF that] h [OF that] using sm [OF that] le [of c] by (simp add: u32_small)
  ultimately have "row_ok ratio ?s ?h T ?sm r" unfolding row_ok_def by blast
  then show ?case unfolding tree using ks by (intro Suc.IH) simp_all
qed

section \<open>One block and all blocks\<close>

lemma fold_u32_sum:
  "(\<Sum>i<n. g i) < 2 ^ 32 \<Longrightarrow> fold (\<lambda>i s. u32 (s + g i)) [0..<n] 0 = (\<Sum>i<n. g i)"
  by (induction n) (simp_all add: u32_small)

definition reduce_cfg_ok :: "nat \<Rightarrow> nat \<Rightarrow> bool" where
  "reduce_cfg_ok rb wgs \<longleftrightarrow> pow2 wgs \<and> 2 ^ rb \<le> wgs"

text \<open>The block of a work-group.\<close>

definition block_end :: "nat \<Rightarrow> nat \<Rightarrow> nat \<Rightarrow> nat" where
  "block_end len tot grp = min (grp * len + len) tot"

lemma reduce_block_result:
  assumes cfg: "reduce_cfg_ok rb wgs" and S: "valid wgs S"
    and end32: "grp * len + len < 2 ^ 32"
  shows "reduce_block S junk rb fb wgs keys len tot grp out a =
    (if grp * 2 ^ rb \<le> a \<and> a < grp * 2 ^ rb + 2 ^ rb
     then occ (\<lambda>p. key_digit rb fb (keys p)) (a - grp * 2 ^ rb) {grp * len..<block_end len tot grp} else out a)"
proof -
  let ?f = "\<lambda>p. key_digit rb fb (keys p)" and ?R = "(2::nat) ^ rb"
  define ratio where "ratio = wgs div ?R"
  have ratio: "pow2 ratio" "wgs = ?R * ratio"
    using pow2_div_dvd [of ?R wgs] cfg by (auto simp: reduce_cfg_ok_def ratio_def)
  have pos: "0 < ratio" "0 < wgs" using ratio(1) cfg by (auto simp: reduce_cfg_ok_def pow2_pos)
  let ?base = "grp * len" and ?fin = "block_end len tot grp"
  have u: "u32 ?base = ?base" "u32 (?base + len) = ?base + len" using end32 by (simp_all add: u32_small)
  have S': "valid (?R * ratio) S" using S ratio(2) by simp
  define h1 where "h1 = par (S [0]) (red_item rb fb wgs keys ?base ?fin) junk"
  define cnt where "cnt d = occ ?f d {?base..<?fin}" for d
  have cnt: "cnt d < 2 ^ 32" for d
    using occ_le_card [of "{?base..<?fin}" ?f d] end32 by (simp add: cnt_def block_end_def)
  have h1: "h1 (d, l) = occ ?f d {j \<in> {?base + l..<?fin}. j mod wgs = (?base + l) mod wgs}" if "d < ?R" "l < wgs" for d l
  proof -
    have "h1 (d, l) = (if \<exists>i\<in>set (S [0]). (d, l) \<in> {a. snd a = i \<and> fst a < ?R}
        then occ ?f (fst (d, l)) {j \<in> {?base + snd (d, l)..<?fin}. j mod wgs = (?base + snd (d, l)) mod wgs} else junk (d, l))"
      unfolding h1_def
    proof (rule par_areas, goal_cases)
      case 1
      then show ?case using valid_schedule [OF S, of "[0]"] by (simp add: schedule_def)
    next
      case (2 i m' a)
      obtain b c where a: "a = (b, c)" by fastforce
      show ?case
      proof (cases "b < ?R")
        case True
        then show ?thesis using red_item_result [OF pos(2) True, of fb keys ?base ?fin i m' c] cnt [of b]
          unfolding a cnt_def by auto
      next
        case False
        then show ?thesis unfolding a by (simp add: red_item_def red_loop_high zero_fold)
      qed
    next
      case (3 i j a)
      then show ?case by simp
    qed
    moreover have "l \<in> set (S [0])" using valid_schedule [OF S, of "[0]"] that(2) by (simp add: schedule_mem)
    ultimately show ?thesis using that by auto
  qed
  have row1: "(\<Sum>l<wgs. h1 (d, l)) = cnt d" if "d < ?R" for d
    unfolding cnt_def using h1 [OF that] occ_columns [OF pos(2), of ?f d ?base ?fin] by simp
  define sm where "sm lid = fold (\<lambda>i s. u32 (s + h1 (lid div ratio, i * ratio + and lid (ratio - 1)))) [0..<?R] 0" for lid
  have smr: "sm (d * ratio + c) = (\<Sum>i<?R. h1 (d, i * ratio + c))" if "d < ?R" "c < ratio" for d c
  proof -
    have "(\<Sum>i<?R. h1 (d, i * ratio + c)) \<le> (\<Sum>l<ratio. \<Sum>k<?R. h1 (d, k * ratio + l))"
      by (rule member_le_sum) (use that in auto)
    also have "\<dots> = cnt d" using sum_swap_stride [of "\<lambda>l. h1 (d, l)" ratio ?R] row1 [OF that(1)] ratio(2) by simp
    finally have "(\<Sum>i<?R. h1 (d, i * ratio + c)) < 2 ^ 32" using cnt [of d] by linarith
    then show ?thesis using that unfolding sm_def and_pred_mod [OF ratio(1)] by (simp add: fold_u32_sum)
  qed
  define h2 where "h2 = par (S [1]) (\<lambda>lid h. h((lid div ratio, and lid (ratio - 1)) := sm lid)) h1"
  have h2: "h2 (d, c) = sm (d * ratio + c)" if "d < ?R" "c < ratio" for d c
  proof -
    have "Suc d * ratio \<le> ?R * ratio" using that(1) by (intro mult_right_mono) auto
    then have "d * ratio + c < ?R * ratio" using that(2) by simp
    from rc.at [where ratio = ratio and sm = sm and m = h1, OF valid_schedule [OF S', of "[1]"] this] show ?thesis
      using that(2) unfolding h2_def and_pred_mod [OF ratio(1)] by simp
  qed
  obtain k where k: "ratio = 2 ^ k" using ratio(1) by (rule pow2_E)
  have tree: "red_tree (sub S [2]) ratio (ratio div 2) sm h2 (d, 0) = cnt d" if "d < ?R" for d
  proof -
    have "(\<Sum>c<ratio. h2 (d, c)) = (\<Sum>c<ratio. \<Sum>i<?R. h1 (d, i * ratio + c))"
      using h2 [OF that] smr [OF that] by simp
    also have "\<dots> = cnt d" using sum_swap_stride [of "\<lambda>l. h1 (d, l)" ratio ?R] row1 [OF that] ratio(2) by simp
    finally have "row_ok ratio (2 ^ k) h2 (cnt d) sm d" using h2 [OF that] k by (simp add: row_ok_def)
    then show ?thesis
      using red_tree_result [where hist = h2 and sm = sm and k = k, OF valid_sub [OF S', of "[2]"] ratio(1) that cnt] k by simp
  qed
  have "reduce_block S junk rb fb wgs keys len tot grp out =
      par (S [3]) (\<lambda>lid m. if lid < ?R then m(grp * ?R + lid := red_tree (sub S [2]) ratio (ratio div 2) sm h2 (lid, 0)) else m) out"
    unfolding reduce_block_def Let_def u h2_def sm_def h1_def ratio_def block_end_def ..
  moreover have "single_write wgs (\<lambda>lid. lid < ?R) (\<lambda>lid. grp * ?R + lid)
      (\<lambda>lid m. red_tree (sub S [2]) ratio (ratio div 2) sm h2 (lid, 0))"
    by unfold_locales auto
  note sw = single_write.at [OF this valid_schedule [OF S], of _ "[3]" out] single_write.off [OF this valid_schedule [OF S], of a "[3]" out]
  have "?R \<le> wgs" using cfg by (simp add: reduce_cfg_ok_def)
  then have "par (S [3]) (\<lambda>lid m. if lid < ?R then m(grp * ?R + lid := red_tree (sub S [2]) ratio (ratio div 2) sm h2 (lid, 0)) else m) out a
      = (if grp * ?R \<le> a \<and> a < grp * ?R + ?R then cnt (a - grp * ?R) else out a)"
    using sw(1) [of "a - grp * ?R"] sw(2) tree [of "a - grp * ?R"] by (cases "grp * ?R \<le> a \<and> a < grp * ?R + ?R") auto
  ultimately show ?thesis by (simp add: cnt_def)
qed

lemma segment_iff: "grp * R \<le> a \<and> a < grp * R + R \<longleftrightarrow> a div R = grp" if "0 < R" for a R grp :: nat
proof
  assume "grp * R \<le> a \<and> a < grp * R + R"
  then have "a = grp * R + (a - grp * R)" "a - grp * R < R" by linarith+
  then show "a div R = grp" using that by (metis add_cancel_right_right div_less div_mult_self3 less_numeral_extra(3))
next
  assume "a div R = grp"
  then have "a = grp * R + a mod R" by (metis div_mult_mod_eq)
  moreover have "a mod R < R" using that by simp
  ultimately show "grp * R \<le> a \<and> a < grp * R + R" by linarith
qed

lemma radixsortReduce_result:
  assumes cfg: "reduce_cfg_ok rb wgs" and G: "schedule blocks groups" and S: "\<And>g. valid wgs (S g)"
    and end32: "blocks * len < 2 ^ 32"
  shows "radixsortReduce S groups junk rb fb wgs keys len tot out a =
    (if a < blocks * 2 ^ rb
     then occ (\<lambda>p. key_digit rb fb (keys p)) (a mod 2 ^ rb) {a div 2 ^ rb * len..<block_end len tot (a div 2 ^ rb)}
     else out a)"
proof -
  let ?R = "(2::nat) ^ rb"
  let ?F = "\<lambda>a. occ (\<lambda>p. key_digit rb fb (keys p)) (a mod ?R) {a div ?R * len..<block_end len tot (a div ?R)}"
  have "radixsortReduce S groups junk rb fb wgs keys len tot out a =
      (if \<exists>g\<in>set groups. a \<in> {a. a div ?R = g} then ?F a else out a)"
    unfolding radixsortReduce_def
  proof (rule par_areas, goal_cases)
    case 1
    then show ?case using G by (simp add: schedule_def)
  next
    case (2 g m' a)
    have "Suc g * len \<le> blocks * len" using 2(1) G by (intro mult_right_mono) (auto simp: schedule_mem)
    then have e: "g * len + len < 2 ^ 32" using end32 by simp
    have m: "a - g * ?R = a mod ?R" if "a div ?R = g" using that by (metis minus_div_mult_eq_mod)
    show ?case unfolding reduce_block_result [OF cfg S e] segment_iff [OF zero_less_power [OF zero_less_numeral]]
      using m by auto
  next
    case (3 i j a)
    then show ?case by simp
  qed
  moreover have "(\<exists>g\<in>set groups. a \<in> {a. a div ?R = g}) \<longleftrightarrow> a < blocks * ?R"
    using schedule_mem [OF G, of "a div ?R"] by (simp add: div_less_iff_less_mult)
  ultimately show ?thesis by simp
qed

section \<open>radixsortScan\<close>

text \<open>\<open>sb\<close> is \<^verbatim>\<open>SCAN_BLOCKS\<close>; the loops over \<open>sb * R\<close> cells make \<open>sb * R div wgs\<close> rounds.\<close>

definition scan_load :: "nat \<Rightarrow> nat \<Rightarrow> nat \<Rightarrow> (nat \<Rightarrow> nat) \<Rightarrow> nat \<Rightarrow> (nat \<Rightarrow> nat) \<Rightarrow> nat \<Rightarrow> nat" where
  "scan_load wgs cells limit histogram lid =
     stores (cells div wgs) (\<lambda>_. True) (\<lambda>k. k * wgs + lid)
       (\<lambda>k. if k * wgs + lid < limit then histogram (k * wgs + lid) else 0)"

text \<open>The scan of one column of a chunk by one work-item: the new array and the sum.\<close>

definition column_scan :: "nat \<Rightarrow> nat \<Rightarrow> nat \<Rightarrow> nat \<Rightarrow> (nat \<Rightarrow> nat) \<Rightarrow> (nat \<Rightarrow> nat) \<times> nat" where
  "column_scan R chunkRows firstRow digit hist =
     fold (\<lambda>i (hist, sm). let addr = (firstRow + i) * R + digit; nx = hist addr
                          in (hist(addr := sm), u32 (sm + nx))) [0..<chunkRows] (hist, 0)"

text \<open>
  The prefix sum of the array \<^verbatim>\<open>sums\<close>: every round reads, then after a barrier writes;
  \<open>sm\<close> is the private variable.
\<close>

function sums_scan :: "sched \<Rightarrow> nat \<Rightarrow> nat \<Rightarrow> (nat \<Rightarrow> nat) \<Rightarrow> (nat \<Rightarrow> nat) \<Rightarrow> nat \<Rightarrow> nat" where
  "sums_scan S wgs scale sm sums =
     (if 0 < scale \<and> scale \<le> wgs div 2
      then let prev = (\<lambda>lid. sums (wgs - scale + lid)); sm' = (\<lambda>lid. u32 (sm lid + prev lid))
           in sums_scan S wgs (scale * 2) sm' (par (S [scale]) (\<lambda>lid m. m(wgs + lid := sm' lid)) sums)
      else sums)"
  by pat_completeness auto
termination
  by (relation "measure (\<lambda>(S, wgs, scale, sm, sums). Suc wgs - scale)") auto

declare sums_scan.simps [simp del]

definition scan_store ::
  "nat \<Rightarrow> nat \<Rightarrow> nat \<Rightarrow> nat \<Rightarrow> nat \<Rightarrow> (nat \<Rightarrow> nat) \<Rightarrow> (nat \<Rightarrow> nat) \<Rightarrow> nat \<Rightarrow> (nat \<Rightarrow> nat) \<Rightarrow> nat \<Rightarrow> nat" where
  "scan_store wgs cells R chunks chunkRows hist sums lid =
     stores (cells div wgs) (\<lambda>_. True) (\<lambda>k. k * wgs + lid)
       (\<lambda>k. u32 (hist (k * wgs + lid)
            + sums (wgs - 1 + lid mod R * chunks + (k * wgs + lid) div (chunkRows * R))))"

definition radixsortScan ::
  "sched \<Rightarrow> (nat \<Rightarrow> nat) \<Rightarrow> (nat \<Rightarrow> nat) \<Rightarrow> nat \<Rightarrow> nat \<Rightarrow> nat \<Rightarrow> nat \<Rightarrow> (nat \<Rightarrow> nat) \<Rightarrow> nat \<Rightarrow> nat" where
  "radixsortScan S junk junk2 rb wgs sb blocks histogram =
     (let R = 2 ^ rb; cells = sb * R;
          hist = par (S [0]) (scan_load wgs cells (blocks * R) histogram) junk;
          chunks = wgs div R; chunkRows = sb div chunks;
          item = (\<lambda>lid h. column_scan R chunkRows (lid div R * chunkRows) (lid mod R) h);
          sm = (\<lambda>lid. snd (item lid hist));
          hist = par (S [1]) (\<lambda>lid h. fst (item lid h)) hist;
          sums = par (S [1]) (\<lambda>lid m. m(lid := 0, wgs + lid mod R * chunks + lid div R := sm lid)) junk2;
          sums = sums_scan (sub S [2]) wgs 1 (\<lambda>lid. sums (wgs + lid)) sums
      in par (S [3]) (scan_store wgs cells R chunks chunkRows hist sums) histogram)"

section \<open>The scan is right\<close>

lemma column_scan_result:
  assumes "0 < R" "digit < R" "(\<Sum>i<n. hist ((firstRow + i) * R + digit)) < 2 ^ 32"
  shows "column_scan R n firstRow digit hist =
    (\<lambda>a. if a mod R = digit \<and> firstRow \<le> a div R \<and> a div R < firstRow + n
         then \<Sum>i<a div R - firstRow. hist ((firstRow + i) * R + digit) else hist a,
     \<Sum>i<n. hist ((firstRow + i) * R + digit))"
  using assms(3)
proof (induction n)
  case 0
  then show ?case by (auto simp: column_scan_def fun_eq_iff)
next
  case (Suc n)
  let ?g = "\<lambda>i. hist ((firstRow + i) * R + digit)" and ?a = "(firstRow + n) * R + digit"
  let ?h = "\<lambda>n a. if a mod R = digit \<and> firstRow \<le> a div R \<and> a div R < firstRow + n
         then \<Sum>i<a div R - firstRow. ?g i else hist a"
  have IH: "column_scan R n firstRow digit hist = (?h n, \<Sum>i<n. ?g i)" using Suc by simp
  have step: "column_scan R (Suc n) firstRow digit hist =
      (let (h, sm) = column_scan R n firstRow digit hist in (h(?a := sm), u32 (sm + h ?a)))"
    by (simp add: column_scan_def Let_def split: prod.splits)
  have a: "?a mod R = digit" "?a div R = firstRow + n" using assms(1,2) by simp_all
  have "(?h n)(?a := \<Sum>i<n. ?g i) = ?h (Suc n)"
  proof
    fix b
    show "((?h n)(?a := \<Sum>i<n. ?g i)) b = ?h (Suc n) b"
    proof (cases "b mod R = digit \<and> b div R = firstRow + n")
      case True
      then have "b = ?a" by (metis div_mult_mod_eq)
      then show ?thesis using a by simp
    next
      case False
      then have "b \<noteq> ?a" using a by metis
      moreover have "(b mod R = digit \<and> firstRow \<le> b div R \<and> b div R < firstRow + n)
          = (b mod R = digit \<and> firstRow \<le> b div R \<and> b div R < firstRow + Suc n)"
        using False by (cases "b mod R = digit") auto
      ultimately show ?thesis by (simp only: fun_upd_other not_False_eq_True)
    qed
  qed
  moreover have "u32 ((\<Sum>i<n. ?g i) + ?h n ?a) = (\<Sum>i<Suc n. ?g i)"
    using Suc.prems a by (simp add: u32_small)
  ultimately show ?case unfolding step IH by (simp add: Let_def)
qed

lemma sums_scan_result:
  assumes S: "valid wgs S" and k: "wgs = 2 ^ K" "k \<le> K" and tot: "(\<Sum>j<wgs. v j) < 2 ^ 32"
    and sm: "\<And>j. j < wgs \<Longrightarrow> sm j = (\<Sum>i\<in>{Suc j - 2 ^ k..<Suc j}. v i)"
    and sums: "\<And>j. j < wgs \<Longrightarrow> sums j = 0 \<and> sums (wgs + j) = (\<Sum>i\<in>{Suc j - 2 ^ k..<Suc j}. v i)"
  shows "(\<forall>j<wgs. sums_scan S wgs (2 ^ k) sm sums j = 0 \<and> sums_scan S wgs (2 ^ k) sm sums (wgs + j) = sum v {..<Suc j})"
  using k(2) sm sums
proof (induction "K - k" arbitrary: k sm sums)
  case 0
  then have "k = K" by simp
  then have "\<not> 2 ^ k \<le> wgs div 2" using k(1) by (cases K) auto
  moreover have "{Suc j - 2 ^ k..<Suc j} = {..<Suc j}" if "j < wgs" for j
    using that \<open>k = K\<close> k(1) by auto
  ultimately show ?case using 0 by (subst (1 2) sums_scan.simps) simp
next
  case (Suc d)
  let ?s = "(2::nat) ^ k"
  have "k < K" using Suc by simp
  then obtain e where e: "K = Suc (k + e)" by (metis less_iff_Suc_add)
  have sw: "?s \<le> wgs div 2" "?s * 2 \<le> wgs" unfolding k(1) e by (simp_all add: power_add)
  define sm' where "sm' = (\<lambda>lid. u32 (sm lid + sums (wgs - ?s + lid)))"
  define sums' where "sums' = par (S [?s]) (\<lambda>lid m. m(wgs + lid := sm' lid)) sums"
  have prev: "sums (wgs - ?s + j) = (\<Sum>i\<in>{Suc j - ?s * 2..<Suc j - ?s}. v i)" if "j < wgs" for j
  proof (cases "j < ?s")
    case True
    then show ?thesis using Suc.prems(3) [of "wgs - ?s + j"] sw by simp
  next
    case False
    then have "wgs - ?s + j = wgs + (j - ?s)" using sw by simp
    moreover have "Suc (j - ?s) = Suc j - ?s" "Suc j - ?s - ?s = Suc j - ?s * 2" using False by linarith+
    ultimately show ?thesis using Suc.prems(3) [of "j - ?s"] that by simp
  qed
  have sm': "sm' j = (\<Sum>i\<in>{Suc j - 2 ^ Suc k..<Suc j}. v i)" if "j < wgs" for j
  proof -
    have "(\<Sum>i\<in>{Suc j - ?s * 2..<Suc j}. v i) \<le> (\<Sum>i<wgs. v i)" using that by (intro sum_mono2) auto
    moreover have "(\<Sum>i\<in>{Suc j - ?s * 2..<Suc j - ?s}. v i) + (\<Sum>i\<in>{Suc j - ?s..<Suc j}. v i)
        = (\<Sum>i\<in>{Suc j - ?s * 2..<Suc j}. v i)"
      by (rule sum_split_at) auto
    ultimately show ?thesis using tot Suc.prems(2) [OF that] prev [OF that]
      by (simp add: sm'_def u32_small add.commute mult.commute)
  qed
  have sums': "sums' a = (if wgs \<le> a \<and> a < wgs + wgs then sm' (a - wgs) else sums a)" for a
  proof -
    have sw: "single_write wgs (\<lambda>_. True) (\<lambda>lid. wgs + lid) (\<lambda>lid m. sm' lid)" by unfold_locales auto
    show ?thesis
      using single_write.at [OF sw valid_schedule [OF S], of "a - wgs" "[?s]" sums]
        single_write.off [OF sw valid_schedule [OF S], of a "[?s]" sums]
      unfolding sums'_def by (cases "wgs \<le> a \<and> a < wgs + wgs") auto
  qed
  have "sums_scan S wgs ?s sm sums = sums_scan S wgs (2 ^ Suc k) sm' sums'"
    using sw by (subst sums_scan.simps) (simp add: sm'_def sums'_def mult.commute)
  moreover have "\<forall>j<wgs. sums_scan S wgs (2 ^ Suc k) sm' sums' j = 0 \<and>
      sums_scan S wgs (2 ^ Suc k) sm' sums' (wgs + j) = sum v {..<Suc j}"
  proof (rule Suc.hyps(1))
    show "d = K - Suc k" "Suc k \<le> K" using Suc by simp_all
    show "sm' j = (\<Sum>i\<in>{Suc j - 2 ^ Suc k..<Suc j}. v i)" if "j < wgs" for j using sm' [OF that] .
    show "sums' j = 0 \<and> sums' (wgs + j) = (\<Sum>i\<in>{Suc j - 2 ^ Suc k..<Suc j}. v i)" if "j < wgs" for j
      using sm' [OF that] Suc.prems(3) [OF that] that by (simp add: sums')
  qed
  ultimately show ?case by simp
qed

text \<open>The checks of the preprocessor on the scan, and the division of the work.\<close>

definition scan_cfg_ok :: "nat \<Rightarrow> nat \<Rightarrow> nat \<Rightarrow> bool" where
  "scan_cfg_ok rb wgs sb \<longleftrightarrow> pow2 wgs \<and> 2 ^ rb \<le> wgs \<and> 0 < sb \<and> wgs dvd sb * 2 ^ rb"

lemma scan_cfg_split:
  assumes "scan_cfg_ok rb wgs sb"
  obtains chunks chunkRows where "wgs div 2 ^ rb = chunks" "sb div chunks = chunkRows" "wgs = chunks * 2 ^ rb"
    "sb = chunks * chunkRows" "0 < chunks" "0 < chunkRows"
proof -
  define chunks where "chunks = wgs div 2 ^ rb"
  have w: "wgs = chunks * 2 ^ rb" using pow2_div_dvd(1) [of "2 ^ rb" wgs] assms by (auto simp: scan_cfg_ok_def chunks_def)
  have "chunks * 2 ^ rb dvd sb * 2 ^ rb" using assms w by (simp add: scan_cfg_ok_def)
  then have "chunks dvd sb" by simp
  then obtain rows where r: "sb = chunks * rows" by blast
  have pos: "0 < sb" using assms by (simp add: scan_cfg_ok_def)
  then have p: "0 < chunks" "0 < rows" unfolding r by simp_all
  show ?thesis
  proof (rule that [of chunks rows])
    show "sb div chunks = rows" unfolding r using p by simp
    show "wgs div 2 ^ rb = chunks" by (simp only: chunks_def)
  qed (fact r w p)+
qed

text \<open>The counts in the order of the scan: digit by digit, and then block by block.\<close>

definition scan_spec :: "nat \<Rightarrow> nat \<Rightarrow> (nat \<Rightarrow> nat) \<Rightarrow> nat \<Rightarrow> nat" where
  "scan_spec R sb H a = (\<Sum>d<a mod R. \<Sum>r< sb. H (r * R + d)) + (\<Sum>r<a div R. H (r * R + a mod R))"

lemma scan_spec_chunks:
  fixes H :: "nat \<Rightarrow> nat"
  assumes "sb = chunks * rows" "0 < rows" "r < sb" "d < R"
  defines "v \<equiv> \<lambda>j. \<Sum>i<rows. H ((j mod chunks * rows + i) * R + j div chunks)"
  shows "(\<Sum>j<d * chunks + r div rows. v j) + (\<Sum>i<r - r div rows * rows. H ((r div rows * rows + i) * R + d))
    = (\<Sum>d<d. \<Sum>r< sb. H (r * R + d)) + (\<Sum>r<r. H (r * R + d))"
proof -
  let ?c = "r div rows"
  have "0 < chunks" using assms(1,3) by (cases chunks) auto
  have c: "?c < chunks" using assms(1,3) by (simp add: less_mult_imp_div_less)
  have dig: "(\<Sum>c<n. v (d * chunks + c)) = (\<Sum>r<n * rows. H (r * R + d))" if "n \<le> chunks" for d n
  proof -
    have "(\<Sum>c<n. v (d * chunks + c)) = (\<Sum>c<n. \<Sum>i<rows. H ((c * rows + i) * R + d))"
      using that \<open>0 < chunks\<close> by (intro sum.cong refl) (simp add: v_def)
    then show ?thesis using sum_block [of "\<lambda>r. H (r * R + d)" rows n] by simp
  qed
  have "(\<Sum>j<d * chunks + ?c. v j) = (\<Sum>j=0..<d * chunks. v j) + (\<Sum>j=d * chunks..<d * chunks + ?c. v j)"
    by (simp only: lessThan_atLeast0 sum_split_at le_add1 le0)
  also have "(\<Sum>j=0..<d * chunks. v j) = (\<Sum>d<d. \<Sum>c<chunks. v (d * chunks + c))"
    using sum_block [of v chunks d] by (simp add: lessThan_atLeast0)
  also have "\<dots> = (\<Sum>d<d. \<Sum>r< sb. H (r * R + d))" by (simp only: dig order_refl assms(1))
  also have "(\<Sum>j=d * chunks..<d * chunks + ?c. v j) = (\<Sum>r<?c * rows. H (r * R + d))"
    using dig [of ?c d] c by (simp add: sum_shift_start)
  finally have "(\<Sum>j<d * chunks + ?c. v j) = (\<Sum>d<d. \<Sum>r< sb. H (r * R + d)) + (\<Sum>r<?c * rows. H (r * R + d))" .
  moreover have "(\<Sum>i<r - ?c * rows. H ((?c * rows + i) * R + d)) = (\<Sum>r=?c * rows..<r. H (r * R + d))"
    using sum_shift_start [of "\<lambda>r. H (r * R + d)" "?c * rows" "r - ?c * rows"] by simp
  moreover have "(\<Sum>r=0..<?c * rows. H (r * R + d)) + (\<Sum>r=?c * rows..<r. H (r * R + d)) = (\<Sum>r=0..<r. H (r * R + d))"
    by (rule sum_split_at) simp_all
  ultimately show ?thesis by (simp add: lessThan_atLeast0)
qed

lemma scan_spec_le:
  fixes H :: "nat \<Rightarrow> nat"
  assumes "d < R" "r \<le> sb"
  shows "(\<Sum>d<d. \<Sum>r< sb. H (r * R + d)) + (\<Sum>r<r. H (r * R + d)) \<le> (\<Sum>a< sb * R. H a)"
proof -
  have "(\<Sum>r<r. H (r * R + d)) \<le> (\<Sum>r< sb. H (r * R + d))" using assms by (intro sum_mono2) auto
  then have "(\<Sum>d<d. \<Sum>r< sb. H (r * R + d)) + (\<Sum>r<r. H (r * R + d)) \<le> (\<Sum>d<Suc d. \<Sum>r< sb. H (r * R + d))" by simp
  also have "\<dots> \<le> (\<Sum>d<R. \<Sum>r< sb. H (r * R + d))" using assms by (intro sum_mono2) auto
  also have "\<dots> = (\<Sum>a< sb * R. H a)" by (rule sum_swap_stride)
  finally show ?thesis .
qed

lemma radixsortScan_result:
  assumes cfg: "scan_cfg_ok rb wgs sb" and S: "valid wgs S" and blocks: "blocks \<le> sb"
    and tot: "(\<Sum>a<blocks * 2 ^ rb. histogram a) < 2 ^ 32"
  defines "H \<equiv> \<lambda>a. if a < blocks * 2 ^ rb then histogram a else 0"
  shows "radixsortScan S junk junk2 rb wgs sb blocks histogram a =
    (if a < sb * 2 ^ rb then scan_spec (2 ^ rb) sb H a else histogram a)"
proof -
  let ?R = "(2::nat) ^ rb"
  obtain chunks rows where ck: "wgs div ?R = chunks" "sb div chunks = rows" and w: "wgs = chunks * ?R"
    and sb: "sb = chunks * rows" and pos: "0 < chunks" "0 < rows"
    using cfg by (rule scan_cfg_split)
  have cells: "sb * ?R = rows * wgs" "sb * ?R div wgs = rows" using pos by (simp_all add: sb w)
  have wpos: "0 < wgs" "0 < ?R" using w pos by simp_all
  have ord: "schedule wgs (S l)" for l using S by (rule valid_schedule)
  have Htot: "(\<Sum>a< sb * ?R. H a) < 2 ^ 32"
  proof -
    have "(\<Sum>a< sb * ?R. H a) = (\<Sum>a\<in>{..<sb * ?R} \<inter> {a. a < blocks * ?R}. histogram a)"
      by (simp add: H_def sum.inter_restrict)
    also have "{..<sb * ?R} \<inter> {a. a < blocks * ?R} = {..<blocks * ?R}"
    proof -
      have le: "blocks * ?R \<le> sb * ?R" by (rule mult_right_mono [OF blocks]) simp
      have "a < sb * ?R" if "a < blocks * ?R" for a by (rule less_le_trans [OF that le])
      then show ?thesis by blast
    qed
    finally show ?thesis using tot by simp
  qed
  define v where "v j = (\<Sum>i<rows. H ((j mod chunks * rows + i) * ?R + j div chunks))" for j
  have vtot: "(\<Sum>j<wgs. v j) = (\<Sum>a< sb * ?R. H a)"
  proof -
    have "(\<Sum>j<wgs. v j) = (\<Sum>d<?R. \<Sum>c<chunks. v (d * chunks + c))"
      using sum_block [of v chunks ?R] by (simp add: w mult.commute)
    also have "\<dots> = (\<Sum>d<?R. \<Sum>c<chunks. \<Sum>i<rows. H ((c * rows + i) * ?R + d))"
      by (intro sum.cong refl) (simp add: v_def)
    also have "\<dots> = (\<Sum>d<?R. \<Sum>r< sb. H (r * ?R + d))"
      by (simp only: sum_block [of "\<lambda>r. H (r * ?R + _)"] sb)
    also have "\<dots> = (\<Sum>a< sb * ?R. H a)" by (rule sum_swap_stride)
    finally show ?thesis .
  qed
  have vle: "v j < 2 ^ 32" if "j < wgs" for j
    using member_le_sum [of j "{..<wgs}" v] that Htot vtot by simp
  have sl: "store_loop wgs rows (\<lambda>lid k. k * wgs + lid)"
    by unfold_locales (metis add.commute stride_inj)
  have cell: "a mod wgs < wgs" "a div wgs < rows" "a div wgs * wgs + a mod wgs = a" if "a < sb * ?R" for a
    using that wpos unfolding cells(1) by (simp_all add: less_mult_imp_div_less)
  define h1 where "h1 = par (S [0]) (scan_load wgs (sb * ?R) (blocks * ?R) histogram) junk"
  have h1: "h1 a = H a" if "a < sb * ?R" for a
    using store_loop.at [OF sl ord [of "[0]"] cell(1,2) [OF that], where g = "\<lambda>_ _. True" and m = junk
        and f = "\<lambda>lid k. if k * wgs + lid < blocks * ?R then histogram (k * wgs + lid) else 0"]
    unfolding cell(3) [OF that] h1_def scan_load_def [abs_def] cells(2) H_def by simp
  have area: "lid mod ?R < ?R" "lid div ?R < chunks" "lid mod ?R * chunks + lid div ?R < wgs"
    "(lid div ?R * rows + i) * ?R + lid mod ?R < sb * ?R" if "lid < wgs" "i < rows" for lid i
  proof -
    show l: "lid mod ?R < ?R" "lid div ?R < chunks" using that(1) by (simp_all add: w less_mult_imp_div_less)
    have "lid mod ?R * chunks + lid div ?R < ?R * chunks" by (rule stride_less [OF l])
    then show "lid mod ?R * chunks + lid div ?R < wgs" by (simp only: w mult.commute)
    show "(lid div ?R * rows + i) * ?R + lid mod ?R < sb * ?R"
      unfolding sb by (rule stride_less [OF stride_less [OF l(2) that(2)] l(1)])
  qed
  have part: "(\<Sum>i<rows. h1 ((lid div ?R * rows + i) * ?R + lid mod ?R)) = v (lid mod ?R * chunks + lid div ?R)"
    if "lid < wgs" for lid
    unfolding v_def using area [OF that] h1 pos(1) by (intro sum.cong refl) simp
  let ?item = "\<lambda>lid h. column_scan ?R rows (lid div ?R * rows) (lid mod ?R) h"
  have item: "?item lid h = (\<lambda>a. if a mod ?R = lid mod ?R \<and> lid div ?R * rows \<le> a div ?R \<and> a div ?R < lid div ?R * rows + rows
         then \<Sum>i<a div ?R - lid div ?R * rows. h ((lid div ?R * rows + i) * ?R + lid mod ?R) else h a,
       \<Sum>i<rows. h ((lid div ?R * rows + i) * ?R + lid mod ?R))"
    if lid: "lid < wgs" and eq: "\<And>i. i < rows \<Longrightarrow> h ((lid div ?R * rows + i) * ?R + lid mod ?R) = h1 ((lid div ?R * rows + i) * ?R + lid mod ?R)" for lid h
  proof (rule column_scan_result [OF wpos(2)])
    have "(\<Sum>i<rows. h ((lid div ?R * rows + i) * ?R + lid mod ?R)) = v (lid mod ?R * chunks + lid div ?R)"
      using part [OF lid] eq by simp
    then show "(\<Sum>i<rows. h ((lid div ?R * rows + i) * ?R + lid mod ?R)) < 2 ^ 32"
      using vle area(3) [OF lid pos(2)] by simp
  qed (simp add: wpos)
  define sm where "sm lid = snd (?item lid h1)" for lid
  have sm: "sm lid = v (lid mod ?R * chunks + lid div ?R)" if "lid < wgs" for lid
    using item [OF that refl] part [OF that] by (simp add: sm_def)
  define h2 where "h2 = par (S [1]) (\<lambda>lid h. fst (?item lid h)) h1"
  have rowdiv: "c * rows \<le> r \<and> r < c * rows + rows \<longleftrightarrow> r div rows = c" for c r
    by (rule segment_iff [OF pos(2)])
  let ?F = "\<lambda>a. \<Sum>i<a div ?R - a div ?R div rows * rows. H ((a div ?R div rows * rows + i) * ?R + a mod ?R)"
  have h2: "h2 a = ?F a" if "a < sb * ?R" for a
  proof -
    let ?W = "\<lambda>lid. {a. a mod ?R = lid mod ?R \<and> a div ?R div rows = lid div ?R}"
    have "h2 a = (if \<exists>i\<in>set (S [1]). a \<in> ?W i then ?F a else h1 a)"
      unfolding h2_def
    proof (rule par_areas, goal_cases)
      case 1
      then show ?case using ord [of "[1]"] by (simp add: schedule_def)
    next
      case (2 lid m' a)
      have lid: "lid < wgs" using 2(1) ord [of "[1]"] by (simp add: schedule_mem)
      have eq: "m' ((lid div ?R * rows + i) * ?R + lid mod ?R) = h1 ((lid div ?R * rows + i) * ?R + lid mod ?R)" if "i < rows" for i
        by (rule 2(2)) (use that wpos in simp)
      have "(\<Sum>i<a div ?R - lid div ?R * rows. m' ((lid div ?R * rows + i) * ?R + lid mod ?R)) = ?F a"
        if "a mod ?R = lid mod ?R" "a div ?R div rows = lid div ?R"
      proof -
        have "a div ?R < lid div ?R * rows + rows" using rowdiv [of "lid div ?R" "a div ?R"] that by simp
        then show ?thesis unfolding that using eq h1 area(4) [OF lid] by (intro sum.cong refl) simp
      qed
      moreover have "fst (?item lid m') a = (if a mod ?R = lid mod ?R \<and> lid div ?R * rows \<le> a div ?R \<and> a div ?R < lid div ?R * rows + rows
         then \<Sum>i<a div ?R - lid div ?R * rows. m' ((lid div ?R * rows + i) * ?R + lid mod ?R) else m' a)"
        by (subst item [OF lid]) (erule eq, rule fst_conv [THEN fun_cong])
      ultimately show ?case unfolding rowdiv [of "lid div ?R" "a div ?R"] by auto
    next
      case (3 i j a)
      then have "i mod ?R = j mod ?R" "i div ?R = j div ?R" by simp_all
      then show ?case by (metis div_mult_mod_eq)
    qed
    moreover have "a div ?R div rows * ?R + a mod ?R \<in> set (S [1])"
    proof -
      have "a div ?R < chunks * rows" using that by (simp add: sb less_mult_imp_div_less)
      then have "a div ?R div rows < chunks" by (simp add: less_mult_imp_div_less)
      then have "a div ?R div rows * ?R + a mod ?R < wgs" unfolding w by (rule stride_less) simp
      then show ?thesis using ord [of "[1]"] by (simp add: schedule_mem)
    qed
    then have "\<exists>i\<in>set (S [1]). a \<in> ?W i" by (rule rev_bexI) simp
    ultimately show ?thesis by simp
  qed
  define s1 where "s1 = par (S [1]) (\<lambda>lid m. m(lid := 0, wgs + lid mod ?R * chunks + lid div ?R := sm lid)) junk2"
  have s1: "s1 j = 0 \<and> s1 (wgs + j) = v j" if j: "j < wgs" for j
  proof -
    let ?W = "\<lambda>lid. {lid, wgs + lid mod ?R * chunks + lid div ?R}"
    let ?G = "\<lambda>a. if a < wgs then 0 else v (a - wgs)"
    have s: "s1 a = (if \<exists>i\<in>set (S [1]). a \<in> ?W i then ?G a else junk2 a)" for a
      unfolding s1_def
    proof (rule par_areas, goal_cases)
      case 1
      then show ?case using ord [of "[1]"] by (simp add: schedule_def)
    next
      case (2 lid m' a)
      then have "lid < wgs" using ord [of "[1]"] by (simp add: schedule_mem)
      then show ?case using sm [of lid] by auto
    next
      case (3 i k a)
      then have ik: "i < wgs" "k < wgs" using ord [of "[1]"] by (simp_all add: schedule_mem)
      have "i = k" if "wgs + i mod ?R * chunks + i div ?R = wgs + k mod ?R * chunks + k div ?R"
      proof -
        have "i div ?R = k div ?R \<and> i mod ?R = k mod ?R"
          using that area(2) [OF ik(1) pos(2)] area(2) [OF ik(2) pos(2)] by (intro stride_inj [of _ chunks]) auto
        then show ?thesis by (metis div_mult_mod_eq)
      qed
      then show ?case using 3 ik by auto
    qed
    have "j \<in> set (S [1])" using ord [of "[1]"] j by (simp add: schedule_mem)
    then have a1: "\<exists>i\<in>set (S [1]). j \<in> ?W i" by blast
    have jd: "j div chunks < ?R" using j by (simp add: w mult.commute less_mult_imp_div_less)
    have "j mod chunks * ?R + j div chunks < wgs" unfolding w by (rule stride_less [OF mod_less_divisor [OF pos(1)] jd])
    then have "j mod chunks * ?R + j div chunks \<in> set (S [1])" using ord [of "[1]"] by (simp add: schedule_mem)
    moreover have "wgs + j \<in> ?W (j mod chunks * ?R + j div chunks)" using jd by simp
    ultimately have a2: "\<exists>i\<in>set (S [1]). wgs + j \<in> ?W i" by blast
    show ?thesis using s [of j] s [of "wgs + j"] a1 a2 j by simp
  qed
  obtain K where K: "wgs = 2 ^ K" using cfg by (auto simp: scan_cfg_ok_def elim: pow2_E)
  define s2 where "s2 = sums_scan (sub S [2]) wgs 1 (\<lambda>lid. s1 (wgs + lid)) s1"
  have s2: "s2 j = 0 \<and> s2 (wgs + j) = sum v {..<Suc j}" if "j < wgs" for j
    using sums_scan_result [OF valid_sub [OF S] K, of 0 v "\<lambda>lid. s1 (wgs + lid)" s1 "[2]"] s1 Htot vtot that
    by (simp add: s2_def)
  have s2': "s2 (wgs - 1 + j) = sum v {..<j}" if "j < wgs" for j
    using s2 [of "wgs - 1"] s2 [of "j - 1"] that by (cases j) auto
  have fin: "radixsortScan S junk junk2 rb wgs sb blocks histogram =
      par (S [3]) (scan_store wgs (sb * ?R) ?R chunks rows h2 s2) histogram"
    unfolding radixsortScan_def Let_def ck h1_def h2_def sm_def s1_def s2_def ..
  show ?thesis
  proof (cases "a < sb * ?R")
    case True
    let ?f = "\<lambda>lid k. u32 (h2 (k * wgs + lid) + s2 (wgs - 1 + lid mod ?R * chunks + (k * wgs + lid) div (rows * ?R)))"
    have c: "a div ?R div rows < chunks" using True by (simp add: sb less_mult_imp_div_less)
    have r: "a div ?R < sb" using True by (simp add: less_mult_imp_div_less)
    have md: "a mod wgs mod ?R = a mod ?R" unfolding w by (rule mod_mod_cancel) simp
    have dv: "a div (rows * ?R) = a div ?R div rows" by (simp only: div_mult2_eq [symmetric] mult.commute)
    have j: "a mod ?R * chunks + a div ?R div rows < wgs"
    proof -
      have "a mod ?R * chunks + a div ?R div rows < ?R * chunks"
        by (rule stride_less [OF mod_less_divisor [OF wpos(2)] c])
      then show ?thesis by (simp only: w mult.commute)
    qed
    have "radixsortScan S junk junk2 rb wgs sb blocks histogram a = ?f (a mod wgs) (a div wgs)"
      using store_loop.at [OF sl ord [of "[3]"] cell(1,2) [OF True], where g = "\<lambda>_ _. True" and f = ?f and m = histogram]
      unfolding cell(3) [OF True] fin scan_store_def [abs_def] cells(2) by simp
    also have "\<dots> = u32 (sum v {..<a mod ?R * chunks + a div ?R div rows} + ?F a)"
      unfolding cell(3) [OF True] md dv h2 [OF True] add.assoc s2' [OF j] by (simp only: add.commute)
    also have "sum v {..<a mod ?R * chunks + a div ?R div rows} + ?F a = scan_spec ?R sb H a"
      using scan_spec_chunks [OF sb pos(2) r, of "a mod ?R" ?R H] wpos(2) by (simp add: v_def [abs_def] scan_spec_def)
    also have "u32 \<dots> = \<dots>"
      using scan_spec_le [of "a mod ?R" ?R "a div ?R" sb H] r wpos(2) Htot by (intro u32_small) (simp add: scan_spec_def)
    finally show ?thesis using True by simp
  next
    case False
    have "a \<noteq> k * wgs + lid" if "lid < wgs" "k < rows" for k lid
    proof -
      have "Suc k * wgs \<le> rows * wgs" using that(2) by (intro mult_right_mono) auto
      then show ?thesis using that False unfolding cells(1) by auto
    qed
    then show ?thesis using False
      store_loop.off [OF sl ord [of "[3]"], where g = "\<lambda>_ _. True" and a = a and m = histogram
        and f = "\<lambda>lid k. u32 (h2 (k * wgs + lid) + s2 (wgs - 1 + lid mod ?R * chunks + (k * wgs + lid) div (rows * ?R)))"]
      unfolding fin scan_store_def [abs_def] cells(2) by simp
  qed
qed

end
