(* ===== verification/RadixScatter.thy ===== *)
theory RadixScatter
  imports RadixTile RadixHist
begin

text \<open>
  \<^verbatim>\<open>radixsortScatter\<close> of kernels/radixsort.cl: every slice of every work-group moves one
  block of the input, tile by tile, starting from the scanned histogram. The theory composes the
  three kernels to one pass of the sort and shows that a pass is a stable sort by one digit.
\<close>

section \<open>The code\<close>

function scatter_loop ::
  "scatter_cfg \<Rightarrow> sched \<Rightarrow> ((nat \<Rightarrow> 'v) \<Rightarrow> levels) \<Rightarrow> (nat \<Rightarrow> nat) \<Rightarrow> (nat \<Rightarrow> 'v) \<Rightarrow> nat \<Rightarrow> nat \<Rightarrow> nat \<Rightarrow> nat \<Rightarrow>
   'v tile_state \<Rightarrow> 'v tile_state" where
  "scatter_loop C S view inKeys inValues fb fin stop start st =
     (if start < stop \<and> 0 < c_slc C * c_ws C
      then scatter_loop C S view inKeys inValues fb fin stop (start + c_slc C * c_ws C)
             (scatter_tile C (sub S [start]) view inKeys inValues start fin fb st)
      else st)"
  by pat_completeness auto
termination
  by (relation "measure (\<lambda>(C, S, view, inKeys, inValues, fb, fin, stop, start, st). stop - start)")
    (auto intro!: diff_less_mono2)

declare scatter_loop.simps [simp del]

definition scatter_block ::
  "scatter_cfg \<Rightarrow> sched \<Rightarrow> ((nat \<Rightarrow> 'v) \<Rightarrow> levels) \<Rightarrow> 'v slice_mem \<Rightarrow> (nat \<Rightarrow> nat) \<Rightarrow> (nat \<Rightarrow> 'v) \<Rightarrow> (nat \<Rightarrow> nat) \<Rightarrow>
   nat \<Rightarrow> nat \<Rightarrow> nat \<Rightarrow> nat \<Rightarrow> (nat \<Rightarrow> nat) \<times> (nat \<Rightarrow> 'v) \<Rightarrow> (nat \<Rightarrow> nat) \<times> (nat \<Rightarrow> 'v)" where
  "scatter_block C S view junk inKeys inValues histogram len tot fb block outs =
     (let R = 2 ^ c_rb C;
          offset = (\<lambda>lid. if lid < R then histogram (block * R + lid) else 0);
          start = u32 (block * len); stop = u32 (start + len); fin = min stop tot
      in snd (snd (scatter_loop C S view inKeys inValues fb fin stop start (junk, offset, outs))))"

text \<open>
  The work-items of a slice, and the order in which the slices of a work-group come first, in
  the device's order of the work-group's items. Slices run interleaved between barriers; they
  write different places and read nothing that is written.
\<close>

definition slice_sched :: "nat \<Rightarrow> nat \<Rightarrow> sched \<Rightarrow> sched" where
  "slice_sched slc sl S = (\<lambda>l. map (\<lambda>i. i mod slc) (filter (\<lambda>i. i div slc = sl) (S (sl # l))))"

definition slice_order :: "nat \<Rightarrow> sched \<Rightarrow> nat list" where
  "slice_order slc S = remdups (map (\<lambda>i. i div slc) (S []))"

definition radixsortScatter ::
  "scatter_cfg \<Rightarrow> (nat \<Rightarrow> sched) \<Rightarrow> nat list \<Rightarrow> ((nat \<Rightarrow> 'v) \<Rightarrow> levels) \<Rightarrow> (nat \<Rightarrow> 'v slice_mem) \<Rightarrow> (nat \<Rightarrow> nat) \<Rightarrow> (nat \<Rightarrow> 'v) \<Rightarrow>
   (nat \<Rightarrow> nat) \<Rightarrow> nat \<Rightarrow> nat \<Rightarrow> nat \<Rightarrow> (nat \<Rightarrow> nat) \<times> (nat \<Rightarrow> 'v) \<Rightarrow> (nat \<Rightarrow> nat) \<times> (nat \<Rightarrow> 'v)" where
  "radixsortScatter C S groups view junk inKeys inValues histogram len tot fb outs =
     par groups (\<lambda>g. par (slice_order (c_slc C) (S g)) (\<lambda>sl.
       scatter_block C (slice_sched (c_slc C) sl (S g)) view (junk (g * (c_wgs C div c_slc C) + sl))
         inKeys inValues histogram len tot fb (g * (c_wgs C div c_slc C) + sl))) outs"

section \<open>Schedules of slices\<close>

lemma slice_sched_valid:
  assumes "valid (n * slc) S" "sl < n" "0 < slc"
  shows "valid slc (slice_sched slc sl S)"
  unfolding valid_def schedule_def
proof (intro allI conjI)
  fix l
  let ?xs = "filter (\<lambda>i. i div slc = sl) (S (sl # l))"
  have ord: "distinct (S (sl # l))" "set (S (sl # l)) = {..<n * slc}"
    using valid_schedule [OF assms(1), of "sl # l"] by (simp_all add: schedule_def)
  have "inj_on (\<lambda>i. i mod slc) (set ?xs)"
    by (rule inj_onI) (simp, metis div_mult_mod_eq)
  then show "distinct (slice_sched slc sl S l)" using ord by (simp add: slice_sched_def distinct_map)
  show "set (slice_sched slc sl S l) = {..< slc}"
  proof (intro set_eqI iffI)
    fix x assume "x \<in> set (slice_sched slc sl S l)"
    then show "x \<in> {..< slc}" using assms(3) by (auto simp: slice_sched_def)
  next
    fix x assume "x \<in> {..< slc}"
    then have "sl * slc + x \<in> set (S (sl # l))" "(sl * slc + x) div slc = sl" "(sl * slc + x) mod slc = x"
      unfolding ord using stride_less [OF assms(2), of x slc] by simp_all
    then show "x \<in> set (slice_sched slc sl S l)" unfolding slice_sched_def by force
  qed
qed

lemma slice_order_schedule:
  assumes "valid (n * slc) S" "0 < slc"
  shows "schedule n (slice_order slc S)"
proof -
  have "set (S []) = {..<n * slc}" using valid_schedule [OF assms(1), of "[]"] by (simp add: schedule_def)
  then have "set (slice_order slc S) = (\<lambda>i. i div slc) ` {..<n * slc}" by (simp add: slice_order_def)
  also have "\<dots> = {..<n}"
  proof (intro set_eqI iffI)
    fix x assume "x \<in> {..<n}"
    then have "x * slc + 0 < n * slc" using assms(2) by (intro stride_less) auto
    then show "x \<in> (\<lambda>i. i div slc) ` {..<n * slc}" using assms(2) by (intro image_eqI [of _ _ "x * slc"]) auto
  qed (auto simp: less_mult_imp_div_less)
  finally show ?thesis by (simp add: schedule_def slice_order_def)
qed

section \<open>One block\<close>

text \<open>The two outputs after the places \<open>W\<close> have received their elements.\<close>

definition outs_upd ::
  "bool \<Rightarrow> nat set \<Rightarrow> (nat \<Rightarrow> nat) \<Rightarrow> (nat \<Rightarrow> 'v) \<Rightarrow> (nat \<Rightarrow> nat) \<times> (nat \<Rightarrow> 'v) \<Rightarrow> (nat \<Rightarrow> nat) \<times> (nat \<Rightarrow> 'v)" where
  "outs_upd hasv W FK FV outs =
     (\<lambda>a. if a \<in> W then FK a else fst outs a, \<lambda>a. if hasv \<and> a \<in> W then FV a else snd outs a)"

lemma outs_upd_twice: "outs_upd h V FK FV (outs_upd h W FK FV outs) = outs_upd h (W \<union> V) FK FV outs"
  by (auto simp: outs_upd_def fun_eq_iff)

lemma outs_upd_empty [simp]: "outs_upd h {} FK FV outs = outs"
  by (cases outs) (simp add: outs_upd_def)

lemma par_outs:
  assumes "\<And>i outs. i \<in> set ord \<Longrightarrow> body i outs = outs_upd h (W i) FK FV outs"
  shows "par ord body outs = outs_upd h (\<Union>i\<in>set ord. W i) FK FV outs"
  using assms by (induction ord arbitrary: outs) (simp_all add: outs_upd_twice)

abbreviation kdigit :: "scatter_cfg \<Rightarrow> nat \<Rightarrow> (nat \<Rightarrow> nat) \<Rightarrow> nat \<Rightarrow> nat" where
  "kdigit C fb inKeys q \<equiv> key_digit (c_rb C) fb (inKeys q)"

lemma scatter_loop_result:
  assumes cfg: "scatter_cfg_ok C" and S: "valid (c_slc C) S"
    and sz: "stop < 2 ^ 31" "fin \<le> stop" and fb: "fb \<le> c_kb C"
    and keys: "\<And>q. q < fin \<Longrightarrow> inKeys q < 2 ^ c_kb C"
    and base: "\<And>d. d < 2 ^ c_rb C \<Longrightarrow> base d + occ (kdigit C fb inKeys) d {b0..<fin} < 2 ^ 32"
    and FK: "\<And>q. b0 \<le> q \<Longrightarrow> q < fin \<Longrightarrow> inKeys q = FK (base (kdigit C fb inKeys q) + occ (kdigit C fb inKeys) (kdigit C fb inKeys q) {b0..<q})"
    and FV: "\<And>q. b0 \<le> q \<Longrightarrow> q < fin \<Longrightarrow> inValues q = FV (base (kdigit C fb inKeys q) + occ (kdigit C fb inKeys) (kdigit C fb inKeys q) {b0..<q})"
    and start: "b0 \<le> start" and off: "\<And>d. start < fin \<Longrightarrow> d < 2 ^ c_rb C \<Longrightarrow> offset d = base d + occ (kdigit C fb inKeys) d {b0..<start}"
  shows "snd (snd (scatter_loop C S view inKeys inValues fb fin stop start (m, offset, outs))) =
    outs_upd (c_values C) ((\<lambda>q. base (kdigit C fb inKeys q) + occ (kdigit C fb inKeys) (kdigit C fb inKeys q) {b0..<q}) ` {start..<fin}) FK FV outs"
  using start off
proof (induction "stop - start" arbitrary: start m offset outs rule: less_induct)
  case less
  let ?T = "c_slc C * c_ws C" and ?F = "kdigit C fb inKeys" and ?f = "tile_digit C inKeys start fin fb"
  let ?g = "\<lambda>q. base (?F q) + occ ?F (?F q) {b0..<q}"
  have T: "0 < ?T" using cfg by (auto simp: scatter_cfg_ok_def pow2_pos)
  show ?case
  proof (cases "start < stop")
    case False
    then have "{start..<fin} = {}" using sz by auto
    then show ?thesis using False by (subst scatter_loop.simps) simp
  next
    case True
    have d: "?f p = ?F (start + p)" if "start + p < fin" for p
      using that by (simp add: tile_digit_def tile_key_def)
    have oc: "occ ?f d {..<p} = occ ?F d {start..<start + p}" if "start + p \<le> fin" for d p
    proof -
      have "occ ?f d {..<p} = (\<Sum>j<p. if ?F (start + j) = d then 1 else 0)"
        unfolding occ_def using that d by (intro sum.cong refl) simp
      then show ?thesis by (simp add: occ_def sum_shift_start [of "\<lambda>q. if ?F q = d then 1 else 0"])
    qed
    have pl: "place offset ?f p = ?g (start + p)" if "start + p < fin" for p
      using less.prems(2) [of "?F (start + p)"] that oc [of p] d [OF that] key_digit_less [of "c_rb C" fb "inKeys (start + p)"]
        occ_split [of b0 start "start + p" ?F "?F (start + p)"] less.prems(1)
      by (simp add: place_def)
    have gl: "?g q < 2 ^ 32" if "b0 \<le> q" "q < fin" for q
    proof -
      have "occ ?F (?F q) {b0..<q} \<le> occ ?F (?F q) {b0..<fin}" using that by (intro occ_mono) auto
      then show ?thesis using base [OF key_digit_less, of fb "inKeys q"] by linarith
    qed
    obtain K0 V0 where outs: "outs = (K0, V0)" by fastforce
    have st: "start < 2 ^ 31" "fin < 2 ^ 31" using True sz by simp_all
    have pb: "place offset ?f p < 2 ^ 32" if "p < ?T" "start + p < fin" for p
      using pl [OF that(2)] gl [of "start + p"] that less.prems(1) by simp
    have pK: "inKeys (start + p) = FK (place offset ?f p)" if "p < ?T" "start + p < fin" for p
      unfolding pl [OF that(2)] by (rule FK) (use that less.prems(1) in auto)
    have pV: "inValues (start + p) = FV (place offset ?f p)" if "p < ?T" "start + p < fin" for p
      unfolding pl [OF that(2)] by (rule FV) (use that less.prems(1) in auto)
    obtain m' offset' K V where
      t: "scatter_tile C (sub S [start]) view inKeys inValues start fin fb (m, offset, K0, V0) = (m', offset', K, V)"
      and o': "\<And>d. d < 2 ^ c_rb C \<Longrightarrow> offset' d = u32 (offset d + occ ?f d {..<?T})"
      and K: "\<And>a. K a = (if \<exists>p<?T. start + p < fin \<and> a = place offset ?f p then FK a else K0 a)"
      and V: "\<And>a. V a = (if c_values C \<and> (\<exists>p<?T. start + p < fin \<and> a = place offset ?f p) then FV a else V0 a)"
      by (rule scatter_tile_result [where C = C and S = "sub S [start]" and start = start and fin = fin and fb = fb
          and inKeys = inKeys and inValues = inValues and offset = offset and FK = FK and FV = FV and view = view
          and m = m and outK = K0 and outV = V0, OF cfg valid_sub [OF S] st fb keys pb pK pV])
        (assumption+, rule that, assumption, blast+)
    let ?W = "{a. \<exists>p<?T. start + p < fin \<and> a = place offset ?f p}"
    have KV: "(K, V) = outs_upd (c_values C) ?W FK FV outs"
      by (simp only: outs outs_upd_def prod.inject fun_eq_iff K V mem_Collect_eq fst_conv snd_conv simp_thms)
    have off': "offset' d = base d + occ ?F d {b0..<start + ?T}" if "start + ?T < fin" "d < 2 ^ c_rb C" for d
    proof -
      have "occ ?F d {b0..<start} + occ ?F d {start..<start + ?T} = occ ?F d {b0..<start + ?T}"
        using less.prems(1) by (intro occ_split) auto
      moreover have "occ ?F d {b0..<start + ?T} \<le> occ ?F d {b0..<fin}" using that by (intro occ_mono) auto
      ultimately show ?thesis
        using o' [OF that(2)] oc [of ?T d] less.prems(2) [of d] that base [OF that(2)] by (simp add: u32_small)
    qed
    have next_tile: "scatter_loop C S view inKeys inValues fb fin stop start (m, offset, outs) =
        scatter_loop C S view inKeys inValues fb fin stop (start + ?T) (m', offset', K, V)"
      using True T t outs by (subst scatter_loop.simps) simp
    have "snd (snd (scatter_loop C S view inKeys inValues fb fin stop start (m, offset, outs))) =
        outs_upd (c_values C) (?g ` {start + ?T..<fin}) FK FV (K, V)"
      unfolding next_tile
    proof (rule less.hyps)
      show "stop - (start + ?T) < stop - start" using True T by (intro diff_less_mono2) linarith+
      show "b0 \<le> start + ?T" using less.prems(1) by simp
    qed (rule off')
    also have "\<dots> = outs_upd (c_values C) (?W \<union> ?g ` {start + ?T..<fin}) FK FV outs"
      unfolding KV by (rule outs_upd_twice)
    also have "?W \<union> ?g ` {start + ?T..<fin} = ?g ` {start..<fin}"
    proof -
      have "?W = ?g ` ({start..<fin} \<inter> {..<start + ?T})"
      proof (intro set_eqI iffI)
        fix a assume "a \<in> ?W"
        then obtain p where p: "p < ?T" "start + p < fin" "a = ?g (start + p)" using pl by auto
        then show "a \<in> ?g ` ({start..<fin} \<inter> {..<start + ?T})" by (intro image_eqI [of _ _ "start + p"]) auto
      next
        fix a assume "a \<in> ?g ` ({start..<fin} \<inter> {..<start + ?T})"
        then obtain q where q: "start \<le> q" "q < fin" "q < start + ?T" "a = ?g q" by auto
        then have "a = place offset ?f (q - start)" "q - start < ?T" "start + (q - start) < fin"
          using pl [of "q - start"] by auto
        then show "a \<in> ?W" by blast
      qed
      moreover have "{start..<fin} = ({start..<fin} \<inter> {..<start + ?T}) \<union> {start + ?T..<fin}" by auto
      ultimately show ?thesis by (metis image_Un)
    qed
    finally show ?thesis .
  qed
qed

text \<open>
  One block, when the histogram holds for every digit the number of smaller digits in the whole
  input and of equal digits before the block.
\<close>

definition scan_histogram :: "nat \<Rightarrow> (nat \<Rightarrow> nat) \<Rightarrow> nat \<Rightarrow> nat \<Rightarrow> nat \<Rightarrow> (nat \<Rightarrow> nat) \<Rightarrow> bool" where
  "scan_histogram R F len tot blocks histogram \<longleftrightarrow>
     (\<forall>b<blocks. \<forall>d<R. histogram (b * R + d) = (\<Sum>d<d. occ F d {..<tot}) + occ F d {..<min (b * len) tot})"

lemma scatter_block_result:
  assumes cfg: "scatter_cfg_ok C" and S: "valid (c_slc C) S"
    and sz: "blocks * len < 2 ^ 31" "tot < 2 ^ 31" and fb: "fb \<le> c_kb C"
    and keys: "\<And>q. q < tot \<Longrightarrow> inKeys q < 2 ^ c_kb C"
    and hist: "scan_histogram (2 ^ c_rb C) (kdigit C fb inKeys) len tot blocks histogram" and block: "block < blocks"
    and FK: "\<And>q. q < tot \<Longrightarrow> inKeys q = FK (rank (kdigit C fb inKeys) tot q)"
    and FV: "\<And>q. q < tot \<Longrightarrow> inValues q = FV (rank (kdigit C fb inKeys) tot q)"
  shows "scatter_block C S view junk inKeys inValues histogram len tot fb block outs =
    outs_upd (c_values C) (rank (kdigit C fb inKeys) tot ` {block * len..<min (block * len + len) tot}) FK FV outs"
proof -
  let ?R = "(2::nat) ^ c_rb C" and ?F = "kdigit C fb inKeys" and ?b0 = "block * len"
  let ?fin = "min (?b0 + len) tot"
  define base where "base d = (\<Sum>d<d. occ ?F d {..<tot}) + occ ?F d {..<min ?b0 tot}" for d
  have "Suc block * len \<le> blocks * len" using block by (intro mult_right_mono) auto
  then have st: "?b0 + len < 2 ^ 31" using sz(1) by simp
  then have u: "u32 ?b0 = ?b0" "u32 (?b0 + len) = ?b0 + len" by (simp_all add: u32_small)
  have g: "base (?F q) + occ ?F (?F q) {?b0..<q} = rank ?F tot q" if "?b0 \<le> q" "q < ?fin" for q
    using that occ_split [of 0 ?b0 q ?F "?F q"] by (simp add: base_def rank_def lessThan_atLeast0)
  have bd: "base d + occ ?F d {?b0..<?fin} < 2 ^ 32" if "d < ?R" for d
  proof -
    have "occ ?F d {..<min ?b0 tot} + occ ?F d {?b0..<?fin} \<le> occ ?F d {..<tot}"
    proof (cases "?b0 \<le> ?fin")
      case True
      then have "occ ?F d {0..<?b0} + occ ?F d {?b0..<?fin} = occ ?F d {0..<?fin}" by (intro occ_split) auto
      moreover have "occ ?F d {0..<?fin} \<le> occ ?F d {..<tot}" by (intro occ_mono) auto
      ultimately show ?thesis using True by (simp add: lessThan_atLeast0)
    next
      case False
      then have "occ ?F d {..<min ?b0 tot} \<le> occ ?F d {..<tot}" by (intro occ_mono) auto
      then show ?thesis using False by simp
    qed
    then have "base d + occ ?F d {?b0..<?fin} \<le> (\<Sum>d<Suc d. occ ?F d {..<tot})" by (simp add: base_def)
    also have "\<dots> \<le> tot" using occ_sum_le [of "{..<tot}" ?F "Suc d"] by simp
    finally show ?thesis using sz(2) by simp
  qed
  have h: "(if lid < ?R then histogram (block * ?R + lid) else 0) = base lid" if "lid < ?R" for lid
    using hist block that by (simp add: scan_histogram_def base_def)
  have "scatter_block C S view junk inKeys inValues histogram len tot fb block outs =
      snd (snd (scatter_loop C S view inKeys inValues fb ?fin (?b0 + len) ?b0
        (junk, \<lambda>lid. if lid < ?R then histogram (block * ?R + lid) else 0, outs)))"
    by (simp add: scatter_block_def Let_def u)
  also have "\<dots> = outs_upd (c_values C) ((\<lambda>q. base (?F q) + occ ?F (?F q) {?b0..<q}) ` {?b0..<?fin}) FK FV outs"
  proof (rule scatter_loop_result [OF cfg S st _ fb _ bd])
    show "inKeys q = FK (base (?F q) + occ ?F (?F q) {?b0..<q})" if "?b0 \<le> q" "q < ?fin" for q
      unfolding g [OF that] by (rule FK) (use that in simp)
    show "inValues q = FV (base (?F q) + occ ?F (?F q) {?b0..<q})" if "?b0 \<le> q" "q < ?fin" for q
      unfolding g [OF that] by (rule FV) (use that in simp)
  qed (use h keys in auto)
  also have "(\<lambda>q. base (?F q) + occ ?F (?F q) {?b0..<q}) ` {?b0..<?fin} = rank ?F tot ` {?b0..<?fin}"
    using g by (intro image_cong) auto
  finally show ?thesis .
qed

text \<open>The slices of all work-groups: every element goes to its rank.\<close>

lemma radixsortScatter_result:
  assumes cfg: "scatter_cfg_ok C" and G: "schedule n groups" and S: "\<And>g. valid (c_wgs C) (S g)"
    and blocks: "blocks = n * (c_wgs C div c_slc C)"
    and sz: "blocks * len < 2 ^ 31" "tot \<le> blocks * len" and fb: "fb \<le> c_kb C"
    and keys: "\<And>q. q < tot \<Longrightarrow> inKeys q < 2 ^ c_kb C"
    and hist: "scan_histogram (2 ^ c_rb C) (kdigit C fb inKeys) len tot blocks histogram"
    and FK: "\<And>q. q < tot \<Longrightarrow> inKeys q = FK (rank (kdigit C fb inKeys) tot q)"
    and FV: "\<And>q. q < tot \<Longrightarrow> inValues q = FV (rank (kdigit C fb inKeys) tot q)"
  shows "radixsortScatter C S groups view junk inKeys inValues histogram len tot fb outs =
    outs_upd (c_values C) {..<tot} FK FV outs"
proof -
  let ?F = "kdigit C fb inKeys" and ?k = "c_wgs C div c_slc C" and ?s = "c_slc C"
  let ?W = "\<lambda>b. rank ?F tot ` {b * len..<min (b * len + len) tot}"
  have k: "c_wgs C = ?k * ?s" "0 < ?s" using cfg by (auto simp: scatter_cfg_ok_def pow2_pos)
  have S': "valid (?k * ?s) (S g)" for g using S [of g] k by simp
  have mem: "g * ?k + sl < blocks" if "g < n" "sl < ?k" for g sl unfolding blocks by (rule stride_less [OF that])
  have "radixsortScatter C S groups view junk inKeys inValues histogram len tot fb outs =
      outs_upd (c_values C) (\<Union>g\<in>set groups. \<Union>sl\<in>set (slice_order ?s (S g)). ?W (g * ?k + sl)) FK FV outs"
    unfolding radixsortScatter_def
  proof (intro par_outs)
    fix g sl outs assume gs: "g \<in> set groups" "sl \<in> set (slice_order ?s (S g))"
    have m: "g < n" "sl < ?k" using gs G slice_order_schedule [OF S' k(2), of g] by (simp_all add: schedule_mem)
    show "scatter_block C (slice_sched ?s sl (S g)) view (junk (g * ?k + sl)) inKeys inValues histogram len tot fb (g * ?k + sl) outs =
        outs_upd (c_values C) (?W (g * ?k + sl)) FK FV outs"
    proof (rule scatter_block_result [where blocks = blocks, OF cfg slice_sched_valid [OF S' m(2) k(2)] sz(1) _ fb])
      show "tot < 2 ^ 31" using sz by linarith
    qed (fact keys hist mem [OF m] FK FV)+
  qed
  also have "(\<Union>g\<in>set groups. \<Union>sl\<in>set (slice_order ?s (S g)). ?W (g * ?k + sl)) = rank ?F tot ` {..<tot}"
  proof (intro set_eqI iffI)
    fix a assume "a \<in> rank ?F tot ` {..<tot}"
    then obtain q where q: "q < tot" "a = rank ?F tot q" by auto
    have "q < blocks * len" using q(1) sz(2) by simp
    then obtain j b where b: "j < len" "b < blocks" "q = j + b * len" by (rule stride_split)
    obtain sl g where gs: "sl < ?k" "g < n" "b = sl + g * ?k" using b(2) unfolding blocks by (rule stride_split)
    have "q \<in> {(g * ?k + sl) * len..<min ((g * ?k + sl) * len + len) tot}" using b gs q(1) by (simp add: add.commute)
    then have "a \<in> ?W (g * ?k + sl)" unfolding q(2) by (rule imageI)
    moreover have "g \<in> set groups" "sl \<in> set (slice_order ?s (S g))"
      using gs G slice_order_schedule [OF S' k(2), of g] by (simp_all add: schedule_mem)
    ultimately show "a \<in> (\<Union>g\<in>set groups. \<Union>sl\<in>set (slice_order ?s (S g)). ?W (g * ?k + sl))" by blast
  qed auto
  finally show ?thesis by (simp add: rank_image)
qed

section \<open>A pass of the sort\<close>

lemma occ_clipped: "(\<Sum>r<b. occ F d {r * len..<min (r * len + len) tot}) = occ F d {..<min (b * len) tot}"
proof (induction b)
  case (Suc b)
  have "occ F d {..<min (b * len) tot} + occ F d {b * len..<min (b * len + len) tot} = occ F d {..<min (Suc b * len) tot}"
  proof (cases "b * len \<le> tot")
    case True
    then have "occ F d {0..<b * len} + occ F d {b * len..<min (b * len + len) tot} = occ F d {0..<min (b * len + len) tot}"
      by (intro occ_split) auto
    then show ?thesis using True by (simp add: lessThan_atLeast0 add.commute)
  qed simp
  then show ?case using Suc by simp
qed simp

text \<open>What the first two kernels leave for the third.\<close>

lemma histogram_result:
  assumes rcfg: "reduce_cfg_ok rb rwgs" and scfg: "scan_cfg_ok rb swgs sb"
    and G: "schedule blocks groups" and S: "\<And>g. valid rwgs (S g)" and S2: "valid swgs S2"
    and sz: "blocks * len < 2 ^ 32" "tot \<le> blocks * len" "blocks \<le> sb"
  shows "scan_histogram (2 ^ rb) (\<lambda>q. key_digit rb fb (keys q)) len tot blocks
    (radixsortScan S2 j2 j3 rb swgs sb blocks (radixsortReduce S groups j1 rb fb rwgs keys len tot hist0))"
  unfolding scan_histogram_def
proof (intro allI impI)
  let ?R = "(2::nat) ^ rb" and ?F = "\<lambda>q. key_digit rb fb (keys q)"
  let ?h1 = "radixsortReduce S groups j1 rb fb rwgs keys len tot hist0"
  note red = radixsortReduce_result [OF rcfg G S sz(1), where junk = j1 and fb = fb and keys = keys and tot = tot and out = hist0]
  have h1: "?h1 (r * ?R + d) = occ ?F d {r * len..<min (r * len + len) tot}" if "r < blocks" "d < ?R" for r d
    using red [where a = "r * ?R + d"] stride_less [OF that] that(2) by (simp add: block_end_def)
  have "(\<Sum>a<blocks * ?R. ?h1 a) = (\<Sum>d<?R. \<Sum>r<blocks. ?h1 (r * ?R + d))" by (rule sum_swap_stride [symmetric])
  also have "\<dots> = (\<Sum>d<?R. \<Sum>r<blocks. occ ?F d {r * len..<min (r * len + len) tot})"
    by (intro sum.cong refl) (simp add: h1)
  also have "\<dots> = (\<Sum>d<?R. occ ?F d {..<tot})" using sz(2) by (simp add: occ_clipped)
  also have "\<dots> \<le> tot" using occ_sum_le [of "{..<tot}" ?F ?R] by simp
  finally have tot: "(\<Sum>a<blocks * ?R. ?h1 a) < 2 ^ 32" using sz by simp
  note scan = radixsortScan_result [OF scfg S2 sz(3) tot, where junk = j2 and ?junk2.0 = j3]
  fix b d assume bd: "b < blocks" "d < ?R"
  let ?H = "\<lambda>a. if a < blocks * ?R then ?h1 a else 0"
  have H: "?H (r * ?R + e) = (if r < blocks then occ ?F e {r * len..<min (r * len + len) tot} else 0)" if "e < ?R" for r e
  proof (cases "r < blocks")
    case True
    then show ?thesis using h1 [OF True that] stride_less [OF True that] by simp
  next
    case False
    then have "blocks * ?R \<le> r * ?R" by (intro mult_right_mono) auto
    then have "\<not> r * ?R + e < blocks * ?R" by linarith
    then show ?thesis using False by simp
  qed
  have col: "(\<Sum>r<n. ?H (r * ?R + e)) = occ ?F e {..<min (min n blocks * len) tot}" if "e < ?R" for n e
  proof -
    have "(\<Sum>r<n. ?H (r * ?R + e)) = (\<Sum>r\<in>{..<n} \<inter> {r. r < blocks}. occ ?F e {r * len..<min (r * len + len) tot})"
      unfolding H [OF that] by (simp add: sum.inter_restrict)
    also have "{..<n} \<inter> {r. r < blocks} = {..<min n blocks}" by auto
    finally show ?thesis by (simp only: occ_clipped)
  qed
  have "b * ?R + d < sb * ?R" using bd sz(3) by (intro stride_less) auto
  then have "radixsortScan S2 j2 j3 rb swgs sb blocks ?h1 (b * ?R + d) = scan_spec ?R sb ?H (b * ?R + d)"
    using scan [where a = "b * ?R + d"] by simp
  also have "\<dots> = (\<Sum>e<d. \<Sum>r< sb. ?H (r * ?R + e)) + (\<Sum>r<b. ?H (r * ?R + d))"
  proof -
    have "(b * ?R + d) mod ?R = d" "(b * ?R + d) div ?R = b" using bd(2) by simp_all
    then show ?thesis by (simp only: scan_spec_def)
  qed
  also have "(\<Sum>r<b. ?H (r * ?R + d)) = occ ?F d {..<min (b * len) tot}" using col [OF bd(2), of b] bd(1) by simp
  also have "(\<Sum>e<d. \<Sum>r< sb. ?H (r * ?R + e)) = (\<Sum>e<d. occ ?F e {..<tot})"
  proof (intro sum.cong refl)
    fix e assume "e \<in> {..<d}"
    then show "(\<Sum>r< sb. ?H (r * ?R + e)) = occ ?F e {..<tot}"
      using col [of e sb] bd(2) sz(2,3) by (simp add: min_absorb2)
  qed
  finally show "radixsortScan S2 j2 j3 rb swgs sb blocks ?h1 (b * ?R + d) = (\<Sum>d<d. occ ?F d {..<tot}) + occ ?F d {..<min (b * len) tot}" .
qed

text \<open>
  The three kernels one after the other, on the integer memory: a pass of the sort. \<open>N\<close> is
  the number of work-groups of the scatter kernel.
\<close>

lemma pass_result:
  assumes cfg: "scatter_cfg_ok C" "reduce_cfg_ok (c_rb C) rwgs" "scan_cfg_ok (c_rb C) swgs sb"
    and S1: "schedule blocks g1" "\<And>g. valid rwgs (S1 g)" and S2: "valid swgs S2"
    and S3: "schedule N g3" "\<And>g. valid (c_wgs C) (S3 g)"
    and blocks: "blocks = N * (c_wgs C div c_slc C)" "blocks \<le> sb"
    and sz: "blocks * len < 2 ^ 31" "tot \<le> blocks * len" and fb: "fb \<le> c_kb C"
    and keys: "\<And>q. q < tot \<Longrightarrow> inKeys q < 2 ^ c_kb C"
    and h1: "h1 = radixsortReduce S1 g1 j1 (c_rb C) fb rwgs inKeys len tot h0"
    and h2: "h2 = radixsortScan S2 j2 j3 (c_rb C) swgs sb blocks h1"
    and outs: "outs = radixsortScatter C S3 g3 view j4 inKeys inValues h2 len tot fb outs0"
  shows "map (\<lambda>i. (fst outs i, if c_values C then Some (snd outs i) else None)) [0..<tot] =
      sort_key (\<lambda>kv. key_digit (c_rb C) fb (fst kv))
        (map (\<lambda>i. (inKeys i, if c_values C then Some (inValues i) else None)) [0..<tot])"
    and "tot \<le> i \<Longrightarrow> fst outs i = fst outs0 i" and "tot \<le> i \<or> \<not> c_values C \<Longrightarrow> snd outs i = snd outs0 i"
proof -
  let ?F = "kdigit C fb inKeys"
  let ?inv = "inv_into {..<tot} (rank ?F tot)"
  have inj: "inj_on (rank ?F tot) {..<tot}" by (rule inj_onI) (rule rank_inj, auto)
  have inv: "?inv (rank ?F tot q) = q" if "q < tot" for q using inv_into_f_f [OF inj] that by simp
  have "scan_histogram (2 ^ c_rb C) ?F len tot blocks h2"
    unfolding h2 h1 using sz blocks(2) by (intro histogram_result [OF cfg(2,3) S1 S2]) auto
  from radixsortScatter_result [where FK = "inKeys \<circ> ?inv" and FV = "inValues \<circ> ?inv" and inValues = inValues
      and view = view and junk = j4 and outs = outs0, OF cfg(1) S3 blocks(1) sz fb keys this]
  have o: "outs = outs_upd (c_values C) {..<tot} (inKeys \<circ> ?inv) (inValues \<circ> ?inv) outs0"
    unfolding outs by (simp add: inv)
  have r: "rank ?F tot p < tot" if "p < tot" for p using rank_bounds(3) [OF that] .
  show "map (\<lambda>i. (fst outs i, if c_values C then Some (snd outs i) else None)) [0..<tot] =
      sort_key (\<lambda>kv. key_digit (c_rb C) fb (fst kv))
        (map (\<lambda>i. (inKeys i, if c_values C then Some (inValues i) else None)) [0..<tot])"
    by (rule place_sort_key) (simp add: o outs_upd_def inv r)
  show "tot \<le> i \<Longrightarrow> fst outs i = fst outs0 i" "tot \<le> i \<or> \<not> c_values C \<Longrightarrow> snd outs i = snd outs0 i"
    by (auto simp: o outs_upd_def)
qed

end
