(* ===== verification/RadixHost.thy ===== *)
theory RadixHost
  imports OpenCL CacheTypes RadixText RadixScatter TunePolicy
begin

text \<open>
  The host side of the radix sort, src/radixsort.cpp: the problem object, the preparation of the
  kernels (\<^verbatim>\<open>initialize\<close>, with the generated macros), the three launches, the
  ping-pong loop of \<^verbatim>\<open>enqueue\<close> and the temporary buffers. \<open>run_radix_command\<close> says what
  a queued command does to device memory; integer buffers (keys, histogram) and value buffers are
  two memories, since the kernels never look into a value. The theory ends with the property of
  the whole: the keys, with their values, come out stably sorted.
\<close>

section \<open>The problem\<close>

record radix_problem =
  xp_key :: cl_type
  xp_value :: cl_type
  xp_tunePolicy :: tune_policy

definition new_radix_problem :: radix_problem where
  "new_radix_problem = \<lparr>xp_key = void_type, xp_value = void_type, xp_tunePolicy = TunePolicy_new\<rparr>"

definition radix_key_type :: "cl_type \<Rightarrow> bool" where
  "radix_key_type t \<longleftrightarrow> isIntegral t \<and> \<not> isSigned t \<and> veclen t = 1"

definition RadixsortProblem_setKeyType :: "cl_type \<Rightarrow> radix_problem \<Rightarrow> radix_problem result" where
  "RadixsortProblem_setKeyType t p =
     (if \<not> radix_key_type t then Inl (InvalidArgument ''keyType is not valid'') else Inr (p\<lparr>xp_key := t\<rparr>))"

definition RadixsortProblem_setValueType :: "cl_type \<Rightarrow> radix_problem \<Rightarrow> radix_problem" where
  "RadixsortProblem_setValueType t p = p\<lparr>xp_value := t\<rparr>"

definition RadixsortProblem_setTunePolicy :: "tune_policy \<Rightarrow> radix_problem \<Rightarrow> radix_problem" where
  "RadixsortProblem_setTunePolicy tp p = p\<lparr>xp_tunePolicy := tp\<rparr>"

definition keyTypeSupported :: "device \<Rightarrow> cl_type \<Rightarrow> bool" where
  "keyTypeSupported d t \<longleftrightarrow> isIntegral t \<and> \<not> isSigned t \<and> veclen t = 1 \<and> isComputable t d \<and> isStorable t d"

definition valueTypeSupported :: "device \<Rightarrow> cl_type \<Rightarrow> bool" where
  "valueTypeSupported d t \<longleftrightarrow> baseType t = TYPE_VOID \<or> isStorable t d"

section \<open>The sort object\<close>

record 'a radixsort =
  rs_reduceWorkGroupSize :: nat
  rs_scanWorkGroupSize :: nat
  rs_scatterWorkGroupSize :: nat
  rs_scatterWorkScale :: nat
  rs_scatterSlice :: nat
  rs_scanBlocks :: nat
  rs_keySize :: nat
  rs_valueSize :: nat
  rs_radix :: nat
  rs_radixBits :: nat
  rs_reduceKernel :: "'a kernel"
  rs_scanKernel :: "'a kernel"
  rs_scatterKernel :: "'a kernel"
  rs_histogram :: nat
  rs_tmpKeys :: "buffer option"
  rs_tmpValues :: "buffer option"
  rs_alg :: alg

definition scatter_slice :: "radix_value \<Rightarrow> nat" where
  "scatter_slice params = max (x_warpSizeSchedule params) (2 ^ x_radixBits params)"

definition radix_defines :: "radix_value \<Rightarrow> int std_map" where
  "radix_defines params = puts [
     (''WARP_SIZE_MEM'', int (x_warpSizeMem params)),
     (''WARP_SIZE_SCHEDULE'', int (x_warpSizeSchedule params)),
     (''REDUCE_WORK_GROUP_SIZE'', int (x_reduceWorkGroupSize params)),
     (''SCAN_WORK_GROUP_SIZE'', int (x_scanWorkGroupSize params)),
     (''SCATTER_WORK_GROUP_SIZE'', int (x_scatterWorkGroupSize params)),
     (''SCATTER_WORK_SCALE'', int (x_scatterWorkScale params)),
     (''SCATTER_SLICE'', int (scatter_slice params)),
     (''SCAN_BLOCKS'', int (x_scanBlocks params)),
     (''RADIX_BITS'', int (x_radixBits params))]"

text \<open>Value types are replaced by an unsigned type of the same size.\<close>

definition canonical_value :: "cl_type \<Rightarrow> cl_type" where
  "canonical_value t =
     (let n = getSize t in
      if n = 1 then \<lparr>baseType = TYPE_UCHAR, veclen = 1\<rparr>
      else if n = 2 then \<lparr>baseType = TYPE_USHORT, veclen = 1\<rparr>
      else if n = 4 then \<lparr>baseType = TYPE_UINT, veclen = 1\<rparr>
      else if n = 8 then \<lparr>baseType = TYPE_ULONG, veclen = 1\<rparr>
      else if n = 16 then \<lparr>baseType = TYPE_UINT, veclen = 4\<rparr>
      else if n = 32 then \<lparr>baseType = TYPE_UINT, veclen = 8\<rparr>
      else if n = 64 then \<lparr>baseType = TYPE_UINT, veclen = 16\<rparr>
      else if n = 128 then \<lparr>baseType = TYPE_ULONG, veclen = 16\<rparr>
      else t)"

definition radix_string_defines :: "radix_problem \<Rightarrow> radix_value \<Rightarrow> string std_map" where
  "radix_string_defines problem params =
     (let ss = sweeps (2 ^ x_radixBits params) (scatter_slice params) in
      puts ([(''KEY_T'', getName (xp_key problem))]
        @ (if baseType (xp_value problem) \<noteq> TYPE_VOID
           then [(''VALUE_T'', getName (canonical_value (xp_value problem)))] else [])
        @ [(''UPSWEEP()'', upsweep_text ss), (''DOWNSWEEP()'', downsweep_text ss)]))"

text \<open>\<open>alloc\<close>, \<open>bld\<close> and \<open>mk\<close> as for the scan.\<close>

definition Radixsort_initialize ::
  "(nat \<Rightarrow> nat result) \<Rightarrow> (string \<Rightarrow> int std_map \<Rightarrow> string std_map \<Rightarrow> program result) \<Rightarrow>
   (program \<Rightarrow> string \<Rightarrow> 'a kernel result) \<Rightarrow> radix_problem \<Rightarrow> radix_value \<Rightarrow> 'a radixsort result" where
  "Radixsort_initialize alloc bld mk problem params =
     wrap_prepare ''Error preparing kernels for radixsort: ''
       (bind_result (alloc (x_scanBlocks params * 2 ^ x_radixBits params * 4)) (\<lambda>histogram.
        bind_result (bld ''radixsort.cl'' (radix_defines params) (radix_string_defines problem params)) (\<lambda>program.
        bind_result (mk program ''radixsortReduce'') (\<lambda>reduceKernel.
        bind_result (mk program ''radixsortScan'') (\<lambda>scanKernel.
        bind_result (mk program ''radixsortScatter'') (\<lambda>scatterKernel.
        Inr \<lparr>rs_reduceWorkGroupSize = x_reduceWorkGroupSize params,
             rs_scanWorkGroupSize = x_scanWorkGroupSize params,
             rs_scatterWorkGroupSize = x_scatterWorkGroupSize params,
             rs_scatterWorkScale = x_scatterWorkScale params,
             rs_scatterSlice = scatter_slice params,
             rs_scanBlocks = x_scanBlocks params,
             rs_keySize = getSize (xp_key problem),
             rs_valueSize = getSize (xp_value problem),
             rs_radix = 2 ^ x_radixBits params,
             rs_radixBits = x_radixBits params,
             rs_reduceKernel = reduceKernel,
             rs_scanKernel = setArg 0 (ABuf histogram) scanKernel,
             rs_scatterKernel = setArg 1 (ABuf histogram) scatterKernel,
             rs_histogram = histogram,
             rs_tmpKeys = None, rs_tmpValues = None,
             rs_alg = new_alg\<rparr>))))))"

definition setTemporaryBuffers :: "buffer option \<Rightarrow> buffer option \<Rightarrow> 'a radixsort \<Rightarrow> 'a radixsort" where
  "setTemporaryBuffers keys values rs = rs\<lparr>rs_tmpKeys := keys, rs_tmpValues := values\<rparr>"

section \<open>Sizes\<close>

definition getTileSize :: "'a radixsort \<Rightarrow> nat" where
  "getTileSize rs = max (rs_reduceWorkGroupSize rs) (u64 (rs_scatterWorkScale rs * rs_scatterWorkGroupSize rs))"

definition getBlockSize :: "'a radixsort \<Rightarrow> nat \<Rightarrow> nat" where
  "getBlockSize rs n =
     (let tileSize = getTileSize rs
      in u64 (n + u64 (tileSize * rs_scanBlocks rs) - 1) div u64 (tileSize * rs_scanBlocks rs) * tileSize)"

definition getBlocks :: "'a radixsort \<Rightarrow> nat \<Rightarrow> nat \<Rightarrow> nat" where
  "getBlocks rs n len =
     (let slicesPerWorkGroup = rs_scatterWorkGroupSize rs div rs_scatterSlice rs
      in roundUp (u64 (n + len - 1) div len) slicesPerWorkGroup)"

section \<open>The three launches\<close>

text \<open>Launching the kernel that \<open>sel\<close> selects of the current object, with the callback.\<close>

definition radix_launch ::
  "('a command \<Rightarrow> int) \<Rightarrow> ('a radixsort \<Rightarrow> 'a kernel) \<Rightarrow> nat \<Rightarrow> nat \<Rightarrow> nat list option \<Rightarrow>
   'a radixsort \<times> 'a queue \<Rightarrow> nat result \<times> 'a radixsort \<times> 'a queue" where
  "radix_launch drv sel g l events st =
     (case st of (rs, q) \<Rightarrow>
        case enqueueNDRange drv (sel rs) g l events q of
          (Inl e, q') \<Rightarrow> (Inl e, rs, q')
        | (Inr e, q') \<Rightarrow> (Inr e, rs, notify (rs_alg rs) e q'))"

definition enqueueReduce ::
  "('a command \<Rightarrow> int) \<Rightarrow> nat \<Rightarrow> nat \<Rightarrow> nat \<Rightarrow> nat \<Rightarrow> nat \<Rightarrow> nat list option \<Rightarrow>
   'a radixsort \<times> 'a queue \<Rightarrow> nat result \<times> 'a radixsort \<times> 'a queue" where
  "enqueueReduce drv outb inb len n firstBit events st =
     (case st of (rs, q) \<Rightarrow>
        let rs' = rs\<lparr>rs_reduceKernel := setArg 4 (AUint firstBit) (setArg 3 (AUint (u32 n)) (setArg 2 (AUint (u32 len))
              (setArg 1 (ABuf inb) (setArg 0 (ABuf outb) (rs_reduceKernel rs)))))\<rparr>;
            blocks = u32 (getBlocks rs n len)
        in radix_launch drv rs_reduceKernel (u64 (rs_reduceWorkGroupSize rs * blocks)) (rs_reduceWorkGroupSize rs)
             events (rs', q))"

definition enqueueScan ::
  "('a command \<Rightarrow> int) \<Rightarrow> nat \<Rightarrow> nat \<Rightarrow> nat list option \<Rightarrow>
   'a radixsort \<times> 'a queue \<Rightarrow> nat result \<times> 'a radixsort \<times> 'a queue" where
  "enqueueScan drv histogram blocks events st =
     (case st of (rs, q) \<Rightarrow>
        radix_launch drv rs_scanKernel (rs_scanWorkGroupSize rs) (rs_scanWorkGroupSize rs) events
          (rs\<lparr>rs_scanKernel := setArg 1 (AUint (u32 blocks)) (setArg 0 (ABuf histogram) (rs_scanKernel rs))\<rparr>, q))"

definition enqueueScatter ::
  "('a command \<Rightarrow> int) \<Rightarrow> nat \<Rightarrow> nat \<Rightarrow> nat \<Rightarrow> nat \<Rightarrow> nat \<Rightarrow> nat \<Rightarrow> nat \<Rightarrow> nat \<Rightarrow> nat list option \<Rightarrow>
   'a radixsort \<times> 'a queue \<Rightarrow> nat result \<times> 'a radixsort \<times> 'a queue" where
  "enqueueScatter drv outKeys outValues inKeys inValues histogram len n firstBit events st =
     (case st of (rs, q) \<Rightarrow>
        let k = setArg 5 (AUint firstBit) (setArg 4 (AUint (u32 n)) (setArg 3 (AUint (u32 len))
              (setArg 2 (ABuf histogram) (setArg 1 (ABuf inKeys) (setArg 0 (ABuf outKeys) (rs_scatterKernel rs))))));
            k' = (if rs_valueSize rs \<noteq> 0 then setArg 7 (ABuf inValues) (setArg 6 (ABuf outValues) k) else k);
            workGroups = getBlocks rs n len div (rs_scatterWorkGroupSize rs div rs_scatterSlice rs)
        in radix_launch drv rs_scatterKernel (u64 (rs_scatterWorkGroupSize rs * workGroups))
             (rs_scatterWorkGroupSize rs) events (rs\<lparr>rs_scatterKernel := k'\<rparr>, q))"

section \<open>enqueue\<close>

definition radix_validate ::
  "'a radixsort \<Rightarrow> buffer \<Rightarrow> buffer \<Rightarrow> nat \<Rightarrow> nat \<Rightarrow> nat result" where
  "radix_validate rs keys values n maxBits =
     (if buf_size keys < u64 (n * rs_keySize rs)
      then Inl (ClError CL_INVALID_VALUE ''clogs::Radixsort::enqueue: range of out of buffer bounds for key'')
      else if rs_valueSize rs \<noteq> 0 \<and> buf_size values < u64 (n * rs_valueSize rs)
      then Inl (ClError CL_INVALID_VALUE ''clogs::Radixsort::enqueue: range of out of buffer bounds for value'')
      else if \<not> read_write keys
      then Inl (ClError CL_INVALID_VALUE ''clogs::Radixsort::enqueue: keys is not read-write'')
      else if rs_valueSize rs \<noteq> 0 \<and> \<not> read_write values
      then Inl (ClError CL_INVALID_VALUE ''clogs::Radixsort::enqueue: values is not read-write'')
      else if n = 0
      then Inl (ClError CL_INVALID_GLOBAL_WORK_SIZE ''clogs::Radixsort::enqueue: elements is zero'')
      else if maxBits = 0 then Inr (8 * rs_keySize rs)
      else if 8 * rs_keySize rs < maxBits
      then Inl (ClError CL_INVALID_VALUE ''clogs::Radixsort::enqueue: maxBits is too large'')
      else Inr maxBits)"

text \<open>
  The temporary buffers: those of the user where they are large enough, new ones otherwise;
  \<open>alloc i\<close> is the runtime's answer (code and buffer) to the creation of the buffer for the keys
  (0) or the values (1).
\<close>

definition create_buffer :: "(nat \<Rightarrow> nat \<Rightarrow> int \<times> buffer) \<Rightarrow> nat \<Rightarrow> nat \<Rightarrow> buffer result" where
  "create_buffer alloc i bytes =
     (case alloc i bytes of (code, b) \<Rightarrow> if code \<noteq> CL_SUCCESS then Inl (ClError code ''clCreateBuffer'') else Inr b)"

definition tmp_buffer :: "(nat \<Rightarrow> buffer result) \<Rightarrow> buffer option \<Rightarrow> nat \<Rightarrow> buffer result" where
  "tmp_buffer alloc user bytes =
     (case user of Some b \<Rightarrow> if bytes \<le> buf_size b then Inr b else alloc bytes | None \<Rightarrow> alloc bytes)"

definition null_buffer :: buffer where
  "null_buffer = \<lparr>buf_id = 0, buf_size = 0, buf_flags = 0\<rparr>"

definition radix_temporaries ::
  "(nat \<Rightarrow> nat \<Rightarrow> int \<times> buffer) \<Rightarrow> 'a radixsort \<Rightarrow> nat \<Rightarrow> (buffer \<times> buffer) result" where
  "radix_temporaries alloc rs n =
     bind_result (tmp_buffer (create_buffer alloc 0) (rs_tmpKeys rs) (u64 (n * rs_keySize rs))) (\<lambda>tmpKeys.
     bind_result (if rs_valueSize rs \<noteq> 0 then tmp_buffer (create_buffer alloc 1) (rs_tmpValues rs) (u64 (n * rs_valueSize rs))
                  else Inr null_buffer) (\<lambda>tmpValues.
     Inr (tmpKeys, tmpValues)))"

text \<open>
  The loop. \<open>bufs sw\<close> is the pair of key and value buffers that are current when the number of
  passes so far is even (\<open>sw = False\<close>) or odd; \<open>nxt\<close> is the variable \<^verbatim>\<open>next\<close>, from
  which \<^verbatim>\<open>waitFor\<close> follows.
\<close>

definition wait_for :: "nat list option \<Rightarrow> nat option \<Rightarrow> nat list option" where
  "wait_for events nxt = (case nxt of None \<Rightarrow> events | Some e \<Rightarrow> Some [e])"

definition radix_pass ::
  "('a command \<Rightarrow> int) \<Rightarrow> (bool \<Rightarrow> nat \<times> nat) \<Rightarrow> nat \<Rightarrow> nat \<Rightarrow> nat \<Rightarrow> bool \<Rightarrow> nat list option \<Rightarrow>
   'a radixsort \<times> 'a queue \<Rightarrow> nat result \<times> 'a radixsort \<times> 'a queue" where
  "radix_pass drv bufs len n firstBit sw w st =
     (let h = rs_histogram (fst st); blocks = getBlocks (fst st) n len in
      bind_op (enqueueReduce drv h (fst (bufs sw)) len n firstBit w)
        (\<lambda>e1. bind_op (enqueueScan drv h blocks (Some [e1]))
        (\<lambda>e2. enqueueScatter drv (fst (bufs (\<not> sw))) (snd (bufs (\<not> sw))) (fst (bufs sw)) (snd (bufs sw)) h
                len n firstBit (Some [e2]))) st)"

function radix_passes ::
  "('a command \<Rightarrow> int) \<Rightarrow> (bool \<Rightarrow> nat \<times> nat) \<Rightarrow> nat \<Rightarrow> nat \<Rightarrow> nat \<Rightarrow> nat \<Rightarrow> nat list option \<Rightarrow> nat \<Rightarrow> bool \<Rightarrow>
   nat option \<Rightarrow> 'a radixsort \<times> 'a queue \<Rightarrow> (bool \<times> nat option) result \<times> 'a radixsort \<times> 'a queue" where
  "radix_passes drv bufs len n rb maxBits events firstBit sw nxt st =
     (if firstBit < maxBits \<and> 0 < rb
      then case radix_pass drv bufs len n firstBit sw (wait_for events nxt) st of
             (Inl e, st') \<Rightarrow> (Inl e, st')
           | (Inr e, st') \<Rightarrow>
               radix_passes drv bufs len n rb maxBits events (firstBit + rb) (\<not> sw) (Some e) st'
      else (Inr (sw, nxt), st))"
  by pat_completeness auto
termination
  by (relation "measure (\<lambda>(drv, bufs, len, n, rb, maxBits, events, firstBit, sw, nxt, st). maxBits - firstBit)") auto

declare radix_passes.simps [simp del]

definition radix_copy ::
  "('a command \<Rightarrow> int) \<Rightarrow> nat \<Rightarrow> nat \<Rightarrow> nat \<Rightarrow> nat list option \<Rightarrow>
   'a radixsort \<times> 'a queue \<Rightarrow> nat result \<times> 'a radixsort \<times> 'a queue" where
  "radix_copy drv src dst bytes w st =
     (case st of (rs, q) \<Rightarrow>
        case enqueueCopyBuffer drv src dst bytes w q of
          (Inl e, q') \<Rightarrow> (Inl e, rs, q')
        | (Inr e, q') \<Rightarrow> (Inr e, rs, notify (rs_alg rs) e q'))"

text \<open>After an odd number of passes the result is copied back.\<close>

definition radix_copy_back ::
  "('a command \<Rightarrow> int) \<Rightarrow> (bool \<Rightarrow> nat \<times> nat) \<Rightarrow> nat \<Rightarrow> nat list option \<Rightarrow> bool \<times> nat option \<Rightarrow>
   'a radixsort \<times> 'a queue \<Rightarrow> nat option result \<times> 'a radixsort \<times> 'a queue" where
  "radix_copy_back drv bufs n events r st =
     (if fst r
      then bind_op (radix_copy drv (fst (bufs True)) (fst (bufs False)) (u64 (n * rs_keySize (fst st)))
                      (wait_for events (snd r)))
             (\<lambda>e. if rs_valueSize (fst st) \<noteq> 0
                  then bind_op (radix_copy drv (snd (bufs True)) (snd (bufs False)) (u64 (n * rs_valueSize (fst st)))
                                  (Some [e]))
                         (\<lambda>e'. return_op (Some e'))
                  else return_op (Some e)) st
      else return_op (snd r) st)"

definition radix_enqueue ::
  "('a command \<Rightarrow> int) \<Rightarrow> (nat \<Rightarrow> nat \<Rightarrow> int \<times> buffer) \<Rightarrow> buffer \<Rightarrow> buffer \<Rightarrow> nat \<Rightarrow> nat \<Rightarrow> nat list option \<Rightarrow>
   'a radixsort \<times> 'a queue \<Rightarrow> nat result \<times> 'a radixsort \<times> 'a queue" where
  "radix_enqueue drv alloc keys values n maxBits events st =
     (let rs = fst st in
      case radix_validate rs keys values n maxBits of Inl e \<Rightarrow> (Inl e, st)
      | Inr bits \<Rightarrow>
          case radix_temporaries alloc rs n of Inl e \<Rightarrow> (Inl e, st)
          | Inr (tmpKeys, tmpValues) \<Rightarrow>
              let bufs = (\<lambda>sw. if sw then (buf_id tmpKeys, buf_id tmpValues) else (buf_id keys, buf_id values));
                  len = getBlockSize rs n
              in bind_op (radix_passes drv bufs len n (rs_radixBits rs) bits events 0 False None)
                   (\<lambda>r. bind_op (radix_copy_back drv bufs n events r)
                   (\<lambda>nxt. return_op (case nxt of None \<Rightarrow> 0 | Some e \<Rightarrow> e))) st)"

section \<open>What the commands do\<close>

text \<open>What is in local memory before a launch.\<close>

record 'v radix_junk =
  j_hist :: "nat \<Rightarrow> nat \<times> nat \<Rightarrow> nat"
  j_scan :: "nat \<Rightarrow> nat"
  j_sums :: "nat \<Rightarrow> nat"
  j_slices :: "nat \<Rightarrow> 'v slice_mem"

definition key_bits :: "string \<Rightarrow> nat" where
  "key_bits name =
     (case find (\<lambda>b. base_name b = name) [TYPE_UCHAR, TYPE_USHORT, TYPE_UINT, TYPE_ULONG] of
        None \<Rightarrow> 0 | Some b \<Rightarrow> 8 * base_size b)"

definition scatter_config :: "'a kernel \<Rightarrow> scatter_cfg option" where
  "scatter_config k =
     (let sd = map_of (psdefs (kprogram k)) in
      case (sd ''KEY_T'', sd ''UPSWEEP()'', sd ''DOWNSWEEP()'') of
        (Some kt, Some u, Some d) \<Rightarrow>
          map_option (\<lambda>ss. \<lparr>c_rb = macro k ''RADIX_BITS'', c_kb = key_bits kt, c_ws = macro k ''SCATTER_WORK_SCALE'',
             c_slc = macro k ''SCATTER_SLICE'', c_wgs = macro k ''SCATTER_WORK_GROUP_SIZE'',
             c_warp = macro k ''WARP_SIZE_MEM'', c_sweeps = ss, c_values = (sd ''VALUE_T'' \<noteq> None)\<rparr>)
            (sweep_macros u d)
      | _ \<Rightarrow> None)"

type_synonym 'v rmem = "(nat \<Rightarrow> nat \<Rightarrow> nat) \<times> (nat \<Rightarrow> nat \<Rightarrow> 'v)"

definition run_radix_kernel ::
  "'a kernel \<Rightarrow> nat list \<Rightarrow> (nat \<Rightarrow> sched) \<Rightarrow> nat \<Rightarrow> ((nat \<Rightarrow> 'v) \<Rightarrow> levels) \<Rightarrow> 'v radix_junk \<Rightarrow> 'v rmem \<Rightarrow> 'v rmem option" where
  "run_radix_kernel k groups S local view J GV =
     (let rb = macro k ''RADIX_BITS''; args = kargs k; G = fst GV; V = snd GV in
      if kname k = ''radixsortReduce''
      then case (args 0, args 1, args 2, args 3, args 4) of
          (Some (ABuf outb), Some (ABuf kb), Some (AUint len), Some (AUint tot), Some (AUint fb)) \<Rightarrow>
            if local = macro k ''REDUCE_WORK_GROUP_SIZE''
            then Some (G(outb := radixsortReduce S groups (j_hist J) rb fb local (G kb) len tot (G outb)), V) else None
        | _ \<Rightarrow> None
      else if kname k = ''radixsortScan''
      then case (args 0, args 1) of
          (Some (ABuf hb), Some (AUint blocks)) \<Rightarrow>
            if local = macro k ''SCAN_WORK_GROUP_SIZE'' \<and> length groups = 1
            then Some (G(hb := radixsortScan (S 0) (j_scan J) (j_sums J) rb local (macro k ''SCAN_BLOCKS'') blocks (G hb)), V)
            else None
        | _ \<Rightarrow> None
      else if kname k = ''radixsortScatter''
      then case (args 0, args 1, args 2, args 3, args 4, args 5, scatter_config k) of
          (Some (ABuf ok), Some (ABuf ik), Some (ABuf hb), Some (AUint len), Some (AUint tot), Some (AUint fb), Some C) \<Rightarrow>
            if local \<noteq> macro k ''SCATTER_WORK_GROUP_SIZE'' then None
            else if c_values C
            then case (args 6, args 7) of
                (Some (ABuf ov), Some (ABuf iv)) \<Rightarrow>
                  (case radixsortScatter C S groups view (j_slices J) (G ik) (V iv) (G hb) len tot fb (G ok, V ov) of
                     (K, W) \<Rightarrow> Some (G(ok := K), V(ov := W)))
              | _ \<Rightarrow> None
            else (case radixsortScatter C S groups view (j_slices J) (G ik) (V 0) (G hb) len tot fb (G ok, V 0) of
                     (K, W) \<Rightarrow> Some (G(ok := K), V))
        | _ \<Rightarrow> None
      else None)"

text \<open>
  A copy of bytes moves as many keys, or values, as fit (\<open>ks\<close> and \<open>vs\<close> are their sizes).
\<close>

definition run_radix_command ::
  "dsched \<Rightarrow> (nat \<Rightarrow> 'v radix_junk) \<Rightarrow> ((nat \<Rightarrow> 'v) \<Rightarrow> levels) \<Rightarrow> nat \<Rightarrow> nat \<Rightarrow> 'a command \<Rightarrow> 'v rmem \<Rightarrow> 'v rmem option" where
  "run_radix_command D J view ks vs c GV =
     (case act c of
        Launch k g l \<Rightarrow>
          if range_ok g l then run_radix_kernel k (dgroups D (ev c)) (ditems D (ev c)) l view (J (ev c)) GV else None
      | ReadBuf b bl off n \<Rightarrow> Some GV
      | CopyBuf src dst n \<Rightarrow>
          Some ((fst GV)(dst := (\<lambda>i. if i < n div ks then fst GV src i else fst GV dst i)),
                (snd GV)(dst := (\<lambda>i. if i < n div vs then snd GV src i else snd GV dst i))))"

section \<open>Well-formed sort objects\<close>

text \<open>The checks that the preprocessor makes at the top of radixsort.cl.\<close>

definition radixsort_cl_accepts :: "int std_map \<Rightarrow> string std_map \<Rightarrow> bool" where
  "radixsort_cl_accepts d sd \<longleftrightarrow>
     (let R = 2 ^ def_nat d ''RADIX_BITS''; slc = def_nat d ''SCATTER_SLICE'' in
      is_power2 (def_nat d ''WARP_SIZE_MEM'') \<and> is_power2 (def_nat d ''WARP_SIZE_SCHEDULE'')
      \<and> is_power2 (def_nat d ''REDUCE_WORK_GROUP_SIZE'') \<and> R \<le> def_nat d ''REDUCE_WORK_GROUP_SIZE''
      \<and> is_power2 (def_nat d ''SCAN_WORK_GROUP_SIZE'') \<and> def_nat d ''SCAN_BLOCKS'' * R mod def_nat d ''SCAN_WORK_GROUP_SIZE'' = 0
      \<and> R \<le> def_nat d ''SCAN_WORK_GROUP_SIZE'' \<and> is_power2 (def_nat d ''SCATTER_WORK_GROUP_SIZE'') \<and> 4 \<le> R
      \<and> is_power2 slc \<and> def_nat d ''SCATTER_WORK_GROUP_SIZE'' mod slc = 0 \<and> R \<le> slc
      \<and> slc * def_nat d ''SCATTER_WORK_SCALE'' < 256
      \<and> list_all (\<lambda>m. map_of sd m \<noteq> None) [''KEY_T'', ''UPSWEEP()'', ''DOWNSWEEP()''])"

definition rs_slices :: "'a radixsort \<Rightarrow> nat" where
  "rs_slices rs = rs_scatterWorkGroupSize rs div rs_scatterSlice rs"

definition rs_wf :: "'a radixsort \<Rightarrow> bool" where
  "rs_wf rs \<longleftrightarrow>
     reduce_cfg_ok (rs_radixBits rs) (rs_reduceWorkGroupSize rs)
     \<and> scan_cfg_ok (rs_radixBits rs) (rs_scanWorkGroupSize rs) (rs_scanBlocks rs)
     \<and> rs_slices rs dvd rs_scanBlocks rs \<and> rs_radixBits rs \<le> 31
     \<and> rs_keySize rs \<in> {1, 2, 4, 8} \<and> rs_valueSize rs \<le> 128
     \<and> kernel_is (rs_reduceKernel rs) ''radixsortReduce''
         [(''RADIX_BITS'', rs_radixBits rs), (''REDUCE_WORK_GROUP_SIZE'', rs_reduceWorkGroupSize rs)] []
     \<and> kernel_is (rs_scanKernel rs) ''radixsortScan''
         [(''RADIX_BITS'', rs_radixBits rs), (''SCAN_WORK_GROUP_SIZE'', rs_scanWorkGroupSize rs),
          (''SCAN_BLOCKS'', rs_scanBlocks rs)] []
     \<and> kernel_is (rs_scatterKernel rs) ''radixsortScatter''
         [(''RADIX_BITS'', rs_radixBits rs), (''SCATTER_WORK_GROUP_SIZE'', rs_scatterWorkGroupSize rs)] []
     \<and> (case scatter_config (rs_scatterKernel rs) of None \<Rightarrow> False
        | Some C \<Rightarrow> scatter_cfg_ok C \<and> c_rb C = rs_radixBits rs \<and> c_kb C = 8 * rs_keySize rs
            \<and> c_ws C = rs_scatterWorkScale rs \<and> c_slc C = rs_scatterSlice rs
            \<and> c_wgs C = rs_scatterWorkGroupSize rs \<and> c_values C = (rs_valueSize rs \<noteq> 0))"

text \<open>The parameters must come with a positive scale and whole groups of slices.\<close>

definition radix_params_ok :: "radix_value \<Rightarrow> bool" where
  "radix_params_ok p \<longleftrightarrow> 0 < x_scatterWorkScale p \<and> x_radixBits p \<le> 31
     \<and> x_scatterWorkGroupSize p div scatter_slice p dvd x_scanBlocks p"

lemma radix_defines_nat [simp]:
  "def_nat (radix_defines p) ''WARP_SIZE_MEM'' = x_warpSizeMem p"
  "def_nat (radix_defines p) ''WARP_SIZE_SCHEDULE'' = x_warpSizeSchedule p"
  "def_nat (radix_defines p) ''REDUCE_WORK_GROUP_SIZE'' = x_reduceWorkGroupSize p"
  "def_nat (radix_defines p) ''SCAN_WORK_GROUP_SIZE'' = x_scanWorkGroupSize p"
  "def_nat (radix_defines p) ''SCATTER_WORK_GROUP_SIZE'' = x_scatterWorkGroupSize p"
  "def_nat (radix_defines p) ''SCATTER_WORK_SCALE'' = x_scatterWorkScale p"
  "def_nat (radix_defines p) ''SCATTER_SLICE'' = scatter_slice p"
  "def_nat (radix_defines p) ''SCAN_BLOCKS'' = x_scanBlocks p"
  "def_nat (radix_defines p) ''RADIX_BITS'' = x_radixBits p"
  by (simp_all add: def_nat_def radix_defines_def map_of_puts)

lemma radix_string_defines_simps:
  "map_of (radix_string_defines q p) ''KEY_T'' = Some (getName (xp_key q))"
  "map_of (radix_string_defines q p) ''UPSWEEP()'' = Some (upsweep_text (sweeps (2 ^ x_radixBits p) (scatter_slice p)))"
  "map_of (radix_string_defines q p) ''DOWNSWEEP()'' = Some (downsweep_text (sweeps (2 ^ x_radixBits p) (scatter_slice p)))"
  "map_of (radix_string_defines q p) ''VALUE_T'' =
     (if baseType (xp_value q) \<noteq> TYPE_VOID then Some (getName (canonical_value (xp_value q))) else None)"
  by (simp_all add: radix_string_defines_def map_of_puts Let_def map_of_append)

lemma radix_key_type_bits:
  "radix_key_type t \<Longrightarrow> key_bits (getName t) = 8 * getSize t \<and> getSize t \<in> {1, 2, 4, 8}"
  by (cases "baseType t") (simp_all add: radix_key_type_def isIntegral_def isSigned_def key_bits_def getName_def
      getSize_def getBaseSize_def)

lemma value_size:
  assumes "t \<in> set type_table"
  shows "getSize t \<le> 128" "getSize t = 0 \<longleftrightarrow> baseType t = TYPE_VOID" "getSize (canonical_value t) = getSize t"
proof -
  show "getSize t \<le> 128" "getSize t = 0 \<longleftrightarrow> baseType t = TYPE_VOID"
    using assms by (cases "baseType t"; auto simp: type_table_iff vec_sizes_def getSize_def getBaseSize_def void_type_def)+
  show "getSize (canonical_value t) = getSize t"
    by (simp add: canonical_value_def Let_def) (simp add: getSize_def getBaseSize_def)
qed

lemma radix_initialize_wf:
  assumes bld: "\<And>d s p. bld ''radixsort.cl'' d s = Inr p \<Longrightarrow> pdefs p = d \<and> psdefs p = s \<and> radixsort_cl_accepts d s"
    and mk: "\<And>p n k. mk p n = Inr k \<Longrightarrow> k = new_kernel p n" and alloc: "\<And>n b. alloc n = Inr b \<Longrightarrow> 0 < n"
    and problem: "radix_key_type (xp_key problem)" "xp_value problem \<in> set type_table" and params: "radix_params_ok params"
    and init: "Radixsort_initialize alloc bld mk problem params = Inr rs"
  shows "rs_wf rs \<and> rs_keySize rs = getSize (xp_key problem) \<and> rs_valueSize rs = getSize (xp_value problem)
    \<and> rs_tmpKeys rs = None \<and> rs_tmpValues rs = None"
proof -
  from init obtain h p k1 k2 k3 where
    h: "alloc (x_scanBlocks params * 2 ^ x_radixBits params * 4) = Inr h"
    and p: "bld ''radixsort.cl'' (radix_defines params) (radix_string_defines problem params) = Inr p"
    and k: "mk p ''radixsortReduce'' = Inr k1" "mk p ''radixsortScan'' = Inr k2" "mk p ''radixsortScatter'' = Inr k3"
    and rs: "rs = \<lparr>rs_reduceWorkGroupSize = x_reduceWorkGroupSize params,
             rs_scanWorkGroupSize = x_scanWorkGroupSize params,
             rs_scatterWorkGroupSize = x_scatterWorkGroupSize params,
             rs_scatterWorkScale = x_scatterWorkScale params,
             rs_scatterSlice = scatter_slice params,
             rs_scanBlocks = x_scanBlocks params,
             rs_keySize = getSize (xp_key problem),
             rs_valueSize = getSize (xp_value problem),
             rs_radix = 2 ^ x_radixBits params,
             rs_radixBits = x_radixBits params,
             rs_reduceKernel = k1,
             rs_scanKernel = setArg 0 (ABuf h) k2,
             rs_scatterKernel = setArg 1 (ABuf h) k3,
             rs_histogram = h, rs_tmpKeys = None, rs_tmpValues = None, rs_alg = new_alg\<rparr>"
    by (auto simp: Radixsort_initialize_def bind_result_Inr)
  have kk: "k1 = new_kernel p ''radixsortReduce''" "k2 = new_kernel p ''radixsortScan''" "k3 = new_kernel p ''radixsortScatter''"
    using k by (simp_all add: mk)
  have d: "pdefs p = radix_defines params" "psdefs p = radix_string_defines problem params"
    "radixsort_cl_accepts (radix_defines params) (radix_string_defines problem params)" using bld [OF p] by auto
  have sb: "0 < x_scanBlocks params" using alloc [OF h] by simp
  have rb: "2 \<le> x_radixBits params"
  proof (rule ccontr)
    assume "\<not> 2 \<le> x_radixBits params"
    then have "x_radixBits params = 0 \<or> x_radixBits params = 1" by auto
    then show False using d(3) by (auto simp: radixsort_cl_accepts_def Let_def)
  qed
  let ?C = "\<lparr>c_rb = x_radixBits params, c_kb = 8 * getSize (xp_key problem), c_ws = x_scatterWorkScale params,
      c_slc = scatter_slice params, c_wgs = x_scatterWorkGroupSize params, c_warp = x_warpSizeMem params,
      c_sweeps = sweeps (2 ^ x_radixBits params) (scatter_slice params), c_values = (getSize (xp_value problem) \<noteq> 0)\<rparr>"
  have C: "scatter_config (rs_scatterKernel rs) = Some ?C"
    using radix_key_type_bits [OF problem(1)] value_size(2) [OF problem(2)]
    by (auto simp: scatter_config_def rs kk d(1,2) radix_string_defines_simps sweep_macros_text macro_def_nat)
  have ok: "scatter_cfg_ok ?C"
    using d(3) rb params by (simp add: scatter_cfg_ok_def radixsort_cl_accepts_def Let_def is_power2_iff
        radix_params_ok_def mod_eq_0_iff_dvd)
  show ?thesis
    using d(3) rb sb params radix_key_type_bits [OF problem(1)] value_size(1) [OF problem(2)] ok C
    by (simp add: rs_wf_def kernel_is_def macro_def_nat kk d(1) reduce_cfg_ok_def scan_cfg_ok_def
        radixsort_cl_accepts_def Let_def is_power2_iff mod_eq_0_iff_dvd radix_params_ok_def rs_slices_def, simp add: rs kk d(1) )
qed

lemma radix_initialize_fields:
  assumes "Radixsort_initialize alloc bld mk problem params = Inr rs"
  shows "rs_reduceWorkGroupSize rs = x_reduceWorkGroupSize params" "rs_scanWorkGroupSize rs = x_scanWorkGroupSize params"
    "rs_scatterWorkGroupSize rs = x_scatterWorkGroupSize params" "rs_scatterWorkScale rs = x_scatterWorkScale params"
    "rs_scatterSlice rs = scatter_slice params" "rs_scanBlocks rs = x_scanBlocks params"
    "rs_keySize rs = getSize (xp_key problem)" "rs_valueSize rs = getSize (xp_value problem)"
    "rs_radixBits rs = x_radixBits params" "rs_tmpKeys rs = None" "rs_tmpValues rs = None"
    "alloc (x_scanBlocks params * 2 ^ x_radixBits params * 4) = Inr (rs_histogram rs)"
  using assms by (auto simp: Radixsort_initialize_def bind_result_Inr)

section \<open>Block sizes\<close>

definition radix_sizes_ok :: "'a radixsort \<Rightarrow> nat \<Rightarrow> bool" where
  "radix_sizes_ok rs n \<longleftrightarrow> n + getTileSize rs * rs_scanBlocks rs \<le> 2 ^ 31"

lemma rs_wf_slices:
  assumes "rs_wf rs"
  shows "0 < rs_slices rs" "rs_scatterWorkGroupSize rs = rs_slices rs * rs_scatterSlice rs" "rs_scatterSlice rs < 256"
    "0 < rs_scanBlocks rs" "0 < getTileSize rs" "0 < rs_scatterSlice rs" "2 \<le> rs_radixBits rs"
proof -
  obtain C where C: "scatter_cfg_ok C" "c_slc C = rs_scatterSlice rs" "c_wgs C = rs_scatterWorkGroupSize rs" "c_rb C = rs_radixBits rs"
    using assms by (auto simp: rs_wf_def split: option.splits)
  then have d: "rs_scatterSlice rs dvd rs_scatterWorkGroupSize rs" "0 < rs_scatterWorkGroupSize rs"
    by (auto simp: scatter_cfg_ok_def pow2_pos)
  then show "rs_scatterWorkGroupSize rs = rs_slices rs * rs_scatterSlice rs" by (simp add: rs_slices_def)
  then show "0 < rs_slices rs" "0 < rs_scatterSlice rs" using d(2) by (auto intro: Nat.gr0I)
  have "rs_scatterSlice rs * 1 \<le> rs_scatterSlice rs * c_ws C" "rs_scatterSlice rs * c_ws C < 256"
    using C by (auto simp: scatter_cfg_ok_def)
  then show "rs_scatterSlice rs < 256" by linarith
  show "0 < rs_scanBlocks rs" using assms by (simp add: rs_wf_def scan_cfg_ok_def)
  have "0 < rs_reduceWorkGroupSize rs" using assms by (auto simp: rs_wf_def reduce_cfg_ok_def pow2_pos)
  then show "0 < getTileSize rs" by (simp add: getTileSize_def)
  show "2 \<le> rs_radixBits rs" using C by (simp add: scatter_cfg_ok_def)
qed

lemma ceil_div:
  assumes "0 < (y::nat)"
  shows "x \<le> (x + y - 1) div y * y" "(x + y - 1) div y * y < x + y"
proof -
  have "x + y - 1 < (x + y - 1) div y * y + y"
    using dividend_less_div_times [OF assms, of "x + y - 1"] by (simp add: add.commute)
  then show "x \<le> (x + y - 1) div y * y" using assms by linarith
  have "(x + y - 1) div y * y \<le> x + y - 1" by simp
  then show "(x + y - 1) div y * y < x + y" using assms by linarith
qed

lemma radix_block_split:
  assumes wf: "rs_wf rs" and sz: "radix_sizes_ok rs n" "0 < n"
  defines "len \<equiv> getBlockSize rs n"
  defines "blocks \<equiv> getBlocks rs n len"
  shows "0 < len" "rs_slices rs dvd blocks" "0 < blocks" "blocks \<le> rs_scanBlocks rs" "n \<le> blocks * len"
    "blocks * len < 2 ^ 31" "getTileSize rs dvd len" "len < 2 ^ 31" "blocks < 2 ^ 31"
proof -
  let ?T = "getTileSize rs" and ?M = "rs_scanBlocks rs" and ?k = "rs_slices rs"
  note w = rs_wf_slices [OF wf]
  have TM: "0 < ?T * ?M" "n + ?T * ?M \<le> 2 ^ 31" using w sz by (simp_all add: radix_sizes_ok_def)
  define c where "c = (n + ?T * ?M - 1) div (?T * ?M)"
  have u: "u64 (?T * ?M) = ?T * ?M" "u64 (n + ?T * ?M - 1) = n + ?T * ?M - 1"
    using TM by (intro u64_small, simp)+
  have len: "len = c * ?T" unfolding len_def getBlockSize_def Let_def u c_def ..
  then show "getTileSize rs dvd len" by simp
  note cd = ceil_div [OF TM(1), of n, folded c_def]
  have "c \<noteq> 0" using cd(1) sz(2) by (cases c) auto
  then show len0: "0 < len" using w(5) by (simp add: len)
  have lM: "n \<le> len * ?M" "len * ?M < n + ?T * ?M" using cd by (simp_all add: len mult.assoc)
  have len31: "len < 2 ^ 31"
  proof -
    have "len * 1 \<le> len * ?M" using w(4) by (intro mult_left_mono) auto
    then show ?thesis using lM(2) TM(2) by linarith
  qed
  have n31: "n \<le> 2 ^ 31" using TM(2) by linarith
  define b where "b = (n + len - 1) div len"
  have u2: "u64 (n + len - 1) = n + len - 1" using n31 len31 by (intro u64_small) simp
  note bd = ceil_div [OF len0, of n, folded b_def]
  have bM: "b \<le> ?M"
  proof (rule ccontr)
    assume "\<not> b \<le> ?M"
    then have "Suc ?M * len \<le> b * len" by (intro mult_right_mono) auto
    then show False using bd(2) lM(1) by (simp add: mult.commute)
  qed
  have M31: "?M \<le> 2 ^ 31"
  proof -
    have "1 * ?M \<le> ?T * ?M" using w(5) by (intro mult_right_mono) auto
    then show ?thesis using TM(2) by linarith
  qed
  have kM: "?k dvd ?M" using wf by (simp add: rs_wf_def)
  then have "?k \<le> ?M" using w(4) by (rule dvd_imp_le)
  then have "b + ?k \<le> 2 ^ 64" using bM M31 by simp
  note ru = roundUp_bounds [OF w(1) this]
  have blocks: "blocks = roundUp b ?k" unfolding blocks_def getBlocks_def Let_def u2 b_def rs_slices_def ..
  show kb: "?k dvd blocks" unfolding blocks by (rule roundUp_dvd)
  have b0: "0 < b" using bd(1) sz(2) by (cases b) auto
  then show "0 < blocks" using ru(1) blocks by simp
  show bl: "blocks \<le> ?M"
  proof -
    obtain x y where xy: "blocks = ?k * x" "?M = ?k * y" using kb kM unfolding dvd_def by blast
    have "\<not> y < x"
    proof
      assume "y < x"
      then have "?k * Suc y \<le> ?k * x" by (intro mult_left_mono) auto
      then show False using ru(2) bM xy blocks by simp
    qed
    then show ?thesis using xy by simp
  qed
  have "b * len \<le> blocks * len" using ru(1) blocks by (intro mult_right_mono) auto
  then show "n \<le> blocks * len" using bd(1) by linarith
  have "blocks * len \<le> ?M * len" using bl by (intro mult_right_mono) auto
  then show bl31: "blocks * len < 2 ^ 31" using lM(2) TM(2) mult.commute [of ?M len] by linarith
  have "blocks * 1 \<le> blocks * len" using len0 by (intro mult_left_mono) auto
  then show "blocks < 2 ^ 31" using bl31 by linarith
  show "len < 2 ^ 31" by (rule len31)
qed

section \<open>What the launches do\<close>

text \<open>Commands in a row: the first waits for \<open>w\<close>, the others for the one before; events count up from \<open>e\<close>.\<close>

fun in_row :: "nat list \<Rightarrow> nat \<Rightarrow> 'a command list \<Rightarrow> bool" where
  "in_row w e [] = True"
| "in_row w e (c # cs) \<longleftrightarrow> waits c = w \<and> ev c = e \<and> in_row [e] (Suc e) cs"

lemma in_row_append:
  "in_row w e (cs @ ds) \<longleftrightarrow> in_row w e cs \<and> in_row (if cs = [] then w else [e + length cs - 1]) (e + length cs) ds"
  by (induction cs arbitrary: w e) auto

lemma in_row_chain: "in_row w e cs \<Longrightarrow> chained cs"
  by (induction cs arbitrary: w e rule: chained.induct) auto

lemma in_row_events: "in_row w e cs \<Longrightarrow> map ev cs = [e..<e + length cs]"
proof (induction cs arbitrary: w e)
  case (Cons c cs)
  then have "map ev cs = [Suc e..<e + length (c # cs)]" "ev c = e" by (auto simp del: upt_Suc)
  moreover have "[e..<e + length (c # cs)] = e # [Suc e..<e + length (c # cs)]" by (rule upt_conv_Cons) simp
  ultimately show ?case by simp
qed simp

text \<open>
  An operation of the host that adds one command with a known effect, for every device
  behaviour, and leaves a well-formed object of the same sizes.
\<close>

definition same_sort :: "'a radixsort \<Rightarrow> 'a radixsort \<Rightarrow> bool" where
  "same_sort rs rs' \<longleftrightarrow> rs' = rs\<lparr>rs_reduceKernel := rs_reduceKernel rs', rs_scanKernel := rs_scanKernel rs',
     rs_scatterKernel := rs_scatterKernel rs'\<rparr>"

lemma same_sort_refl [simp]: "same_sort rs rs"
  by (simp add: same_sort_def)

lemma same_sort_trans: "same_sort a b \<Longrightarrow> same_sort b c \<Longrightarrow> same_sort a c"
  by (cases a; cases b; cases c) (simp add: same_sort_def)

lemma same_sort_fields:
  assumes "same_sort rs rs'"
  shows "rs_reduceWorkGroupSize rs' = rs_reduceWorkGroupSize rs" "rs_scanWorkGroupSize rs' = rs_scanWorkGroupSize rs"
    "rs_scatterWorkGroupSize rs' = rs_scatterWorkGroupSize rs" "rs_scatterWorkScale rs' = rs_scatterWorkScale rs"
    "rs_scatterSlice rs' = rs_scatterSlice rs" "rs_scanBlocks rs' = rs_scanBlocks rs" "rs_keySize rs' = rs_keySize rs"
    "rs_valueSize rs' = rs_valueSize rs" "rs_radixBits rs' = rs_radixBits rs" "rs_histogram rs' = rs_histogram rs"
    "getTileSize rs' = getTileSize rs" "getBlockSize rs' = getBlockSize rs" "getBlocks rs' = getBlocks rs"
    "rs_slices rs' = rs_slices rs" "radix_sizes_ok rs' = radix_sizes_ok rs"
  using assms by (cases rs; cases rs'; auto simp: same_sort_def getTileSize_def getBlockSize_def getBlocks_def rs_slices_def radix_sizes_ok_def fun_eq_iff)+

text \<open>What a successful operation has added to the queue.\<close>

definition adds ::
  "'a radixsort \<Rightarrow> 'a queue \<Rightarrow> nat list option \<Rightarrow> nat \<Rightarrow> 'a radixsort \<Rightarrow> 'a queue \<Rightarrow> 'a command list \<Rightarrow> bool" where
  "adds rs q w e rs' q' cs \<longleftrightarrow> same_sort rs rs' \<and> (rs_wf rs \<longrightarrow> rs_wf rs') \<and> cmds q' = cmds q @ cs
     \<and> in_row (wait_list w) (next_ev q) cs \<and> next_ev q' = next_ev q + length cs
     \<and> cs \<noteq> [] \<and> e = next_ev q + length cs - 1"

lemma adds_trans:
  assumes "adds rs q w e rs1 q1 cs" "adds rs1 q1 (Some [e]) e' rs2 q2 ds"
  shows "adds rs q w e' rs2 q2 (cs @ ds)"
  using assms by (auto simp: adds_def in_row_append intro: same_sort_trans)

lemma radix_launch_result:
  "radix_launch drv sel g l w (rs, q) = (Inr e, rs', q') \<longleftrightarrow>
   drv \<lparr>act = Launch (sel rs) g l, waits = wait_list w, ev = next_ev q\<rparr> = CL_SUCCESS \<and> rs' = rs \<and> e = next_ev q \<and>
   q' = notify (rs_alg rs) e (q\<lparr>cmds := cmds q @ [\<lparr>act = Launch (sel rs) g l, waits = wait_list w, ev = next_ev q\<rparr>],
      next_ev := Suc (next_ev q)\<rparr>)"
  by (auto simp: radix_launch_def enqueueNDRange_def enqueue_action_def Let_def split: if_splits)

lemma notify_simps [simp]: "cmds (notify a e q) = cmds q" "next_ev (notify a e q) = next_ev q"
  by (simp_all add: notify_def)

lemma one_group:
  assumes "dsched_ok D c" "act c = Launch k l l" "0 < l"
  shows "length (dgroups D (ev c)) = 1" "valid l (ditems D (ev c) 0)" "range_ok l l"
proof -
  have "ngroups (act c) = 1" using assms by simp
  then show "length (dgroups D (ev c)) = 1"
    using assms(1) by (auto simp: dsched_ok_def schedule_def lessThan_Suc dest: distinct_card [symmetric])
qed (use assms in \<open>auto simp: dsched_ok_def range_ok_def\<close>)

lemma enqueueReduce_result:
  assumes wf: "rs_wf rs" and sz: "radix_sizes_ok rs n" "0 < n" and len: "len = getBlockSize rs n"
    and op: "enqueueReduce drv outb inb len n fb w (rs, q) = (Inr e, rs', q')"
  obtains c where "adds rs q w e rs' q' [c]"
    and "\<And>D. dsched_ok D c \<Longrightarrow> schedule (getBlocks rs n len) (dgroups D (ev c)) \<and> (\<forall>g. valid (rs_reduceWorkGroupSize rs) (ditems D (ev c) g))"
    and "\<And>D J view ks vs G V. dsched_ok D c \<Longrightarrow> run_radix_command D J view ks vs c (G, V) =
      Some (G(outb := radixsortReduce (ditems D (ev c)) (dgroups D (ev c)) (j_hist (J (ev c))) (rs_radixBits rs) fb
        (rs_reduceWorkGroupSize rs) (G inb) len n (G outb)), V :: nat \<Rightarrow> nat \<Rightarrow> 'v)"
proof -
  note sp = radix_block_split [OF wf sz, folded len]
  let ?B = "getBlocks rs n len" and ?W = "rs_reduceWorkGroupSize rs"
  have p: "0 < ?W" using wf by (auto simp: rs_wf_def reduce_cfg_ok_def pow2_pos)
  have "?W * ?B \<le> getTileSize rs * rs_scanBlocks rs" using sp(4) by (intro mult_mono) (auto simp: getTileSize_def)
  also have "\<dots> \<le> 2 ^ 31" using sz(1) by (simp add: radix_sizes_ok_def)
  finally have WB: "?W * ?B \<le> 2 ^ 31" .
  have u: "u32 ?B = ?B" "u64 (?W * ?B) = ?W * ?B" "u32 len = len" "u32 n = n"
    using WB sz(1) sp(8,9) by (simp_all add: u32_small u64_small radix_sizes_ok_def)
  define k where "k = setArg 4 (AUint fb) (setArg 3 (AUint n) (setArg 2 (AUint len)
              (setArg 1 (ABuf inb) (setArg 0 (ABuf outb) (rs_reduceKernel rs)))))"
  define c where "c = \<lparr>act = Launch k (?W * ?B) ?W, waits = wait_list w, ev = next_ev q\<rparr>"
  have rs': "rs' = rs\<lparr>rs_reduceKernel := k\<rparr>"
    and q': "cmds q' = cmds q @ [c]" "next_ev q' = Suc (next_ev q)" "e = next_ev q"
    using op by (auto simp: enqueueReduce_def Let_def radix_launch_result u k_def c_def)
  have "rs_wf rs \<longrightarrow> rs_wf rs'"
    by (simp add: rs' rs_wf_def kernel_is_def k_def rs_slices_def split: option.split)
  then have ad: "adds rs q w e rs' q' [c]" using q' by (simp add: adds_def rs' same_sort_def c_def)
  have g: "range_ok (?W * ?B) ?W" "schedule ?B (dgroups D (ev c))" "valid ?W (ditems D (ev c) g)" if "dsched_ok D c" for D g
    using dsched_groups [OF that, of k ?W ?B] p sp(3) by (simp_all add: c_def)
  show thesis
  proof (rule that [OF ad])
    show "run_radix_command D J view ks vs c (G, V) =
      Some (G(outb := radixsortReduce (ditems D (ev c)) (dgroups D (ev c)) (j_hist (J (ev c))) (rs_radixBits rs) fb
        ?W (G inb) len n (G outb)), V :: nat \<Rightarrow> nat \<Rightarrow> 'v)" if "dsched_ok D c" for D J view ks vs G V
      using g(1) [OF that] wf
      by (simp add: run_radix_command_def c_def run_radix_kernel_def k_def rs_wf_def kernel_is_def Let_def)
  qed (use g in blast)
qed

lemma enqueueScan_result:
  assumes wf: "rs_wf rs" and sz: "radix_sizes_ok rs n" "0 < n" and len: "len = getBlockSize rs n"
    and op: "enqueueScan drv hb (getBlocks rs n len) w (rs, q) = (Inr e, rs', q')"
  obtains c where "adds rs q w e rs' q' [c]"
    and "\<And>D. dsched_ok D c \<Longrightarrow> valid (rs_scanWorkGroupSize rs) (ditems D (ev c) 0)"
    and "\<And>D J view ks vs G V. dsched_ok D c \<Longrightarrow> run_radix_command D J view ks vs c (G, V) =
      Some (G(hb := radixsortScan (ditems D (ev c) 0) (j_scan (J (ev c))) (j_sums (J (ev c))) (rs_radixBits rs)
        (rs_scanWorkGroupSize rs) (rs_scanBlocks rs) (getBlocks rs n len) (G hb)), V :: nat \<Rightarrow> nat \<Rightarrow> 'v)"
proof -
  note sp = radix_block_split [OF wf sz, folded len]
  let ?B = "getBlocks rs n len" and ?W = "rs_scanWorkGroupSize rs"
  have p: "0 < ?W" using wf by (auto simp: rs_wf_def scan_cfg_ok_def pow2_pos)
  have u: "u32 ?B = ?B" using sp(9) by (simp add: u32_small)
  define k where "k = setArg 1 (AUint ?B) (setArg 0 (ABuf hb) (rs_scanKernel rs))"
  define c where "c = \<lparr>act = Launch k ?W ?W, waits = wait_list w, ev = next_ev q\<rparr>"
  have rs': "rs' = rs\<lparr>rs_scanKernel := k\<rparr>"
    and q': "cmds q' = cmds q @ [c]" "next_ev q' = Suc (next_ev q)" "e = next_ev q"
    using op by (auto simp: enqueueScan_def radix_launch_result u k_def c_def)
  have "rs_wf rs \<longrightarrow> rs_wf rs'"
    by (simp add: rs' rs_wf_def kernel_is_def k_def rs_slices_def split: option.split)
  then have ad: "adds rs q w e rs' q' [c]" using q' by (simp add: adds_def rs' same_sort_def c_def)
  have g: "length (dgroups D (ev c)) = 1" "valid ?W (ditems D (ev c) 0)" "range_ok ?W ?W" if "dsched_ok D c" for D
    using one_group [OF that, of k ?W] p by (simp_all add: c_def)
  show thesis
  proof (rule that [OF ad])
    show "run_radix_command D J view ks vs c (G, V) =
      Some (G(hb := radixsortScan (ditems D (ev c) 0) (j_scan (J (ev c))) (j_sums (J (ev c))) (rs_radixBits rs)
        ?W (rs_scanBlocks rs) ?B (G hb)), V :: nat \<Rightarrow> nat \<Rightarrow> 'v)" if "dsched_ok D c" for D J view ks vs G V
      using g [OF that] wf
      by (simp add: run_radix_command_def c_def run_radix_kernel_def k_def rs_wf_def kernel_is_def Let_def)
  qed (use g in blast)
qed

lemma scatter_config_setArg [simp]: "scatter_config (setArg i v k) = scatter_config k"
  unfolding scatter_config_def by (simp only: macro_setArg setArg_simps)

text \<open>The scatter, on the two memories; a sort without values leaves the value memory alone.\<close>

definition scatter_effect ::
  "scatter_cfg \<Rightarrow> nat list \<Rightarrow> (nat \<Rightarrow> sched) \<Rightarrow> ((nat \<Rightarrow> 'v) \<Rightarrow> levels) \<Rightarrow> (nat \<Rightarrow> 'v slice_mem) \<Rightarrow>
   nat \<Rightarrow> nat \<Rightarrow> nat \<Rightarrow> nat \<Rightarrow> nat \<Rightarrow> nat \<Rightarrow> nat \<Rightarrow> nat \<Rightarrow> 'v rmem \<Rightarrow> 'v rmem" where
  "scatter_effect C groups S view J ok ov ik iv hb len n fb GV =
     (let r = radixsortScatter C S groups view J (fst GV ik) (snd GV (if c_values C then iv else 0)) (fst GV hb) len n fb
                (fst GV ok, snd GV (if c_values C then ov else 0))
      in ((fst GV)(ok := fst r), if c_values C then (snd GV)(ov := snd r) else snd GV))"

lemma enqueueScatter_result:
  assumes wf: "rs_wf rs" and sz: "radix_sizes_ok rs n" "0 < n" and len: "len = getBlockSize rs n"
    and op: "enqueueScatter drv ok ov ik iv hb len n fb w (rs, q) = (Inr e, rs', q')"
    and C: "scatter_config (rs_scatterKernel rs) = Some C"
  obtains c where "adds rs q w e rs' q' [c]" and "scatter_config (rs_scatterKernel rs') = Some C"
    and "\<And>D. dsched_ok D c \<Longrightarrow> schedule (getBlocks rs n len div rs_slices rs) (dgroups D (ev c)) \<and> (\<forall>g. valid (c_wgs C) (ditems D (ev c) g))"
    and "\<And>D J view ks vs GV. dsched_ok D c \<Longrightarrow> run_radix_command D J view ks vs c GV =
      Some (scatter_effect C (dgroups D (ev c)) (ditems D (ev c)) view (j_slices (J (ev c))) ok ov ik iv hb len n fb (GV :: 'v rmem))"
proof -
  note sp = radix_block_split [OF wf sz, folded len] and w = rs_wf_slices [OF wf]
  let ?B = "getBlocks rs n len" and ?W = "rs_scatterWorkGroupSize rs"
  define N where "N = ?B div rs_slices rs"
  have N: "?B = N * rs_slices rs" using sp(2) by (simp add: N_def)
  have c: "c_wgs C = ?W" "c_values C = (rs_valueSize rs \<noteq> 0)" using wf C by (simp_all add: rs_wf_def)
  have p: "0 < N" "0 < ?W" using sp(3) N w by (auto intro: Nat.gr0I)
  have "?W * N = rs_scatterSlice rs * ?B" by (simp add: w(2) N)
  also have "\<dots> \<le> 256 * 2 ^ 31" using w(3) sp(9) by (intro mult_mono) auto
  finally have u: "u64 (?W * N) = ?W * N" "u32 len = len" "u32 n = n"
    using sz(1) sp(8) by (simp_all add: u32_small u64_small radix_sizes_ok_def)
  define k where "k = (let k = setArg 5 (AUint fb) (setArg 4 (AUint n) (setArg 3 (AUint len)
              (setArg 2 (ABuf hb) (setArg 1 (ABuf ik) (setArg 0 (ABuf ok) (rs_scatterKernel rs))))))
     in if rs_valueSize rs \<noteq> 0 then setArg 7 (ABuf iv) (setArg 6 (ABuf ov) k) else k)"
  define c0 where "c0 = \<lparr>act = Launch k (?W * N) ?W, waits = wait_list w, ev = next_ev q\<rparr>"
  have rs': "rs' = rs\<lparr>rs_scatterKernel := k\<rparr>"
    and q': "cmds q' = cmds q @ [c0]" "next_ev q' = Suc (next_ev q)" "e = next_ev q"
    using op by (auto simp: enqueueScatter_def Let_def radix_launch_result u k_def c0_def rs_slices_def [symmetric] N_def [symmetric])
  have k: "scatter_config k = Some C" using C by (simp add: k_def Let_def)
  have "rs_wf rs \<longrightarrow> rs_wf rs'"
    using C k by (simp add: rs' rs_wf_def kernel_is_def rs_slices_def, simp add: k_def Let_def)
  then have ad: "adds rs q w e rs' q' [c0]" using q' by (simp add: adds_def rs' same_sort_def c0_def)
  have g: "range_ok (?W * N) ?W" "schedule N (dgroups D (ev c0))" "valid ?W (ditems D (ev c0) g)" if "dsched_ok D c0" for D g
    using dsched_groups [OF that, of k ?W N] p by (simp_all add: c0_def)
  show thesis
  proof (rule that [OF ad])
    show "scatter_config (rs_scatterKernel rs') = Some C" by (simp add: rs' k)
    show "run_radix_command D J view ks vs c0 GV =
      Some (scatter_effect C (dgroups D (ev c0)) (ditems D (ev c0)) view (j_slices (J (ev c0))) ok ov ik iv hb len n fb (GV :: 'v rmem))"
      if "dsched_ok D c0" for D J view ks vs GV
      using g(1) [OF that] wf C
      by (cases GV) (simp add: run_radix_command_def c0_def run_radix_kernel_def k_def rs_wf_def kernel_is_def Let_def
          scatter_effect_def split: prod.splits)
  qed (use g c N_def in auto)
qed

section \<open>A pass\<close>

definition contents :: "bool \<Rightarrow> 'v rmem \<Rightarrow> nat \<times> nat \<Rightarrow> nat \<Rightarrow> (nat \<times> 'v option) list" where
  "contents hv GV b n = map (\<lambda>i. (fst GV (fst b) i, if hv then Some (snd GV (snd b) i) else None)) [0..<n]"

text \<open>The histogram and the two key buffers are different buffers.\<close>

definition bufs_apart :: "nat \<Rightarrow> (bool \<Rightarrow> nat \<times> nat) \<Rightarrow> bool" where
  "bufs_apart h bufs \<longleftrightarrow> distinct [h, fst (bufs False), fst (bufs True)]"

text \<open>
  What a step leaves alone: every buffer but the histogram and those in \<open>K\<close> (keys) and \<open>W\<close>
  (values), and in these the elements from \<open>n\<close> on.
\<close>

definition only_changes :: "nat \<Rightarrow> nat set \<Rightarrow> nat set \<Rightarrow> nat \<Rightarrow> 'v rmem \<Rightarrow> 'v rmem \<Rightarrow> bool" where
  "only_changes h K W n GV GV' \<longleftrightarrow>
     (\<forall>b. b \<notin> insert h (K \<union> W) \<longrightarrow> fst GV' b = fst GV b \<and> snd GV' b = snd GV b)
     \<and> (\<forall>b i. b \<in> K \<and> b \<notin> insert h W \<and> n \<le> i \<longrightarrow> fst GV' b i = fst GV b i)
     \<and> (\<forall>b i. b \<in> W \<and> b \<notin> insert h K \<and> n \<le> i \<longrightarrow> snd GV' b i = snd GV b i)"

lemma adds_wf: "adds rs q w e rs' q' cs \<Longrightarrow> rs_wf rs \<Longrightarrow> rs_wf rs' \<and> same_sort rs rs'"
  by (simp add: adds_def)

lemma bind_op_Inr:
  "bind_op m f st = (Inr x, st') \<longleftrightarrow> (\<exists>y st1. m st = (Inr y, st1) \<and> f y st1 = (Inr x, st'))"
  by (auto simp: bind_op_def split: prod.splits sum.splits)

lemma scatter_config_kept:
  assumes "adds rs q w e rs' q' cs" "rs_scatterKernel rs' = rs_scatterKernel rs"
  shows "scatter_config (rs_scatterKernel rs') = scatter_config (rs_scatterKernel rs)"
  using assms by simp

lemma enqueue_keeps_scatter:
  "enqueueReduce drv ob ib len n fb w (rs, q) = (r, rs', q') \<Longrightarrow> rs_scatterKernel rs' = rs_scatterKernel rs"
  "enqueueScan drv hb bl w (rs, q) = (r, rs', q') \<Longrightarrow> rs_scatterKernel rs' = rs_scatterKernel rs"
  by (auto simp: enqueueReduce_def enqueueScan_def Let_def radix_launch_def split: prod.splits sum.splits)

lemma radix_pass_result:
  assumes wf: "rs_wf rs" and sz: "radix_sizes_ok rs n" "0 < n" and len: "len = getBlockSize rs n"
    and C: "scatter_config (rs_scatterKernel rs) = Some C" and fb: "fb \<le> 8 * rs_keySize rs"
    and ap: "bufs_apart (rs_histogram rs) bufs"
    and op: "radix_pass drv bufs len n fb sw w (rs, q) = (Inr e, rs', q')"
  obtains cs where "adds rs q w e rs' q' cs" and "scatter_config (rs_scatterKernel rs') = Some C"
    and "\<And>D J view ks vs GV. (\<And>c. c \<in> set cs \<Longrightarrow> dsched_ok D c) \<Longrightarrow>
      (\<And>i. i < n \<Longrightarrow> fst GV (fst (bufs sw)) i < 2 ^ (8 * rs_keySize rs)) \<Longrightarrow>
      \<exists>GV'. run_all (run_radix_command D J view ks vs) cs GV = Some (GV' :: 'v rmem)
        \<and> contents (rs_valueSize rs \<noteq> 0) GV' (bufs (\<not> sw)) n =
            sort_key (\<lambda>kv. key_digit (rs_radixBits rs) fb (fst kv)) (contents (rs_valueSize rs \<noteq> 0) GV (bufs sw) n)
        \<and> only_changes (rs_histogram rs) {fst (bufs (\<not> sw))}
            (if rs_valueSize rs \<noteq> 0 then {snd (bufs (\<not> sw))} else {}) n GV GV'"
proof -
  let ?h = "rs_histogram rs" and ?B = "getBlocks rs n len" and ?hv = "rs_valueSize rs \<noteq> 0"
  obtain ik iv ok ov where b: "bufs sw = (ik, iv)" "bufs (\<not> sw) = (ok, ov)" by (metis surj_pair)
  have d: "?h \<noteq> ik" "?h \<noteq> ok" "ik \<noteq> ok" using ap b by (cases sw; auto simp: bufs_apart_def)+
  from op obtain e1 rs1 q1 e2 rs2 q2 where
    o1: "enqueueReduce drv ?h ik len n fb w (rs, q) = (Inr e1, rs1, q1)"
    and o2: "enqueueScan drv ?h ?B (Some [e1]) (rs1, q1) = (Inr e2, rs2, q2)"
    and o3: "enqueueScatter drv ok ov ik iv ?h len n fb (Some [e2]) (rs2, q2) = (Inr e, rs', q')"
    by (auto simp: radix_pass_def Let_def bind_op_Inr b)
  obtain c1 where c1: "adds rs q w e1 rs1 q1 [c1]"
    "\<And>D. dsched_ok D c1 \<Longrightarrow> schedule ?B (dgroups D (ev c1)) \<and> (\<forall>g. valid (rs_reduceWorkGroupSize rs) (ditems D (ev c1) g))"
    "\<And>D J view ks vs G V. dsched_ok D c1 \<Longrightarrow> run_radix_command D J view ks vs c1 (G, V) =
      Some (G(?h := radixsortReduce (ditems D (ev c1)) (dgroups D (ev c1)) (j_hist (J (ev c1))) (rs_radixBits rs) fb
        (rs_reduceWorkGroupSize rs) (G ik) len n (G ?h)), V :: nat \<Rightarrow> nat \<Rightarrow> 'v)"
    using enqueueReduce_result [OF wf sz len o1] by blast
  have w1: "rs_wf rs1" "same_sort rs rs1" using adds_wf [OF c1(1) wf] by auto
  note f1 = same_sort_fields [OF w1(2)]
  have s1: "radix_sizes_ok rs1 n" "len = getBlockSize rs1 n" using sz len by (simp_all add: f1)
  obtain c2 where c2: "adds rs1 q1 (Some [e1]) e2 rs2 q2 [c2]"
    "\<And>D. dsched_ok D c2 \<Longrightarrow> valid (rs_scanWorkGroupSize rs) (ditems D (ev c2) 0)"
    "\<And>D J view ks vs G V. dsched_ok D c2 \<Longrightarrow> run_radix_command D J view ks vs c2 (G, V) =
      Some (G(?h := radixsortScan (ditems D (ev c2) 0) (j_scan (J (ev c2))) (j_sums (J (ev c2))) (rs_radixBits rs)
        (rs_scanWorkGroupSize rs) (rs_scanBlocks rs) ?B (G ?h)), V :: nat \<Rightarrow> nat \<Rightarrow> 'v)"
    using enqueueScan_result [OF w1(1) s1(1) sz(2) s1(2), of drv ?h "Some [e1]" q1 e2 rs2 q2] o2 unfolding f1 by blast
  have w2: "rs_wf rs2" "same_sort rs rs2" using adds_wf [OF c2(1) w1(1)] same_sort_trans [OF w1(2)] by auto
  note f2 = same_sort_fields [OF w2(2)]
  have s2: "radix_sizes_ok rs2 n" "len = getBlockSize rs2 n" using sz len by (simp_all add: f2)
  have C2: "scatter_config (rs_scatterKernel rs2) = Some C"
    using C enqueue_keeps_scatter(1) [OF o1] enqueue_keeps_scatter(2) [OF o2] by simp
  obtain c3 where c3: "adds rs2 q2 (Some [e2]) e rs' q' [c3]" "scatter_config (rs_scatterKernel rs') = Some C"
    "\<And>D. dsched_ok D c3 \<Longrightarrow> schedule (?B div rs_slices rs) (dgroups D (ev c3)) \<and> (\<forall>g. valid (c_wgs C) (ditems D (ev c3) g))"
    "\<And>D J view ks vs GV. dsched_ok D c3 \<Longrightarrow> run_radix_command D J view ks vs c3 GV =
      Some (scatter_effect C (dgroups D (ev c3)) (ditems D (ev c3)) view (j_slices (J (ev c3))) ok ov ik iv ?h len n fb (GV :: 'v rmem))"
    using enqueueScatter_result [OF w2(1) s2(1) sz(2) s2(2) o3 C2] unfolding f2 by blast
  have ad: "adds rs q w e rs' q' [c1, c2, c3]"
    using adds_trans [OF adds_trans [OF c1(1) c2(1)] c3(1)] by simp
  note sp = radix_block_split [OF wf sz, folded len] and sl = rs_wf_slices [OF wf]
  have cf: "scatter_cfg_ok C" "c_rb C = rs_radixBits rs" "c_kb C = 8 * rs_keySize rs" "c_slc C = rs_scatterSlice rs"
    "c_wgs C = rs_scatterWorkGroupSize rs" "c_values C = ?hv" using wf C by (simp_all add: rs_wf_def)
  have cfg: "reduce_cfg_ok (c_rb C) (rs_reduceWorkGroupSize rs)" "scan_cfg_ok (c_rb C) (rs_scanWorkGroupSize rs) (rs_scanBlocks rs)"
    using wf by (simp_all add: rs_wf_def cf)
  have N: "?B = ?B div rs_slices rs * (c_wgs C div c_slc C)" using sp(2) by (simp add: cf rs_slices_def)
  show thesis
  proof (rule that [OF ad c3(2)], goal_cases)
    case (1 D J view ks vs GV)
    obtain G V where GV: "GV = (G, V)" by fastforce
    have D: "dsched_ok D c1" "dsched_ok D c2" "dsched_ok D c3" using 1(1) by auto
    define h1 where "h1 = radixsortReduce (ditems D (ev c1)) (dgroups D (ev c1)) (j_hist (J (ev c1))) (c_rb C) fb
        (rs_reduceWorkGroupSize rs) (G ik) len n (G ?h)"
    define h2 where "h2 = radixsortScan (ditems D (ev c2) 0) (j_scan (J (ev c2))) (j_sums (J (ev c2))) (c_rb C)
        (rs_scanWorkGroupSize rs) (rs_scanBlocks rs) ?B h1"
    define outs where "outs = radixsortScatter C (ditems D (ev c3)) (dgroups D (ev c3)) view (j_slices (J (ev c3)))
        (G ik) (V (if ?hv then iv else 0)) h2 len n fb (G ok, V (if ?hv then ov else 0))"
    have kb: "G ik i < 2 ^ c_kb C" if "i < n" for i using 1(2) [OF that] by (simp add: GV b cf)
    have fb': "fb \<le> c_kb C" using fb by (simp add: cf)
    have S1: "schedule ?B (dgroups D (ev c1))" "\<And>g. valid (rs_reduceWorkGroupSize rs) (ditems D (ev c1) g)"
      using c1(2) [OF D(1)] by auto
    have S3: "schedule (?B div rs_slices rs) (dgroups D (ev c3))" "\<And>g. valid (c_wgs C) (ditems D (ev c3) g)"
      using c3(3) [OF D(3)] by auto
    note ps = pass_result [OF cf(1) cfg S1 c2(2) [OF D(2)] S3 N sp(4,6,5) fb' kb h1_def h2_def outs_def]
    define GV' where "GV' = (G(?h := h2, ok := fst outs), if ?hv then V(ov := snd outs) else V)"
    have "run_radix_command D J view ks vs c1 (G, V) = Some (G(?h := h1), V)"
      using c1(3) [OF D(1), of J view ks vs G V] by (simp add: h1_def cf)
    moreover have "run_radix_command D J view ks vs c2 (G(?h := h1), V) = Some (G(?h := h2), V)"
      using c2(3) [OF D(2), of J view ks vs "G(?h := h1)" V] by (simp add: h2_def cf)
    moreover have "run_radix_command D J view ks vs c3 (G(?h := h2), V) = Some GV'"
    proof -
      have m: "(G(?h := h2)) ik = G ik" "(G(?h := h2)) ok = G ok" "(G(?h := h2)) ?h = h2" using d by auto
      show ?thesis
        unfolding c3(4) [OF D(3)] scatter_effect_def fst_conv snd_conv m GV'_def outs_def cf(6) Let_def by (simp split: if_split)
    qed
    ultimately have "run_all (run_radix_command D J view ks vs) [c1, c2, c3] GV = Some GV'" by (simp add: GV)
    moreover have "contents ?hv GV' (ok, ov) n = sort_key (\<lambda>kv. key_digit (rs_radixBits rs) fb (fst kv)) (contents ?hv GV (ik, iv) n)"
    proof -
      have "contents ?hv GV' (ok, ov) n = map (\<lambda>i. (fst outs i, if c_values C then Some (snd outs i) else None)) [0..<n]"
        by (simp add: contents_def GV'_def cf)
      also note ps(1)
      finally show ?thesis by (simp add: contents_def GV cf cong: if_cong)
    qed
    moreover have "only_changes ?h {ok} (if ?hv then {ov} else {}) n GV GV'"
      using ps(2,3) by (auto simp: only_changes_def GV GV'_def cf)
    ultimately show ?case unfolding b fst_conv snd_conv by blast
  qed
qed

section \<open>The loop\<close>

lemma contents_bound:
  "(\<forall>i<n. fst GV (fst b) i < m) \<longleftrightarrow> (\<forall>kv\<in>set (contents hv GV b n). fst kv < m)"
  by (auto simp: contents_def)

lemma only_changes_mono:
  assumes c: "only_changes h K W n GV GV'" and sub: "K \<subseteq> K'" "W \<subseteq> W'"
  shows "only_changes h K' W' n GV GV'"
  unfolding only_changes_def
proof (intro conjI allI impI)
  fix b i
  show "fst GV' b = fst GV b" "snd GV' b = snd GV b" if "b \<notin> insert h (K' \<union> W')"
    using c sub that unfolding only_changes_def by blast+
  show "fst GV' b i = fst GV b i" if *: "b \<in> K' \<and> b \<notin> insert h W' \<and> n \<le> i"
  proof -
    have "b \<notin> W" using * sub(2) by blast
    then show ?thesis using c * unfolding only_changes_def by (cases "b \<in> K") auto
  qed
  show "snd GV' b i = snd GV b i" if *: "b \<in> W' \<and> b \<notin> insert h K' \<and> n \<le> i"
  proof -
    have "b \<notin> K" using * sub(1) by blast
    then show ?thesis using c * unfolding only_changes_def by (cases "b \<in> W") auto
  qed
qed

lemma only_changes_trans:
  "only_changes h K W n GV GV1 \<Longrightarrow> only_changes h K W n GV1 GV2 \<Longrightarrow> only_changes h K W n GV GV2"
  by (auto simp: only_changes_def)

definition key_bufs :: "(bool \<Rightarrow> nat \<times> nat) \<Rightarrow> nat set" where
  "key_bufs bufs = {fst (bufs False), fst (bufs True)}"

definition value_bufs :: "'a radixsort \<Rightarrow> (bool \<Rightarrow> nat \<times> nat) \<Rightarrow> nat set" where
  "value_bufs rs bufs = (if rs_valueSize rs \<noteq> 0 then {snd (bufs False), snd (bufs True)} else {})"

text \<open>What a list of commands does that has sorted by the lowest \<open>b'\<close> bits, starting from \<open>b\<close> bits.\<close>

definition sorts_bits ::
  "'a radixsort \<Rightarrow> (bool \<Rightarrow> nat \<times> nat) \<Rightarrow> nat \<Rightarrow> (nat \<times> 'v option) list \<Rightarrow> nat \<Rightarrow> bool \<Rightarrow> nat \<Rightarrow> bool \<Rightarrow>
   dsched \<Rightarrow> (nat \<Rightarrow> 'v radix_junk) \<Rightarrow> ((nat \<Rightarrow> 'v) \<Rightarrow> levels) \<Rightarrow> 'v rmem \<Rightarrow> 'a command list \<Rightarrow> bool" where
  "sorts_bits rs bufs n xs b sw b' sw' D J view GV cs \<longleftrightarrow>
     ((\<forall>c\<in>set cs. dsched_ok D c) \<longrightarrow> (\<forall>kv\<in>set xs. fst kv < 2 ^ (8 * rs_keySize rs)) \<longrightarrow>
      contents (rs_valueSize rs \<noteq> 0) GV (bufs sw) n = sort_key (\<lambda>kv. fst kv mod 2 ^ b) xs \<longrightarrow>
      (\<exists>GV'. run_all (run_radix_command D J view (rs_keySize rs) (rs_valueSize rs)) cs GV = Some GV'
        \<and> contents (rs_valueSize rs \<noteq> 0) GV' (bufs sw') n = sort_key (\<lambda>kv. fst kv mod 2 ^ b') xs
        \<and> only_changes (rs_histogram rs) (key_bufs bufs) (value_bufs rs bufs) n GV GV'))"

lemma radix_pass_sorts:
  assumes wf: "rs_wf rs" and sz: "radix_sizes_ok rs n" "0 < n" and len: "len = getBlockSize rs n"
    and fb: "fb \<le> 8 * rs_keySize rs" and ap: "bufs_apart (rs_histogram rs) bufs"
    and op: "radix_pass drv bufs len n fb sw w (rs, q) = (Inr e, rs', q')"
  shows "\<exists>cs. adds rs q w e rs' q' cs
    \<and> (\<forall>D J view GV xs. sorts_bits rs bufs n (xs :: (nat \<times> 'v option) list) fb sw (fb + rs_radixBits rs) (\<not> sw) D J view GV cs)"
proof -
  obtain C where C: "scatter_config (rs_scatterKernel rs) = Some C" using wf by (auto simp: rs_wf_def split: option.splits)
  obtain cs where ad: "adds rs q w e rs' q' cs"
    and run: "\<And>D J view ks vs GV. (\<And>c. c \<in> set cs \<Longrightarrow> dsched_ok D c) \<Longrightarrow>
      (\<And>i. i < n \<Longrightarrow> fst GV (fst (bufs sw)) i < 2 ^ (8 * rs_keySize rs)) \<Longrightarrow>
      \<exists>GV'. run_all (run_radix_command D J view ks vs) cs GV = Some (GV' :: 'v rmem)
        \<and> contents (rs_valueSize rs \<noteq> 0) GV' (bufs (\<not> sw)) n =
            sort_key (\<lambda>kv. key_digit (rs_radixBits rs) fb (fst kv)) (contents (rs_valueSize rs \<noteq> 0) GV (bufs sw) n)
        \<and> only_changes (rs_histogram rs) {fst (bufs (\<not> sw))}
            (if rs_valueSize rs \<noteq> 0 then {snd (bufs (\<not> sw))} else {}) n GV GV'"
    by (rule radix_pass_result [OF wf sz len C fb ap op]) blast
  have "sorts_bits rs bufs n xs fb sw (fb + rs_radixBits rs) (\<not> sw) D J view GV cs"
    for D J view and GV :: "'v rmem" and xs
    unfolding sorts_bits_def
  proof (intro impI)
    assume D: "\<forall>c\<in>set cs. dsched_ok D c" and xs: "\<forall>kv\<in>set xs. fst kv < 2 ^ (8 * rs_keySize rs)"
      and cur: "contents (rs_valueSize rs \<noteq> 0) GV (bufs sw) n = sort_key (\<lambda>kv. fst kv mod 2 ^ fb) xs"
    have "\<forall>kv\<in>set (contents (rs_valueSize rs \<noteq> 0) GV (bufs sw) n). fst kv < 2 ^ (8 * rs_keySize rs)"
      unfolding cur using xs by simp
    then have "\<forall>i<n. fst GV (fst (bufs sw)) i < 2 ^ (8 * rs_keySize rs)" unfolding contents_bound [symmetric] .
    then obtain GV' where G: "run_all (run_radix_command D J view (rs_keySize rs) (rs_valueSize rs)) cs GV = Some GV'"
      "contents (rs_valueSize rs \<noteq> 0) GV' (bufs (\<not> sw)) n =
            sort_key (\<lambda>kv. key_digit (rs_radixBits rs) fb (fst kv)) (contents (rs_valueSize rs \<noteq> 0) GV (bufs sw) n)"
      "only_changes (rs_histogram rs) {fst (bufs (\<not> sw))} (if rs_valueSize rs \<noteq> 0 then {snd (bufs (\<not> sw))} else {}) n GV GV'"
      using run [of D GV J view "rs_keySize rs" "rs_valueSize rs"] D by blast
    have "contents (rs_valueSize rs \<noteq> 0) GV' (bufs (\<not> sw)) n = sort_key (\<lambda>kv. fst kv mod 2 ^ (fb + rs_radixBits rs)) xs"
      unfolding G(2) cur by (rule sort_key_pass)
    moreover have "only_changes (rs_histogram rs) (key_bufs bufs) (value_bufs rs bufs) n GV GV'"
      by (rule only_changes_mono [OF G(3)]; cases sw; auto simp: key_bufs_def value_bufs_def)
    ultimately show "\<exists>GV'. run_all (run_radix_command D J view (rs_keySize rs) (rs_valueSize rs)) cs GV = Some GV'
        \<and> contents (rs_valueSize rs \<noteq> 0) GV' (bufs (\<not> sw)) n = sort_key (\<lambda>kv. fst kv mod 2 ^ (fb + rs_radixBits rs)) xs
        \<and> only_changes (rs_histogram rs) (key_bufs bufs) (value_bufs rs bufs) n GV GV'"
      using G(1) by blast
  qed
  then show ?thesis using ad by blast
qed

lemma sorts_bits_trans:
  assumes "sorts_bits rs bufs n xs b sw b1 sw1 D J view GV cs"
    and "\<And>GV. sorts_bits rs1 bufs n xs b1 sw1 b2 sw2 D J view GV ds" and same: "same_sort rs rs1"
  shows "sorts_bits rs bufs n xs b sw b2 sw2 D J view GV (cs @ ds)"
  unfolding sorts_bits_def
proof (intro impI)
  assume D: "\<forall>c\<in>set (cs @ ds). dsched_ok D c" and xs: "\<forall>kv\<in>set xs. fst kv < 2 ^ (8 * rs_keySize rs)"
    and cur: "contents (rs_valueSize rs \<noteq> 0) GV (bufs sw) n = sort_key (\<lambda>kv. fst kv mod 2 ^ b) xs"
  note f = same_sort_fields [OF same]
  have vb: "value_bufs rs1 bufs = value_bufs rs bufs" by (simp add: value_bufs_def f)
  obtain GV1 where G1: "run_all (run_radix_command D J view (rs_keySize rs) (rs_valueSize rs)) cs GV = Some GV1"
    "contents (rs_valueSize rs \<noteq> 0) GV1 (bufs sw1) n = sort_key (\<lambda>kv. fst kv mod 2 ^ b1) xs"
    "only_changes (rs_histogram rs) (key_bufs bufs) (value_bufs rs bufs) n GV GV1"
    using assms(1) D xs cur unfolding sorts_bits_def by auto
  obtain GV2 where G2: "run_all (run_radix_command D J view (rs_keySize rs) (rs_valueSize rs)) ds GV1 = Some GV2"
    "contents (rs_valueSize rs \<noteq> 0) GV2 (bufs sw2) n = sort_key (\<lambda>kv. fst kv mod 2 ^ b2) xs"
    "only_changes (rs_histogram rs) (key_bufs bufs) (value_bufs rs bufs) n GV1 GV2"
    using assms(2) [of GV1] D xs G1(2) unfolding sorts_bits_def f vb by auto
  show "\<exists>GV'. run_all (run_radix_command D J view (rs_keySize rs) (rs_valueSize rs)) (cs @ ds) GV = Some GV'
        \<and> contents (rs_valueSize rs \<noteq> 0) GV' (bufs sw2) n = sort_key (\<lambda>kv. fst kv mod 2 ^ b2) xs
        \<and> only_changes (rs_histogram rs) (key_bufs bufs) (value_bufs rs bufs) n GV GV'"
    using G1(1) G2(1,2) only_changes_trans [OF G1(3) G2(3)] by (intro exI [of _ GV2]) (simp add: run_all_append)
qed

lemma radix_passes_result:
  assumes "rs_wf rs" "radix_sizes_ok rs n" "0 < n" "len = getBlockSize rs n" "bufs_apart (rs_histogram rs) bufs"
    and "maxBits \<le> 8 * rs_keySize rs" "rb = rs_radixBits rs" "fb < maxBits"
    and "radix_passes drv bufs len n rb maxBits events fb sw nxt (rs, q) = (Inr (sw', nxt'), rs', q')"
  shows "\<exists>cs e b'. nxt' = Some e \<and> adds rs q (wait_for events nxt) e rs' q' cs \<and> maxBits \<le> b'
    \<and> (\<forall>D J view GV xs. sorts_bits rs bufs n (xs :: (nat \<times> 'v option) list) fb sw b' sw' D J view GV cs)"
  using assms
proof (induction "maxBits - fb" arbitrary: fb sw nxt rs q rule: less_induct)
  case less
  have rb: "0 < rb" using less.prems(1,7) rs_wf_slices(7) by fastforce
  have step: "radix_passes drv bufs len n rb maxBits events fb sw nxt (rs, q) =
      (case radix_pass drv bufs len n fb sw (wait_for events nxt) (rs, q) of
             (Inl e, st') \<Rightarrow> (Inl e, st')
           | (Inr e, st') \<Rightarrow> radix_passes drv bufs len n rb maxBits events (fb + rb) (\<not> sw) (Some e) st')"
    using less.prems(8) rb by (subst radix_passes.simps) simp
  obtain e rs1 q1 where p: "radix_pass drv bufs len n fb sw (wait_for events nxt) (rs, q) = (Inr e, rs1, q1)"
    and r: "radix_passes drv bufs len n rb maxBits events (fb + rb) (\<not> sw) (Some e) (rs1, q1) = (Inr (sw', nxt'), rs', q')"
    using less.prems(9) unfolding step by (auto split: prod.splits sum.splits)
  have "fb \<le> 8 * rs_keySize rs" using less.prems(6,8) by simp
  from radix_pass_sorts [OF less.prems(1-4) this less.prems(5) p]
  obtain cs where cs: "adds rs q (wait_for events nxt) e rs1 q1 cs"
    "\<And>D J view GV xs. sorts_bits rs bufs n (xs :: (nat \<times> 'v option) list) fb sw (fb + rb) (\<not> sw) D J view GV cs"
    unfolding less.prems(7) by blast
  show ?case
  proof (cases "fb + rb < maxBits")
    case False
    then have "sw' = (\<not> sw)" "nxt' = Some e" "rs' = rs1" "q' = q1" using r by (simp_all add: radix_passes.simps)
    then show ?thesis using cs False by (intro exI [of _ cs] exI [of _ e] exI [of _ "fb + rb"]) simp
  next
    case True
    have w: "rs_wf rs1" "same_sort rs rs1" using adds_wf [OF cs(1) less.prems(1)] by auto
    note f = same_sort_fields [OF w(2)]
    have d: "maxBits - (fb + rb) < maxBits - fb" using less.prems(8) rb by simp
    have "\<exists>ds e' b'. nxt' = Some e' \<and> adds rs1 q1 (wait_for events (Some e)) e' rs' q' ds \<and> maxBits \<le> b'
      \<and> (\<forall>D J view GV xs. sorts_bits rs1 bufs n (xs :: (nat \<times> 'v option) list) (fb + rb) (\<not> sw) b' sw' D J view GV ds)"
      by (rule less.hyps [OF d w(1) _ less.prems(3) _ _ _ _ True r]) (use less.prems in \<open>simp_all add: f\<close>)
    then obtain ds e' b' where ds: "nxt' = Some e'" "adds rs1 q1 (Some [e]) e' rs' q' ds" "maxBits \<le> b'"
      "\<And>D J view GV xs. sorts_bits rs1 bufs n (xs :: (nat \<times> 'v option) list) (fb + rb) (\<not> sw) b' sw' D J view GV ds"
      unfolding wait_for_def by auto
    show ?thesis
      using ds(1,3) adds_trans [OF cs(1) ds(2)] sorts_bits_trans [OF cs(2) ds(4) w(2)] by blast
  qed
qed

section \<open>Copying back, and the whole\<close>

definition radix_apart :: "'a radixsort \<Rightarrow> (bool \<Rightarrow> nat \<times> nat) \<Rightarrow> bool" where
  "radix_apart rs bufs \<longleftrightarrow> distinct [rs_histogram rs, fst (bufs False), fst (bufs True)]
     \<and> (rs_valueSize rs \<noteq> 0 \<longrightarrow>
          distinct [rs_histogram rs, fst (bufs False), fst (bufs True), snd (bufs False), snd (bufs True)])"

lemma radix_copy_result:
  "radix_copy drv src dst m w (rs, q) = (Inr e, rs', q') \<longleftrightarrow>
   drv \<lparr>act = CopyBuf src dst m, waits = wait_list w, ev = next_ev q\<rparr> = CL_SUCCESS \<and> rs' = rs \<and> e = next_ev q \<and>
   q' = notify (rs_alg rs) e (q\<lparr>cmds := cmds q @ [\<lparr>act = CopyBuf src dst m, waits = wait_list w, ev = next_ev q\<rparr>],
      next_ev := Suc (next_ev q)\<rparr>)"
  by (auto simp: radix_copy_def enqueueCopyBuffer_def enqueue_action_def Let_def split: if_splits)

lemma radix_copy_adds:
  assumes "radix_copy drv src dst m w (rs, q) = (Inr e, rs', q')"
  shows "rs' = rs" "adds rs q w e rs' q' [\<lparr>act = CopyBuf src dst m, waits = wait_list w, ev = next_ev q\<rparr>]"
  using assms by (auto simp: radix_copy_result adds_def)

lemma radix_copy_back_result:
  assumes wf: "rs_wf rs" and sz: "radix_sizes_ok rs n" and ap: "radix_apart rs bufs"
    and op: "radix_copy_back drv bufs n events (True, Some e0) (rs, q) = (Inr nxt, rs', q')"
  shows "\<exists>cs e. nxt = Some e \<and> adds rs q (Some [e0]) e rs' q' cs
    \<and> (\<forall>D J view GV xs b. sorts_bits rs bufs n (xs :: (nat \<times> 'v option) list) b True b False D J view GV cs)"
proof -
  let ?ks = "rs_keySize rs" and ?vs = "rs_valueSize rs"
  obtain kF vF kT vT where b: "bufs False = (kF, vF)" "bufs True = (kT, vT)" by fastforce
  have ks: "0 < ?ks" "?ks \<le> 8" "?vs \<le> 128" using wf by (auto simp: rs_wf_def)
  have n: "n \<le> 2 ^ 31" using sz by (simp add: radix_sizes_ok_def)
  have "n * ?ks \<le> 2 ^ 31 * 8" "n * ?vs \<le> 2 ^ 31 * 128" using ks n by (intro mult_mono; simp)+
  then have u: "u64 (n * ?ks) = n * ?ks" "u64 (n * ?vs) = n * ?vs" by (simp_all add: u64_small)
  define c1 where "c1 = \<lparr>act = CopyBuf kT kF (n * ?ks) :: 'a action, waits = [e0], ev = next_ev q\<rparr>"
  obtain e1 q1 where o1: "radix_copy drv kT kF (n * ?ks) (Some [e0]) (rs, q) = (Inr e1, rs, q1)"
    and o2: "if ?vs \<noteq> 0 then \<exists>e. radix_copy drv vT vF (n * ?vs) (Some [e1]) (rs, q1) = (Inr e, rs', q') \<and> nxt = Some e
             else nxt = Some e1 \<and> rs' = rs \<and> q' = q1"
  proof -
    from op obtain e1 st1 where a: "radix_copy drv kT kF (n * ?ks) (Some [e0]) (rs, q) = (Inr e1, st1)"
      and r: "(if ?vs \<noteq> 0 then bind_op (radix_copy drv vT vF (n * ?vs) (Some [e1])) (\<lambda>e'. return_op (Some e'))
             else return_op (Some e1)) st1 = (Inr nxt, rs', q')"
      unfolding radix_copy_back_def fst_conv snd_conv if_True b u wait_for_def option.case by (auto simp: bind_op_Inr)
    obtain rs1 q1 where st1: "st1 = (rs1, q1)" by fastforce
    have "rs1 = rs" using radix_copy_adds(1) a st1 by blast
    then show thesis using that [of e1 q1] a r st1 by (auto simp: bind_op_Inr return_op_def split: if_splits)
  qed
  have a1: "adds rs q (Some [e0]) e1 rs q1 [c1]" using radix_copy_adds(2) [OF o1] by (simp add: c1_def)
  have d: "kF \<noteq> kT" "?vs \<noteq> 0 \<longrightarrow> kF \<noteq> vF \<and> kF \<noteq> vT \<and> vF \<noteq> vT \<and> kT \<noteq> vF" using ap b by (auto simp: radix_apart_def)
  show ?thesis
  proof (cases "?vs = 0")
    case True
    then have r: "nxt = Some e1" "rs' = rs" "q' = q1" using o2 by auto
    have "sorts_bits rs bufs n xs b True b False D J view GV [c1]" for D J view GV b and xs :: "(nat \<times> 'v option) list"
      unfolding sorts_bits_def
    proof (intro impI)
      assume cur: "contents (?vs \<noteq> 0) GV (bufs True) n = sort_key (\<lambda>kv. fst kv mod 2 ^ b) xs"
      let ?GV = "((fst GV)(kF := (\<lambda>i. if i < n then fst GV kT i else fst GV kF i)), (snd GV)(kF := (\<lambda>i. snd GV kF i)))"
      have "run_all (run_radix_command D J view ?ks ?vs) [c1] GV = Some ?GV"
        using True ks(1) by (simp add: run_radix_command_def c1_def)
      moreover have "contents (?vs \<noteq> 0) ?GV (bufs False) n = contents (?vs \<noteq> 0) GV (bufs True) n"
        by (simp add: contents_def b True)
      moreover have "only_changes (rs_histogram rs) (key_bufs bufs) (value_bufs rs bufs) n GV ?GV"
        by (auto simp: only_changes_def key_bufs_def b)
      ultimately show "\<exists>GV'. run_all (run_radix_command D J view ?ks ?vs) [c1] GV = Some GV'
          \<and> contents (?vs \<noteq> 0) GV' (bufs False) n = sort_key (\<lambda>kv. fst kv mod 2 ^ b) xs
          \<and> only_changes (rs_histogram rs) (key_bufs bufs) (value_bufs rs bufs) n GV GV'"
        unfolding cur [symmetric] by blast
    qed
    then show ?thesis using a1 unfolding r by blast
  next
    case False
    then obtain e where o: "radix_copy drv vT vF (n * ?vs) (Some [e1]) (rs, q1) = (Inr e, rs', q')" "nxt = Some e"
      using o2 by auto
    define c2 where "c2 = \<lparr>act = CopyBuf vT vF (n * ?vs) :: 'a action, waits = [e1], ev = next_ev q1\<rparr>"
    have a2: "adds rs q1 (Some [e1]) e rs' q' [c2]" using radix_copy_adds(2) [OF o(1)] by (simp add: c2_def)
    have "sorts_bits rs bufs n xs b True b False D J view GV ([c1] @ [c2])" for D J view GV b and xs :: "(nat \<times> 'v option) list"
      unfolding sorts_bits_def
    proof (intro impI)
      assume cur: "contents (?vs \<noteq> 0) GV (bufs True) n = sort_key (\<lambda>kv. fst kv mod 2 ^ b) xs"
      define GV1 where "GV1 = ((fst GV)(kF := (\<lambda>i. if i < n then fst GV kT i else fst GV kF i)),
          (snd GV)(kF := (\<lambda>i. if i < n * ?ks div ?vs then snd GV kT i else snd GV kF i)))"
      define GV2 where "GV2 = ((fst GV1)(vF := (\<lambda>i. if i < n * ?vs div ?ks then fst GV1 vT i else fst GV1 vF i)),
          (snd GV1)(vF := (\<lambda>i. if i < n then snd GV1 vT i else snd GV1 vF i)))"
      have "run_radix_command D J view ?ks ?vs c1 GV = Some GV1" "run_radix_command D J view ?ks ?vs c2 GV1 = Some GV2"
        using False ks(1) by (simp_all add: run_radix_command_def c1_def c2_def GV1_def [symmetric] GV2_def)
      then have "run_all (run_radix_command D J view ?ks ?vs) ([c1] @ [c2]) GV = Some GV2" by simp
      moreover have "contents (?vs \<noteq> 0) GV2 (bufs False) n = contents (?vs \<noteq> 0) GV (bufs True) n"
        using d False by (simp add: contents_def b GV1_def GV2_def)
      moreover have "only_changes (rs_histogram rs) (key_bufs bufs) (value_bufs rs bufs) n GV GV2"
        using False d by (auto simp: only_changes_def key_bufs_def value_bufs_def b GV1_def GV2_def)
      ultimately show "\<exists>GV'. run_all (run_radix_command D J view ?ks ?vs) ([c1] @ [c2]) GV = Some GV'
          \<and> contents (?vs \<noteq> 0) GV' (bufs False) n = sort_key (\<lambda>kv. fst kv mod 2 ^ b) xs
          \<and> only_changes (rs_histogram rs) (key_bufs bufs) (value_bufs rs bufs) n GV GV'"
        unfolding cur [symmetric] by blast
    qed
    then show ?thesis using adds_trans [OF a1 a2] o(2) by blast
  qed
qed

end
