(* ===== verification/RadixEnqueue.thy ===== *)
theory RadixEnqueue
  imports RadixHost
begin

text \<open>
  \<^verbatim>\<open>Radixsort::enqueue\<close> as a whole, with the exported function around it: what it rejects, and
  that in the only legal order of the queued commands, for every behaviour of the device, the
  keys (with their values) come out stably sorted.
\<close>

section \<open>The exported functions\<close>

definition Radixsort_enqueue ::
  "('a command \<Rightarrow> int) \<Rightarrow> (nat \<Rightarrow> nat \<Rightarrow> int \<times> buffer) \<Rightarrow> buffer \<Rightarrow> buffer \<Rightarrow> nat \<Rightarrow> nat \<Rightarrow> nat list option \<Rightarrow>
   'a radixsort option \<times> 'a queue \<Rightarrow> nat result \<times> 'a radixsort option \<times> 'a queue" where
  "Radixsort_enqueue drv alloc keys values n maxBits = public_enqueue (radix_enqueue drv alloc keys values n maxBits)"

text \<open>The exported \<^verbatim>\<open>setTemporaryBuffers\<close>: a null handle is an error.\<close>

definition Radixsort_setTemporaryBuffers ::
  "buffer option \<Rightarrow> buffer option \<Rightarrow> 'a radixsort option \<Rightarrow> 'a radixsort option result" where
  "Radixsort_setTemporaryBuffers keys values d =
     abi_wrap (abi_catch (bind_result (checkNull d) (\<lambda>_. Inr (map_option (setTemporaryBuffers keys values) d))))"

section \<open>Errors\<close>

definition cl_failure :: "exn \<Rightarrow> bool" where
  "cl_failure e \<longleftrightarrow> (\<exists>c m. e = ClError c m \<and> c \<noteq> CL_SUCCESS)"

lemma radix_launch_error: "radix_launch drv sel g l w st = (Inl e, st') \<Longrightarrow> cl_failure e"
  by (auto simp: radix_launch_def cl_failure_def split: prod.splits sum.splits dest: enqueue_error)

lemma radix_copy_error: "radix_copy drv src dst m w st = (Inl e, st') \<Longrightarrow> cl_failure e"
  by (auto simp: radix_copy_def cl_failure_def split: prod.splits sum.splits dest: enqueue_error)

lemma enqueue_parts_error:
  "enqueueReduce drv ob ib len n fb w st = (Inl e, st') \<Longrightarrow> cl_failure e"
  "enqueueScan drv hb bl w st = (Inl e, st') \<Longrightarrow> cl_failure e"
  "enqueueScatter drv ok ov ik iv hb len n fb w st = (Inl e, st') \<Longrightarrow> cl_failure e"
  by (auto simp: enqueueReduce_def enqueueScan_def enqueueScatter_def Let_def split: prod.splits dest: radix_launch_error)

lemma bind_op_Inl:
  "bind_op m f st = (Inl e, st') \<longleftrightarrow> m st = (Inl e, st') \<or> (\<exists>y st1. m st = (Inr y, st1) \<and> f y st1 = (Inl e, st'))"
  by (auto simp: bind_op_def split: prod.splits sum.splits)

lemma radix_pass_error: "radix_pass drv bufs len n fb sw w st = (Inl e, st') \<Longrightarrow> cl_failure e"
  by (auto simp: radix_pass_def Let_def bind_op_Inl dest: enqueue_parts_error)

lemma radix_passes_error:
  "radix_passes drv bufs len n rb maxBits events fb sw nxt st = (Inl e, st') \<Longrightarrow> cl_failure e"
proof (induction drv bufs len n rb maxBits events fb sw nxt st rule: radix_passes.induct)
  case (1 drv bufs len n rb maxBits events fb sw nxt st)
  show ?case
  proof (cases "fb < maxBits \<and> 0 < rb")
    case True
    have step: "radix_passes drv bufs len n rb maxBits events fb sw nxt st =
        (case radix_pass drv bufs len n fb sw (wait_for events nxt) st of
             (Inl e, st') \<Rightarrow> (Inl e, st')
           | (Inr e, st') \<Rightarrow> radix_passes drv bufs len n rb maxBits events (fb + rb) (\<not> sw) (Some e) st')"
      using True by (subst radix_passes.simps) simp
    show ?thesis using 1(2) 1(1) [OF True] unfolding step by (auto split: prod.splits sum.splits dest: radix_pass_error)
  next
    case False
    then show ?thesis using 1(2) by (subst (asm) radix_passes.simps) (simp split: if_splits)
  qed
qed

lemma radix_copy_back_error: "radix_copy_back drv bufs n events r st = (Inl e, st') \<Longrightarrow> cl_failure e"
  by (auto simp: radix_copy_back_def bind_op_Inl return_op_def split: if_splits dest: radix_copy_error)

lemma radix_validate_error: "radix_validate rs keys values n maxBits = Inl e \<Longrightarrow> cl_failure e"
  by (auto simp: radix_validate_def cl_failure_def CL_SUCCESS_def CL_INVALID_VALUE_def CL_INVALID_GLOBAL_WORK_SIZE_def
      split: if_splits)

lemma tmp_buffer_error: "tmp_buffer (create_buffer alloc i) user bytes = Inl e \<Longrightarrow> cl_failure e"
  by (auto simp: tmp_buffer_def create_buffer_def cl_failure_def split: option.splits if_splits prod.splits)

lemma bind_result_Inl: "bind_result r f = Inl e \<longleftrightarrow> r = Inl e \<or> (\<exists>x. r = Inr x \<and> f x = Inl e)"
  by (cases r) auto

lemma radix_temporaries_error: "radix_temporaries alloc rs n = Inl e \<Longrightarrow> cl_failure e"
  by (auto simp: radix_temporaries_def bind_result_Inl split: if_splits dest: tmp_buffer_error)

lemma radix_enqueue_error:
  "radix_enqueue drv alloc keys values n maxBits events st = (Inl e, st') \<Longrightarrow> \<exists>c m. e = ClError c m \<and> c \<noteq> CL_SUCCESS"
  by (fold cl_failure_def)
    (auto simp: radix_enqueue_def Let_def bind_op_Inl return_op_def split: sum.splits prod.splits
      dest: radix_validate_error radix_temporaries_error radix_passes_error radix_copy_back_error)

interpretation xop: cl_operation "radix_enqueue drv alloc keys vals n maxBits" for drv alloc keys vals n maxBits
  by unfold_locales (rule radix_enqueue_error)

section \<open>The sort as a whole\<close>

abbreviation radix_bufs :: "buffer \<Rightarrow> buffer \<Rightarrow> buffer \<times> buffer \<Rightarrow> bool \<Rightarrow> nat \<times> nat" where
  "radix_bufs keys vals t \<equiv> \<lambda>sw. if sw then (buf_id (fst t), buf_id (snd t)) else (buf_id keys, buf_id vals)"

text \<open>What the successful call has queued, and what it does.\<close>

lemma radix_enqueue_result:
  assumes wf: "rs_wf rs" and sz: "radix_sizes_ok rs n"
    and ap: "\<And>t. radix_temporaries alloc rs n = Inr t \<Longrightarrow> radix_apart rs (radix_bufs keys vals t)"
    and op: "radix_enqueue drv alloc keys vals n maxBits events (rs, q) = (Inr e, rs', q')"
  shows "\<exists>cs t b'. adds rs q events e rs' q' cs \<and> radix_temporaries alloc rs n = Inr t
    \<and> (if maxBits = 0 then 8 * rs_keySize rs else maxBits) \<le> b' \<and> 0 < n
    \<and> (\<forall>D J view GV xs. sorts_bits rs (radix_bufs keys vals t) n (xs :: (nat \<times> 'v option) list) 0 False b' False D J view GV cs)"
proof -
  from op obtain bits t where v: "radix_validate rs keys vals n maxBits = Inr bits" and t: "radix_temporaries alloc rs n = Inr t"
    by (auto simp: radix_enqueue_def Let_def split: sum.splits)
  have bits: "bits = (if maxBits = 0 then 8 * rs_keySize rs else maxBits)" "bits \<le> 8 * rs_keySize rs" "0 < n"
    using v by (auto simp: radix_validate_def split: if_splits)
  have "0 < rs_keySize rs" using wf by (auto simp: rs_wf_def)
  then have b0: "0 < bits" using bits(1) by simp
  let ?bufs = "radix_bufs keys vals t"
  from op obtain sw nxt rs1 q1 nx where
    p: "radix_passes drv ?bufs (getBlockSize rs n) n (rs_radixBits rs) bits events 0 False None (rs, q) = (Inr (sw, nxt), rs1, q1)"
    and c: "radix_copy_back drv ?bufs n events (sw, nxt) (rs1, q1) = (Inr nx, rs', q')"
    and e: "e = (case nx of None \<Rightarrow> 0 | Some e \<Rightarrow> e)"
  proof -
    obtain tk tv where tt: "t = (tk, tv)" by fastforce
    show thesis using op that
      unfolding radix_enqueue_def Let_def fst_conv snd_conv v t tt sum.case prod.case bind_op_Inr return_op_def by auto
  qed
  have ap': "radix_apart rs ?bufs" using ap [OF t] .
  have bs: "bufs_apart (rs_histogram rs) ?bufs" using ap' by (simp add: radix_apart_def bufs_apart_def)
  obtain cs e0 b' where nx: "nxt = Some e0" and ad: "adds rs q events e0 rs1 q1 cs" and b': "bits \<le> b'"
    and so: "\<And>D J view GV xs. sorts_bits rs ?bufs n (xs :: (nat \<times> 'v option) list) 0 False b' sw D J view GV cs"
    using radix_passes_result [OF wf sz bits(3) refl bs bits(2) refl b0 p] by (auto simp: wait_for_def)
  have w: "rs_wf rs1" "same_sort rs rs1" using adds_wf [OF ad wf] by auto
  note f = same_sort_fields [OF w(2)]
  show ?thesis
  proof (cases sw)
    case False
    then have r: "nx = Some e0" "rs' = rs1" "q' = q1" using c nx by (simp_all add: radix_copy_back_def return_op_def)
    then have "adds rs q events e rs' q' cs" using ad e by simp
    then show ?thesis using t b' bits so False by (intro exI [of _ cs] exI [of _ t] exI [of _ b']) simp
  next
    case True
    have ap1: "radix_apart rs1 ?bufs" using ap' by (simp add: radix_apart_def f)
    have sz1: "radix_sizes_ok rs1 n" using sz by (simp add: f)
    have c': "radix_copy_back drv ?bufs n events (True, Some e0) (rs1, q1) = (Inr nx, rs', q')" using c True nx by simp
    obtain ds e1 where ds: "nx = Some e1" "adds rs1 q1 (Some [e0]) e1 rs' q' ds"
      "\<And>D J view GV xs b. sorts_bits rs1 ?bufs n (xs :: (nat \<times> 'v option) list) b True b False D J view GV ds"
      using radix_copy_back_result [OF w(1) sz1 ap1 c'] by blast
    have "adds rs q events e rs' q' (cs @ ds)" using adds_trans [OF ad ds(2)] ds(1) e by simp
    moreover have "sorts_bits rs ?bufs n (xs :: (nat \<times> 'v option) list) 0 False b' False D J view GV (cs @ ds)" for D J view GV xs
    proof -
      have "sorts_bits rs ?bufs n xs 0 False b' True D J view GV cs" using so [of xs D J view GV] True by simp
      then show ?thesis by (rule sorts_bits_trans [OF _ ds(3) w(2)])
    qed
    ultimately show ?thesis using t b' bits by (intro exI [of _ "cs @ ds"] exI [of _ t] exI [of _ b']) simp
  qed
qed

text \<open>
  The call as a client sees it: the sort of the memory, and what is needed for the next call.
\<close>

lemma radix_public_sorts:
  fixes GV :: "'v rmem"
  assumes "rs_wf rs" and "radix_sizes_ok rs n" and "length (wait_list events) < 2 ^ 32"
    and "\<And>t. radix_temporaries alloc rs n = Inr t \<Longrightarrow> radix_apart rs (radix_bufs keys vals t)"
    and "\<And>i. i < n \<Longrightarrow> fst GV (buf_id keys) i < 2 ^ (if maxBits = 0 then 8 * rs_keySize rs else maxBits)"
    and "Radixsort_enqueue drv alloc keys vals n maxBits events (Some rs, q) = (Inr e, st')"
    and "cmds (snd st') = cmds q @ cs" and "legal_order cs ord" and "\<And>c. c \<in> set cs \<Longrightarrow> dsched_ok D c"
  shows "\<exists>GV'. run_all (run_radix_command D J view (rs_keySize rs) (rs_valueSize rs)) ord GV = Some GV'
    \<and> contents (rs_valueSize rs \<noteq> 0) GV' (buf_id keys, buf_id vals) n =
        sort_key fst (contents (rs_valueSize rs \<noteq> 0) GV (buf_id keys, buf_id vals) n)
    \<and> (\<exists>t. radix_temporaries alloc rs n = Inr t \<and> only_changes (rs_histogram rs)
          {buf_id keys, buf_id (fst t)} (if rs_valueSize rs \<noteq> 0 then {buf_id vals, buf_id (snd t)} else {}) n GV GV')
    \<and> e = ev (last cs)
    \<and> (\<exists>rs' q'. st' = (Some rs', q') \<and> same_sort rs rs' \<and> rs_wf rs' \<and> in_row (wait_list events) (next_ev q) cs)"
proof -
  obtain r rs' q' where r: "radix_enqueue drv alloc keys vals n maxBits (norm_events events) (rs, q) = (r, rs', q')"
    by (cases "radix_enqueue drv alloc keys vals n maxBits (norm_events events) (rs, q)") auto
  from xop.public_result [OF assms(3) r] assms(6) [unfolded Radixsort_enqueue_def]
  have re: "r = Inr e" "st' = (Some rs', q')" by auto
  let ?bits = "if maxBits = 0 then 8 * rs_keySize rs else maxBits" and ?hv = "rs_valueSize rs \<noteq> 0"
  obtain cs' t b' where ad: "adds rs q (norm_events events) e rs' q' cs'" and t: "radix_temporaries alloc rs n = Inr t"
    and b': "?bits \<le> b'" "0 < n"
    and so: "\<And>D J view GV xs. sorts_bits rs (radix_bufs keys vals t) n (xs :: (nat \<times> 'v option) list) 0 False b' False D J view GV cs'"
    using radix_enqueue_result [OF assms(1,2,4) r [unfolded re(1)]] by blast
  have cs: "cs' = cs" using ad assms(7) re(2) by (simp add: adds_def)
  have row: "in_row (wait_list (norm_events events)) (next_ev q) cs" "e = next_ev q + length cs - 1" "cs \<noteq> []"
    using ad cs by (auto simp: adds_def)
  have evs: "map ev cs = [next_ev q..<next_ev q + length cs]" using in_row_events [OF row(1)] .
  have ord: "ord = cs"
    by (rule chain_unique_order [OF in_row_chain [OF row(1)] _ assms(8)]) (simp add: evs)
  have e: "e = ev (last cs)"
  proof -
    have "ev (last cs) = last (map ev cs)" using row(3) by (simp add: last_map)
    then show ?thesis using row(2,3) by (simp add: evs)
  qed
  let ?xs = "contents ?hv GV (buf_id keys, buf_id vals) n"
  have kb: "\<forall>kv\<in>set ?xs. fst kv < 2 ^ ?bits"
    using assms(5) unfolding contents_bound [symmetric] by simp
  have "?bits \<le> 8 * rs_keySize rs"
  proof -
    obtain bits where "radix_validate rs keys vals n maxBits = Inr bits"
      using r re(1) by (auto simp: radix_enqueue_def Let_def split: sum.splits)
    then show ?thesis by (auto simp: radix_validate_def split: if_splits)
  qed
  then have pw: "(2::nat) ^ ?bits \<le> 2 ^ (8 * rs_keySize rs)" "(2::nat) ^ ?bits \<le> 2 ^ b'"
    using b'(1) by (intro power_increasing; simp)+
  have kb1: "\<forall>kv\<in>set ?xs. fst kv < 2 ^ (8 * rs_keySize rs)" using kb pw(1) less_le_trans by blast
  have kb2: "fst kv mod 2 ^ b' = fst kv" if "kv \<in> set ?xs" for kv using kb pw(2) that by (intro mod_less) (blast intro: less_le_trans)
  have start: "contents ?hv GV (radix_bufs keys vals t False) n = sort_key (\<lambda>kv. fst kv mod 2 ^ 0) ?xs"
    by (simp add: sort_key_trivial)
  obtain GV' where G: "run_all (run_radix_command D J view (rs_keySize rs) (rs_valueSize rs)) cs GV = Some GV'"
    "contents ?hv GV' (radix_bufs keys vals t False) n = sort_key (\<lambda>kv. fst kv mod 2 ^ b') ?xs"
    "only_changes (rs_histogram rs) (key_bufs (radix_bufs keys vals t)) (value_bufs rs (radix_bufs keys vals t)) n GV GV'"
    using so [of ?xs D J view GV, unfolded sorts_bits_def cs] assms(9) kb1 start by blast
  have "contents ?hv GV' (buf_id keys, buf_id vals) n = sort_key fst ?xs"
    using G(2) sort_key_cong [of ?xs "\<lambda>kv. fst kv mod 2 ^ b'" fst] kb2 by simp
  moreover have "only_changes (rs_histogram rs) {buf_id keys, buf_id (fst t)}
      (if ?hv then {buf_id vals, buf_id (snd t)} else {}) n GV GV'"
    using G(3) unfolding key_bufs_def value_bufs_def if_True simp_thms if_False fst_conv snd_conv .
  moreover have "same_sort rs rs'" "rs_wf rs'" "in_row (wait_list events) (next_ev q) cs"
    using adds_wf [OF ad assms(1)] row(1) by simp_all
  ultimately show ?thesis using G(1) t e re(2) unfolding ord by blast
qed

text \<open>
  C1. The sort as a whole. When \<^verbatim>\<open>enqueue\<close> returns an event, then in every order in which
  the queue may legally run the new commands, for every order of work-groups, slices and
  work-items and any contents of local memory, the commands succeed and leave the first \<open>n\<close>
  keys in ascending order, each with its value, equal keys in their original order: the
  stable sort of the input by key. Nothing else changes but the histogram, the temporary
  buffers and their padding. The keys must fit in \<^verbatim>\<open>maxBits\<close> bits (0 stands for the
  whole key) and the buffers must be different.
\<close>

theorem radixsort_correct:
  fixes GV :: "'v rmem"
  assumes "rs_wf rs" and "radix_sizes_ok rs n" and "length (wait_list events) < 2 ^ 32"
    and "\<And>t. radix_temporaries alloc rs n = Inr t \<Longrightarrow> radix_apart rs (radix_bufs keys vals t)"
    and "\<And>i. i < n \<Longrightarrow> fst GV (buf_id keys) i < 2 ^ (if maxBits = 0 then 8 * rs_keySize rs else maxBits)"
    and "Radixsort_enqueue drv alloc keys vals n maxBits events (Some rs, q) = (Inr e, st')"
    and "cmds (snd st') = cmds q @ cs" and "legal_order cs ord" and "\<And>c. c \<in> set cs \<Longrightarrow> dsched_ok D c"
  shows "\<exists>GV'. run_all (run_radix_command D J view (rs_keySize rs) (rs_valueSize rs)) ord GV = Some GV'
    \<and> contents (rs_valueSize rs \<noteq> 0) GV' (buf_id keys, buf_id vals) n =
        sort_key fst (contents (rs_valueSize rs \<noteq> 0) GV (buf_id keys, buf_id vals) n)
    \<and> (\<exists>t. radix_temporaries alloc rs n = Inr t \<and> only_changes (rs_histogram rs)
          {buf_id keys, buf_id (fst t)} (if rs_valueSize rs \<noteq> 0 then {buf_id vals, buf_id (snd t)} else {}) n GV GV')
    \<and> e = ev (last cs)"
  by (rule exE [OF radix_public_sorts [where J = J and view = view and rs = rs and n = n]], (rule assms; assumption)+) blast

section \<open>Validation\<close>

text \<open>What \<^verbatim>\<open>enqueue\<close> must reject, without machine arithmetic.\<close>

definition radix_rejected :: "'a radixsort \<Rightarrow> buffer \<Rightarrow> buffer \<Rightarrow> nat \<Rightarrow> nat \<Rightarrow> bool" where
  "radix_rejected rs keys vals n maxBits \<longleftrightarrow> n = 0 \<or> buf_size keys < n * rs_keySize rs \<or> \<not> read_write keys
     \<or> rs_valueSize rs \<noteq> 0 \<and> (buf_size vals < n * rs_valueSize rs \<or> \<not> read_write vals)
     \<or> 8 * rs_keySize rs < maxBits"

lemma radix_bytes:
  assumes "rs_wf rs" "radix_sizes_ok rs n"
  shows "u64 (n * rs_keySize rs) = n * rs_keySize rs" "u64 (n * rs_valueSize rs) = n * rs_valueSize rs"
proof -
  have k: "rs_keySize rs \<le> 8" "rs_valueSize rs \<le> 128" using assms(1) by (auto simp: rs_wf_def)
  have "n \<le> 2 ^ 31" using assms(2) by (simp add: radix_sizes_ok_def)
  then have "n * rs_keySize rs \<le> 2 ^ 31 * 8" "n * rs_valueSize rs \<le> 2 ^ 31 * 128" using k by (intro mult_mono; simp)+
  then show "u64 (n * rs_keySize rs) = n * rs_keySize rs" "u64 (n * rs_valueSize rs) = n * rs_valueSize rs"
    by (simp_all add: u64_small)
qed

lemma radix_validate_iff:
  assumes "rs_wf rs" "radix_sizes_ok rs n"
  shows "(\<exists>b. radix_validate rs keys vals n maxBits = Inr b) \<longleftrightarrow> \<not> radix_rejected rs keys vals n maxBits"
proof -
  have "0 < rs_keySize rs" using assms(1) by (auto simp: rs_wf_def)
  then show ?thesis by (auto simp: radix_validate_def radix_rejected_def radix_bytes [OF assms])
qed

definition succeeds :: "('s \<Rightarrow> 'a result \<times> 's) \<Rightarrow> 's \<Rightarrow> bool" where
  "succeeds m st \<longleftrightarrow> (\<exists>x st'. m st = (Inr x, st'))"

lemma succeeds_bind: "succeeds m st \<Longrightarrow> (\<And>x st'. succeeds (f x) st') \<Longrightarrow> succeeds (bind_op m f) st"
  unfolding succeeds_def bind_op_def by (metis (no_types, lifting) case_prod_conv sum.case(2))

lemma succeeds_return [simp]: "succeeds (return_op x) st"
  by (simp add: succeeds_def return_op_def)

lemma succeeds_launch: "\<forall>c. drv c = CL_SUCCESS \<Longrightarrow> succeeds (radix_launch drv sel g l w) st"
  by (cases st) (simp add: succeeds_def radix_launch_def enqueueNDRange_def enqueue_action_def Let_def)

lemma succeeds_copy: "\<forall>c. drv c = CL_SUCCESS \<Longrightarrow> succeeds (radix_copy drv src dst m w) st"
  by (cases st) (simp add: succeeds_def radix_copy_def enqueueCopyBuffer_def enqueue_action_def Let_def)

lemma succeeds_parts:
  assumes "\<forall>c. drv c = CL_SUCCESS"
  shows "succeeds (enqueueReduce drv ob ib len n fb w) st" "succeeds (enqueueScan drv hb bl w) st"
    "succeeds (enqueueScatter drv ok ov ik iv hb len n fb w) st"
  using succeeds_launch [OF assms] unfolding succeeds_def
  by (simp_all only: enqueueReduce_def enqueueScan_def enqueueScatter_def Let_def split: prod.split) blast+

lemma succeeds_pass:
  assumes "\<forall>c. drv c = CL_SUCCESS"
  shows "succeeds (radix_pass drv bufs len n fb sw w) st"
proof -
  have "succeeds (bind_op (enqueueReduce drv h a len n fb w)
        (\<lambda>e1. bind_op (enqueueScan drv h bl (Some [e1])) (\<lambda>e2. enqueueScatter drv b c d f h len n fb (Some [e2])))) st"
    for h a bl b c d f
    by (intro succeeds_bind succeeds_parts [OF assms])
  then show ?thesis unfolding succeeds_def radix_pass_def Let_def .
qed

lemma succeeds_passes:
  assumes "\<forall>c. drv c = CL_SUCCESS"
  shows "succeeds (radix_passes drv bufs len n rb maxBits events fb sw nxt) st"
  using assms
proof (induction drv bufs len n rb maxBits events fb sw nxt st rule: radix_passes.induct)
  case (1 drv bufs len n rb maxBits events fb sw nxt st)
  show ?case
  proof (cases "fb < maxBits \<and> 0 < rb")
    case True
    obtain e st1 where p: "radix_pass drv bufs len n fb sw (wait_for events nxt) st = (Inr e, st1)"
      using succeeds_pass [OF 1(2)] unfolding succeeds_def by blast
    have "succeeds (radix_passes drv bufs len n rb maxBits events (fb + rb) (\<not> sw) (Some e)) st1"
      by (rule 1(1) [OF True p [symmetric] refl 1(2)])
    then show ?thesis using True p unfolding succeeds_def by (subst radix_passes.simps) simp
  next
    case False
    then show ?thesis unfolding succeeds_def by (subst radix_passes.simps) auto
  qed
qed

lemma succeeds_copy_back:
  assumes "\<forall>c. drv c = CL_SUCCESS"
  shows "succeeds (radix_copy_back drv bufs n events x) st"
proof -
  have "succeeds (bind_op (radix_copy drv a b m w)
      (\<lambda>e. if hv then bind_op (radix_copy drv c d k (Some [e])) (\<lambda>e'. return_op (Some e')) else return_op (Some e))) st"
    for a b m w hv c d k
    by (intro succeeds_bind) (auto intro!: succeeds_bind succeeds_copy [OF assms])
  then show ?thesis unfolding succeeds_def radix_copy_back_def by (auto simp: return_op_def)
qed

lemma radix_temporaries_success:
  assumes "\<forall>i m. fst (alloc i m) = CL_SUCCESS"
  shows "\<exists>t. radix_temporaries alloc rs n = Inr t"
proof -
  have tb: "\<exists>b. tmp_buffer (create_buffer alloc i) u m = Inr b" for i u m
  proof -
    obtain b where "alloc i m = (CL_SUCCESS, b)" using assms by (metis prod.collapse)
    then show ?thesis by (cases u) (auto simp: tmp_buffer_def create_buffer_def)
  qed
  obtain a b where "tmp_buffer (create_buffer alloc 0) (rs_tmpKeys rs) (u64 (n * rs_keySize rs)) = Inr a"
    "tmp_buffer (create_buffer alloc 1) (rs_tmpValues rs) (u64 (n * rs_valueSize rs)) = Inr b"
    using tb by blast
  then show ?thesis by (simp add: radix_temporaries_def)
qed

lemma radix_enqueue_success:
  assumes "rs_wf (fst st)" "radix_sizes_ok (fst st) n" "\<forall>c. drv c = CL_SUCCESS" "\<forall>i m. fst (alloc i m) = CL_SUCCESS"
    and "\<not> radix_rejected (fst st) keys vals n maxBits"
  shows "succeeds (radix_enqueue drv alloc keys vals n maxBits events) st"
proof -
  obtain b where b: "radix_validate (fst st) keys vals n maxBits = Inr b" using radix_validate_iff [OF assms(1,2)] assms(5) by blast
  obtain tk tv where t: "radix_temporaries alloc (fst st) n = Inr (tk, tv)"
    using radix_temporaries_success [OF assms(4), of "fst st" n] by auto
  have "succeeds (bind_op (radix_passes drv bufs len n rb bits events 0 False None)
      (\<lambda>r. bind_op (radix_copy_back drv bufs n events r) (\<lambda>nxt. return_op (case nxt of None \<Rightarrow> 0 | Some e \<Rightarrow> e)))) st"
    for bufs len rb bits
    by (intro succeeds_bind succeeds_passes [OF assms(3)] succeeds_copy_back [OF assms(3)] succeeds_return)
  then show ?thesis unfolding succeeds_def radix_enqueue_def Let_def b t sum.case prod.case .
qed


text \<open>
  C30. Preparation: whenever \<^verbatim>\<open>initialize\<close> succeeds, with a compiler that honours the
  definitions and the checks at the top of radixsort.cl, the sort object is well-formed: the
  kernels' macros agree with the object, the generated code reads as the statements for its
  radix and slice, and the sizes are those of the problem's types.
\<close>

theorem radixsort_initialize_wf:
  assumes "\<And>d s p. bld ''radixsort.cl'' d s = Inr p \<Longrightarrow> pdefs p = d \<and> psdefs p = s \<and> radixsort_cl_accepts d s"
    and "\<And>p n k. mk p n = Inr k \<Longrightarrow> k = new_kernel p n" and "\<And>n b. alloc n = Inr b \<Longrightarrow> 0 < n"
    and "radix_key_type (xp_key problem)" and "xp_value problem \<in> set type_table" and "radix_params_ok params"
    and "Radixsort_initialize alloc bld mk problem params = Inr rs"
  shows "rs_wf rs \<and> rs_keySize rs = getSize (xp_key problem) \<and> rs_valueSize rs = getSize (xp_value problem)
    \<and> rs_tmpKeys rs = None \<and> rs_tmpValues rs = None"
  using assms by (rule radix_initialize_wf)

text \<open>
  C31. The assertion of \<^verbatim>\<open>getBlocks\<close> and the kernels' needs: the blocks cover the input, there are
  at most \<^verbatim>\<open>scanBlocks\<close> of them, they fill whole work-groups of the scatter kernel, and all
  positions are below 2^31, where the kernels' 32-bit arithmetic is exact.
\<close>

theorem radix_blocks_cover:
  assumes "rs_wf rs" and "radix_sizes_ok rs n" and "0 < n"
  shows "let len = getBlockSize rs n; blocks = getBlocks rs n len
    in 0 < len \<and> getTileSize rs dvd len \<and> rs_slices rs dvd blocks \<and> 0 < blocks \<and> blocks \<le> rs_scanBlocks rs
      \<and> n \<le> blocks * len \<and> blocks * len < 2 ^ 31"
  unfolding Let_def using radix_block_split [OF assms] by blast

section \<open>Witnesses\<close>

text \<open>A runtime that succeeds, and a small configuration: four keys per tile, radix 4.\<close>

definition example_radix_problem :: radix_problem where
  "example_radix_problem = \<lparr>xp_key = \<lparr>baseType = TYPE_UCHAR, veclen = 1\<rparr>, xp_value = \<lparr>baseType = TYPE_UINT, veclen = 1\<rparr>,
     xp_tunePolicy = TunePolicy_new\<rparr>"

definition example_radix_value :: radix_value where
  "example_radix_value = \<lparr>x_warpSizeMem = 1, x_warpSizeSchedule = 1, x_reduceWorkGroupSize = 4,
     x_scanWorkGroupSize = 4, x_scatterWorkGroupSize = 4, x_scatterWorkScale = 1, x_scanBlocks = 2, x_radixBits = 2\<rparr>"

definition example_radix_alloc :: "nat \<Rightarrow> nat result" where
  "example_radix_alloc n = (if n = 0 then Inl (ClError (-61) ''clCreateBuffer'') else Inr 9)"

definition example_radix_build :: "string \<Rightarrow> int std_map \<Rightarrow> string std_map \<Rightarrow> program result" where
  "example_radix_build f d s =
     (if radixsort_cl_accepts d s then Inr \<lparr>pfile = f, pdefs = d, psdefs = s\<rparr> else Inl (InternalError f))"

definition example_radix_kernel :: "program \<Rightarrow> string \<Rightarrow> unit kernel result" where
  "example_radix_kernel p n = Inr (new_kernel p n)"

definition example_sort :: "unit radixsort" where
  "example_sort = projr (Radixsort_initialize example_radix_alloc example_radix_build example_radix_kernel
     example_radix_problem example_radix_value)"

lemma example_radix_runtime:
  "example_radix_build f d s = Inr p \<Longrightarrow> pdefs p = d \<and> psdefs p = s \<and> radixsort_cl_accepts d s"
  "example_radix_kernel p n = Inr k \<Longrightarrow> k = new_kernel p n"
  "example_radix_alloc m = Inr b \<Longrightarrow> 0 < m"
  by (auto simp: example_radix_build_def example_radix_kernel_def example_radix_alloc_def split: if_splits)

lemma example_sort_init:
  "Radixsort_initialize example_radix_alloc example_radix_build example_radix_kernel
     example_radix_problem example_radix_value = Inr example_sort"
proof -
  have "radixsort_cl_accepts (radix_defines example_radix_value) (radix_string_defines example_radix_problem example_radix_value)"
    by (simp add: radixsort_cl_accepts_def radix_string_defines_simps)
      (simp add: example_radix_value_def scatter_slice_def is_power2_def)
  then show ?thesis
    by (simp add: example_sort_def Radixsort_initialize_def example_radix_alloc_def example_radix_build_def
        example_radix_kernel_def) (simp add: example_radix_value_def)
qed

lemma example_radix_ok:
  "radix_key_type (xp_key example_radix_problem)" "xp_value example_radix_problem \<in> set type_table" "radix_params_ok example_radix_value"
  by (simp_all add: example_radix_problem_def radix_key_type_def isIntegral_def isSigned_def type_table_iff vec_sizes_def
      radix_params_ok_def example_radix_value_def scatter_slice_def)

theorem radixsort_initialize_wf_witness:
  "rs_wf example_sort \<and> rs_keySize example_sort = 1 \<and> rs_valueSize example_sort = 4"
  using radixsort_initialize_wf [OF example_radix_runtime example_radix_ok example_sort_init]
  by (simp add: example_radix_problem_def getSize_def getBaseSize_def)

lemma example_sort_wf: "rs_wf example_sort"
  using radix_initialize_wf [OF example_radix_runtime example_radix_ok example_sort_init] by simp

lemma example_sort_simps [simp]:
  "rs_reduceWorkGroupSize example_sort = 4" "rs_scanWorkGroupSize example_sort = 4" "rs_scatterWorkGroupSize example_sort = 4"
  "rs_scatterWorkScale example_sort = 1" "rs_scatterSlice example_sort = 4" "rs_scanBlocks example_sort = 2"
  "rs_keySize example_sort = 1" "rs_valueSize example_sort = 4" "rs_radixBits example_sort = 2"
  "rs_histogram example_sort = 9" "rs_tmpKeys example_sort = None" "rs_tmpValues example_sort = None"
  using radix_initialize_fields [OF example_sort_init]
  by (simp_all add: example_radix_value_def example_radix_problem_def getSize_def getBaseSize_def scatter_slice_def
      example_radix_alloc_def)

lemma example_sort_sizes: "radix_sizes_ok example_sort 5"
  by (simp add: radix_sizes_ok_def getTileSize_def u64_def)

theorem radix_blocks_cover_witness:
  "getBlockSize example_sort 5 = 4 \<and> getBlocks example_sort 5 4 = 2 \<and> 5 \<le> getBlocks example_sort 5 4 * 4"
  using radix_blocks_cover [OF example_sort_wf example_sort_sizes]
  by (simp add: Let_def getBlockSize_def getBlocks_def getTileSize_def u64_def roundUp_def)

definition rw_buffer :: "nat \<Rightarrow> buffer" where
  "rw_buffer i = \<lparr>buf_id = i, buf_size = 64, buf_flags = CL_MEM_READ_WRITE\<rparr>"

lemma rw_buffer_simps [simp]: "buf_id (rw_buffer i) = i" "buf_size (rw_buffer i) = 64" "read_write (rw_buffer i)"
  by (simp_all add: rw_buffer_def read_write_def CL_MEM_READ_WRITE_def)

definition ok_queue :: "'a queue" where
  "ok_queue = \<lparr>cmds = [], next_ev = 100, trace = []\<rparr>"


lemma in_row_respects:
  "in_row w e cs \<Longrightarrow> \<forall>x\<in>set w. x < e \<Longrightarrow> respects_waits {e..<e + length cs} cs"
proof (induction cs arbitrary: w e)
  case (Cons c cs)
  have "{e..<e + length (c # cs)} - {e} = {Suc e..<Suc e + length cs}" by auto
  moreover have "respects_waits {Suc e..<Suc e + length cs} cs" using Cons by (intro Cons.IH [of "[e]"]) auto
  ultimately show ?case using Cons.prems by auto
qed simp

lemma in_row_legal: "in_row w e cs \<Longrightarrow> \<forall>x\<in>set w. x < e \<Longrightarrow> legal_order cs cs"
  using in_row_respects [of w e cs] in_row_events [of w e cs] unfolding legal_order_def
  by (metis atLeastLessThan_upt list.set_map)

definition sort_input :: "nat list rmem" where
  "sort_input = (\<lambda>b i. if b = 0 then [3, 1, 2, 1, 0, 7] ! (i mod 6) else 5, \<lambda>b i. if b = 1 then [i] else [])"

text \<open>Five keys of two bits with their positions as values; one pass and the copies back.\<close>

theorem radixsort_correct_witness:
  "\<forall>J view. \<exists>GV'. \<exists>cs :: unit command list. run_all (run_radix_command (plain_sched cs) J view 1 4) cs sort_input = Some GV' \<and> cs \<noteq> []
     \<and> contents True GV' (0, 1) 5 = [(0, Some [4]), (1, Some [1]), (1, Some [3]), (2, Some [2]), (3, Some [0])]"
proof (intro allI)
  fix J view
  let ?drv = "\<lambda>_ :: unit command. CL_SUCCESS" and ?alloc = "\<lambda>i (m :: nat). (CL_SUCCESS, rw_buffer (i + 2))"
  let ?op = "radix_enqueue ?drv ?alloc (rw_buffer 0) (rw_buffer 1) 5 2"
  have "succeeds (?op None) (example_sort, ok_queue)"
    by (rule radix_enqueue_success) (simp_all add: example_sort_wf example_sort_sizes radix_rejected_def)
  then obtain e rs' q' where op: "?op None (example_sort, ok_queue) = (Inr e, rs', q')" by (auto simp: succeeds_def)
  have t: "radix_temporaries ?alloc example_sort 5 = Inr (rw_buffer 2, rw_buffer 3)"
    by (simp add: radix_temporaries_def tmp_buffer_def create_buffer_def numeral_eq_Suc)
  have ap: "radix_apart example_sort (radix_bufs (rw_buffer 0) (rw_buffer 1) t)"
    if "radix_temporaries ?alloc example_sort 5 = Inr t" for t
    using that unfolding t by (auto simp: radix_apart_def)
  from radix_enqueue_result [OF example_sort_wf example_sort_sizes ap op]
  obtain cs where ad: "adds example_sort ok_queue None e rs' q' cs" by blast
  have row: "in_row [] 100 cs" "cmds q' = cs" "cs \<noteq> []" using ad by (simp_all add: adds_def ok_queue_def)
  have pub: "Radixsort_enqueue ?drv ?alloc (rw_buffer 0) (rw_buffer 1) 5 2 None (Some example_sort, ok_queue)
      = (Inr e, Some rs', q')"
  proof -
    have "norm_events None = None" by (simp add: norm_events_def)
    then show ?thesis unfolding Radixsort_enqueue_def by (intro xop.public_result) (simp, simp only: op)
  qed
  have kb: "fst sort_input (buf_id (rw_buffer 0)) i < 2 ^ (if (2::nat) = 0 then 8 * rs_keySize example_sort else 2)" if "i < 5" for i
  proof -
    have "i = 0 \<or> i = 1 \<or> i = 2 \<or> i = 3 \<or> i = 4" using that by auto
    then show ?thesis by (auto simp: sort_input_def)
  qed
  have "distinct (map ev cs)" using in_row_events [OF row(1)] by simp
  then have D: "dsched_ok (plain_sched cs) c" if "c \<in> set cs" for c using that by (rule plain_sched_ok)
  have q: "cmds (snd (Some rs', q')) = cmds (ok_queue :: unit queue) @ cs" using row(2) by (simp add: ok_queue_def)
  have l: "length (wait_list None) < 2 ^ 32" by simp
  have lo: "legal_order cs cs" by (rule in_row_legal [OF row(1)]) simp
  obtain GV' where G: "run_all (run_radix_command (plain_sched cs) J view (rs_keySize example_sort) (rs_valueSize example_sort)) cs
      sort_input = Some GV'"
    "contents (rs_valueSize example_sort \<noteq> 0) GV' (buf_id (rw_buffer 0), buf_id (rw_buffer 1)) 5 =
      sort_key fst (contents (rs_valueSize example_sort \<noteq> 0) sort_input (buf_id (rw_buffer 0), buf_id (rw_buffer 1)) 5)"
    using radixsort_correct [OF example_sort_wf example_sort_sizes l ap kb pub q lo D, of J view] by blast
  have "contents True GV' (0, 1) 5 = [(0, Some [4]), (1, Some [1]), (1, Some [3]), (2, Some [2]), (3, Some [0])]"
  proof -
    have "contents True sort_input (0, 1) 5 = [(3, Some [0]), (1, Some [1]), (2, Some [2]), (1, Some [3]), (0, Some [4])]"
    proof -
      have "[0..<5] = [0, 1, 2, 3, 4 :: nat]" by code_simp
      then show ?thesis by (simp add: contents_def sort_input_def)
    qed
    then show ?thesis using G(2) by simp
  qed
  then show "\<exists>GV'. \<exists>cs :: unit command list. run_all (run_radix_command (plain_sched cs) J view 1 4) cs sort_input = Some GV' \<and> cs \<noteq> []
     \<and> contents True GV' (0, 1) 5 = [(0, Some [4]), (1, Some [1]), (1, Some [3]), (2, Some [2]), (3, Some [0])]"
    using G(1) row(3) unfolding example_sort_simps by blast
qed

end
