(* ===== verification/RadixTune.thy ===== *)
theory RadixTune
  imports RadixEnqueue ScanTune
begin

text \<open>
  The rest of src/radixsort.cpp: the random input, the three tuning callbacks,
  \<^verbatim>\<open>Radixsort::tune\<close>, the key of the cache, the constructors and the public problem
  class. Shown: tuning returns parameters for which \<^verbatim>\<open>initialize\<close> makes a well-formed
  sort object, except on a device whose work-groups are smaller than the radix, where it returns
  a variable that was never written.
\<close>

section \<open>The random input\<close>

text \<open>\<^verbatim>\<open>std::mt19937\<close> with its default seed, as the C++ standard fixes it.\<close>

unbundle bit_operations_syntax

fun mt_state :: "nat \<Rightarrow> 32 word" where
  "mt_state k =
     (if k = 0 then 5489
      else if k < 624
      then (let x = mt_state (k - 1) in 1812433253 * (x XOR drop_bit 30 x) + of_nat k)
      else (let y = (mt_state (k - 624) AND 0x80000000) OR (mt_state (k - 623) AND 0x7FFFFFFF)
            in mt_state (k - 227) XOR drop_bit 1 y XOR (if y AND 1 = 0 then 0 else 0x9908B0DF)))"

declare mt_state.simps [simp del]

definition mt_output :: "nat \<Rightarrow> 32 word" where
  "mt_output i =
     (let x = mt_state (624 + i);
          y = x XOR drop_bit 11 x;
          z = y XOR (push_bit 7 y AND 0x9D2C5680);
          u = z XOR (push_bit 15 z AND 0xEFC60000)
      in u XOR drop_bit 18 u)"

definition random_bytes :: "nat \<Rightarrow> nat list" where
  "random_bytes len = map (\<lambda>i. unat (mt_output i AND 0xFF)) [0..<len]"

definition makeRandomBuffer :: "('c, 'a, 'r, 'w) bench \<Rightarrow> 'c \<Rightarrow> nat \<Rightarrow> nat result" where
  "makeRandomBuffer E c len =
     bind_result (be_alloc E c CL_MEM_READ_WRITE len) (\<lambda>b.
     bind_result (be_fill E c b (random_bytes len)) (\<lambda>_. Inr b))"

section \<open>The callbacks\<close>

definition Radixsort_construct ::
  "('c, 'a, 'r, 'w) bench \<Rightarrow> 'c \<Rightarrow> radix_problem \<Rightarrow> radix_value \<Rightarrow> 'a radixsort result" where
  "Radixsort_construct E c problem params =
     Radixsort_initialize (be_alloc E c CL_MEM_READ_WRITE) (be_build E c) (be_kernel E c) problem params"

definition Radixsort_tuneReduceCallback ::
  "('c, 'a, 'r, 'w) bench \<Rightarrow> radix_problem \<Rightarrow> 'c \<Rightarrow> nat \<Rightarrow> radix_value \<Rightarrow> 'w
    \<Rightarrow> ('r option \<times> 'r option) result \<times> 'w" where
  "Radixsort_tuneReduceCallback E problem c elems params w =
     (case bind_result (be_queue E c) (\<lambda>_.
           bind_result (makeRandomBuffer E c (u64 (elems * getSize (xp_key problem)))) (\<lambda>keyBuffer.
           bind_result (Radixsort_construct E c problem params) (\<lambda>rs. Inr (keyBuffer, rs)))) of
        Inl e \<Rightarrow> (Inl e, w)
      | Inr (keyBuffer, rs) \<Rightarrow>
          let len = getBlockSize rs elems;
              go = enqueueReduce (be_driver E c) (rs_histogram rs) keyBuffer len elems 0 None
          in rates E (\<lambda>r. r) elems (bench_twice E c go go (\<lambda>e. (e, e)) rs w))"

text \<open>The buffers of the other two: input and output keys, input and output values.\<close>

definition tune_buffers ::
  "('c, 'a, 'r, 'w) bench \<Rightarrow> radix_problem \<Rightarrow> 'c \<Rightarrow> nat \<Rightarrow> (nat \<times> nat \<times> nat \<times> nat) result" where
  "tune_buffers E problem c elems =
     (let keyBufferSize = u64 (elems * getSize (xp_key problem));
          valueBufferSize = u64 (elems * getSize (xp_value problem))
      in bind_result (be_queue E c) (\<lambda>_.
         bind_result (makeRandomBuffer E c keyBufferSize) (\<lambda>keyBuffer.
         bind_result (be_alloc E c CL_MEM_READ_WRITE keyBufferSize) (\<lambda>outKeyBuffer.
         if baseType (xp_value problem) \<noteq> TYPE_VOID
         then bind_result (makeRandomBuffer E c valueBufferSize) (\<lambda>valueBuffer.
              bind_result (be_alloc E c CL_MEM_READ_WRITE valueBufferSize) (\<lambda>outValueBuffer.
              Inr (keyBuffer, outKeyBuffer, valueBuffer, outValueBuffer)))
         else Inr (keyBuffer, outKeyBuffer, buf_id null_buffer, buf_id null_buffer)))))"

definition Radixsort_tuneScatterCallback ::
  "('c, 'a, 'r, 'w) bench \<Rightarrow> radix_problem \<Rightarrow> 'c \<Rightarrow> nat \<Rightarrow> radix_value \<Rightarrow> 'w
    \<Rightarrow> ('r option \<times> 'r option) result \<times> 'w" where
  "Radixsort_tuneScatterCallback E problem c elems params w =
     (case bind_result (tune_buffers E problem c elems) (\<lambda>bufs.
           bind_result (Radixsort_construct E c problem params) (\<lambda>rs. Inr (bufs, rs))) of
        Inl e \<Rightarrow> (Inl e, w)
      | Inr ((keyBuffer, outKeyBuffer, valueBuffer, outValueBuffer), rs) \<Rightarrow>
          let len = getBlockSize rs elems; nblocks = getBlocks rs elems len; h = rs_histogram rs;
              scatter = enqueueScatter (be_driver E c) outKeyBuffer outValueBuffer keyBuffer valueBuffer h
                len elems 0 None;
              warmup = bind_op (enqueueReduce (be_driver E c) h keyBuffer len elems 0 None) (\<lambda>_.
                bind_op (enqueueScan (be_driver E c) h nblocks None) (\<lambda>_. scatter))
          in rates E (\<lambda>r. r) elems (bench_twice E c warmup scatter (\<lambda>e. (e, e)) rs w))"

definition Radixsort_tuneBlocksCallback ::
  "('c, 'a, 'r, 'w) bench \<Rightarrow> radix_problem \<Rightarrow> 'c \<Rightarrow> nat \<Rightarrow> radix_value \<Rightarrow> 'w
    \<Rightarrow> ('r option \<times> 'r option) result \<times> 'w" where
  "Radixsort_tuneBlocksCallback E problem c elems params w =
     (case bind_result (tune_buffers E problem c elems) (\<lambda>bufs.
           bind_result (Radixsort_construct E c problem params) (\<lambda>rs. Inr (bufs, rs))) of
        Inl e \<Rightarrow> (Inl e, w)
      | Inr ((keyBuffer, outKeyBuffer, valueBuffer, outValueBuffer), rs) \<Rightarrow>
          let len = getBlockSize rs elems; nblocks = getBlocks rs elems len; h = rs_histogram rs;
              pass = bind_op (enqueueReduce (be_driver E c) h keyBuffer len elems 0 None) (\<lambda>reduceEvent.
                bind_op (enqueueScan (be_driver E c) h nblocks None) (\<lambda>_.
                bind_op (enqueueScatter (be_driver E c) outKeyBuffer outValueBuffer keyBuffer valueBuffer h
                  len elems 0 None) (\<lambda>scatterEvent. return_op (reduceEvent, scatterEvent))))
          in rates E (be_slack E) elems (bench_twice E c pass pass (\<lambda>e. e) rs w))"

lemma Radixsort_tuneReduceCallback_bound:
  "Radixsort_tuneReduceCallback E problem c n p w = (Inr (Some a, b), w') \<Longrightarrow> b = Some a"
  unfolding Radixsort_tuneReduceCallback_def Let_def by (auto split: sum.splits prod.splits dest: rates_bound)

lemma Radixsort_tuneScatterCallback_bound:
  "Radixsort_tuneScatterCallback E problem c n p w = (Inr (Some a, b), w') \<Longrightarrow> b = Some a"
  unfolding Radixsort_tuneScatterCallback_def Let_def by (auto split: sum.splits prod.splits dest: rates_bound)

lemma Radixsort_tuneBlocksCallback_bound:
  "Radixsort_tuneBlocksCallback E problem c n p w = (Inr (Some a, b), w') \<Longrightarrow> b = Some (be_slack E a)"
  unfolding Radixsort_tuneBlocksCallback_def Let_def by (auto split: sum.splits prod.splits dest: rates_bound)

lemma Radixsort_tuneBlocksCallback_construct:
  "Radixsort_tuneBlocksCallback E problem c n p w = (Inr x, w') \<Longrightarrow> \<exists>rs. Radixsort_construct E c problem p = Inr rs"
  unfolding Radixsort_tuneBlocksCallback_def
  by (cases "Radixsort_construct E c problem p"; cases "tune_buffers E problem c n") auto

interpretation radix_reduce: rated "bench_tuner E (Radixsort_tuneReduceCallback E problem)"
  for E :: "('c, 'a, 'r::{linorder, order_bot}, 'w) bench" and problem
  by (rule callback_rated [where slack = "\<lambda>r. r"]) (erule Radixsort_tuneReduceCallback_bound, simp)

interpretation radix_scatter: rated "bench_tuner E (Radixsort_tuneScatterCallback E problem)"
  for E :: "('c, 'a, 'r::{linorder, order_bot}, 'w) bench" and problem
  by (rule callback_rated [where slack = "\<lambda>r. r"]) (erule Radixsort_tuneScatterCallback_bound, simp)

lemma radix_blocks_rated:
  "(\<And>r. r \<le> be_slack E r) \<Longrightarrow> rated (bench_tuner E (Radixsort_tuneBlocksCallback E problem))"
  for E :: "('c, 'a, 'r::{linorder, order_bot}, 'w) bench"
  by (rule callback_rated [where slack = "be_slack E"]) (erule Radixsort_tuneBlocksCallback_bound, simp)

section \<open>Tuning\<close>

definition radix_problemSizes :: "device \<Rightarrow> radix_problem \<Rightarrow> nat list" where
  "radix_problemSizes d problem =
     (let maxDataSize = (if is_cpu d then 32 * 1024 * 1024 else 256 * 1024 * 1024);
          dataSize = min maxDataSize (global_mem_size d div 8);
          elems = dataSize div (getSize (xp_key problem) + getSize (xp_value problem))
      in (if 1024 * 1024 < elems then [1024 * 1024] else []) @ [elems])"

text \<open>The radix is 16, the work-group of the scan 64; a histogram has at most this many blocks.\<close>

definition radix_maxBlocks :: "device \<Rightarrow> nat" where
  "radix_maxBlocks d = u64 (local_mem_size d div 4 + 2 ^ 64 - 2 * 64) div 16"

definition radix_startBlocks :: "device \<Rightarrow> nat" where
  "radix_startBlocks d = roundDown (radix_maxBlocks d div 2) (64 div 16)"

definition radix_slice :: "device \<Rightarrow> nat" where
  "radix_slice d = max (getWarpSizeSchedule d) 16"

definition radix_cand :: "device \<Rightarrow> nat \<Rightarrow> radix_value" where
  "radix_cand d r = \<lparr>x_warpSizeMem = getWarpSizeMem d, x_warpSizeSchedule = getWarpSizeSchedule d,
     x_reduceWorkGroupSize = r, x_scanWorkGroupSize = 64, x_scatterWorkGroupSize = radix_slice d,
     x_scatterWorkScale = 1, x_scanBlocks = radix_startBlocks d, x_radixBits = 4\<rparr>"

definition radix_reduce_sets :: "device \<Rightarrow> radix_value list" where
  "radix_reduce_sets d = map (radix_cand d) (doubles 16 (max_work_group_size d))"

definition radix_scatter_sets :: "device \<Rightarrow> radix_value \<Rightarrow> radix_value list" where
  "radix_scatter_sets d cand = concat (map (\<lambda>g. map (\<lambda>s.
       cand\<lparr>x_scanBlocks := roundDown (radix_startBlocks d) (g div radix_slice d),
            x_scatterWorkGroupSize := g, x_scatterWorkScale := s\<rparr>)
     [1..<255 div radix_slice d + 1]) (doubles (radix_slice d) (max_work_group_size d)))"

text \<open>
  The candidates for the number of blocks are a \<^verbatim>\<open>std::set\<close>, which is walked in order.
\<close>

definition radix_limit :: "device \<Rightarrow> radix_value \<Rightarrow> nat" where
  "radix_limit d cand = (let slicesPerWorkGroup = x_scatterWorkGroupSize cand div radix_slice d
     in roundDown (roundDown (radix_maxBlocks d) slicesPerWorkGroup) (x_scatterWorkGroupSize cand div 16))"

definition radix_block_cands :: "device \<Rightarrow> radix_value \<Rightarrow> nat list" where
  "radix_block_cands d cand =
     (let slicesPerWorkGroup = x_scatterWorkGroupSize cand div radix_slice d; limit = radix_limit d cand;
          least = x_scanWorkGroupSize cand div 16
      in sorted_list_of_set (set (doubles (max least slicesPerWorkGroup) limit
           @ filter (\<lambda>b. least \<le> b) (map (\<lambda>b. roundDown b slicesPerWorkGroup) (doubles (max_compute_units d) limit))
           @ [limit])))"

definition radix_block_sets :: "device \<Rightarrow> radix_value \<Rightarrow> radix_value list" where
  "radix_block_sets d cand = map (\<lambda>b. cand\<lparr>x_scanBlocks := b\<rparr>) (radix_block_cands d cand)"

text \<open>
  \<open>out0\<close> is the value of the variable \<^verbatim>\<open>out\<close>, which is not initialized: it is returned as it
  is when the device's work-groups are smaller than the radix.
\<close>

definition Radixsort_tune ::
  "('c, 'a, 'r::{linorder, order_bot}, 'w) bench \<Rightarrow> device \<Rightarrow> radix_problem \<Rightarrow> radix_value \<Rightarrow> 'w tstate
    \<Rightarrow> radix_value ending \<times> 'w tstate" where
  "Radixsort_tune E d problem out0 st =
     (let policy = xp_tunePolicy problem; problemSizes = radix_problemSizes d problem
      in bind_end (lift_result (assertEnabled policy) st) (\<lambda>_ st.
         let st0 = logStartAlgorithm policy (''radixsort for '' @ getName (xp_key problem) @ '' keys and ''
               @ show_nat (getSize (xp_value problem)) @ '' byte values'') d st
         in if max_work_group_size d < 16 then (Returns out0, logEndAlgorithm policy st0)
            else
         bind_end (tuneOne policy (bench_tuner E (Radixsort_tuneReduceCallback E problem)) (radix_reduce_sets d)
             problemSizes st0) (\<lambda>cand1 st1.
         bind_end (tuneOne policy (bench_tuner E (Radixsort_tuneScatterCallback E problem)) (radix_scatter_sets d cand1)
             problemSizes st1) (\<lambda>cand2 st2.
         bind_end (tuneOne policy (bench_tuner E (Radixsort_tuneBlocksCallback E problem)) (radix_block_sets d cand2)
             problemSizes st2) (\<lambda>cand3 st3.
         (Returns cand3, logEndAlgorithm policy st3))))))"

definition radix_fits :: "device \<Rightarrow> radix_value \<Rightarrow> bool" where
  "radix_fits d v \<longleftrightarrow>
     x_radixBits v = 4 \<and> x_scanWorkGroupSize v = 64
     \<and> x_warpSizeMem v = getWarpSizeMem d \<and> x_warpSizeSchedule v = getWarpSizeSchedule d
     \<and> pow2 (x_reduceWorkGroupSize v) \<and> 16 \<le> x_reduceWorkGroupSize v \<and> x_reduceWorkGroupSize v \<le> max_work_group_size d
     \<and> radix_slice d dvd x_scatterWorkGroupSize v \<and> x_scatterWorkGroupSize v \<le> max_work_group_size d
     \<and> 0 < x_scatterWorkScale v \<and> x_scatterWorkScale v * radix_slice d < 256
     \<and> x_scanBlocks v \<le> radix_maxBlocks d"

lemma radix_slice_eq: "x_radixBits v = 4 \<Longrightarrow> x_warpSizeSchedule v = getWarpSizeSchedule d \<Longrightarrow> scatter_slice v = radix_slice d"
  by (simp add: scatter_slice_def radix_slice_def)

lemma pow2_16: "pow2 (16 :: nat)"
  using pow2_power [of 4] by simp

lemma radix_reduce_sets_mem:
  assumes "p \<in> set (radix_reduce_sets d)"
  shows "\<exists>r. p = radix_cand d r \<and> pow2 r \<and> 16 \<le> r \<and> r \<le> max_work_group_size d"
proof -
  obtain r where r: "r \<in> set (doubles 16 (max_work_group_size d))" "p = radix_cand d r"
    using assms by (auto simp: radix_reduce_sets_def)
  from doubles_pow2 [OF pow2_16 r(1)] have "pow2 r" "16 dvd r" "r \<le> max_work_group_size d" by auto
  moreover have "0 < r" using \<open>pow2 r\<close> by (auto elim: pow2_E)
  ultimately show ?thesis using r(2) by (auto dest: dvd_imp_le)
qed

lemma radix_scatter_sets_mem:
  assumes "p \<in> set (radix_scatter_sets d cand)"
  shows "\<exists>k s. p = cand\<lparr>x_scanBlocks := roundDown (radix_startBlocks d) (2 ^ k),
      x_scatterWorkGroupSize := radix_slice d * 2 ^ k, x_scatterWorkScale := s\<rparr>
    \<and> radix_slice d * 2 ^ k \<le> max_work_group_size d \<and> 0 < s \<and> s * radix_slice d < 256"
proof -
  have pos: "0 < radix_slice d" by (simp add: radix_slice_def)
  obtain g s where g: "g \<in> set (doubles (radix_slice d) (max_work_group_size d))"
    and s: "s \<in> set [1..<255 div radix_slice d + 1]"
    and p: "p = cand\<lparr>x_scanBlocks := roundDown (radix_startBlocks d) (g div radix_slice d),
      x_scatterWorkGroupSize := g, x_scatterWorkScale := s\<rparr>"
    using assms by (auto simp: radix_scatter_sets_def)
  obtain k where k: "g = radix_slice d * 2 ^ k" "g \<le> max_work_group_size d" using doubles_mem [OF g] by auto
  have "s \<le> 255 div radix_slice d" "0 < s" using s by auto
  then have "s * radix_slice d \<le> 255" by (intro le_div_mult)
  then show ?thesis using p k \<open>0 < s\<close> pos by (intro exI [of _ k] exI [of _ s]) simp
qed

text \<open>Every candidate for the number of blocks fills whole work-groups of the scatter kernel.\<close>

lemma radix_block_cands_mem:
  assumes "b \<in> set (radix_block_cands d cand)" and "x_scatterWorkGroupSize cand = radix_slice d * 2 ^ k"
    and "x_scanWorkGroupSize cand = 64"
  shows "b \<le> radix_maxBlocks d" "16 dvd radix_slice d \<Longrightarrow> 2 ^ k dvd b"
proof -
  have pos: "0 < radix_slice d" by (simp add: radix_slice_def)
  have sp: "x_scatterWorkGroupSize cand div radix_slice d = 2 ^ k" using assms(2) pos by simp
  have lim: "radix_limit d cand \<le> radix_maxBlocks d"
    unfolding radix_limit_def Let_def using roundDown_le le_trans by blast
  have limdvd: "2 ^ k dvd radix_limit d cand" if "16 dvd radix_slice d"
  proof -
    have "x_scatterWorkGroupSize cand div 16 = radix_slice d div 16 * 2 ^ k"
      using assms(2) that by (metis div_mult_swap mult.commute)
    then have "2 ^ k dvd x_scatterWorkGroupSize cand div 16" by simp
    then show ?thesis unfolding radix_limit_def Let_def using roundDown_dvd dvd_trans by blast
  qed
  have b: "b \<in> set (doubles (max 4 (2 ^ k)) (radix_limit d cand))
      \<or> (\<exists>c. b = roundDown c (2 ^ k) \<and> c \<in> set (doubles (max_compute_units d) (radix_limit d cand)))
      \<or> b = radix_limit d cand"
    using assms(1,3) sp
    unfolding radix_block_cands_def Let_def set_sorted_list_of_set [OF finite_set] by auto
  have p: "pow2 (max 4 (2 ^ k) :: nat)" using pow2_power [of 2] pow2_power [of k] by (simp add: max_def)
  have kk: "(2 ^ k :: nat) dvd max 4 (2 ^ k)"
  proof (cases "k \<le> 2")
    case True
    then have "(2 ^ k :: nat) dvd 2 ^ 2" by (rule le_imp_power_dvd)
    then show ?thesis by (simp add: max_def)
  next
    case False
    then have "(2 ^ 2 :: nat) \<le> 2 ^ k" by (intro power_increasing) auto
    then show ?thesis by (simp add: max_def)
  qed
  show "b \<le> radix_maxBlocks d"
    using b lim doubles_pow2 [OF p] doubles_mem roundDown_le le_trans by (metis (no_types, lifting))
  show "2 ^ k dvd b" if "16 dvd radix_slice d"
    using b limdvd [OF that] doubles_pow2 [OF p] kk roundDown_dvd dvd_trans by (metis (no_types, lifting))
qed


lemma Radixsort_tune_steps:
  assumes "Radixsort_tune E d problem out0 st = (Returns v, st')" and "16 \<le> max_work_group_size d"
  obtains s0 p1 st1 p2 st2 st3 where
    "tuneOne (xp_tunePolicy problem) (bench_tuner E (Radixsort_tuneReduceCallback E problem)) (radix_reduce_sets d)
       (radix_problemSizes d problem) s0 = (Returns p1, st1)"
    "tuneOne (xp_tunePolicy problem) (bench_tuner E (Radixsort_tuneScatterCallback E problem)) (radix_scatter_sets d p1)
       (radix_problemSizes d problem) st1 = (Returns p2, st2)"
    "tuneOne (xp_tunePolicy problem) (bench_tuner E (Radixsort_tuneBlocksCallback E problem)) (radix_block_sets d p2)
       (radix_problemSizes d problem) st2 = (Returns v, st3)"
  using assms unfolding Radixsort_tune_def Let_def by (elim bind_end_Returns) (auto elim!: bind_end_Returns)

lemma radix_problemSizes_nonempty: "radix_problemSizes d problem \<noteq> []"
  by (simp add: radix_problemSizes_def Let_def)

lemma Radixsort_tune_fits:
  assumes slack: "\<And>r. r \<le> be_slack E r" and big: "16 \<le> max_work_group_size d"
    and run: "Radixsort_tune E d problem out0 st = (Returns v, st')"
  shows "radix_fits d v \<and> tp_enabled (xp_tunePolicy problem)
    \<and> (16 dvd radix_slice d \<longrightarrow> x_scatterWorkGroupSize v div radix_slice d dvd x_scanBlocks v)
    \<and> (\<exists>c rs. Radixsort_construct E c problem v = Inr rs)"
proof -
  obtain s0 p1 st1 p2 st2 st3 where
    r: "tuneOne (xp_tunePolicy problem) (bench_tuner E (Radixsort_tuneReduceCallback E problem)) (radix_reduce_sets d)
       (radix_problemSizes d problem) s0 = (Returns p1, st1)"
    "tuneOne (xp_tunePolicy problem) (bench_tuner E (Radixsort_tuneScatterCallback E problem)) (radix_scatter_sets d p1)
       (radix_problemSizes d problem) st1 = (Returns p2, st2)"
    "tuneOne (xp_tunePolicy problem) (bench_tuner E (Radixsort_tuneBlocksCallback E problem)) (radix_block_sets d p2)
       (radix_problemSizes d problem) st2 = (Returns v, st3)"
    using Radixsort_tune_steps [OF run big] .
  note ne = radix_problemSizes_nonempty [of d problem]
  have e1: "p1 \<in> set (radix_reduce_sets d)" and en: "tp_enabled (xp_tunePolicy problem)"
    using radix_reduce.tuneOne_end [OF ne r(1)] by simp_all
  have e2: "p2 \<in> set (radix_scatter_sets d p1)" using radix_scatter.tuneOne_end [OF ne r(2)] by simp
  have e3: "v \<in> set (radix_block_sets d p2)"
      "ran (bench_tuner E (Radixsort_tuneBlocksCallback E problem)) (last (radix_problemSizes d problem)) v"
    using rated.tuneOne_end [OF radix_blocks_rated [OF slack] ne r(3)] by simp_all
  obtain x where x: "p1 = radix_cand d x" "pow2 x" "16 \<le> x" "x \<le> max_work_group_size d"
    using radix_reduce_sets_mem [OF e1] by blast
  obtain k s where p2: "p2 = p1\<lparr>x_scanBlocks := roundDown (radix_startBlocks d) (2 ^ k),
      x_scatterWorkGroupSize := radix_slice d * 2 ^ k, x_scatterWorkScale := s\<rparr>"
    and k: "radix_slice d * 2 ^ k \<le> max_work_group_size d" "0 < s" "s * radix_slice d < 256"
    using radix_scatter_sets_mem [OF e2] by blast
  obtain b where v: "v = p2\<lparr>x_scanBlocks := b\<rparr>" and b: "b \<in> set (radix_block_cands d p2)"
    using e3(1) by (auto simp: radix_block_sets_def)
  have "x_scatterWorkGroupSize p2 = radix_slice d * 2 ^ k" "x_scanWorkGroupSize p2 = 64"
    by (simp_all add: p2 x(1) radix_cand_def)
  note m = radix_block_cands_mem [OF b this]
  have "radix_fits d v" using x k m(1) by (simp add: radix_fits_def v p2 radix_cand_def)
  moreover have "x_scatterWorkGroupSize v div radix_slice d = 2 ^ k"
    by (simp add: v p2 radix_slice_def)
  then have "16 dvd radix_slice d \<longrightarrow> x_scatterWorkGroupSize v div radix_slice d dvd x_scanBlocks v"
    using m(2) by (simp add: v)
  moreover have "\<exists>c rs. Radixsort_construct E c problem v = Inr rs"
    using e3(2) Radixsort_tuneBlocksCallback_construct unfolding ran_def bench_tuner_def by fastforce
  ultimately show ?thesis using en by blast
qed

text \<open>An accepted slice is a power of two, and at least the radix.\<close>

lemma accepted_slice:
  assumes "radixsort_cl_accepts (radix_defines v) sd" "x_radixBits v = 4"
  shows "16 dvd scatter_slice v"
proof -
  have "is_power2 (scatter_slice v)" "16 \<le> scatter_slice v"
    using assms by (simp_all add: radixsort_cl_accepts_def Let_def)
  then have "pow2 (scatter_slice v)" by (simp add: is_power2_iff)
  then obtain j where j: "scatter_slice v = 2 ^ j" by (auto elim: pow2_E)
  have "(2 :: nat) ^ 4 \<le> 2 ^ j" using \<open>16 \<le> scatter_slice v\<close> j by simp
  then have "4 \<le> j" by (rule power_le_imp_le_exp [rotated]) simp
  then have "(2 :: nat) ^ 4 dvd 2 ^ j" by (rule le_imp_power_dvd)
  then show ?thesis using j by simp
qed

lemma Radixsort_tune_ok:
  assumes slack: "\<And>r. r \<le> be_slack E r" and big: "16 \<le> max_work_group_size d"
    and bld: "\<And>c s t p. be_build E c ''radixsort.cl'' s t = Inr p \<Longrightarrow> pdefs p = s \<and> psdefs p = t \<and> radixsort_cl_accepts s t"
    and run: "Radixsort_tune E d problem out0 st = (Returns v, st')"
  shows "radix_fits d v \<and> tp_enabled (xp_tunePolicy problem) \<and> radix_params_ok v
    \<and> radixsort_cl_accepts (radix_defines v) (radix_string_defines problem v)"
proof -
  note f = Radixsort_tune_fits [OF slack big run]
  then obtain c rs where "Radixsort_construct E c problem v = Inr rs" by blast
  then obtain p where "be_build E c ''radixsort.cl'' (radix_defines v) (radix_string_defines problem v) = Inr p"
    by (auto simp: Radixsort_construct_def Radixsort_initialize_def bind_result_Inr)
  from bld [OF this] have a: "radixsort_cl_accepts (radix_defines v) (radix_string_defines problem v)" by simp
  have fits: "radix_fits d v" using f by simp
  then have "scatter_slice v = radix_slice d" by (intro radix_slice_eq) (simp_all add: radix_fits_def)
  then have "radix_params_ok v"
    using f accepted_slice [OF a] fits by (simp add: radix_params_ok_def radix_fits_def)
  then show ?thesis using f a by blast
qed

section \<open>Construction\<close>

definition Radixsort_makeKey :: "device \<Rightarrow> radix_problem \<Rightarrow> radix_key" where
  "Radixsort_makeKey d problem = \<lparr>xk_device = deviceKey d, xk_keyType = getName (xp_key problem),
     xk_valueSize = getSize (xp_value problem)\<rparr>"

definition Radixsort_new ::
  "'db sqlite \<Rightarrow> (string \<rightharpoonup> string) \<Rightarrow> ('c, 'a, 'r::{linorder, order_bot}, 'w) bench \<Rightarrow> 'c \<Rightarrow> device
    \<Rightarrow> radix_problem \<Rightarrow> radix_value \<Rightarrow> ('w, 'db) host \<Rightarrow> 'a radixsort ending \<times> ('w, 'db) host" where
  "Radixsort_new Q env E c d problem out0 h =
     (if \<not> keyTypeSupported d (xp_key problem) then (Throws (InvalidArgument ''keyType is not valid''), h)
      else new_tuned Q env RadixsortKey_struct RadixsortValue_struct db_radixsort
        (valueTypeSupported d (xp_value problem)) ''valueType is not valid''
        (Inr (Radixsort_makeKey d problem)) (Radixsort_tune E d problem out0) (Radixsort_construct E c problem) h)"

text \<open>The public problem class.\<close>

datatype radix_problem_op =
    XpNew nat
  | XpCopy nat nat
  | XpAssign nat nat
  | XpDelete nat
  | XpSetKeyType nat cl_type
  | XpSetValueType nat cl_type
  | XpSetTunePolicy nat tune_policy

fun radix_problem_vop :: "radix_problem_op \<Rightarrow> radix_problem vop" where
  "radix_problem_vop (XpNew h) = VNew h"
| "radix_problem_vop (XpCopy h g) = VCopy h g"
| "radix_problem_vop (XpAssign h g) = VAssign h g"
| "radix_problem_vop (XpDelete h) = VDelete h"
| "radix_problem_vop (XpSetKeyType h t) =
     VUpdate h (\<lambda>p. case RadixsortProblem_setKeyType t p of Inl e \<Rightarrow> p | Inr p' \<Rightarrow> p')"
| "radix_problem_vop (XpSetValueType h t) = VUpdate h (RadixsortProblem_setValueType t)"
| "radix_problem_vop (XpSetTunePolicy h tp) = VUpdate h (RadixsortProblem_setTunePolicy tp)"

definition RadixsortProblem_run :: "radix_problem_op list \<Rightarrow> radix_problem objects \<Rightarrow> radix_problem objects option" where
  "RadixsortProblem_run xs = obj_run new_radix_problem (map radix_problem_vop xs)"

section \<open>The properties\<close>

lemma radix_fits_ok: "radix_fits d v \<Longrightarrow> device_ok d \<Longrightarrow> ok_RadixsortValue v"
proof -
  assume f: "radix_fits d v" and d: "device_ok d"
  have "x_scatterWorkScale v * 1 \<le> x_scatterWorkScale v * radix_slice d" by (intro mult_le_mono) (simp_all add: radix_slice_def)
  also have "\<dots> < 256" using f by (simp add: radix_fits_def)
  finally have s: "x_scatterWorkScale v < 2 ^ 64" by simp
  have "x_scanBlocks v \<le> radix_maxBlocks d" using f by (simp add: radix_fits_def)
  also have "\<dots> \<le> u64 (local_mem_size d div 4 + 2 ^ 64 - 2 * 64)" by (simp add: radix_maxBlocks_def)
  also have "\<dots> < 2 ^ 64" by (simp add: u64_def)
  finally have "x_scanBlocks v < 2 ^ 64" .
  then show ?thesis
    using f d s warp_sizes_bound [OF d] by (simp add: ok_RadixsortValue_def radix_fits_def device_ok_def)
qed

lemma radix_maxBlocks_fit:
  assumes "512 \<le> local_mem_size d" "local_mem_size d < 2 ^ 64" "b \<le> radix_maxBlocks d"
  shows "(b * 16 + 128) * 4 \<le> local_mem_size d"
proof -
  define m where "m = local_mem_size d div 4 - 128"
  have m: "local_mem_size d div 4 + 2 ^ 64 - 2 * 64 = m + 2 ^ 64" "m < 2 ^ 64"
    using assms(1,2) by (simp_all add: m_def)
  have "u64 (m + 2 ^ 64) = m" using m(2) by (simp add: u64_def)
  then have "b * 16 \<le> m" using assms(3) unfolding radix_maxBlocks_def m(1) by (metis le_div_mult)
  then show ?thesis using assms(1) by (simp add: m_def)
qed

text \<open>What is returned on a device whose work-groups are smaller than the radix.\<close>

lemma radix_tune_unwritten:
  "max_work_group_size d < 16 \<Longrightarrow> tp_enabled (xp_tunePolicy problem)
   \<Longrightarrow> \<exists>st'. Radixsort_tune E d problem out0 st = (Returns out0, st')"
  by (simp add: Radixsort_tune_def Let_def assertEnabled_def)

text \<open>A construction to evaluate the properties on, on a device with 16 work-items per group.\<close>

definition small_device :: device where
  "small_device = example_device\<lparr>extensions := [], max_work_group_size := 16, local_mem_size := 1024\<rparr>"

definition small_problem :: radix_problem where
  "small_problem = \<lparr>xp_key = \<lparr>baseType = TYPE_UINT, veclen = 1\<rparr>, xp_value = \<lparr>baseType = TYPE_UINT, veclen = 1\<rparr>,
     xp_tunePolicy = TunePolicy_new\<rparr>"

lemma small_problem_ok: "radix_key_type (xp_key small_problem)" "xp_value small_problem \<in> set type_table"
  by (simp_all add: small_problem_def radix_key_type_def isIntegral_def isSigned_def type_table_iff vec_sizes_def)

definition radix_build :: "unit \<Rightarrow> string \<Rightarrow> int std_map \<Rightarrow> string std_map \<Rightarrow> program result" where
  "radix_build c = example_radix_build"

definition radix_bench :: "(unit, unit, nat, nat) bench" where
  "radix_bench = demo_bench\<lparr>be_build := radix_build\<rparr>"

lemma radix_bench_simps:
  "be_alloc radix_bench c f n = (if n = 0 then Inl (ClError (-61) ''clCreateBuffer'') else Inr 9)"
  "be_fill radix_bench c i bytes = Inr ()" "be_queue radix_bench c = Inr ()" "be_driver radix_bench c = (\<lambda>_. CL_SUCCESS)"
  "be_slack radix_bench = (\<lambda>r. r)" "be_ratio radix_bench r = r" "be_context radix_bench w = (Inr (), w)"
  "be_build radix_bench c = example_radix_build" "be_kernel radix_bench c p name = Inr (new_kernel p name)"
  by (simp_all add: radix_bench_def demo_bench_def radix_build_def)

lemma radix_bench_twice:
  "rates radix_bench slack work (bench_twice radix_bench c go go2 fromto d w)
   = rates (demo_bench :: (unit, unit, nat, nat) bench) slack work (bench_twice (demo_bench :: (unit, unit, nat, nat) bench) c go go2 fromto d w)"
  by (simp add: rates_def bench_twice_def run_finish_def radix_bench_def cong: sum.case_cong prod.case_cong option.case_cong)

definition small_params :: "nat \<Rightarrow> nat \<Rightarrow> radix_value" where
  "small_params s b = \<lparr>x_warpSizeMem = 1, x_warpSizeSchedule = 1, x_reduceWorkGroupSize = 16,
     x_scanWorkGroupSize = 64, x_scatterWorkGroupSize = 16, x_scatterWorkScale = s, x_scanBlocks = b, x_radixBits = 4\<rparr>"

lemma small_construct:
  assumes "0 < s" "s < 16" "b = 4 \<or> b = 8"
  shows "\<exists>rs. Radixsort_construct radix_bench c small_problem (small_params s b) = Inr rs"
proof -
  have "radixsort_cl_accepts (radix_defines (small_params s b)) (radix_string_defines small_problem (small_params s b))"
    using assms by (simp add: radixsort_cl_accepts_def radix_string_defines_simps)
      (auto simp: small_params_def scatter_slice_def is_power2_def)
  then show ?thesis
    using assms(3) by (simp add: Radixsort_construct_def Radixsort_initialize_def radix_bench_simps example_radix_build_def)
      (auto simp: small_params_def)
qed

lemma radix_launch_ok:
  "\<exists>e q'. radix_launch (\<lambda>_. CL_SUCCESS) sel g l w (rs, q) = (Inr e, rs, q')"
  by (simp add: radix_launch_def success_launch)

lemma radix_ops_ok:
  "\<exists>e st'. enqueueReduce (\<lambda>_. CL_SUCCESS) o' i len n fb w st = (Inr e, st')"
  "\<exists>e st'. enqueueScan (\<lambda>_. CL_SUCCESS) h nb w st = (Inr e, st')"
  "\<exists>e st'. enqueueScatter (\<lambda>_. CL_SUCCESS) ok' ov ik iv h len n fb w st = (Inr e, st')"
  using radix_launch_ok by (cases st; auto simp: enqueueReduce_def enqueueScan_def enqueueScatter_def Let_def; metis)+

lemma bind_op_succeeds:
  "(\<And>st. \<exists>x st'. m st = (Inr x, st')) \<Longrightarrow> (\<And>x st. \<exists>y st'. f x st = (Inr y, st')) \<Longrightarrow> \<exists>y st'. bind_op m f st = (Inr y, st')"
  by (metis (no_types, lifting) bind_op_def case_prod_conv sum.simps(6))

lemma radix_twice:
  assumes "\<And>st. \<exists>x st'. go st = (Inr x, st')" "\<And>st. \<exists>x st'. go2 st = (Inr x, st')"
  shows "rates radix_bench slack work (bench_twice radix_bench c go go2 fromto d w) = (Inr (Some 1, Some (slack 1)), Suc (Suc w))"
proof -
  obtain x d1 q1 where 1: "go (d, new_queue) = (Inr x, d1, q1)" using assms(1) by (metis surj_pair)
  obtain y d2 q2 where "go2 (d1, q1\<lparr>cmds := []\<rparr>) = (Inr y, d2, q2)" using assms(2) by (metis surj_pair)
  with 1 have "\<exists>x d' q'. go (d, new_queue) = (Inr x, d', q') \<and> (\<exists>y d2 q2. go2 (d', q'\<lparr>cmds := []\<rparr>) = (Inr y, d2, q2))"
    by blast
  then show ?thesis unfolding radix_bench_twice by (rule demo_twice)
qed

lemma small_callbacks:
  assumes n: "0 < n" "n < 2 ^ 40" and p: "0 < s" "s < 16" "b = 4 \<or> b = 8"
  shows "\<exists>w'. Radixsort_tuneReduceCallback radix_bench small_problem () n (small_params s b) w = (Inr (Some 1, Some 1), w')"
    "\<exists>w'. Radixsort_tuneScatterCallback radix_bench small_problem () n (small_params s b) w = (Inr (Some 1, Some 1), w')"
    "\<exists>w'. Radixsort_tuneBlocksCallback radix_bench small_problem () n (small_params s b) w = (Inr (Some 1, Some 1), w')"
proof -
  obtain rs where rs: "Radixsort_construct radix_bench () small_problem (small_params s b) = Inr rs"
    using small_construct [OF p] by blast
  have sz: "getSize (xp_key small_problem) = 4" "getSize (xp_value small_problem) = 4"
    "baseType (xp_value small_problem) \<noteq> TYPE_VOID"
    by (simp_all add: small_problem_def getSize_def getBaseSize_def)
  have u: "u64 (n * 4) \<noteq> 0" using n by (simp_all add: u64_def)
  have bufs: "tune_buffers radix_bench small_problem () n = Inr (9, 9, 9, 9)"
    using u sz by (simp add: tune_buffers_def makeRandomBuffer_def radix_bench_simps)
  show "\<exists>w'. Radixsort_tuneReduceCallback radix_bench small_problem () n (small_params s b) w = (Inr (Some 1, Some 1), w')"
    using u sz rs by (simp add: Radixsort_tuneReduceCallback_def makeRandomBuffer_def radix_bench_simps Let_def
        radix_twice [OF radix_ops_ok(1) radix_ops_ok(1)])
  show "\<exists>w'. Radixsort_tuneScatterCallback radix_bench small_problem () n (small_params s b) w = (Inr (Some 1, Some 1), w')"
    using rs bufs by (simp add: Radixsort_tuneScatterCallback_def radix_bench_simps Let_def)
      (subst radix_twice; (intro bind_op_succeeds radix_ops_ok)?; simp)
  show "\<exists>w'. Radixsort_tuneBlocksCallback radix_bench small_problem () n (small_params s b) w = (Inr (Some 1, Some 1), w')"
    using rs bufs by (simp add: Radixsort_tuneBlocksCallback_def radix_bench_simps Let_def)
      (subst radix_twice; (intro bind_op_succeeds radix_ops_ok)?; simp add: return_op_def)
qed

lemma small_device_simps:
  "max_work_group_size small_device = 16" "local_mem_size small_device = 1024" "max_compute_units small_device = 8"
  "getWarpSizeMem small_device = 1" "getWarpSizeSchedule small_device = 1" "radix_slice small_device = 16"
  "radix_maxBlocks small_device = 8" "radix_startBlocks small_device = 4"
proof -
  have x: "\<not> deviceHasExtension small_device ''cl_nv_device_attribute_query''"
    by (simp add: deviceHasExtension_def small_device_def find_from.simps [of "[]"])
  show w: "getWarpSizeMem small_device = 1" "getWarpSizeSchedule small_device = 1"
    by (simp_all add: getWarpSizeMem_def getWarpSizeSchedule_def x) (simp add: small_device_def example_device_def)
  show "radix_slice small_device = 16" by (simp add: radix_slice_def w)
  show m: "radix_maxBlocks small_device = 8" by (simp add: radix_maxBlocks_def small_device_def u64_def)
  show "radix_startBlocks small_device = 4" by (simp add: radix_startBlocks_def m roundDown_def)
qed (simp_all add: small_device_def example_device_def)

lemma small_doubles: "doubles 16 16 = [16]" "doubles 4 8 = [4, 8]" "doubles 8 8 = [8]"
  by (simp_all add: doubles.simps [of 16] doubles.simps [of 32] doubles.simps [of 4] doubles.simps [of 8])

lemma small_sets:
  "radix_reduce_sets small_device = [small_params 1 4]"
  "radix_scatter_sets small_device (small_params 1 4) = map (\<lambda>s. small_params s 4) [1..<16]"
  "radix_block_sets small_device (small_params 1 4) = [small_params 1 4, small_params 1 8]"
proof -
  show "radix_reduce_sets small_device = [small_params 1 4]"
    by (simp add: radix_reduce_sets_def small_device_simps small_doubles radix_cand_def small_params_def)
  show "radix_scatter_sets small_device (small_params 1 4) = map (\<lambda>s. small_params s 4) [1..<16]"
    by (simp add: radix_scatter_sets_def small_device_simps small_doubles roundDown_def)
      (simp add: small_params_def)
  have "radix_limit small_device (small_params 1 4) = 8"
    by (simp add: radix_limit_def small_device_simps roundDown_def) (simp add: small_params_def)
  moreover have "x_scanWorkGroupSize (small_params 1 4) = 64" "x_scatterWorkGroupSize (small_params 1 4) = 16"
    by (simp_all add: small_params_def)
  moreover have "{x. x = 8 \<and> 4 \<le> x} = {8 :: nat}" by auto
  ultimately have "radix_block_cands small_device (small_params 1 4) = [4, 8]"
    by (simp add: radix_block_cands_def small_device_simps small_doubles roundDown_def insert_Diff_if)
  then show "radix_block_sets small_device (small_params 1 4) = [small_params 1 4, small_params 1 8]"
    by (simp add: radix_block_sets_def) (simp add: small_params_def)
qed

lemma small_problemSizes: "radix_problemSizes small_device small_problem = [1048576, 16777216]"
  by (simp add: radix_problemSizes_def small_device_def example_device_def small_problem_def getSize_def getBaseSize_def)

lemma radix_steady:
  assumes "\<And>n p w. n \<in> set ns \<Longrightarrow> p \<in> set ps \<Longrightarrow> \<exists>w2. cb () n p w = (Inr (Some r, Some r), w2)"
  shows "steady (bench_tuner radix_bench cb) r ns ps"
  using assms by (simp add: steady_def bench_tuner_def radix_bench_simps)

lemma small_steady:
  assumes p: "\<And>p. p \<in> set ps \<Longrightarrow> \<exists>s b. p = small_params s b \<and> 0 < s \<and> s < 16 \<and> (b = 4 \<or> b = 8)"
    and n: "\<And>n. n \<in> set ns \<Longrightarrow> 0 < n \<and> n < 2 ^ 40"
  shows "steady (bench_tuner radix_bench (Radixsort_tuneReduceCallback radix_bench small_problem)) 1 ns ps"
    "steady (bench_tuner radix_bench (Radixsort_tuneScatterCallback radix_bench small_problem)) 1 ns ps"
    "steady (bench_tuner radix_bench (Radixsort_tuneBlocksCallback radix_bench small_problem)) 1 ns ps"
  using p n small_callbacks by (intro radix_steady; metis)+

lemma small_tune:
  "\<exists>st'. Radixsort_tune radix_bench small_device small_problem out0 st = (Returns (small_params 1 4), st')"
proof -
  let ?E = radix_bench and ?P = "xp_tunePolicy small_problem"
  let ?n = "radix_problemSizes small_device small_problem"
  let ?st = "logStartAlgorithm ?P (''radixsort for '' @ getName (xp_key small_problem) @ '' keys and ''
      @ show_nat (getSize (xp_value small_problem)) @ '' byte values'') small_device st"
  have e: "tp_enabled ?P" "assertEnabled ?P = Inr ()"
    by (simp_all add: small_problem_def TunePolicy_new_def assertEnabled_def)
  have r: "tu_ratio (bench_tuner ?E cb) 1 \<le> 1" for cb :: "unit \<Rightarrow> nat \<Rightarrow> radix_value \<Rightarrow> nat \<Rightarrow> (nat option \<times> nat option) result \<times> nat"
    by (simp add: bench_tuner_def radix_bench_simps)
  have n: "0 < n \<and> n < 2 ^ 40" if "n \<in> set ?n" for n using that by (auto simp: small_problemSizes)
  have ps: "\<exists>s b. p = small_params s b \<and> 0 < s \<and> s < 16 \<and> (b = 4 \<or> b = 8)"
    if "p \<in> set (radix_reduce_sets small_device) \<union> set (radix_scatter_sets small_device (small_params 1 4))
      \<union> set (radix_block_sets small_device (small_params 1 4))" for p
    using that unfolding small_sets by fastforce
  note g = steady_tuneOne [OF _ r _ radix_problemSizes_nonempty e(1)]
  obtain st1 where 1: "tuneOne ?P (bench_tuner ?E (Radixsort_tuneReduceCallback ?E small_problem))
      (radix_reduce_sets small_device) ?n ?st = (Returns (small_params 1 4), st1)"
    by (rule g [OF small_steady(1) [OF ps n], where ps = "radix_reduce_sets small_device" and st = "?st"])
      (simp_all add: small_sets del: One_nat_def)
  have hd2: "hd (map (\<lambda>s. small_params s 4) [1..<16]) = small_params 1 4" by (simp add: upt_rec)
  obtain st2 where 2: "tuneOne ?P (bench_tuner ?E (Radixsort_tuneScatterCallback ?E small_problem))
      (radix_scatter_sets small_device (small_params 1 4)) ?n st1 = (Returns (small_params 1 4), st2)"
    by (rule g [OF small_steady(2) [OF ps n], where ps = "radix_scatter_sets small_device (small_params 1 4)" and st = "st1"])
      (simp_all add: small_sets hd2 del: One_nat_def map_upt_eqI upt_Suc)
  obtain st3 where 3: "tuneOne ?P (bench_tuner ?E (Radixsort_tuneBlocksCallback ?E small_problem))
      (radix_block_sets small_device (small_params 1 4)) ?n st2 = (Returns (small_params 1 4), st3)"
    by (rule g [OF small_steady(3) [OF ps n], where ps = "radix_block_sets small_device (small_params 1 4)" and st = "st2"])
      (auto simp: small_sets simp del: One_nat_def)
  show ?thesis
    unfolding Radixsort_tune_def Let_def e(2) lift_result_simps bind_end_simps 1 2 3 small_device_simps
    by simp
qed

text \<open>
  C16. Tuning the radix sort is safe whatever the timings are, on a device whose work-groups hold
  at least 16 work-items: if \<^verbatim>\<open>Radixsort::tune\<close> returns, tuning was enabled, the work-group
  sizes are what the device allows, the slices divide the number of blocks, and the histogram
  with the scan's scratch space fits into local memory. The parameters passed the checks of the
  kernel source, and every sort object built from them is well-formed, which is what the theorems
  on \<^verbatim>\<open>enqueue\<close> require. The hypotheses are that the runtime passes the macros on,
  compiles only what the preprocessor accepts, makes fresh kernel objects and refuses to create
  empty buffers.
\<close>

theorem radix_tune_fits:
  fixes E :: "('c, 'a, 'r::{linorder, order_bot}, 'w) bench"
  assumes "\<And>r. r \<le> be_slack E r"
    and "\<And>c s t p. be_build E c ''radixsort.cl'' s t = Inr p \<Longrightarrow> pdefs p = s \<and> psdefs p = t \<and> radixsort_cl_accepts s t"
    and "\<And>c p n k. be_kernel E c p n = Inr k \<Longrightarrow> k = new_kernel p n"
    and "\<And>c f n b. be_alloc E c f n = Inr b \<Longrightarrow> 0 < n"
    and "radix_key_type (xp_key problem)" and "xp_value problem \<in> set type_table"
    and "16 \<le> max_work_group_size d" and "512 \<le> local_mem_size d" and "local_mem_size d < 2 ^ 64"
    and "Radixsort_tune E d problem out0 st = (Returns v, st')"
    and "Radixsort_construct E c problem v = Inr rs"
  shows "tp_enabled (xp_tunePolicy problem) \<and> radix_fits d v \<and> (x_scanBlocks v * 16 + 128) * 4 \<le> local_mem_size d
    \<and> radixsort_cl_accepts (radix_defines v) (radix_string_defines problem v) \<and> rs_wf rs"
proof -
  have ok: "radix_fits d v \<and> tp_enabled (xp_tunePolicy problem) \<and> radix_params_ok v
    \<and> radixsort_cl_accepts (radix_defines v) (radix_string_defines problem v)"
    by (rule Radixsort_tune_ok [OF assms(1,7) assms(2) assms(10)])
  have "x_scanBlocks v \<le> radix_maxBlocks d" using ok by (simp add: radix_fits_def)
  note fit = radix_maxBlocks_fit [OF assms(8,9) this]
  have "rs_wf rs \<and> rs_keySize rs = getSize (xp_key problem) \<and> rs_valueSize rs = getSize (xp_value problem)
      \<and> rs_tmpKeys rs = None \<and> rs_tmpValues rs = None"
  proof (rule radix_initialize_wf [OF _ _ _ assms(5,6) _ assms(11) [unfolded Radixsort_construct_def]])
    show "radix_params_ok v" using ok by blast
  qed (fact assms(2) assms(3) assms(4))+
  then show ?thesis using ok fit by blast
qed

theorem radix_tune_fits_witness:
  "\<exists>st' rs. Radixsort_tune radix_bench small_device small_problem (small_params 0 0) demo_start
      = (Returns (small_params 1 4), st')
    \<and> Radixsort_construct radix_bench () small_problem (small_params 1 4) = Inr rs \<and> rs_wf rs"
proof -
  obtain st' where run: "Radixsort_tune radix_bench small_device small_problem (small_params 0 0) demo_start
      = (Returns (small_params 1 4), st')" using small_tune by blast
  obtain rs where c: "Radixsort_construct radix_bench () small_problem (small_params 1 4) = Inr rs"
    using small_construct [of 1 4 "()"] by auto
  have "rs_wf rs"
    by (rule radix_tune_fits [OF _ _ _ _ small_problem_ok _ _ _ run c, THEN conjunct2, THEN conjunct2,
          THEN conjunct2, THEN conjunct2])
      (auto simp: radix_bench_simps small_device_simps example_radix_runtime split: if_splits)
  then show ?thesis using run c by blast
qed

text \<open>
  C19. A radix sort is tuned once: after a constructor has returned, a later constructor with the
  same key takes the same parameters from the cache without running or logging a single test, or
  throws a \<^verbatim>\<open>CacheError\<close> of the database or an error of \<^verbatim>\<open>initialize\<close>. This
  includes what a device with small work-groups gets: the unwritten parameters are stored, too.
\<close>

theorem radix_tuned_once:
  fixes E :: "('c, 'a, 'r::{linorder, order_bot}, 'w) bench"
  assumes "sqlite_ok Q W clogs_schemas" and "snd (h_static h) = Some dbo"
    and "table_inv W radixsort_schema (db_radixsort dbo) (h_db h)"
    and "device_ok d" and "\<And>r. r \<le> be_slack E r" and "ok_RadixsortValue out0"
    and "xp_value problem \<in> set type_table"
    and "Radixsort_new Q env E c d problem out0 h = (Returns rs, h1)"
    and "Radixsort_makeKey d' problem' = Radixsort_makeKey d problem"
    and "keyTypeSupported d' (xp_key problem')" and "valueTypeSupported d' (xp_value problem')"
    and "Radixsort_new Q env E' c' d' problem' out1 h1 = (r, h2)"
  shows "h_tune h2 = h_tune h1 \<and> (\<exists>v. Radixsort_construct E c problem v = Inr rs
    \<and> (case r of Returns rs' \<Rightarrow> Radixsort_construct E' c' problem' v = Inr rs'
        | Throws e \<Rightarrow> (\<exists>m. e = CacheError m) \<or> Radixsort_construct E' c' problem' v = Inl e
        | Aborts \<Rightarrow> False))"
proof (rule radixsort_table.new_tuned_once [where sel = db_radixsort, OF assms(1) _ _ assms(2)])
  show "schema_of radixsort_tableName RadixsortKey_struct RadixsortValue_struct \<in> set clogs_schemas"
    by (simp add: schema_of_tables clogs_schemas_def)
  show "table_inv W (schema_of radixsort_tableName RadixsortKey_struct RadixsortValue_struct) (db_radixsort dbo) (h_db h)"
    using assms(3) by (simp add: schema_of_tables)
  show "ok_RadixsortKey key" if "Inr (Radixsort_makeKey d problem) = Inr key" for key :: radix_key
    using that deviceKey_ok [OF assms(4)] value_size(1) [OF assms(7)]
    by (auto simp: Radixsort_makeKey_def ok_RadixsortKey_def)
  show "ok_RadixsortValue v" if "Radixsort_tune E d problem out0 ts = (Returns v, ts')" for ts v ts'
  proof (cases "16 \<le> max_work_group_size d")
    case True
    then show ?thesis using Radixsort_tune_fits [OF assms(5) True that] radix_fits_ok assms(4) by blast
  next
    case False
    then show ?thesis
      using that assms(6) by (auto simp: Radixsort_tune_def Let_def assertEnabled_def split: if_splits)
  qed
qed (use assms(8-12) in \<open>auto simp: Radixsort_new_def split: if_splits\<close>)

definition small_key :: radix_key where
  "small_key = \<lparr>xk_device = \<lparr>platformName = ''P'', deviceName = ''D'', deviceVendorId = 1, driverVersion = ''1''\<rparr>,
     xk_keyType = ''uint'', xk_valueSize = 4\<rparr>"

lemma small_rows: "(case demo_db of None \<Rightarrow> None
   | Some (d, db) \<Rightarrow> Some (fst (table_run (engine clogs_schemas) RadixsortKey_struct RadixsortValue_struct (db_radixsort d)
       [Lookup small_key, Add small_key (small_params 1 4)] db))) = Some [Absent, Added]"
  by code_simp

lemma small_makeKey: "Radixsort_makeKey small_device small_problem = small_key"
  by (simp add: Radixsort_makeKey_def small_problem_def small_key_def deviceKey_def
    small_device_def example_device_def getName_def getSize_def getBaseSize_def)

lemma small_types: "keyTypeSupported small_device (xp_key small_problem)" "valueTypeSupported small_device (xp_value small_problem)"
  by (simp_all add: keyTypeSupported_def valueTypeSupported_def small_problem_def isComputable_def isStorable_def
      isIntegral_def isSigned_def)

lemma small_new:
  assumes d: "demo_db = Some (d, db)"
  shows "\<exists>rs h1. Radixsort_new (engine clogs_schemas) (\<lambda>_. None) radix_bench () small_device small_problem
    (small_params 0 0) (demo_host d db) = (Returns rs, h1)
    \<and> Radixsort_construct radix_bench () small_problem (small_params 1 4) = Inr rs"
proof -
  have "fst (table_run (engine clogs_schemas) RadixsortKey_struct RadixsortValue_struct (db_radixsort d)
      [Lookup small_key, Add small_key (small_params 1 4)] (h_db (demo_host d db))) = [Absent, Added]"
    using small_rows unfolding d option.case prod.case by (simp add: demo_host_def)
  then obtain db1 where run: "table_run (engine clogs_schemas) RadixsortKey_struct RadixsortValue_struct (db_radixsort d)
      [Lookup small_key, Add small_key (small_params 1 4)] (h_db (demo_host d db)) = ([Absent, Added], db1)"
    by (metis prod.collapse)
  obtain ts where ts: "Radixsort_tune radix_bench small_device small_problem (small_params 0 0) (h_tune (demo_host d db))
      = (Returns (small_params 1 4), ts)"
    using small_tune by blast
  obtain rs where rs: "Radixsort_construct radix_bench () small_problem (small_params 1 4) = Inr rs"
    using small_construct [of 1 4 "()"] by auto
  have st: "snd (h_static (demo_host d db)) = Some d" by (simp add: demo_host_def)
  show ?thesis
    using tuned_first [where sel = db_radixsort and tune = "Radixsort_tune radix_bench small_device small_problem (small_params 0 0)",
        OF run st ts] rs
    by (simp add: Radixsort_new_def new_tuned_def small_types small_makeKey)
qed

theorem radix_tuned_once_witness:
  "\<exists>d db rs h1 r h2. demo_db = Some (d, db)
     \<and> Radixsort_new (engine clogs_schemas) (\<lambda>_. None) radix_bench () small_device small_problem
          (small_params 0 0) (demo_host d db) = (Returns rs, h1)
     \<and> Radixsort_new (engine clogs_schemas) (\<lambda>_. None) radix_bench () small_device small_problem
          (small_params 0 0) h1 = (r, h2)
     \<and> h_tune h2 = h_tune h1"
proof -
  let ?Q = "engine clogs_schemas" and ?E = radix_bench
  obtain d db where d: "demo_db = Some (d, db)" using demo by (cases demo_db) auto
  obtain rs h1 where new: "Radixsort_new ?Q (\<lambda>_. None) ?E () small_device small_problem (small_params 0 0) (demo_host d db)
      = (Returns rs, h1)" using small_new [OF d] by blast
  have st: "snd (h_static (demo_host d db)) = Some d" by (simp add: demo_host_def)
  obtain r h2 where new2: "Radixsort_new ?Q (\<lambda>_. None) ?E () small_device small_problem (small_params 0 0) h1 = (r, h2)"
    by (cases "Radixsort_new ?Q (\<lambda>_. None) ?E () small_device small_problem (small_params 0 0) h1")
  have dev: "device_ok small_device" by (simp add: device_ok_def small_device_def example_device_def)
  have inv: "table_inv engine_view radixsort_schema (db_radixsort d) (h_db (demo_host d db))"
    using demo_tables_all(3) [OF d] by (simp add: demo_host_def)
  have out: "ok_RadixsortValue (small_params 0 0)" by (simp add: small_params_def ok_RadixsortValue_def)
  have "h_tune h2 = h_tune h1"
    by (rule radix_tuned_once [OF engine_ok [OF clogs_texts_apart] st inv dev _ out small_problem_ok(2) new refl
          small_types new2, THEN conjunct1]) (simp add: radix_bench_simps)
  then show ?thesis using d new new2 by blast
qed
end
