(* ===== verification/Process.thy ===== *)
theory Process
  imports Build ScanTune ReduceTune RadixTune
begin

text \<open>
  A process that constructs algorithm objects one after the other: all constructors share the
  database object with its tables and the state of the tuner. Shown: the cache only ever holds
  parameters that the algorithms accept, so that every object that a constructor returns, freshly
  tuned or from the cache, is well-formed.
\<close>

section \<open>What a construction does to the cache\<close>

text \<open>A step keeps the database object, its statements and the rows of all tables but one.\<close>

definition only_table :: "'db view \<Rightarrow> db_object \<Rightarrow> string \<Rightarrow> ('w, 'db) host \<Rightarrow> ('w, 'db) host \<Rightarrow> bool" where
  "only_table W d name h h' \<longleftrightarrow> snd (h_static h') = Some d \<and> v_live W (h_db h') = v_live W (h_db h)
     \<and> (\<forall>n. n = name \<or> v_rows W (h_db h') n = v_rows W (h_db h) n)"

context keyed_table
begin

lemma tuned_params_inv:
  assumes ok: "sqlite_ok Q W scs" "schema_of name K V \<in> set scs"
    and inv: "table_inv W (schema_of name K V) (sel d) (h_db h)" and k: "okK key"
    and d: "snd (h_static h) = Some d"
    and vals: "\<And>ts v ts'. tune ts = (Returns v, ts') \<Longrightarrow> okV v \<and> good v"
    and stored: "\<And>k v. table_map W name cellsK okK V (h_db h) k = Some v \<Longrightarrow> good v"
    and run: "tuned_params Q env K V sel key tune h = (r, h')"
  shows "only_table W d name h h' \<and> table_inv W (schema_of name K V) (sel d) (h_db h')
    \<and> (\<forall>k v. table_map W name cellsK okK V (h_db h') k = Some v \<longrightarrow> good v)
    \<and> (\<forall>v. r = Returns v \<longrightarrow> good v)"
proof -
  obtain x db where l: "Table_lookup Q K V (sel d) key (h_db h) = (x, db)"
    by (cases "Table_lookup Q K V (sel d) key (h_db h)")
  note s = lookup_step [OF ok inv k l]
  have inv1: "table_inv W (schema_of name K V) (sel d) db"
    using table_inv_cong [of W db "h_db h"] s inv by simp
  have same: "table_map W name cellsK okK V db = table_map W name cellsK okK V (h_db h)"
    by (rule table_map_cong) (simp add: s)
  have found: "?thesis" if "h_db h' = db" "h_static h' = h_static h" "\<And>v. r = Returns v \<Longrightarrow> good v"
    using that s inv1 d same stored by (auto simp: only_table_def)
  obtain y where y: "x = Some y" using s by (cases x) auto
  show ?thesis
  proof (cases "y = Inr None")
    case False
    then show ?thesis
      using run y l s stored by (intro found) (auto simp: tuned_params_def with_db_static [OF d] split: sum.splits option.splits)
  next
    case True
    obtain t ts where t: "tune (h_tune h) = (t, ts)" by (cases "tune (h_tune h)")
    let ?h = "h\<lparr>h_db := db, h_tune := ts\<rparr>"
    have d1: "snd (h_static ?h) = Some d" using d by simp
    show ?thesis
    proof (cases t)
      case (Returns v)
      have v: "okV v" "good v" using vals t Returns by blast+
      obtain a db2 where a: "Table_add Q K V (sel d) key v db = (a, db2)" by (cases "Table_add Q K V (sel d) key v db")
      note st = add_step [OF ok inv1 k v(1) a]
      have h': "h' = ?h\<lparr>h_db := db2\<rparr>" "\<And>v'. r = Returns v' \<Longrightarrow> v' = v"
        using run y l True t Returns a
        by (auto simp: tuned_params_def with_db_static [OF d] with_db_static [OF d1] split: sum.splits)
      have "good v'" if "table_map W name cellsK okK V db2 k' = Some v'" for k' v'
      proof (cases a)
        case (Inl e)
        then show ?thesis using that st stored same table_map_cong [of W db2 db] by auto
      next
        case (Inr u)
        then show ?thesis using that st stored same v table_map_update [OF _ k v(1), of W db2 db name]
          by (auto split: if_splits)
      qed
      then show ?thesis using st s h' d v by (auto simp: only_table_def split: sum.splits)
    qed (use run y l True t s found in \<open>auto simp: tuned_params_def with_db_static [OF d]\<close>)
  qed
qed

lemma new_tuned_inv:
  assumes ok: "sqlite_ok Q W scs" "schema_of name K V \<in> set scs"
    and inv: "table_inv W (schema_of name K V) (sel d) (h_db h)" and d: "snd (h_static h) = Some d"
    and k: "\<And>key. supported \<Longrightarrow> keyr = Inr key \<Longrightarrow> okK key"
    and vals: "\<And>ts v ts'. supported \<Longrightarrow> tune ts = (Returns v, ts') \<Longrightarrow> okV v \<and> good v"
    and stored: "\<And>k v. table_map W name cellsK okK V (h_db h) k = Some v \<Longrightarrow> good v"
    and run: "new_tuned Q env K V sel supported msg keyr tune init h = (r, h')"
  shows "only_table W d name h h' \<and> table_inv W (schema_of name K V) (sel d) (h_db h')
    \<and> (\<forall>k v. table_map W name cellsK okK V (h_db h') k = Some v \<longrightarrow> good v)
    \<and> (\<forall>x. r = Returns x \<longrightarrow> supported \<and> (\<exists>v. good v \<and> init v = Inr x))"
proof (cases "supported \<and> (\<exists>key. keyr = Inr key)")
  case False
  then show ?thesis using run inv d stored
    by (cases keyr) (auto simp: new_tuned_def only_table_def split: if_splits)
next
  case True
  then obtain key where key: "supported" "keyr = Inr key" by blast
  obtain y h1 where t: "tuned_params Q env K V sel key tune h = (y, h1)"
    by (cases "tuned_params Q env K V sel key tune h")
  have i: "only_table W d name h h1 \<and> table_inv W (schema_of name K V) (sel d) (h_db h1)
    \<and> (\<forall>k v. table_map W name cellsK okK V (h_db h1) k = Some v \<longrightarrow> good v)
    \<and> (\<forall>v. y = Returns v \<longrightarrow> good v)"
    by (rule tuned_params_inv [OF ok inv k [OF key] d _ _ t]) (use vals key stored in blast)+
  show ?thesis
    using run key t i by (cases y) (auto simp: new_tuned_def lift_result_def split: sum.splits)
qed

end

section \<open>The process\<close>

text \<open>
  The objects that constructors make, and a sequence of constructions: each ends with its object
  or an exception; a failed assertion ends the process. The scan and the reduction share an element
  type, the sort has its own. The last argument of \<open>NewSort\<close> is what the uninitialized
  result of \<^verbatim>\<open>Radixsort::tune\<close> holds.
\<close>

datatype construction =
    NewScan device scan_problem
  | NewReduce device reduce_problem
  | NewSort device radix_problem radix_value

datatype ('a, 'b) object = ObjScan "'a scan" | ObjReduce "'a reduce \<times> 32 word" | ObjSort "'b radixsort"

definition construct_object ::
  "'db sqlite \<Rightarrow> (string \<rightharpoonup> string) \<Rightarrow> ('c, 'a::zero, 'r::{linorder, order_bot}, 'w) bench \<Rightarrow> ('c, 'b, 'r, 'w) bench
    \<Rightarrow> 'c \<Rightarrow> construction \<Rightarrow> ('w, 'db) host \<Rightarrow> ('a, 'b) object ending \<times> ('w, 'db) host" where
  "construct_object Q env E F c x h = (case x of
       NewScan d p \<Rightarrow> bind_end (Scan_new Q env E c d p h) (\<lambda>sc h1. (Returns (ObjScan sc), h1))
     | NewReduce d p \<Rightarrow> bind_end (Reduce_new Q env E c d p h) (\<lambda>rd h1. (Returns (ObjReduce rd), h1))
     | NewSort d p out0 \<Rightarrow> bind_end (Radixsort_new Q env F c d p out0 h) (\<lambda>rs h1. (Returns (ObjSort rs), h1)))"

fun construct_all ::
  "'db sqlite \<Rightarrow> (string \<rightharpoonup> string) \<Rightarrow> ('c, 'a::zero, 'r::{linorder, order_bot}, 'w) bench \<Rightarrow> ('c, 'b, 'r, 'w) bench
    \<Rightarrow> 'c \<Rightarrow> construction list \<Rightarrow> ('w, 'db) host \<Rightarrow> ('a, 'b) object ending list \<times> ('w, 'db) host" where
  "construct_all Q env E F c [] h = ([], h)"
| "construct_all Q env E F c (x # xs) h =
     (case construct_object Q env E F c x h of (r, h1) \<Rightarrow>
        (case r of Aborts \<Rightarrow> ([Aborts], h1)
         | _ \<Rightarrow> (case construct_all Q env E F c xs h1 of (rs, h2) \<Rightarrow> (r # rs, h2))))"

text \<open>What the theorems on \<^verbatim>\<open>enqueue\<close> require of an object.\<close>

fun object_wf :: "('a, 'b) object \<Rightarrow> bool" where
  "object_wf (ObjScan sc) = scan_wf sc"
| "object_wf (ObjReduce (rd, w)) = (reduce_wf rd \<and> w = of_nat (rd_blocks rd))"
| "object_wf (ObjSort rs) = rs_wf rs"

fun outcome_wf :: "('a, 'b) object ending \<Rightarrow> bool" where
  "outcome_wf (Returns x) = object_wf x"
| "outcome_wf _ = True"

section \<open>The invariant\<close>

text \<open>
  What is relied on of the runtime: ratios of rates do not exceed the allowed slack, a program
  that was built carries its macros and passed the checks of its preprocessor, kernel objects start
  without arguments and there are no empty buffers.
\<close>

definition bench_ok :: "(int std_map \<Rightarrow> string std_map \<Rightarrow> bool) \<Rightarrow> string \<Rightarrow> ('c, 'a, 'r::{linorder, order_bot}, 'w) bench \<Rightarrow> bool" where
  "bench_ok accepts file E \<longleftrightarrow>
     (\<forall>r. r \<le> be_slack E r)
     \<and> (\<forall>c s t p. be_build E c file s t = Inr p \<longrightarrow> pdefs p = s \<and> psdefs p = t \<and> accepts s t)
     \<and> (\<forall>c p n k. be_kernel E c p n = Inr k \<longrightarrow> k = new_kernel p n)
     \<and> (\<forall>c f n b. be_alloc E c f n = Inr b \<longrightarrow> 0 < n)"

text \<open>
  The devices and problems covered: attributes within their types, work-groups of at least the
  radix of the sort, and types that the constructor of \<^verbatim>\<open>Type\<close> accepts.
\<close>

fun construction_ok :: "construction \<Rightarrow> bool" where
  "construction_ok (NewScan d p) = device_ok d"
| "construction_ok (NewReduce d p) = (device_ok d \<and> max_compute_units d < 2 ^ 26 \<and> rp_type p \<in> set type_table)"
| "construction_ok (NewSort d p out0) = (device_ok d \<and> 16 \<le> max_work_group_size d \<and> xp_value p \<in> set type_table)"

definition reduce_good :: "reduce_value \<Rightarrow> bool" where
  "reduce_good v \<longleftrightarrow> 0 < r_reduceBlocks v \<and> r_reduceBlocks v < 2 ^ 32"

text \<open>The state of the process: the tables are well-formed, and what they hold can be used.\<close>

definition scan_part :: "'db view \<Rightarrow> db_object \<Rightarrow> 'db \<Rightarrow> bool" where
  "scan_part W dbo db \<longleftrightarrow> table_inv W scan_schema (db_scan dbo) db"

definition reduce_part :: "'db view \<Rightarrow> db_object \<Rightarrow> 'db \<Rightarrow> bool" where
  "reduce_part W dbo db \<longleftrightarrow> table_inv W reduce_schema (db_reduce dbo) db
     \<and> (\<forall>k v. table_map W reduce_tableName cells_ReduceKey ok_ReduceKey ReduceValue_struct db k = Some v \<longrightarrow> reduce_good v)"

definition sort_part :: "'db view \<Rightarrow> db_object \<Rightarrow> 'db \<Rightarrow> bool" where
  "sort_part W dbo db \<longleftrightarrow> table_inv W radixsort_schema (db_radixsort dbo) db
     \<and> (\<forall>k v. table_map W radixsort_tableName cells_RadixsortKey ok_RadixsortKey RadixsortValue_struct db k = Some v
            \<longrightarrow> radix_params_ok v)"

definition process_inv :: "'db view \<Rightarrow> db_object \<Rightarrow> ('w, 'db) host \<Rightarrow> bool" where
  "process_inv W dbo h \<longleftrightarrow> snd (h_static h) = Some dbo
     \<and> scan_part W dbo (h_db h) \<and> reduce_part W dbo (h_db h) \<and> sort_part W dbo (h_db h)"

text \<open>A part depends on the live statements and on the rows of its own table.\<close>

lemma table_inv_other:
  "v_live W db' = v_live W db \<Longrightarrow> v_rows W db' (sc_name s) = v_rows W db (sc_name s)
   \<Longrightarrow> table_inv W s t db' = table_inv W s t db"
  by (simp add: table_inv_stmts)

lemma table_map_other:
  "v_rows W db' name = v_rows W db name \<Longrightarrow> table_map W name cellsK okK V db' = table_map W name cellsK okK V db"
  by (rule ext) (simp add: table_map_def)

lemma parts_frame:
  assumes "v_live W db' = v_live W db"
  shows "v_rows W db' scan_tableName = v_rows W db scan_tableName \<Longrightarrow> scan_part W dbo db' = scan_part W dbo db"
    and "v_rows W db' reduce_tableName = v_rows W db reduce_tableName \<Longrightarrow> reduce_part W dbo db' = reduce_part W dbo db"
    and "v_rows W db' radixsort_tableName = v_rows W db radixsort_tableName \<Longrightarrow> sort_part W dbo db' = sort_part W dbo db"
proof -
  show "scan_part W dbo db' = scan_part W dbo db" if "v_rows W db' scan_tableName = v_rows W db scan_tableName"
    unfolding scan_part_def by (rule table_inv_other [OF assms]) (simp add: scan_schema_def that)
  show "reduce_part W dbo db' = reduce_part W dbo db" if r: "v_rows W db' reduce_tableName = v_rows W db reduce_tableName"
    unfolding reduce_part_def table_map_other [OF r]
    by (rule arg_cong2 [where f = conj, OF table_inv_other [OF assms] refl]) (simp add: reduce_schema_def r)
  show "sort_part W dbo db' = sort_part W dbo db" if r: "v_rows W db' radixsort_tableName = v_rows W db radixsort_tableName"
    unfolding sort_part_def table_map_other [OF r]
    by (rule arg_cong2 [where f = conj, OF table_inv_other [OF assms] refl]) (simp add: radixsort_schema_def r)
qed

lemma table_names_differ:
  "scan_tableName \<noteq> reduce_tableName" "scan_tableName \<noteq> radixsort_tableName" "reduce_tableName \<noteq> radixsort_tableName"
  by (simp_all add: scan_tableName_def reduce_tableName_def radixsort_tableName_def)

lemma in_schemas: "scan_schema \<in> set clogs_schemas" "reduce_schema \<in> set clogs_schemas" "radixsort_schema \<in> set clogs_schemas"
  by (simp_all add: clogs_schemas_def)

lemma parts_kept:
  assumes "process_inv W dbo h"
  shows "only_table W dbo scan_tableName h h' \<Longrightarrow> scan_part W dbo (h_db h') \<Longrightarrow> process_inv W dbo h'"
    and "only_table W dbo reduce_tableName h h' \<Longrightarrow> reduce_part W dbo (h_db h') \<Longrightarrow> process_inv W dbo h'"
    and "only_table W dbo radixsort_tableName h h' \<Longrightarrow> sort_part W dbo (h_db h') \<Longrightarrow> process_inv W dbo h'"
  using assms parts_frame [of W "h_db h'" "h_db h" dbo] table_names_differ unfolding process_inv_def only_table_def
  by metis+

lemma scan_constructed:
  fixes E :: "('c, 'a::zero, 'r::{linorder, order_bot}, 'w) bench"
  assumes ok: "sqlite_ok Q W clogs_schemas" and E: "bench_ok (\<lambda>s t. scan_cl_accepts s) ''scan.cl'' E"
    and inv: "process_inv W dbo h" and dev: "device_ok d" and run: "Scan_new Q env E c d p h = (r, h')"
  shows "process_inv W dbo h' \<and> (\<forall>sc. r = Returns sc \<longrightarrow> scan_wf sc)"
proof -
  have "only_table W dbo scan_tableName h h' \<and> table_inv W scan_schema (db_scan dbo) (h_db h')
    \<and> (\<forall>k v. table_map W scan_tableName cells_ScanKey ok_ScanKey ScanValue_struct (h_db h') k = Some v \<longrightarrow> True)
    \<and> (\<forall>sc. r = Returns sc \<longrightarrow> Scan_typeSupported d (sp_type p) \<and> (\<exists>v. True \<and> Scan_construct E c p v = Inr sc))"
  proof (rule scan_table.new_tuned_inv [where name = scan_tableName, OF ok _ _ _ _ _ _ run [unfolded Scan_new_def],
        unfolded schema_of_tables])
    show "scan_schema \<in> set clogs_schemas" by (simp add: in_schemas)
    show "table_inv W scan_schema (db_scan dbo) (h_db h)" "snd (h_static h) = Some dbo"
      using inv by (simp_all add: process_inv_def scan_part_def)
    show "ok_ScanKey key" if "Scan_makeKey d p = Inr key" for key
      using that deviceKey_ok [OF dev] by (cases "canon_signed (sp_type p)") (auto simp: Scan_makeKey_def ok_ScanKey_def)
    show "ok_ScanValue v \<and> True" if "Scan_tune E d p ts = (Returns v, ts')" for ts v ts'
      using Scan_tune_fits [OF _ that] scan_fits_ok dev E unfolding bench_ok_def by blast
  qed simp
  moreover have "scan_wf sc" if "Scan_construct E c p v = Inr sc" for v sc
    using initialize_wf [OF _ _ _ that [unfolded Scan_construct_def]] E unfolding bench_ok_def by blast
  ultimately show ?thesis
    using parts_kept(1) [OF inv] by (auto simp: scan_part_def)
qed

lemma reduce_constructed:
  fixes E :: "('c, 'a, 'r::{linorder, order_bot}, 'w) bench"
  assumes ok: "sqlite_ok Q W clogs_schemas" and E: "bench_ok (\<lambda>s t. reduce_cl_accepts s) ''reduce.cl'' E"
    and inv: "process_inv W dbo h" and dev: "device_ok d" "max_compute_units d < 2 ^ 26" "rp_type p \<in> set type_table"
    and run: "Reduce_new Q env E c d p h = (r, h')"
  shows "process_inv W dbo h' \<and> (\<forall>rd w. r = Returns (rd, w) \<longrightarrow> reduce_wf rd \<and> w = of_nat (rd_blocks rd))"
proof -
  have "only_table W dbo reduce_tableName h h' \<and> table_inv W reduce_schema (db_reduce dbo) (h_db h')
    \<and> (\<forall>k v. table_map W reduce_tableName cells_ReduceKey ok_ReduceKey ReduceValue_struct (h_db h') k = Some v \<longrightarrow> reduce_good v)
    \<and> (\<forall>x. r = Returns x \<longrightarrow> Reduce_typeSupported d (rp_type p) \<and> (\<exists>v. reduce_good v \<and> Reduce_construct E c p v = Inr x))"
  proof (rule reduce_table.new_tuned_inv [where name = reduce_tableName, OF ok _ _ _ _ _ _ run [unfolded Reduce_new_def],
        unfolded schema_of_tables])
    show "reduce_schema \<in> set clogs_schemas" by (simp add: in_schemas)
    show "table_inv W reduce_schema (db_reduce dbo) (h_db h)" "snd (h_static h) = Some dbo"
      using inv by (simp_all add: process_inv_def reduce_part_def)
    show "ok_ReduceKey key" if "Reduce_makeKey d p = Inr key" for key
      using that deviceKey_ok [OF dev(1)] by (cases "canon_signed (rp_type p)") (auto simp: Reduce_makeKey_def ok_ReduceKey_def)
    show "reduce_good v" if "table_map W reduce_tableName cells_ReduceKey ok_ReduceKey ReduceValue_struct (h_db h) k = Some v" for k v
      using that inv by (auto simp: process_inv_def reduce_part_def)
    show "ok_ReduceValue v \<and> reduce_good v" if "Reduce_tune E d p ts = (Returns v, ts')" for ts v ts'
    proof -
      have "reduce_fits d (rp_type p) v"
        using Reduce_tune_fits [OF _ that] E unfolding bench_ok_def by blast
      then show ?thesis using reduce_fits_ok [OF _ dev(1,2)] dev(2) by (auto simp: reduce_fits_def reduce_good_def)
    qed
  qed
  moreover have "reduce_wf rd \<and> w = of_nat (rd_blocks rd)"
    if "Reduce_typeSupported d (rp_type p)" "reduce_good v" "Reduce_construct E c p v = Inr (rd, w)" for v rd w
  proof (rule reduce_initialize_obj_wf [OF _ _ _ _ _ that(3) [unfolded Reduce_construct_def]])
    show "0 < getSize (rp_type p)"
      using that(1) dev(3) by (cases "baseType (rp_type p)") (auto simp: Reduce_typeSupported_def isComputable_def
          type_table_iff void_type_def vec_sizes_def getSize_def getBaseSize_def)
  qed (use that(2) E in \<open>auto simp: reduce_good_def bench_ok_def\<close>)
  ultimately show ?thesis
    using parts_kept(2) [OF inv] by (auto simp: reduce_part_def)
qed

text \<open>What is known of a sort object that a constructor returns.\<close>

definition sort_built :: "('c, 'a, 'r, 'w) bench \<Rightarrow> 'c \<Rightarrow> radix_problem \<Rightarrow> 'a radixsort \<Rightarrow> bool" where
  "sort_built E c p rs \<longleftrightarrow> rs_wf rs \<and> rs_keySize rs = getSize (xp_key p) \<and> rs_valueSize rs = getSize (xp_value p)
     \<and> rs_tmpKeys rs = None \<and> rs_tmpValues rs = None \<and> (\<exists>n. be_alloc E c CL_MEM_READ_WRITE n = Inr (rs_histogram rs))"

lemma sort_constructed:
  fixes E :: "('c, 'a, 'r::{linorder, order_bot}, 'w) bench"
  assumes ok: "sqlite_ok Q W clogs_schemas" and E: "bench_ok radixsort_cl_accepts ''radixsort.cl'' E"
    and inv: "process_inv W dbo h"
    and dev: "device_ok d" "16 \<le> max_work_group_size d" "xp_value p \<in> set type_table"
    and run: "Radixsort_new Q env E c d p out0 h = (r, h')"
  shows "process_inv W dbo h' \<and> (\<forall>rs. r = Returns rs \<longrightarrow> sort_built E c p rs)"
proof (cases "keyTypeSupported d (xp_key p)")
  case False
  then show ?thesis using run inv by (auto simp: Radixsort_new_def)
next
  case key: True
  have bld: "be_build E c ''radixsort.cl'' s t = Inr q \<Longrightarrow> pdefs q = s \<and> psdefs q = t \<and> radixsort_cl_accepts s t"
    and slack: "r \<le> be_slack E r" for c s t q r
    using E unfolding bench_ok_def by blast+
  have go: "new_tuned Q env RadixsortKey_struct RadixsortValue_struct db_radixsort (valueTypeSupported d (xp_value p))
      ''valueType is not valid'' (Inr (Radixsort_makeKey d p)) (Radixsort_tune E d p out0) (Radixsort_construct E c p) h = (r, h')"
    using run key by (simp add: Radixsort_new_def)
  have "only_table W dbo radixsort_tableName h h' \<and> table_inv W radixsort_schema (db_radixsort dbo) (h_db h')
    \<and> (\<forall>k v. table_map W radixsort_tableName cells_RadixsortKey ok_RadixsortKey RadixsortValue_struct (h_db h') k = Some v
          \<longrightarrow> radix_params_ok v)
    \<and> (\<forall>x. r = Returns x \<longrightarrow> valueTypeSupported d (xp_value p) \<and> (\<exists>v. radix_params_ok v \<and> Radixsort_construct E c p v = Inr x))"
  proof (rule radixsort_table.new_tuned_inv [where name = radixsort_tableName, OF ok _ _ _ _ _ _
        go, unfolded schema_of_tables])
    show "radixsort_schema \<in> set clogs_schemas" by (simp add: in_schemas)
    show "table_inv W radixsort_schema (db_radixsort dbo) (h_db h)" "snd (h_static h) = Some dbo"
      using inv by (simp_all add: process_inv_def sort_part_def)
    show "ok_RadixsortKey k" if "Inr (Radixsort_makeKey d p) = Inr k" for k :: radix_key
      using that deviceKey_ok [OF dev(1)] value_size(1) [OF dev(3)] by (auto simp: Radixsort_makeKey_def ok_RadixsortKey_def)
    show "radix_params_ok v"
      if "table_map W radixsort_tableName cells_RadixsortKey ok_RadixsortKey RadixsortValue_struct (h_db h) k = Some v" for k v
      using that inv by (auto simp: process_inv_def sort_part_def)
    show "ok_RadixsortValue v \<and> radix_params_ok v" if "Radixsort_tune E d p out0 ts = (Returns v, ts')" for ts v ts'
    proof -
      have "radix_fits d v \<and> tp_enabled (xp_tunePolicy p) \<and> radix_params_ok v
          \<and> radixsort_cl_accepts (radix_defines v) (radix_string_defines p v)"
        by (rule Radixsort_tune_ok [OF slack dev(2) _ that]) (rule bld)
      then show ?thesis using radix_fits_ok dev(1) by blast
    qed
  qed
  moreover have "sort_built E c p rs" if v: "radix_params_ok v" "Radixsort_construct E c p v = Inr rs" for v rs
  proof -
    have "rs_wf rs \<and> rs_keySize rs = getSize (xp_key p) \<and> rs_valueSize rs = getSize (xp_value p)
        \<and> rs_tmpKeys rs = None \<and> rs_tmpValues rs = None"
    proof (rule radix_initialize_wf [OF _ _ _ _ dev(3) v(1) v(2) [unfolded Radixsort_construct_def]])
      show "radix_key_type (xp_key p)" using key by (simp add: keyTypeSupported_def radix_key_type_def)
    qed (use E [unfolded bench_ok_def] bld in blast)+
    then show ?thesis using radix_initialize_fields(12) [OF v(2) [unfolded Radixsort_construct_def]]
      by (auto simp: sort_built_def)
  qed
  ultimately show ?thesis using parts_kept(3) [OF inv] by (auto simp: sort_part_def)
qed

text \<open>One construction, and then any number of them.\<close>

definition runtime_ok :: "('c, 'a::zero, 'r::{linorder, order_bot}, 'w) bench \<Rightarrow> ('c, 'b, 'r, 'w) bench \<Rightarrow> bool" where
  "runtime_ok E F \<longleftrightarrow> bench_ok (\<lambda>s t. scan_cl_accepts s) ''scan.cl'' E
     \<and> bench_ok (\<lambda>s t. reduce_cl_accepts s) ''reduce.cl'' E \<and> bench_ok radixsort_cl_accepts ''radixsort.cl'' F"

lemma object_constructed:
  fixes E :: "('c, 'a::zero, 'r::{linorder, order_bot}, 'w) bench"
  assumes "sqlite_ok Q W clogs_schemas" and "runtime_ok E F" and "process_inv W dbo h" and "construction_ok x"
    and "construct_object Q env E F c x h = (r, h')"
  shows "process_inv W dbo h' \<and> outcome_wf r"
proof (cases x)
  case (NewScan d p)
  obtain y h1 where "Scan_new Q env E c d p h = (y, h1)" by (cases "Scan_new Q env E c d p h")
  with scan_constructed [OF assms(1) _ assms(3) _ this] assms(2,4,5) show ?thesis
    by (cases y) (auto simp: NewScan construct_object_def runtime_ok_def)
next
  case (NewReduce d p)
  obtain y h1 where "Reduce_new Q env E c d p h = (y, h1)" by (cases "Reduce_new Q env E c d p h")
  with reduce_constructed [OF assms(1) _ assms(3) _ _ _ this] assms(2,4,5) show ?thesis
    by (cases y) (auto simp: NewReduce construct_object_def runtime_ok_def)
next
  case (NewSort d p out0)
  obtain y h1 where "Radixsort_new Q env F c d p out0 h = (y, h1)" by (cases "Radixsort_new Q env F c d p out0 h")
  with sort_constructed [OF assms(1) _ assms(3) _ _ _ this] assms(2,4,5) show ?thesis
    by (cases y) (auto simp: NewSort construct_object_def runtime_ok_def sort_built_def)
qed

lemma all_constructed:
  fixes E :: "('c, 'a::zero, 'r::{linorder, order_bot}, 'w) bench"
  assumes "sqlite_ok Q W clogs_schemas" and "runtime_ok E F"
  shows "process_inv W dbo h \<Longrightarrow> list_all construction_ok xs \<Longrightarrow> construct_all Q env E F c xs h = (ys, h')
    \<Longrightarrow> process_inv W dbo h' \<and> list_all outcome_wf ys"
proof (induction xs arbitrary: h ys h')
  case Nil
  then show ?case by simp
next
  case (Cons x xs)
  obtain r h1 where r: "construct_object Q env E F c x h = (r, h1)" by (cases "construct_object Q env E F c x h")
  obtain rs h2 where rs: "construct_all Q env E F c xs h1 = (rs, h2)" by (cases "construct_all Q env E F c xs h1")
  have ok: "construction_ok x" "list_all construction_ok xs" using Cons.prems(2) by simp_all
  note one = object_constructed [OF assms Cons.prems(1) ok(1) r]
  show ?case using Cons.IH [OF _ ok(2) rs] one Cons.prems(3) r rs by (cases r) auto
qed

section \<open>An example\<close>

text \<open>A runtime whose compiler performs the checks of the preprocessor.\<close>

definition strict_build :: "unit \<Rightarrow> string \<Rightarrow> int std_map \<Rightarrow> string std_map \<Rightarrow> program result" where
  "strict_build c f s t =
     (if (f = ''scan.cl'' \<and> \<not> scan_cl_accepts s) \<or> (f = ''reduce.cl'' \<and> \<not> reduce_cl_accepts s) then Inl (InternalError f)
      else Inr \<lparr>pfile = f, pdefs = s, psdefs = t\<rparr>)"

definition strict_bench :: "(unit, 32 word, nat, nat) bench" where
  "strict_bench = demo_bench\<lparr>be_build := strict_build\<rparr>"

lemma strict_runtime: "runtime_ok strict_bench radix_bench"
  unfolding runtime_ok_def bench_ok_def radix_bench_simps
  by (auto simp: strict_bench_def strict_build_def demo_bench_def example_radix_build_def split: if_splits)

lemma demo_process: "demo_db = Some (d, db) \<Longrightarrow> process_inv engine_view d (demo_host d db)"
  using demo_tables_all [of d db]
  by (simp add: process_inv_def scan_part_def reduce_part_def sort_part_def demo_host_def table_map_def demo_tables(2))

end
