(* ===== verification/Exports.thy ===== *)
theory Exports
  imports Utils
begin

text \<open>
  Reference counts at the exported boundary: the C interface receives raw OpenCL handles, which
  the library wraps into C++ objects that retain and release them (\<^verbatim>\<open>retainWrap\<close>), and the
  event that a call returns changes its owner twice (\<^verbatim>\<open>unwrap\<close> in the library, the
  assignment in the inline function of the header). Shown: no handle is touched after its last
  reference is gone, and a call leaves all counts as they were, except that the caller owns the new
  event and has given up the one that its event object held before.
\<close>

section \<open>Handles\<close>

text \<open>The counts of the runtime; 0 is the null handle. Using a dead handle is \<open>None\<close>.\<close>

type_synonym refs = "nat \<Rightarrow> nat"

definition retain :: "nat \<Rightarrow> refs \<Rightarrow> refs option" where
  "retain h R = (if R h = 0 then None else Some (R(h := Suc (R h))))"

definition release :: "nat \<Rightarrow> refs \<Rightarrow> refs option" where
  "release h R = (if R h = 0 then None else Some (R(h := R h - 1)))"

definition RetainWrapper :: "nat \<Rightarrow> refs \<Rightarrow> refs option" where
  "RetainWrapper obj R = (if obj \<noteq> 0 then retain obj R else Some R)"

text \<open>The destructor of a wrapper object of the OpenCL C++ interface.\<close>

definition cl_delete :: "nat \<Rightarrow> refs \<Rightarrow> refs option" where
  "cl_delete obj R = (if obj \<noteq> 0 then release obj R else Some R)"

fun wrap_all :: "nat list \<Rightarrow> refs \<Rightarrow> refs option" where
  "wrap_all [] R = Some R"
| "wrap_all (h # hs) R = Option.bind (RetainWrapper h R) (wrap_all hs)"

fun delete_all :: "nat list \<Rightarrow> refs \<Rightarrow> refs option" where
  "delete_all [] R = Some R"
| "delete_all (h # hs) R = Option.bind (cl_delete h R) (delete_all hs)"

text \<open>\<^verbatim>\<open>unwrap\<close>: what is stored through the pointer, and what the wrapper then holds.\<close>

definition unwrap :: "nat \<Rightarrow> bool \<Rightarrow> nat option \<times> nat" where
  "unwrap obj wanted = (if wanted then (Some obj, 0) else (None, obj))"

section \<open>A call across the boundary\<close>

text \<open>
  An exported function: \<open>hs\<close> are the handles of the queue and the buffers, \<open>inner\<close> is the
  call of the detail object, whose result is the handle in \<^verbatim>\<open>event_\<close> (null if no event was
  asked for). Temporaries die at the end of the call, the event list at the end of the block.
\<close>

definition export_call ::
  "(nat list option \<Rightarrow> bool \<Rightarrow> refs \<Rightarrow> nat result \<times> refs) \<Rightarrow> nat list \<Rightarrow> nat \<Rightarrow> nat list option \<Rightarrow> bool \<Rightarrow> refs
    \<Rightarrow> ((nat option option \<times> int \<times> string option) result \<times> refs) option" where
  "export_call inner hs numEvents events wanted R =
     (case retainWrap_array numEvents events of
        Inl e \<Rightarrow> Some (abi_catch (Inl e), R)
      | Inr es \<Rightarrow>
          Option.bind (wrap_all es R) (\<lambda>R1.
          Option.bind (wrap_all hs R1) (\<lambda>R2.
          case inner (if events = None then None else Some es) wanted R2 of (r, R3) \<Rightarrow>
          Option.bind (delete_all hs R3) (\<lambda>R4.
          case r of
            Inl e \<Rightarrow> Option.bind (delete_all es R4) (\<lambda>R5. Some (abi_catch (Inl e), R5))
          | Inr event_ \<Rightarrow>
              (case unwrap event_ wanted of (out, left) \<Rightarrow>
                 Option.bind (cl_delete left R4) (\<lambda>R5.
                 Option.bind (delete_all es R5) (\<lambda>R6. Some (abi_catch (Inr out), R6))))))))"

text \<open>
  The inline function of the header: \<open>held\<close> is the handle in the caller's event object, which
  the assignment of a raw handle releases.
\<close>

definition public_call ::
  "(nat list option \<Rightarrow> bool \<Rightarrow> refs \<Rightarrow> nat result \<times> refs) \<Rightarrow> nat list \<Rightarrow> nat list option \<Rightarrow> bool \<Rightarrow> nat \<Rightarrow> refs
    \<Rightarrow> (nat result \<times> refs) option" where
  "public_call inner hs events wanted held R =
     (case UnwrapArray events of (n, dat) \<Rightarrow>
      case export_call inner hs n dat wanted R of
        None \<Rightarrow> None
      | Some (x, R1) \<Rightarrow>
          (case abi_wrap x of
             Inl e \<Rightarrow> Some (Inl e, R1)
           | Inr None \<Rightarrow> Some (Inr held, R1)
           | Inr (Some outEvent) \<Rightarrow> map_option (\<lambda>R2. (Inr outEvent, R2)) (cl_delete held R1)))"

section \<open>Balance\<close>

definition alive :: "refs \<Rightarrow> nat list \<Rightarrow> bool" where
  "alive R hs \<longleftrightarrow> list_all (\<lambda>h. h = 0 \<or> 0 < R h) hs"

definition add_refs :: "nat list \<Rightarrow> refs \<Rightarrow> refs" where
  "add_refs hs R = (\<lambda>h. if h = 0 then R h else R h + count_list hs h)"

lemma add_refs_simps [simp]:
  "add_refs [] R = R" "add_refs (0 # hs) R = add_refs hs R"
  "h \<noteq> 0 \<Longrightarrow> add_refs (h # hs) R = add_refs hs (R(h := Suc (R h)))"
  by (auto simp: add_refs_def)

lemma add_refs_mono: "R h \<le> add_refs hs R h"
  by (simp add: add_refs_def)

lemma alive_add: "alive R hs \<Longrightarrow> alive (add_refs es R) hs"
  unfolding alive_def list_all_iff using add_refs_mono [of R _ es] by (metis le_zero_eq neq0_conv)

lemma wrap_all_add: "alive R hs \<Longrightarrow> wrap_all hs R = Some (add_refs hs R)"
proof (induction hs arbitrary: R)
  case (Cons h hs)
  have "alive (R(h := Suc (R h))) hs" using Cons.prems by (auto simp: alive_def list_all_iff)
  then show ?case using Cons by (auto simp: alive_def RetainWrapper_def retain_def fun_upd_def)
qed simp

lemma delete_all_add: "delete_all hs (add_refs hs R) = Some R"
proof (induction hs)
  case (Cons h hs)
  have "release h (add_refs (h # hs) R) = Some (add_refs hs R)" if "h \<noteq> 0"
    using that by (auto simp: release_def add_refs_def)
  then show ?case using Cons by (cases "h = 0") (simp_all add: cl_delete_def del: add_refs_simps(3))
qed simp

text \<open>A new event is none of the handles that are alive.\<close>

lemma add_refs_new:
  "R e = 0 \<Longrightarrow> alive R hs \<Longrightarrow> e \<noteq> 0 \<Longrightarrow> (add_refs hs R)(e := 1) = add_refs hs (R(e := 1))"
proof -
  assume "R e = 0" "alive R hs" "e \<noteq> 0"
  then have "e \<notin> set hs" by (auto simp: alive_def list_all_iff)
  then show ?thesis by (auto simp: add_refs_def count_list_0_iff)
qed

text \<open>
  What is relied on of the call of the detail object: it leaves the counts of all handles as they
  are, and when it returns an event that was asked for, that is a new handle with one reference.
\<close>

definition inner_ok :: "(nat list option \<Rightarrow> bool \<Rightarrow> refs \<Rightarrow> nat result \<times> refs) \<Rightarrow> bool" where
  "inner_ok inner \<longleftrightarrow> (\<forall>evs wanted R r R'. inner evs wanted R = (r, R') \<longrightarrow>
     (case r of Inl e \<Rightarrow> R' = R
      | Inr ev \<Rightarrow> if wanted then ev \<noteq> 0 \<and> R ev = 0 \<and> R' = R(ev := 1) else ev = 0 \<and> R' = R))"

lemma export_call_balanced:
  assumes ok: "inner_ok inner" and alive: "alive R hs" "alive R es" and arr: "retainWrap_array n events = Inr es"
    and run: "inner (if events = None then None else Some es) wanted (add_refs hs (add_refs es R)) = (r, R3)"
  shows "export_call inner hs n events wanted R =
    Some (case r of Inl e \<Rightarrow> (abi_catch (Inl e), R)
      | Inr ev \<Rightarrow> (abi_catch (Inr (if wanted then Some ev else None)), if wanted then R(ev := 1) else R))"
proof -
  let ?A = "add_refs es R"
  have w: "wrap_all es R = Some ?A" "wrap_all hs ?A = Some (add_refs hs ?A)"
    using wrap_all_add alive alive_add by blast+
  note inner = ok [unfolded inner_ok_def, rule_format, OF run]
  show ?thesis
  proof (cases r)
    case (Inl e)
    then show ?thesis using arr w run inner by (simp add: export_call_def delete_all_add)
  next
    case (Inr ev)
    show ?thesis
    proof (cases wanted)
      case True
      then have ev: "ev \<noteq> 0" "add_refs hs ?A ev = 0" "R3 = (add_refs hs ?A)(ev := 1)" using inner Inr by auto
      then have "?A ev = 0" "R ev = 0" using add_refs_mono [of ?A ev hs] add_refs_mono [of R ev es] by auto
      then have "R3 = add_refs hs (add_refs es (R(ev := 1)))"
        using ev(1,3) add_refs_new alive alive_add by metis
      then show ?thesis
        using arr w run Inr True by (simp add: export_call_def unwrap_def cl_delete_def delete_all_add del: fun_upd_apply)
    next
      case False
      then show ?thesis
        using arr w run inner Inr by (simp add: export_call_def unwrap_def cl_delete_def delete_all_add)
    qed
  qed
qed

text \<open>
  C15. Reference counts across the interface. If the handles passed in are alive and the library's
  own call is balanced, then a call through the public interface never touches a dead handle. When
  it throws, all counts are as before; when it returns and an event was asked for, the caller's
  event object owns the only reference of a new event and the event that it held before has lost
  one; otherwise nothing changes.
\<close>

theorem exported_refs_balanced:
  assumes "inner_ok inner" and "\<And>evs w R m. fst (inner evs w R) \<noteq> Inl (ClError CL_SUCCESS m)"
    and "alive R hs" and "alive R (case events of None \<Rightarrow> [] | Some es \<Rightarrow> es)" and "alive R [held]"
    and "length (case events of None \<Rightarrow> [] | Some es \<Rightarrow> es) < 2 ^ 32"
  shows "\<exists>r R'. public_call inner hs events wanted held R = Some (r, R')
    \<and> (case r of Inl e \<Rightarrow> R' = R
       | Inr ev \<Rightarrow> if wanted then ev \<noteq> 0 \<and> R ev = 0 \<and> R' = (if held = 0 then R else R(held := R held - 1))(ev := 1)
                 else ev = held \<and> R' = R)"
proof -
  let ?es = "case events of None \<Rightarrow> [] | Some es \<Rightarrow> es"
  obtain n dat where u: "UnwrapArray events = (n, dat)" by (cases "UnwrapArray events")
  have arr: "retainWrap_array n dat = Inr ?es" using retainWrap_UnwrapArray [OF assms(6)] u by simp
  obtain r R3 where run: "inner (if dat = None then None else Some ?es) wanted (add_refs hs (add_refs ?es R)) = (r, R3)"
    by (cases "inner (if dat = None then None else Some ?es) wanted (add_refs hs (add_refs ?es R))")
  note call = export_call_balanced [OF assms(1,3,4) arr run]
  have err: "r \<noteq> Inl (ClError CL_SUCCESS m)" for m using assms(2) run by (metis fst_conv)
  show ?thesis
  proof (cases r)
    case (Inl e)
    then have "abi_wrap (abi_catch (Inl e) :: (nat option option \<times> int \<times> string option) result) = Inl e"
      using err by (intro abi_wrap_catch) auto
    then show ?thesis using call u Inl by (simp add: public_call_def)
  next
    case (Inr ev)
    have w: "abi_wrap (abi_catch (Inr x)) = Inr x" for x :: "nat option" by (intro abi_wrap_catch) simp
    show ?thesis
    proof (cases wanted)
      case False
      then show ?thesis using call u Inr w by (simp add: public_call_def)
    next
      case True
      then have ev: "ev \<noteq> 0" "add_refs hs (add_refs ?es R) ev = 0"
        using assms(1) [unfolded inner_ok_def, rule_format, OF run] Inr by auto
      then have R: "R ev = 0" using add_refs_mono [of R ev ?es] add_refs_mono [of "add_refs ?es R" ev hs] by simp
      have "held = 0 \<or> (0 < R held \<and> held \<noteq> ev)" using assms(5) R by (auto simp: alive_def)
      then show ?thesis using call u Inr w True ev(1) R
        by (auto simp: public_call_def cl_delete_def release_def fun_upd_twist)
    qed
  qed
qed

theorem exported_refs_balanced_witness:
  "\<exists>r R'. public_call (\<lambda>evs wanted R. if wanted then if R 9 = 0 then (Inr 9, R(9 := 1)) else (Inl (RuntimeError []), R)
        else (Inr 0, R)) [1, 2, 2] (Some [3]) True 4 (\<lambda>h. if h < 5 then 1 else 0) = Some (r, R')
     \<and> r = Inr 9 \<and> R' 9 = 1 \<and> R' 4 = 0 \<and> R' 3 = 1 \<and> R' 2 = 1"
proof -
  let ?f = "\<lambda>evs wanted R. if wanted then if R 9 = 0 then (Inr 9 :: nat result, R(9 := 1)) else (Inl (RuntimeError []), R)
        else (Inr 0, R)"
  have "inner_ok ?f" by (auto simp: inner_ok_def)
  moreover have "fst (?f evs w R) \<noteq> Inl (ClError CL_SUCCESS m)" for evs :: "nat list option" and w R m by simp
  ultimately show ?thesis
    using exported_refs_balanced [of ?f "\<lambda>h. if h < 5 then 1 else 0" "[1, 2, 2]" "Some [3]" 4 True]
    by (auto simp: alive_def public_call_def export_call_def UnwrapArray_def retainWrap_array_def u32_def RetainWrapper_def
        retain_def cl_delete_def release_def unwrap_def abi_wrap_def abi_catch_def clearError_def handleError_def)
qed

end
