(* ===== verification/CacheWindows.thy ===== *)
theory CacheWindows
  imports Cache
begin

text \<open>
  The variant of \<^verbatim>\<open>getCacheFileStatic\<close> for Windows (src/cache.cpp). The functions of the
  Windows interface are parameters; a wide string is a list of code units without its terminator.
\<close>

type_synonym wide = "nat list"

definition wide_literal :: "string \<Rightarrow> wide" where
  "wide_literal s = map of_char s"

text \<open>
  \<^verbatim>\<open>_wgetenv\<close>, the path that \<^verbatim>\<open>SHGetFolderPath\<close> leaves in the buffer (its status is
  not looked at), \<^verbatim>\<open>PathAppend\<close> (\<open>None\<close> is failure) and
  \<^verbatim>\<open>WideCharToMultiByte\<close> (\<open>None\<close> is length 0).
\<close>

record winapi =
  wa_getenv :: "string \<Rightarrow> wide option"
  wa_folder :: wide
  wa_append :: "wide \<Rightarrow> wide \<Rightarrow> wide option"
  wa_utf8 :: "wide \<Rightarrow> string option"

text \<open>\<^verbatim>\<open>MAX_PATH\<close> and 30 more.\<close>

definition path_room :: nat where
  "path_room = 260 + 30"

text \<open>The directory: the buffer, the flag \<^verbatim>\<open>success\<close>, and the directories to create.\<close>

definition windows_directory :: "winapi \<Rightarrow> wide \<times> bool \<times> wide list" where
  "windows_directory A =
     (case wa_getenv A ''CLOGS_CACHE_DIR'' of
        None \<Rightarrow>
          (case wa_append A (wa_folder A) (wide_literal ''clogs'') of
             None \<Rightarrow> (wa_folder A, False, [])
           | Some p \<Rightarrow>
               (case wa_append A p (wide_literal ''cache'') of
                  None \<Rightarrow> (p, False, [p])
                | Some p' \<Rightarrow> (p', True, [p, p'])))
      | Some dir \<Rightarrow> if length dir < path_room then (dir, True, []) else ([], True, []))"

definition getCacheFileStatic_windows :: "winapi \<Rightarrow> string \<times> wide list" where
  "getCacheFileStatic_windows A =
     (case windows_directory A of (path, success, dirs) \<Rightarrow>
        let path = (if success
                    then case wa_append A path (wide_literal ''cache.sqlite'') of None \<Rightarrow> [] | Some p \<Rightarrow> p
                    else [])
        in (case wa_utf8 A path of None \<Rightarrow> '''' | Some s \<Rightarrow> s, dirs))"

text \<open>
  A directory that fits is used, one that is too long is silently replaced by the current one:
  the flag is set before the length is looked at.
\<close>

lemma windows_directory_used:
  assumes "wa_getenv A ''CLOGS_CACHE_DIR'' = Some dir" and "length dir < path_room"
    and "wa_append A dir (wide_literal ''cache.sqlite'') = Some p" and "wa_utf8 A p = Some s"
  shows "getCacheFileStatic_windows A = (s, [])"
  using assms by (simp add: getCacheFileStatic_windows_def windows_directory_def)

lemma windows_long_directory:
  assumes "wa_getenv A ''CLOGS_CACHE_DIR'' = Some dir" and "path_room \<le> length dir"
    and "wa_append A [] (wide_literal ''cache.sqlite'') = Some (wide_literal ''cache.sqlite'')"
    and "wa_utf8 A (wide_literal ''cache.sqlite'') = Some ''cache.sqlite''"
  shows "getCacheFileStatic_windows A = (''cache.sqlite'', [])"
  using assms by (simp add: getCacheFileStatic_windows_def windows_directory_def)

text \<open>Without the variable a failure to append gives the empty name, which SQLite takes for a temporary database.\<close>

lemma windows_no_directory:
  assumes "wa_getenv A ''CLOGS_CACHE_DIR'' = None" and "wa_append A (wa_folder A) (wide_literal ''clogs'') = None"
    and "wa_utf8 A [] = Some ''''"
  shows "getCacheFileStatic_windows A = ('''', [])"
  using assms by (simp add: getCacheFileStatic_windows_def windows_directory_def)

end
