(* ===== verification/ToolOptions.thy ===== *)
theory ToolOptions
  imports Process
begin

text \<open>
  The command line of clogs-benchmark (src/tools/clogs-benchmark.cpp) and what is shared with the
  test program (src/tools/options.cpp): the options with their defaults, the search for a device,
  \<^verbatim>\<open>matchType\<close>, \<^verbatim>\<open>upper\<close>, and the checks at the head of
  \<^verbatim>\<open>runSort\<close>, \<^verbatim>\<open>runScan\<close> and \<^verbatim>\<open>runReduce\<close>. The parser of
  Boost.Program_options is a parameter. Shown: names are matched as \<^verbatim>\<open>getName\<close> prints
  them, the options of a sort are accepted exactly when they describe one that the library accepts.
\<close>

section \<open>Ends of the program\<close>

text \<open>
  \<^verbatim>\<open>std::exit\<close> or a return from \<^verbatim>\<open>main\<close>, with the code and what was
  written to \<^verbatim>\<open>std::cerr\<close>; an exception that is not caught where it is; a failed
  assertion.
\<close>

datatype stop = Exits nat string | Escapes exn | Crashes

definition endl :: string where
  "endl = [CHR 0x0A]"

definition bind_stop :: "stop + 'a \<Rightarrow> ('a \<Rightarrow> stop + 'b) \<Rightarrow> stop + 'b" where
  "bind_stop r f = (case r of Inl e \<Rightarrow> Inl e | Inr x \<Rightarrow> f x)"

definition refuse :: "bool \<Rightarrow> string \<Rightarrow> stop + unit" where
  "refuse bad msg = (if bad then Inl (Exits 1 (msg @ endl)) else Inr ())"

lemma bind_stop_simps [simp]: "bind_stop (Inl e) f = Inl e" "bind_stop (Inr x) f = f x"
  by (simp_all add: bind_stop_def)

lemma bind_stop_Inr: "bind_stop r f = Inr y \<longleftrightarrow> (\<exists>x. r = Inr x \<and> f x = Inr y)"
  by (cases r) auto

lemma refuse_Inr [simp]: "refuse bad msg = Inr u \<longleftrightarrow> \<not> bad"
  by (simp add: refuse_def)

section \<open>Options\<close>

text \<open>The variables map after parsing: \<open>None\<close> where an option without a default was not given.\<close>

record options =
  o_help :: bool
  o_items :: nat
  o_keyType :: string
  o_keyBits :: "nat option"
  o_keyMin :: nat
  o_keyMax :: "nat option"
  o_valueType :: string
  o_iterations :: nat
  o_algorithm :: string
  o_device :: "string option"
  o_gpu :: bool
  o_cpu :: bool

definition default_options :: options where
  "default_options = \<lparr>o_help = False, o_items = 10000000, o_keyType = ''uint'', o_keyBits = None, o_keyMin = 0,
     o_keyMax = None, o_valueType = ''uint'', o_iterations = 10, o_algorithm = ''sort'',
     o_device = None, o_gpu = False, o_cpu = False\<rparr>"

text \<open>
  \<open>parse\<close> is the parser: the message of a \<^verbatim>\<open>po::error\<close> or the options;
  \<open>usage\<close> the text that is printed for the descriptions.
\<close>

definition processOptions :: "(string list \<Rightarrow> string + options) \<Rightarrow> string \<Rightarrow> string list \<Rightarrow> stop + options" where
  "processOptions parse usage argv =
     (case parse argv of
        Inl msg \<Rightarrow> Inl (Exits 1 (msg @ endl @ endl @ usage @ endl))
      | Inr vm \<Rightarrow> if o_help vm then Inl (Exits 0 []) else Inr vm)"

section \<open>Devices\<close>

record cl_device =
  dev_info :: device
  dev_available :: bool
  dev_compiler :: bool

text \<open>The body of the loop: each test can only clear the flag.\<close>

definition device_good :: "options \<Rightarrow> cl_device \<Rightarrow> bool" where
  "device_good vm d =
     (let good = (case o_device vm of None \<Rightarrow> True | Some name \<Rightarrow> device_name (dev_info d) = name);
          good = (if o_gpu vm \<and> \<not> is_gpu (dev_info d) then False else good);
          good = (if o_cpu vm \<and> \<not> is_cpu (dev_info d) then False else good);
          good = (if \<not> dev_available d then False else good)
      in if \<not> dev_compiler d then False else good)"

fun findDevices_platforms ::
  "('p \<Rightarrow> cl_device list result) \<Rightarrow> options \<Rightarrow> 'p list \<Rightarrow> cl_device list \<Rightarrow> cl_device list result" where
  "findDevices_platforms getDevices vm [] ans = Inr ans"
| "findDevices_platforms getDevices vm (p # ps) ans =
     bind_result (getDevices p) (\<lambda>devices. findDevices_platforms getDevices vm ps (ans @ filter (device_good vm) devices))"

definition findDevices ::
  "'p list result \<Rightarrow> ('p \<Rightarrow> cl_device list result) \<Rightarrow> options \<Rightarrow> cl_device list result" where
  "findDevices platforms getDevices vm =
     bind_result platforms (\<lambda>ps. findDevices_platforms getDevices vm ps [])"

definition findDevice :: "'p list result \<Rightarrow> ('p \<Rightarrow> cl_device list result) \<Rightarrow> options \<Rightarrow> cl_device option result" where
  "findDevice platforms getDevices vm =
     bind_result (findDevices platforms getDevices vm) (\<lambda>devices.
     Inr (case devices of [] \<Rightarrow> None | d # _ \<Rightarrow> Some d))"

lemma device_good_iff:
  "device_good vm d \<longleftrightarrow> (\<forall>name. o_device vm = Some name \<longrightarrow> device_name (dev_info d) = name)
     \<and> (o_gpu vm \<longrightarrow> is_gpu (dev_info d)) \<and> (o_cpu vm \<longrightarrow> is_cpu (dev_info d)) \<and> dev_available d \<and> dev_compiler d"
  by (auto simp: device_good_def split: option.splits)

lemma findDevices_platforms_good:
  "findDevices_platforms getDevices vm ps ans = Inr ds \<Longrightarrow> \<forall>d\<in>set ans. device_good vm d \<Longrightarrow> \<forall>d\<in>set ds. device_good vm d"
proof (induction ps arbitrary: ans)
  case Nil
  then show ?case by simp
next
  case (Cons p ps)
  then obtain devices where
    "findDevices_platforms getDevices vm ps (ans @ filter (device_good vm) devices) = Inr ds"
    by (auto simp: bind_result_Inr)
  then show ?case by (rule Cons.IH) (use Cons.prems(2) in auto)
qed

text \<open>The device that is used meets every condition that was asked for.\<close>

lemma findDevice_good:
  assumes "findDevice platforms getDevices vm = Inr (Some d)"
  shows "device_good vm d"
proof -
  obtain ps ds where f: "findDevices_platforms getDevices vm ps [] = Inr ds" and d: "(case ds of [] \<Rightarrow> None | d # _ \<Rightarrow> Some d) = Some d"
    using assms by (auto simp: findDevice_def findDevices_def bind_result_Inr)
  have "d \<in> set ds" using d by (cases ds) simp_all
  then show ?thesis using findDevices_platforms_good [OF f] by simp
qed

section \<open>Types and key limits\<close>

definition matchType :: "string \<Rightarrow> stop + cl_type" where
  "matchType typeName =
     (case allTypes of
        Inl e \<Rightarrow> Inl (Escapes e)
      | Inr types \<Rightarrow> (case find (\<lambda>t. getName t = typeName) types of
            Some t \<Rightarrow> Inr t
          | None \<Rightarrow> Inl (Exits 1 (''Type '' @ [CHR 0x27] @ typeName @ [CHR 0x27] @ '' is not recognized.'' @ endl))))"

text \<open>The search is the inverse of \<^verbatim>\<open>getName\<close>.\<close>

lemma matchType_iff: "matchType n = Inr t \<longleftrightarrow> t \<in> set type_table \<and> getName t = n"
proof -
  have "find (\<lambda>t. getName t = n) type_table = Some t \<longleftrightarrow> t \<in> set type_table \<and> getName t = n"
  proof
    assume "find (\<lambda>t. getName t = n) type_table = Some t"
    then show "t \<in> set type_table \<and> getName t = n" by (auto simp: find_Some_iff)
  next
    assume t: "t \<in> set type_table \<and> getName t = n"
    then obtain s where s: "find (\<lambda>t. getName t = n) type_table = Some s"
      by (cases "find (\<lambda>t. getName t = n) type_table") (auto simp: find_None_iff)
    then have "s \<in> set type_table" "getName s = n" by (auto simp: find_Some_iff)
    then show "find (\<lambda>t. getName t = n) type_table = Some t" using t s getName_inj by (auto dest: inj_onD)
  qed
  then show ?thesis by (auto simp: matchType_def allTypes_table split: option.splits)
qed

text \<open>\<^verbatim>\<open>cl_ulong(1) << (bits - 1)\<close>, twice, less one; \<open>bits\<close> is at most 64.\<close>

definition upper :: "nat \<Rightarrow> stop + nat" where
  "upper bits =
     (if bits = 0 then Inl Crashes
      else let mid = u64 (push_bit (bits - 1) 1) in Inr (u64 (mid + (mid - 1))))"

lemma upper_correct: "0 < bits \<Longrightarrow> bits \<le> 64 \<Longrightarrow> upper bits = Inr (2 ^ bits - 1)"
proof -
  assume b: "0 < bits" "bits \<le> 64"
  then obtain k where k: "bits = Suc k" by (cases bits) auto
  have p: "(2::nat) ^ k \<le> 2 ^ 63" using b k by (intro power_increasing) auto
  then have "u64 (2 ^ k) = 2 ^ k" "u64 (2 ^ k + (2 ^ k - 1)) = 2 ^ k + (2 ^ k - 1)"
    by (simp_all add: u64_small)
  then show ?thesis by (simp add: upper_def k push_bit_eq_mult Let_def)
qed

section \<open>Checks\<close>

text \<open>What is read from the options: types, elements, bits, key limits, iterations.\<close>

record sort_options =
  so_key :: cl_type
  so_value :: cl_type
  so_elements :: nat
  so_bits :: nat
  so_min :: nat
  so_max :: nat
  so_iterations :: nat

definition sort_bits :: "options \<Rightarrow> cl_type \<Rightarrow> stop + nat" where
  "sort_bits vm keyType =
     (case o_keyBits vm of
        Some bits \<Rightarrow>
          if bits \<le> 0 then Inl (Exits 1 (''Number of bits must be positive.'' @ endl))
          else if getBaseSize keyType * 8 < bits then Inl (Exits 1 (''Number of bits is too large.'' @ endl))
          else Inr bits
      | None \<Rightarrow> Inr (getBaseSize keyType * 8))"

definition sort_max :: "options \<Rightarrow> nat \<Rightarrow> stop + nat" where
  "sort_max vm bits =
     bind_stop (upper bits) (\<lambda>top.
       case o_keyMax vm of
         Some maxValue \<Rightarrow>
           bind_stop (refuse (top < maxValue) ''Maximum key value is too large.'') (\<lambda>_. Inr maxValue)
       | None \<Rightarrow> Inr top)"

definition read_sort :: "options \<Rightarrow> device \<Rightarrow> stop + sort_options" where
  "read_sort vm device =
     bind_stop (matchType (o_keyType vm)) (\<lambda>keyType.
     bind_stop (refuse (veclen keyType \<noteq> 1 \<or> isSigned keyType \<or> \<not> isIntegral keyType
         \<or> \<not> isStorable keyType device \<or> \<not> isComputable keyType device)
       (o_keyType vm @ '' cannot be used as a sort key (must be a scalar unsigned integer).'')) (\<lambda>_.
     bind_stop (matchType (o_valueType vm)) (\<lambda>valueType.
     bind_stop (refuse (baseType valueType \<noteq> TYPE_VOID \<and> \<not> isStorable valueType device)
       (o_valueType vm @ '' is not usable on this device.'')) (\<lambda>_.
     bind_stop (refuse (o_items vm \<le> 0) ''Number of items must be positive.'') (\<lambda>_.
     bind_stop (sort_bits vm keyType) (\<lambda>bits.
     bind_stop (sort_max vm bits) (\<lambda>maxValue.
     bind_stop (refuse (o_iterations vm \<le> 0) ''Number of iterations must be positive.'') (\<lambda>_.
     Inr \<lparr>so_key = keyType, so_value = valueType, so_elements = o_items vm, so_bits = bits,
          so_min = o_keyMin vm, so_max = maxValue, so_iterations = o_iterations vm\<rparr>))))))))"

text \<open>The other two read a type, the elements and the iterations; their test of the type differs.\<close>

definition read_counts :: "options \<Rightarrow> stop + nat \<times> nat" where
  "read_counts vm =
     bind_stop (refuse (o_items vm \<le> 0) ''Number of items must be positive.'') (\<lambda>_.
     bind_stop (refuse (o_iterations vm \<le> 0) ''Number of iterations must be positive.'') (\<lambda>_.
     Inr (o_items vm, o_iterations vm)))"

definition read_scan :: "options \<Rightarrow> device \<Rightarrow> stop + cl_type \<times> nat \<times> nat" where
  "read_scan vm device =
     bind_stop (matchType (o_valueType vm)) (\<lambda>valueType.
     bind_stop (refuse (\<not> isIntegral valueType \<or> \<not> isStorable valueType device \<or> \<not> isComputable valueType device)
       (o_valueType vm @ '' cannot be used as a scan type (must be an integral type).'')) (\<lambda>_.
     bind_stop (read_counts vm) (\<lambda>counts. Inr (valueType, counts))))"

definition read_reduce :: "options \<Rightarrow> device \<Rightarrow> stop + cl_type \<times> nat \<times> nat" where
  "read_reduce vm device =
     bind_stop (matchType (o_valueType vm)) (\<lambda>valueType.
     bind_stop (refuse (\<not> isStorable valueType device \<or> \<not> isComputable valueType device)
       (o_valueType vm @ '' cannot be used as a reduce type (not supported by device).'')) (\<lambda>_.
     bind_stop (read_counts vm) (\<lambda>counts. Inr (valueType, counts))))"

lemma scalar_key: "radix_key_type t \<Longrightarrow> getSize t \<in> {1, 2, 4, 8} \<and> getBaseSize t = getSize t"
  by (cases "baseType t") (simp_all add: radix_key_type_def isIntegral_def isSigned_def getSize_def getBaseSize_def)

lemma sort_bits_Inr:
  "sort_bits vm t = Inr b \<longleftrightarrow> b = (case o_keyBits vm of Some n \<Rightarrow> n | None \<Rightarrow> getBaseSize t * 8)
     \<and> (\<forall>n. o_keyBits vm = Some n \<longrightarrow> 0 < n \<and> n \<le> getBaseSize t * 8)"
  by (auto simp: sort_bits_def split: option.splits)

lemma sort_max_Inr:
  assumes "0 < b" "b \<le> 64"
  shows "sort_max vm b = Inr m \<longleftrightarrow> m = (case o_keyMax vm of Some n \<Rightarrow> n | None \<Rightarrow> 2 ^ b - 1) \<and> m < 2 ^ b"
proof -
  obtain q where q: "(2 :: nat) ^ b = Suc q" by (cases "(2 :: nat) ^ b") auto
  then show ?thesis using upper_correct [OF assms]
    by (cases "o_keyMax vm") (auto simp: sort_max_def bind_stop_Inr)
qed

text \<open>What an accepted command line is.\<close>

lemma read_sort_Inr:
  assumes "read_sort vm d = Inr so"
  shows "getName (so_key so) = o_keyType vm" "getName (so_value so) = o_valueType vm"
    "so_key so \<in> set type_table" "so_value so \<in> set type_table"
    "radix_key_type (so_key so)" "keyTypeSupported d (so_key so)" "valueTypeSupported d (so_value so)"
    "so_elements so = o_items vm" "0 < so_elements so" "so_iterations so = o_iterations vm" "0 < so_iterations so"
    "0 < so_bits so" "so_bits so \<le> 8 * getSize (so_key so)" "so_min so = o_keyMin vm" "so_max so < 2 ^ so_bits so"
proof -
  from assms obtain b m where k: "matchType (o_keyType vm) = Inr (so_key so)" "matchType (o_valueType vm) = Inr (so_value so)"
    and key: "veclen (so_key so) = 1" "\<not> isSigned (so_key so)" "isIntegral (so_key so)" "isStorable (so_key so) d"
      "isComputable (so_key so) d"
    and vt: "baseType (so_value so) = TYPE_VOID \<or> isStorable (so_value so) d"
    and b: "sort_bits vm (so_key so) = Inr b" and m: "sort_max vm b = Inr m"
    and so: "so_elements so = o_items vm" "0 < so_elements so" "so_iterations so = o_iterations vm" "0 < so_iterations so"
      "so_bits so = b" "so_min so = o_keyMin vm" "so_max so = m"
    by (auto simp: read_sort_def bind_stop_Inr)
  show t: "getName (so_key so) = o_keyType vm" "getName (so_value so) = o_valueType vm"
    "so_key so \<in> set type_table" "so_value so \<in> set type_table"
    using k by (simp_all add: matchType_iff)
  show "keyTypeSupported d (so_key so)" "valueTypeSupported d (so_value so)"
    using key vt by (simp_all add: keyTypeSupported_def valueTypeSupported_def)
  show kt: "radix_key_type (so_key so)" using key by (simp add: radix_key_type_def)
  have sz: "getSize (so_key so) \<in> {1, 2, 4, 8}" "getBaseSize (so_key so) = getSize (so_key so)"
    using scalar_key [OF kt] by auto
  then have b0: "0 < b" "b \<le> 8 * getSize (so_key so)"
    using b by (auto simp: sort_bits_Inr split: option.splits)
  have "b \<le> 64" using b0(2) sz(1) by auto
  then show "0 < so_bits so" "so_bits so \<le> 8 * getSize (so_key so)" "so_max so < 2 ^ so_bits so"
    using b0 m sort_max_Inr so by auto
qed (use assms in \<open>auto simp: read_sort_def bind_stop_Inr\<close>)

text \<open>The types that the tool accepts pass the setters of the problem and the constructors.\<close>

lemma read_scan_Inr:
  "read_scan vm d = Inr (t, n, i) \<longleftrightarrow> t \<in> set type_table \<and> getName t = o_valueType vm \<and> Scan_typeSupported d t
     \<and> n = o_items vm \<and> 0 < n \<and> i = o_iterations vm \<and> 0 < i"
  by (auto simp: read_scan_def read_counts_def bind_stop_Inr matchType_iff Scan_typeSupported_def)

lemma read_reduce_Inr:
  "read_reduce vm d = Inr (t, n, i) \<longleftrightarrow> t \<in> set type_table \<and> getName t = o_valueType vm \<and> Reduce_typeSupported d t
     \<and> n = o_items vm \<and> 0 < n \<and> i = o_iterations vm \<and> 0 < i"
  by (auto simp: read_reduce_def read_counts_def bind_stop_Inr matchType_iff Reduce_typeSupported_def)

section \<open>The checks as a whole\<close>

text \<open>A command line for a sort, without the order of the checks.\<close>

definition sort_acceptable :: "options \<Rightarrow> device \<Rightarrow> cl_type \<Rightarrow> cl_type \<Rightarrow> bool" where
  "sort_acceptable vm d kt vt \<longleftrightarrow>
     kt \<in> set type_table \<and> getName kt = o_keyType vm \<and> keyTypeSupported d kt
     \<and> vt \<in> set type_table \<and> getName vt = o_valueType vm \<and> valueTypeSupported d vt
     \<and> 0 < o_items vm \<and> 0 < o_iterations vm
     \<and> (case o_keyBits vm of None \<Rightarrow> True | Some b \<Rightarrow> 0 < b \<and> b \<le> 8 * getSize kt)
     \<and> (case o_keyMax vm of None \<Rightarrow> True
        | Some m \<Rightarrow> m < 2 ^ (case o_keyBits vm of None \<Rightarrow> 8 * getSize kt | Some b \<Rightarrow> b))"

lemma read_sort_complete:
  assumes "sort_acceptable vm d kt vt"
  shows "\<exists>so. read_sort vm d = Inr so"
proof -
  have k: "matchType (o_keyType vm) = Inr kt" "matchType (o_valueType vm) = Inr vt"
    using assms by (simp_all add: sort_acceptable_def matchType_iff)
  have kt: "radix_key_type kt" using assms by (simp add: sort_acceptable_def keyTypeSupported_def radix_key_type_def)
  note sz = scalar_key [OF kt]
  let ?b = "case o_keyBits vm of None \<Rightarrow> 8 * getSize kt | Some b \<Rightarrow> b"
  have b: "sort_bits vm kt = Inr ?b" "0 < ?b" "?b \<le> 64"
    using assms sz by (auto simp: sort_acceptable_def sort_bits_Inr split: option.splits)
  have "sort_max vm ?b = Inr (case o_keyMax vm of Some n \<Rightarrow> n | None \<Rightarrow> 2 ^ ?b - 1)"
    using assms by (subst sort_max_Inr [OF b(2,3)]) (auto simp: sort_acceptable_def split: option.splits)
  then show ?thesis using assms k b(1)
    by (simp add: read_sort_def sort_acceptable_def keyTypeSupported_def valueTypeSupported_def refuse_def)
qed

lemma bind_stop_Inl: "bind_stop r f = Inl e \<longleftrightarrow> r = Inl e \<or> (\<exists>x. r = Inr x \<and> f x = Inl e)"
  by (cases r) auto

lemma exits_one:
  "matchType n = Inl e \<Longrightarrow> \<exists>m. e = Exits 1 m" "refuse bad msg = Inl e \<Longrightarrow> \<exists>m. e = Exits 1 m"
  "sort_bits vm t = Inl e \<Longrightarrow> \<exists>m. e = Exits 1 m"
  "sort_max vm b = Inl e \<Longrightarrow> 0 < b \<Longrightarrow> \<exists>m. e = Exits 1 m"
  by (auto simp: matchType_def allTypes_table refuse_def sort_bits_def sort_max_def upper_def Let_def bind_stop_Inl
      split: option.splits if_splits)

lemma read_sort_Inl:
  assumes "read_sort vm d = Inl e"
  shows "\<exists>m. e = Exits 1 m"
proof -
  have "0 < b" if "radix_key_type t" "sort_bits vm t = Inr b" for t b
    using that scalar_key [OF that(1)] by (auto simp: sort_bits_Inr split: option.splits)
  then show ?thesis using assms
    by (auto simp: read_sort_def bind_stop_Inl radix_key_type_def dest: exits_one)
qed

text \<open>
  C29. The options of a sort benchmark. The program goes on exactly when both names are those of
  types that the device supports for keys and values, there are items and iterations, the bits
  fit the key and the largest key fits the bits; it then passes types that the library accepts.
  In every other case it exits with code 1 and a message: no check of the library is reached, and
  the assertion in \<^verbatim>\<open>upper\<close> never fails.
\<close>

theorem sort_options_checked:
  "case read_sort vm d of
     Inr so \<Rightarrow> sort_acceptable vm d (so_key so) (so_value so) \<and> so_max so < 2 ^ so_bits so
       \<and> (\<exists>p. RadixsortProblem_setKeyType (so_key so) new_radix_problem = Inr p)
   | Inl e \<Rightarrow> (\<exists>m. e = Exits 1 m) \<and> (\<nexists>kt vt. sort_acceptable vm d kt vt)"
proof (cases "read_sort vm d")
  case (Inl e)
  have "\<not> sort_acceptable vm d kt vt" for kt vt using read_sort_complete Inl by fastforce
  then show ?thesis using read_sort_Inl [OF Inl] Inl by simp
next
  case (Inr so)
  note f = read_sort_Inr [OF Inr]
  obtain b m where b: "sort_bits vm (so_key so) = Inr b" and m: "sort_max vm b = Inr m" "0 < o_iterations vm"
    using Inr by (auto simp: read_sort_def bind_stop_Inr)
  note sz = scalar_key [OF f(5)]
  have b0: "0 < b" "b \<le> 64" using b sz by (auto simp: sort_bits_Inr split: option.splits)
  have "sort_acceptable vm d (so_key so) (so_value so)"
    using f m(2) b sz m(1) [unfolded sort_max_Inr [OF b0]] unfolding sort_acceptable_def
    by (auto simp: sort_bits_Inr split: option.splits)
  then show ?thesis using Inr f(5,15) by (simp add: RadixsortProblem_setKeyType_def)
qed

end
