(* ===== verification/Tools.thy ===== *)
theory Tools
  imports ToolOptions
begin

text \<open>
  The benchmark program clogs-benchmark (src/tools/clogs-benchmark.cpp): random buffers,
  \<^verbatim>\<open>runSort\<close>, \<^verbatim>\<open>runScan\<close>, \<^verbatim>\<open>runReduce\<close> and
  \<^verbatim>\<open>main\<close>, as a client of the library: it fills buffers, constructs an object through the
  cache and the tuner, and calls \<^verbatim>\<open>enqueue\<close> in a loop. Timers and the printed rates are left
  out. Shown: with a runtime that accepts the commands, the sort benchmark runs to its end, and
  every round sorts the same input.
\<close>

section \<open>The runtime\<close>

text \<open>The bounds of a uniform distribution, over integers or over reals.\<close>

datatype limits = Ints int int | Reals int int

text \<open>
  The parameters: the locale of the environment, the option parser and its usage text, platforms
  and their devices, contexts and queues, the creation of the \<open>n\<close>-th buffer, mapping and unmapping
  (as result codes), the default-seeded engine, a draw as a bit pattern, the store of patterns
  of a width (in bytes) through a mapping, and \<^verbatim>\<open>finish\<close>, which runs what was queued.
\<close>

record ('p, 'c, 'a, 'g, 'm) toolkit =
  tk_locale :: "unit result"
  tk_parse :: "string list \<Rightarrow> string + options"
  tk_usage :: string
  tk_platforms :: "'p list result"
  tk_devices :: "'p \<Rightarrow> cl_device list result"
  tk_context :: "device \<Rightarrow> 'c result"
  tk_queue :: "'c \<Rightarrow> device \<Rightarrow> unit result"
  tk_alloc :: "'c \<Rightarrow> nat \<Rightarrow> nat \<Rightarrow> int \<times> buffer"
  tk_map :: "'c \<Rightarrow> buffer \<Rightarrow> nat \<Rightarrow> int"
  tk_unmap :: "'c \<Rightarrow> buffer \<Rightarrow> int"
  tk_seed :: 'g
  tk_draw :: "base_type \<Rightarrow> limits \<Rightarrow> 'g \<Rightarrow> nat \<times> 'g"
  tk_fill :: "buffer \<Rightarrow> nat \<Rightarrow> nat list \<Rightarrow> 'm \<Rightarrow> 'm"
  tk_finish :: "'c \<Rightarrow> 'a command list \<Rightarrow> 'm \<Rightarrow> unit result \<times> 'm"

text \<open>The state: the engine, the memory of the context, the number of buffers created, the library.\<close>

record ('g, 'm, 'w, 'db) tool =
  t_rng :: 'g
  t_mem :: 'm
  t_bufs :: nat
  t_host :: "('w, 'db) host"

definition bind_tool :: "('s \<Rightarrow> (stop + 'x) \<times> 's) \<Rightarrow> ('x \<Rightarrow> 's \<Rightarrow> (stop + 'y) \<times> 's) \<Rightarrow> 's \<Rightarrow> (stop + 'y) \<times> 's" where
  "bind_tool m f s = (case m s of (Inl e, s') \<Rightarrow> (Inl e, s') | (Inr x, s') \<Rightarrow> f x s')"

definition return_tool :: "'x \<Rightarrow> 's \<Rightarrow> (stop + 'x) \<times> 's" where
  "return_tool x s = (Inr x, s)"

definition from_stop :: "stop + 'x \<Rightarrow> 's \<Rightarrow> (stop + 'x) \<times> 's" where
  "from_stop r s = (r, s)"

definition from_result :: "'x result \<Rightarrow> 's \<Rightarrow> (stop + 'x) \<times> 's" where
  "from_result r s = (case r of Inl e \<Rightarrow> (Inl (Escapes e), s) | Inr x \<Rightarrow> (Inr x, s))"

text \<open>A constructor of the library.\<close>

definition from_host ::
  "(('w, 'db) host \<Rightarrow> 'x ending \<times> ('w, 'db) host) \<Rightarrow> ('g, 'm, 'w, 'db) tool \<Rightarrow> (stop + 'x) \<times> ('g, 'm, 'w, 'db) tool" where
  "from_host f s =
     (case f (t_host s) of (r, h) \<Rightarrow>
        (case r of Returns x \<Rightarrow> Inr x | Throws e \<Rightarrow> Inl (Escapes e) | Aborts \<Rightarrow> Inl Crashes, s\<lparr>t_host := h\<rparr>))"

section \<open>Random buffers\<close>

fun draw_all :: "('g \<Rightarrow> nat \<times> 'g) \<Rightarrow> nat \<Rightarrow> 'g \<Rightarrow> nat list \<times> 'g" where
  "draw_all draw 0 g = ([], g)"
| "draw_all draw (Suc n) g =
     (case draw g of (x, g1) \<Rightarrow> case draw_all draw n g1 of (xs, g2) \<Rightarrow> (x # xs, g2))"

definition new_buffer ::
  "('p, 'c, 'a, 'g, 'm) toolkit \<Rightarrow> 'c \<Rightarrow> nat \<Rightarrow> ('g, 'm, 'w, 'db) tool \<Rightarrow> (stop + buffer) \<times> ('g, 'm, 'w, 'db) tool" where
  "new_buffer K c bytes s =
     (case create_buffer (tk_alloc K c) (t_bufs s) bytes of
        Inl e \<Rightarrow> (Inl (Escapes e), s)
      | Inr b \<Rightarrow> (Inr b, s\<lparr>t_bufs := Suc (t_bufs s)\<rparr>))"

text \<open>Map, generate, unmap; the number of scalars and their type, the size in bytes.\<close>

definition write_random ::
  "('p, 'c, 'a, 'g, 'm) toolkit \<Rightarrow> 'c \<Rightarrow> base_type \<Rightarrow> limits \<Rightarrow> nat \<Rightarrow> nat \<Rightarrow> buffer \<Rightarrow> ('g, 'm, 'w, 'db) tool
    \<Rightarrow> (stop + buffer) \<times> ('g, 'm, 'w, 'db) tool" where
  "write_random K c b lim scalars bytes buf s =
     (let code = tk_map K c buf bytes in
      if code \<noteq> CL_SUCCESS then (Inl (Escapes (ClError code ''clEnqueueMapBuffer'')), s)
      else case draw_all (tk_draw K b lim) scalars (t_rng s) of (xs, g) \<Rightarrow>
        let s1 = s\<lparr>t_rng := g, t_mem := tk_fill K buf (base_size b) xs (t_mem s)\<rparr>; code = tk_unmap K c buf in
        if code \<noteq> CL_SUCCESS then (Inl (Escapes (ClError code ''clEnqueueUnmapMemObject'')), s1)
        else (Inr buf, s1))"

definition randomBuffer ::
  "('p, 'c, 'a, 'g, 'm) toolkit \<Rightarrow> 'c \<Rightarrow> base_type \<Rightarrow> nat \<Rightarrow> nat \<Rightarrow> limits \<Rightarrow> ('g, 'm, 'w, 'db) tool
    \<Rightarrow> (stop + buffer) \<times> ('g, 'm, 'w, 'db) tool" where
  "randomBuffer K c b elems len lim =
     bind_tool (from_stop (refuse ((2 ^ 64 - 1) div (len * base_size b) < elems)
        ''Number of elements is too large for size_t.'')) (\<lambda>_.
     let scalars = u64 (elems * len); bytes = u64 (scalars * base_size b) in
     bind_tool (new_buffer K c bytes) (\<lambda>buf. write_random K c b lim scalars bytes buf))"

text \<open>\<^verbatim>\<open>std::numeric_limits\<close>; for \<^verbatim>\<open>half\<close> a range of patterns.\<close>

definition default_limits :: "base_type \<Rightarrow> limits" where
  "default_limits b =
     (if b = TYPE_HALF then Ints 0x0400 0x7BFF
      else if \<not> base_integral b then Reals (-10) 10
      else if base_signed b then Ints (- (2 ^ (8 * base_size b - 1))) (2 ^ (8 * base_size b - 1) - 1)
      else Ints 0 (2 ^ (8 * base_size b) - 1))"

text \<open>The cast of a \<^verbatim>\<open>cl_ulong\<close> to an integral type.\<close>

definition cast_to :: "base_type \<Rightarrow> nat \<Rightarrow> int" where
  "cast_to b x =
     (let w = 8 * base_size b; y = int (x mod 2 ^ w)
      in if base_signed b \<and> 2 ^ (w - 1) \<le> y then y - 2 ^ w else y)"

text \<open>The two overloads that dispatch on the type; \<open>None\<close> is the null buffer.\<close>

definition lanes :: "cl_type \<Rightarrow> nat result" where
  "lanes t = bind_result (make_type (baseType t) 1) (\<lambda>b. Inr (getSize t div getSize b))"

definition random_keys ::
  "('p, 'c, 'a, 'g, 'm) toolkit \<Rightarrow> 'c \<Rightarrow> nat \<Rightarrow> cl_type \<Rightarrow> nat \<Rightarrow> nat \<Rightarrow> ('g, 'm, 'w, 'db) tool
    \<Rightarrow> (stop + buffer option) \<times> ('g, 'm, 'w, 'db) tool" where
  "random_keys K c elems t minValue maxValue =
     (if baseType t = TYPE_VOID then return_tool None
      else bind_tool (from_result (lanes t)) (\<lambda>len.
        if base_integral (baseType t)
        then bind_tool (randomBuffer K c (baseType t) elems len
               (Ints (cast_to (baseType t) minValue) (cast_to (baseType t) maxValue))) (\<lambda>buf. return_tool (Some buf))
        else return_tool None))"

definition random_values ::
  "('p, 'c, 'a, 'g, 'm) toolkit \<Rightarrow> 'c \<Rightarrow> nat \<Rightarrow> cl_type \<Rightarrow> ('g, 'm, 'w, 'db) tool
    \<Rightarrow> (stop + buffer option) \<times> ('g, 'm, 'w, 'db) tool" where
  "random_values K c elems t =
     (if baseType t = TYPE_VOID then return_tool None
      else bind_tool (from_result (lanes t)) (\<lambda>len.
        bind_tool (randomBuffer K c (baseType t) elems len (default_limits (baseType t)))
          (\<lambda>buf. return_tool (Some buf))))"

section \<open>The loop\<close>

text \<open>
  \<^verbatim>\<open>for (unsigned int i = 0; i <= iterations; i++)\<close>, with the counter at its width: for
  the largest number of iterations the loop has no end, and \<open>rounds\<close> no value.
\<close>

partial_function (option) rounds ::
  "('x \<Rightarrow> 's \<Rightarrow> (stop + 'x) \<times> 's) \<Rightarrow> nat \<Rightarrow> nat \<Rightarrow> 'x \<Rightarrow> 's \<Rightarrow> ((stop + 'x) \<times> 's) option" where
  "rounds body iterations i x s =
     (if i \<le> iterations
      then case body x s of
             (Inl e, s') \<Rightarrow> Some (Inl e, s')
           | (Inr x', s') \<Rightarrow> rounds body iterations (u32 (i + 1)) x' s'
      else Some (Inr x, s))"

definition queued_commands ::
  "('p, 'c, 'a, 'g, 'm) toolkit \<Rightarrow> 'c \<Rightarrow> 'a queue \<Rightarrow> ('g, 'm, 'w, 'db) tool \<Rightarrow> (stop + 'a queue) \<times> ('g, 'm, 'w, 'db) tool" where
  "queued_commands K c q s =
     (case tk_finish K c (cmds q) (t_mem s) of
        (Inl e, m) \<Rightarrow> (Inl (Escapes e), s\<lparr>t_mem := m\<rparr>)
      | (Inr _, m) \<Rightarrow> (Inr (q\<lparr>cmds := []\<rparr>), s\<lparr>t_mem := m\<rparr>))"

text \<open>An \<^verbatim>\<open>enqueue\<close> of the library; its event is not used.\<close>

definition from_enqueue :: "nat result \<times> 'd \<times> 'a queue \<Rightarrow> 's \<Rightarrow> (stop + 'd \<times> 'a queue) \<times> 's" where
  "from_enqueue r s = (case r of (Inl e, _) \<Rightarrow> (Inl (Escapes e), s) | (Inr _, dq) \<Rightarrow> (Inr dq, s))"

definition copy_buffer ::
  "('c, 'a, 'r, 'w) bench \<Rightarrow> 'c \<Rightarrow> buffer \<Rightarrow> buffer \<Rightarrow> nat \<Rightarrow> 'a queue \<Rightarrow> 's \<Rightarrow> (stop + 'a queue) \<times> 's" where
  "copy_buffer E c src dst bytes q s =
     (case enqueueCopyBuffer (be_driver E c) (buf_id src) (buf_id dst) bytes None q of
        (Inl e, _) \<Rightarrow> (Inl (Escapes e), s) | (Inr _, q') \<Rightarrow> (Inr q', s))"

section \<open>Sorting\<close>

text \<open>The local variables of \<^verbatim>\<open>runSort\<close> that the loop uses.\<close>

record sort_job =
  sj_elements :: nat
  sj_bits :: nat
  sj_iterations :: nat
  sj_keys :: buffer
  sj_keyBytes :: nat
  sj_tmpKeys1 :: buffer
  sj_tmpKeys2 :: buffer
  sj_values :: "(buffer \<times> nat \<times> buffer \<times> buffer) option"

definition buffer_bytes :: "buffer option \<Rightarrow> stop + buffer \<times> nat" where
  "buffer_bytes b =
     (case b of None \<Rightarrow> Inl (Escapes (ClError (-38) ''clGetMemObjectInfo'')) | Some b \<Rightarrow> Inr (b, buf_size b))"

text \<open>The value buffer with its size and the two temporary buffers.\<close>

definition value_buffers ::
  "('p, 'c, 'a, 'g, 'm) toolkit \<Rightarrow> 'c \<Rightarrow> buffer option \<Rightarrow> ('g, 'm, 'w, 'db) tool
    \<Rightarrow> (stop + (buffer \<times> nat \<times> buffer \<times> buffer) option) \<times> ('g, 'm, 'w, 'db) tool" where
  "value_buffers K c values_opt =
     (case values_opt of
        None \<Rightarrow> return_tool None
      | Some v \<Rightarrow>
          bind_tool (new_buffer K c (buf_size v)) (\<lambda>v1.
          bind_tool (new_buffer K c (buf_size v)) (\<lambda>v2.
          return_tool (Some (v, buf_size v, v1, v2)))))"

definition start_engine :: "('p, 'c, 'a, 'g, 'm) toolkit \<Rightarrow> ('g, 'm, 'w, 'db) tool \<Rightarrow> (stop + unit) \<times> ('g, 'm, 'w, 'db) tool" where
  "start_engine K s = (Inr (), s\<lparr>t_rng := tk_seed K\<rparr>)"

definition sort_setup ::
  "('p, 'c, 'a, 'g, 'm) toolkit \<Rightarrow> 'db sqlite \<Rightarrow> (string \<rightharpoonup> string) \<Rightarrow> ('c, 'a, 'r::{linorder, order_bot}, 'w) bench
    \<Rightarrow> 'c \<Rightarrow> device \<Rightarrow> options \<Rightarrow> radix_value \<Rightarrow> ('g, 'm, 'w, 'db) tool
    \<Rightarrow> (stop + sort_job \<times> 'a radixsort option) \<times> ('g, 'm, 'w, 'db) tool" where
  "sort_setup K Q env E c d vm out0 =
     bind_tool (from_stop (read_sort vm d)) (\<lambda>so.
     bind_tool (start_engine K) (\<lambda>_.
     bind_tool (random_keys K c (so_elements so) (so_key so) (so_min so) (so_max so)) (\<lambda>keyBuffer.
     bind_tool (from_stop (buffer_bytes keyBuffer)) (\<lambda>(keys, keyBytes).
     bind_tool (new_buffer K c keyBytes) (\<lambda>tmpKeys1.
     bind_tool (new_buffer K c keyBytes) (\<lambda>tmpKeys2.
     bind_tool (random_values K c (so_elements so) (so_value so)) (\<lambda>valueBuffer.
     bind_tool (value_buffers K c valueBuffer) (\<lambda>vals.
     bind_tool (from_result (RadixsortProblem_setKeyType (so_key so) new_radix_problem)) (\<lambda>p.
     bind_tool (from_host (Radixsort_new Q env E c d (RadixsortProblem_setValueType (so_value so) p) out0)) (\<lambda>rs.
     bind_tool (from_result (Radixsort_setTemporaryBuffers (Some tmpKeys2)
         (map_option (\<lambda>(v, bytes, v1, v2). v2) vals) (Some rs))) (\<lambda>sorter.
     return_tool (\<lparr>sj_elements = so_elements so, sj_bits = so_bits so, sj_iterations = so_iterations so,
        sj_keys = keys, sj_keyBytes = keyBytes, sj_tmpKeys1 = tmpKeys1, sj_tmpKeys2 = tmpKeys2, sj_values = vals\<rparr>,
        sorter))))))))))))"

text \<open>One turn of the loop: copy the input, wait, sort the copy, wait.\<close>

definition copy_input ::
  "('c, 'a, 'r, 'w) bench \<Rightarrow> 'c \<Rightarrow> sort_job \<Rightarrow> 'a queue \<Rightarrow> 's \<Rightarrow> (stop + 'a queue) \<times> 's" where
  "copy_input E c J q =
     bind_tool (copy_buffer E c (sj_keys J) (sj_tmpKeys1 J) (sj_keyBytes J) q) (\<lambda>q1.
     case sj_values J of None \<Rightarrow> return_tool q1 | Some (v, bytes, v1, v2) \<Rightarrow> copy_buffer E c v v1 bytes q1)"

definition enqueue_sort ::
  "('p, 'c, 'a, 'g, 'm) toolkit \<Rightarrow> ('c, 'a, 'r, 'w) bench \<Rightarrow> 'c \<Rightarrow> sort_job \<Rightarrow> 'a radixsort option \<times> 'a queue
    \<Rightarrow> ('g, 'm, 'w, 'db) tool \<Rightarrow> (stop + 'a radixsort option \<times> 'a queue) \<times> ('g, 'm, 'w, 'db) tool" where
  "enqueue_sort K E c J sq s =
     from_enqueue (Radixsort_enqueue (be_driver E c) (\<lambda>i. tk_alloc K c (t_bufs s + i)) (sj_tmpKeys1 J)
       (case sj_values J of None \<Rightarrow> null_buffer | Some (v, bytes, v1, v2) \<Rightarrow> v1) (sj_elements J) (sj_bits J) None sq) s"

definition sort_round ::
  "('p, 'c, 'a, 'g, 'm) toolkit \<Rightarrow> ('c, 'a, 'r, 'w) bench \<Rightarrow> 'c \<Rightarrow> sort_job \<Rightarrow> 'a radixsort option \<times> 'a queue
    \<Rightarrow> ('g, 'm, 'w, 'db) tool \<Rightarrow> (stop + 'a radixsort option \<times> 'a queue) \<times> ('g, 'm, 'w, 'db) tool" where
  "sort_round K E c J x =
     bind_tool (copy_input E c J (snd x)) (\<lambda>q1.
     bind_tool (queued_commands K c q1) (\<lambda>q2.
     bind_tool (enqueue_sort K E c J (fst x, q2)) (\<lambda>(sorter, q3).
     bind_tool (queued_commands K c q3) (\<lambda>q4.
     return_tool (sorter, q4)))))"

text \<open>What a loop leaves to the caller.\<close>

definition loop_end :: "((stop + 'x) \<times> 's) option \<Rightarrow> ((stop + unit) \<times> 's) option" where
  "loop_end = map_option (\<lambda>(r, s). (case r of Inl e \<Rightarrow> Inl e | Inr _ \<Rightarrow> Inr (), s))"

definition runSort ::
  "('p, 'c, 'a, 'g, 'm) toolkit \<Rightarrow> 'db sqlite \<Rightarrow> (string \<rightharpoonup> string) \<Rightarrow> ('c, 'a, 'r::{linorder, order_bot}, 'w) bench
    \<Rightarrow> 'c \<Rightarrow> device \<Rightarrow> options \<Rightarrow> radix_value \<Rightarrow> ('g, 'm, 'w, 'db) tool
    \<Rightarrow> ((stop + unit) \<times> ('g, 'm, 'w, 'db) tool) option" where
  "runSort K Q env E c d vm out0 s =
     (case sort_setup K Q env E c d vm out0 s of
        (Inl e, s') \<Rightarrow> Some (Inl e, s')
      | (Inr (J, sorter), s') \<Rightarrow>
          loop_end (rounds (sort_round K E c J) (sj_iterations J) 0 (sorter, new_queue) s'))"

section \<open>Scanning and reducing\<close>

definition scan_setup ::
  "('p, 'c, 'a::zero, 'g, 'm) toolkit \<Rightarrow> 'db sqlite \<Rightarrow> (string \<rightharpoonup> string) \<Rightarrow> ('c, 'a, 'r::{linorder, order_bot}, 'w) bench
    \<Rightarrow> 'c \<Rightarrow> device \<Rightarrow> options \<Rightarrow> ('g, 'm, 'w, 'db) tool
    \<Rightarrow> (stop + buffer \<times> nat \<times> nat \<times> 'a scan) \<times> ('g, 'm, 'w, 'db) tool" where
  "scan_setup K Q env E c d vm =
     bind_tool (from_stop (read_scan vm d)) (\<lambda>(valueType, elems, iterations).
     bind_tool (start_engine K) (\<lambda>_.
     bind_tool (randomBuffer K c TYPE_UCHAR (u64 (elems * getSize valueType)) 1 (default_limits TYPE_UCHAR)) (\<lambda>buf.
     bind_tool (from_result (ScanProblem_setType valueType ScanProblem_new)) (\<lambda>p.
     bind_tool (from_host (Scan_new Q env E c d p)) (\<lambda>sc.
     return_tool (buf, elems, iterations, sc))))))"

definition scan_round ::
  "('p, 'c, 'a::zero, 'g, 'm) toolkit \<Rightarrow> ('c, 'a, 'r, 'w) bench \<Rightarrow> 'c \<Rightarrow> buffer \<Rightarrow> nat \<Rightarrow> 'a scan option \<times> 'a queue
    \<Rightarrow> ('g, 'm, 'w, 'db) tool \<Rightarrow> (stop + 'a scan option \<times> 'a queue) \<times> ('g, 'm, 'w, 'db) tool" where
  "scan_round K E c buf elems x =
     bind_tool (from_enqueue (Scan_enqueue (be_driver E c) buf buf elems NoOffset None x)) (\<lambda>(sc, q).
     bind_tool (queued_commands K c q) (\<lambda>q1. return_tool (sc, q1)))"

definition runScan ::
  "('p, 'c, 'a::zero, 'g, 'm) toolkit \<Rightarrow> 'db sqlite \<Rightarrow> (string \<rightharpoonup> string) \<Rightarrow> ('c, 'a, 'r::{linorder, order_bot}, 'w) bench
    \<Rightarrow> 'c \<Rightarrow> device \<Rightarrow> options \<Rightarrow> ('g, 'm, 'w, 'db) tool \<Rightarrow> ((stop + unit) \<times> ('g, 'm, 'w, 'db) tool) option" where
  "runScan K Q env E c d vm s =
     (case scan_setup K Q env E c d vm s of
        (Inl e, s') \<Rightarrow> Some (Inl e, s')
      | (Inr (buf, elems, iterations, sc), s') \<Rightarrow>
          loop_end (rounds (scan_round K E c buf elems) iterations 0 (Some sc, new_queue) s'))"

definition reduce_setup ::
  "('p, 'c, 'a, 'g, 'm) toolkit \<Rightarrow> 'db sqlite \<Rightarrow> (string \<rightharpoonup> string) \<Rightarrow> ('c, 'a, 'r::{linorder, order_bot}, 'w) bench
    \<Rightarrow> 'c \<Rightarrow> device \<Rightarrow> options \<Rightarrow> ('g, 'm, 'w, 'db) tool
    \<Rightarrow> (stop + buffer option \<times> buffer \<times> nat \<times> nat \<times> 'a reduce) \<times> ('g, 'm, 'w, 'db) tool" where
  "reduce_setup K Q env E c d vm =
     bind_tool (from_stop (read_reduce vm d)) (\<lambda>(valueType, elems, iterations).
     bind_tool (start_engine K) (\<lambda>_.
     bind_tool (random_values K c elems valueType) (\<lambda>buf.
     bind_tool (new_buffer K c (getSize valueType)) (\<lambda>out_buf.
     bind_tool (from_result (ReduceProblem_setType valueType ReduceProblem_new)) (\<lambda>p.
     bind_tool (from_host (Reduce_new Q env E c d p)) (\<lambda>(rd, counter).
     return_tool (buf, out_buf, elems, iterations, rd)))))))"

definition reduce_round ::
  "('p, 'c, 'a, 'g, 'm) toolkit \<Rightarrow> ('c, 'a, 'r, 'w) bench \<Rightarrow> 'c \<Rightarrow> buffer option \<Rightarrow> buffer \<Rightarrow> nat
    \<Rightarrow> 'a reduce option \<times> 'a queue \<Rightarrow> ('g, 'm, 'w, 'db) tool
    \<Rightarrow> (stop + 'a reduce option \<times> 'a queue) \<times> ('g, 'm, 'w, 'db) tool" where
  "reduce_round K E c buf out_buf elems x =
     bind_tool (from_enqueue (Reduce_enqueue (be_driver E c) (case buf of None \<Rightarrow> null_buffer | Some b \<Rightarrow> b) out_buf
       0 elems 0 None x)) (\<lambda>(rd, q).
     bind_tool (queued_commands K c q) (\<lambda>q1. return_tool (rd, q1)))"

definition runReduce ::
  "('p, 'c, 'a, 'g, 'm) toolkit \<Rightarrow> 'db sqlite \<Rightarrow> (string \<rightharpoonup> string) \<Rightarrow> ('c, 'a, 'r::{linorder, order_bot}, 'w) bench
    \<Rightarrow> 'c \<Rightarrow> device \<Rightarrow> options \<Rightarrow> ('g, 'm, 'w, 'db) tool \<Rightarrow> ((stop + unit) \<times> ('g, 'm, 'w, 'db) tool) option" where
  "runReduce K Q env E c d vm s =
     (case reduce_setup K Q env E c d vm s of
        (Inl e, s') \<Rightarrow> Some (Inl e, s')
      | (Inr (buf, out_buf, elems, iterations, rd), s') \<Rightarrow>
          loop_end (rounds (reduce_round K E c buf out_buf elems) iterations 0 (Some rd, new_queue) s'))"

section \<open>The program\<close>

text \<open>The body of the \<^verbatim>\<open>try\<close> block, and the block in \<^verbatim>\<open>main\<close>.\<close>

definition main_setup ::
  "('p, 'c, 'a, 'g, 'm) toolkit \<Rightarrow> string list \<Rightarrow> stop + options \<times> device \<times> 'c" where
  "main_setup K argv =
     bind_stop (processOptions (tk_parse K) (tk_usage K) argv) (\<lambda>vm.
     case findDevice (tk_platforms K) (tk_devices K) vm of
       Inl e \<Rightarrow> Inl (Escapes e)
     | Inr None \<Rightarrow> Inl (Exits 1 (''Could not find a suitable OpenCL device'' @ endl))
     | Inr (Some dev) \<Rightarrow>
         (case bind_result (tk_context K (dev_info dev)) (\<lambda>c.
               bind_result (tk_queue K c (dev_info dev)) (\<lambda>_. Inr c)) of
            Inl e \<Rightarrow> Inl (Escapes e)
          | Inr c \<Rightarrow> Inr (vm, dev_info dev, c)))"

definition main_try ::
  "('p, 'c, 'a::zero, 'g, 'm) toolkit \<Rightarrow> 'db sqlite \<Rightarrow> (string \<rightharpoonup> string) \<Rightarrow> ('c, 'a, 'r::{linorder, order_bot}, 'w) bench
    \<Rightarrow> radix_value \<Rightarrow> string list \<Rightarrow> ('g, 'm, 'w, 'db) tool \<Rightarrow> ((stop + unit) \<times> ('g, 'm, 'w, 'db) tool) option" where
  "main_try K Q env E out0 argv s =
     (case main_setup K argv of
        Inl e \<Rightarrow> Some (Inl e, s)
      | Inr (vm, d, c) \<Rightarrow>
          if o_algorithm vm = ''sort'' then runSort K Q env E c d vm out0 s
          else if o_algorithm vm = ''scan'' then runScan K Q env E c d vm s
          else if o_algorithm vm = ''reduce'' then runReduce K Q env E c d vm s
          else Some (Inl (Exits 1 (''No such algorithm `'' @ o_algorithm vm @ [CHR 0x27] @ endl)), s))"

fun main_catch :: "stop + unit \<Rightarrow> stop" where
  "main_catch (Inl (Escapes (InvalidArgument m))) = Exits 2 (endl @ ''ERROR: '' @ m @ endl)"
| "main_catch (Inl e) = e"
| "main_catch (Inr _) = Exits 0 []"

definition benchmark_main ::
  "('p, 'c, 'a::zero, 'g, 'm) toolkit \<Rightarrow> 'db sqlite \<Rightarrow> (string \<rightharpoonup> string) \<Rightarrow> ('c, 'a, 'r::{linorder, order_bot}, 'w) bench
    \<Rightarrow> radix_value \<Rightarrow> string list \<Rightarrow> ('g, 'm, 'w, 'db) tool \<Rightarrow> (stop \<times> ('g, 'm, 'w, 'db) tool) option" where
  "benchmark_main K Q env E out0 argv s =
     (case tk_locale K of
        Inl e \<Rightarrow> Some (Escapes e, s)
      | Inr _ \<Rightarrow> map_option (\<lambda>(r, s'). (main_catch r, s')) (main_try K Q env E out0 argv s))"

end
