(* ===== verification/ToolSort.thy ===== *)
theory ToolSort
  imports Tools
begin

text \<open>
  The sort benchmark as a whole: what the runtime is relied on for, what the preparation leaves
  in the buffers, that one round sorts a copy of the input and can be repeated, and that the loop
  comes to its end.
\<close>

section \<open>The loop\<close>

lemma rounds_total:
  assumes body: "\<And>x s. I x s \<Longrightarrow> \<exists>x' s'. body x s = (Inr x', s') \<and> I x' s' \<and> P x' s'"
    and n: "iterations < 2 ^ 32 - 1"
  shows "i \<le> iterations \<Longrightarrow> I x s \<Longrightarrow> \<exists>x' s'. rounds body iterations i x s = Some (Inr x', s') \<and> I x' s' \<and> P x' s'"
proof (induction "iterations - i" arbitrary: i x s)
  case 0
  obtain x1 s1 where b: "body x s = (Inr x1, s1)" "I x1 s1" "P x1 s1" using body 0 by blast
  have "u32 (i + 1) = Suc iterations" using 0 n by (simp add: u32_def)
  then have "rounds body iterations i x s = Some (Inr x1, s1)"
    using 0 b by (subst rounds.simps) (simp, subst rounds.simps, simp)
  then show ?case using b by blast
next
  case (Suc k)
  obtain x1 s1 where b: "body x s = (Inr x1, s1)" "I x1 s1" using body Suc.prems by blast
  have u: "u32 (i + 1) = Suc i" using Suc(2) n by (simp add: u32_def)
  have "rounds body iterations i x s = rounds body iterations (Suc i) x1 s1"
    using Suc.prems b u by (subst rounds.simps) simp
  then show ?case using Suc.hyps(1) [of "Suc i" x1 s1] Suc.hyps(2) Suc.prems b by simp
qed

text \<open>With the largest number of iterations the counter wraps around before the test can fail.\<close>

lemma rounds_endless_aux:
  assumes body: "\<And>x s. \<exists>x' s'. body x s = (Inr x', s')"
  shows "rounds body (2 ^ 32 - 1) i x s = Some r \<Longrightarrow> i < 2 ^ 32 \<Longrightarrow> False"
proof -
  let ?P = "\<lambda>b (n :: nat) (i :: nat) x s r. b = body \<longrightarrow> n = 2 ^ 32 - 1 \<longrightarrow> \<not> i < 2 ^ 32"
  have step: "?P b n i x s r" if IH: "\<And>b n i x s r. f b n i x s = Some r \<Longrightarrow> ?P b n i x s r"
    and run: "(if i \<le> n then case b x s of (Inl e, s') \<Rightarrow> Some (Inl e, s') | (Inr x', s') \<Rightarrow> f b n (u32 (i + 1)) x' s'
       else Some (Inr x, s)) = Some r" for f b n i x s r
  proof (intro impI notI)
    assume a: "b = body" "n = 2 ^ 32 - 1" "i < 2 ^ 32"
    obtain x' s' where "body x s = (Inr x', s')" using body by blast
    then have "f b n (u32 (i + 1)) x' s' = Some r" using run a by simp
    from IH [OF this] show False using a by (simp add: u32_def)
  qed
  assume run: "rounds body (2 ^ 32 - 1) i x s = Some r" and i: "i < 2 ^ 32"
  have "?P body (2 ^ 32 - 1) i x s r"
    by (rule rounds.raw_induct [of ?P "((((body, 2 ^ 32 - 1), i), x), s)" r, unfolded prod.case])
      (rule step, assumption+, rule run)
  then show False using i by simp
qed

lemma rounds_endless:
  assumes "\<And>x s. \<exists>x' s'. body x s = (Inr x', s')" and "i < 2 ^ 32"
  shows "rounds body (2 ^ 32 - 1) i x s = None"
proof (cases "rounds body (2 ^ 32 - 1) i x s")
  case (Some r)
  then have False using rounds_endless_aux [of body i x s r] assms by blast
  then show ?thesis ..
qed

text \<open>
  Two more inputs that the program does not look at: the key limits may be in the wrong order
  (the bounds of a distribution must not be), and the size of the scan buffer wraps around before
  \<^verbatim>\<open>randomBuffer\<close> can check it.
\<close>

lemma key_limits_unchecked:
  assumes "isStorable \<lparr>baseType = TYPE_UINT, veclen = 1\<rparr> d"
  shows "\<exists>so. read_sort (default_options\<lparr>o_keyMin := 5, o_keyMax := Some 3\<rparr>) d = Inr so \<and> so_max so < so_min so"
proof -
  have m: "matchType ''uint'' = Inr \<lparr>baseType = TYPE_UINT, veclen = 1\<rparr>"
    by (simp add: matchType_iff type_table_iff vec_sizes_def getName_def)
  show ?thesis using assms
    by (simp add: read_sort_def default_options_def m refuse_def isSigned_def isIntegral_def
        isComputable_def sort_bits_def getBaseSize_def sort_max_def upper_correct)
qed

lemma scan_buffer_wraps:
  assumes "tk_alloc K c (t_bufs s) 4 = (CL_SUCCESS, b)"
  shows "randomBuffer K c TYPE_UCHAR (u64 ((2 ^ 62 + 1) * getSize \<lparr>baseType = TYPE_UINT, veclen = 1\<rparr>)) 1 lim s =
    write_random K c TYPE_UCHAR lim 4 4 b (s\<lparr>t_bufs := Suc (t_bufs s)\<rparr>)"
  using assms
  by (simp add: randomBuffer_def bind_tool_def from_stop_def refuse_def new_buffer_def create_buffer_def getSize_def
      getBaseSize_def u64_def split: prod.splits)

section \<open>The runtime\<close>

text \<open>
  What is relied on. A buffer that is created is read-write, has the size asked for and is none of
  those created before, here or by the library; the driver takes every command; a draw is within
  its bounds; a store through a mapping sets the keys (of the given width) and touches no other
  buffer; \<^verbatim>\<open>finish\<close> runs commands that wait only for earlier ones, in an order that
  respects the waits.
\<close>

definition fresh_buffers :: "('p, 'c, 'a, 'g, 'm) toolkit \<Rightarrow> ('c, 'a, 'r, 'w) bench \<Rightarrow> 'c \<Rightarrow> bool" where
  "fresh_buffers K E c \<longleftrightarrow>
     (\<forall>i n. fst (tk_alloc K c i n) = CL_SUCCESS \<and> buf_size (snd (tk_alloc K c i n)) = n \<and> read_write (snd (tk_alloc K c i n)))
     \<and> (\<forall>i j m n. i \<noteq> j \<longrightarrow> buf_id (snd (tk_alloc K c i m)) \<noteq> buf_id (snd (tk_alloc K c j n)))
     \<and> (\<forall>i m n h. be_alloc E c CL_MEM_READ_WRITE n = Inr h \<longrightarrow> buf_id (snd (tk_alloc K c i m)) \<noteq> h)"

definition draws_within :: "('p, 'c, 'a, 'g, 'm) toolkit \<Rightarrow> bool" where
  "draws_within K \<longleftrightarrow> (\<forall>b lo hi g. 0 \<le> lo \<longrightarrow> lo \<le> hi \<longrightarrow>
     lo \<le> int (fst (tk_draw K b (Ints lo hi) g)) \<and> int (fst (tk_draw K b (Ints lo hi) g)) \<le> hi)"

definition stores_keys :: "('p, 'c, 'a, 'g, 'v rmem) toolkit \<Rightarrow> nat \<Rightarrow> bool" where
  "stores_keys K ks \<longleftrightarrow>
     (\<forall>b xs m i. i < length xs \<longrightarrow> fst (tk_fill K b ks xs m) (buf_id b) i = xs ! i)
     \<and> (\<forall>b w xs m b'. b' \<noteq> buf_id b \<longrightarrow> fst (tk_fill K b w xs m) b' = fst m b' \<and> snd (tk_fill K b w xs m) b' = snd m b')"

definition finishes :: "('p, 'c, 'a, 'g, 'v rmem) toolkit \<Rightarrow> 'c \<Rightarrow> nat \<Rightarrow> nat \<Rightarrow> bool" where
  "finishes K c ks vs \<longleftrightarrow> (\<forall>cs m. legal_order cs cs \<longrightarrow> distinct (map ev cs) \<longrightarrow>
     (\<exists>ord D J view. legal_order cs ord \<and> (\<forall>x\<in>set cs. dsched_ok D x)
        \<and> (\<forall>m'. run_all (run_radix_command D J view ks vs) ord m = Some m' \<longrightarrow> tk_finish K c cs m = (Inr (), m'))))"

definition sort_runtime ::
  "('p, 'c, 'a, 'g, 'v rmem) toolkit \<Rightarrow> ('c, 'a, 'r, 'w) bench \<Rightarrow> 'c \<Rightarrow> nat \<Rightarrow> nat \<Rightarrow> bool" where
  "sort_runtime K E c ks vs \<longleftrightarrow> fresh_buffers K E c \<and> draws_within K \<and> stores_keys K ks \<and> finishes K c ks vs
     \<and> (\<forall>x. be_driver E c x = CL_SUCCESS)"

section \<open>The preparation\<close>

lemma bind_tool_Inr:
  "bind_tool m f s = (Inr y, s') \<longleftrightarrow> (\<exists>x s1. m s = (Inr x, s1) \<and> f x s1 = (Inr y, s'))"
  by (auto simp: bind_tool_def split: prod.splits sum.splits)

lemma tool_steps_Inr:
  "return_tool x s = (Inr y, s') \<longleftrightarrow> y = x \<and> s' = s"
  "from_stop r s = (Inr y, s') \<longleftrightarrow> r = Inr y \<and> s' = s"
  "from_result rr s = (Inr z, s') \<longleftrightarrow> rr = Inr z \<and> s' = s"
  "from_host f t = (Inr z, t') \<longleftrightarrow> (\<exists>h. f (t_host t) = (Returns z, h) \<and> t' = t\<lparr>t_host := h\<rparr>)"
  by (auto simp: return_tool_def from_stop_def from_result_def from_host_def split: sum.splits prod.splits ending.splits)

lemma draw_all_bounds:
  assumes "draws_within K" "0 \<le> lo" "lo \<le> hi"
  shows "draw_all (tk_draw K b (Ints lo hi)) n g = (xs, g') \<Longrightarrow> length xs = n \<and> (\<forall>x\<in>set xs. lo \<le> int x \<and> int x \<le> hi)"
proof (induction n arbitrary: g xs)
  case (Suc n)
  obtain x g1 where x: "tk_draw K b (Ints lo hi) g = (x, g1)" by fastforce
  obtain ys g2 where y: "draw_all (tk_draw K b (Ints lo hi)) n g1 = (ys, g2)" by fastforce
  have "lo \<le> int x \<and> int x \<le> hi" using assms x unfolding draws_within_def by (metis fst_conv)
  then show ?case using Suc.IH [of g1 ys] Suc.prems x y by auto
qed simp

lemma new_buffer_fresh:
  assumes "fresh_buffers K E c"
  shows "new_buffer K c n s = (Inr b, s') \<longleftrightarrow> b = snd (tk_alloc K c (t_bufs s) n) \<and> s' = s\<lparr>t_bufs := Suc (t_bufs s)\<rparr>"
proof -
  have "fst (tk_alloc K c (t_bufs s) n) = CL_SUCCESS" using assms by (simp add: fresh_buffers_def)
  then show ?thesis by (auto simp: new_buffer_def create_buffer_def split: prod.splits)
qed

text \<open>A random buffer: its size is what was asked for, without wrap-around.\<close>

lemma randomBuffer_result:
  assumes fresh: "fresh_buffers K E c" and w: "0 < len * base_size b"
    and run: "randomBuffer K c b n len lim s = (Inr buf, s')"
  shows "\<exists>xs g. draw_all (tk_draw K b lim) (n * len) (t_rng s) = (xs, g)
    \<and> buf = snd (tk_alloc K c (t_bufs s) (n * len * base_size b)) \<and> n * len * base_size b < 2 ^ 64
    \<and> s' = s\<lparr>t_bufs := Suc (t_bufs s), t_rng := g, t_mem := tk_fill K buf (base_size b) xs (t_mem s)\<rparr>"
proof -
  from run have le: "n \<le> (2 ^ 64 - 1) div (len * base_size b)"
    by (auto simp: randomBuffer_def bind_tool_Inr tool_steps_Inr not_less)
  then have "n * (len * base_size b) \<le> 2 ^ 64 - 1"
    using w by (metis less_eq_div_iff_mult_less_eq)
  then have b: "n * len * base_size b < 2 ^ 64" by (simp add: mult.assoc)
  have "n * len \<le> n * len * base_size b" using w by simp
  then have "n * len < 2 ^ 64" using b by (rule le_less_trans)
  then have u: "u64 (n * len) = n * len" "u64 (n * len * base_size b) = n * len * base_size b"
    using b by (simp_all only: u64_small)
  from run [unfolded randomBuffer_def Let_def u] obtain b1 s1 where
    n: "new_buffer K c (n * len * base_size b) s = (Inr b1, s1)"
    and wr: "write_random K c b lim (n * len) (n * len * base_size b) b1 s1 = (Inr buf, s')"
    by (auto simp: bind_tool_Inr tool_steps_Inr)
  obtain xs g where d: "draw_all (tk_draw K b lim) (n * len) (t_rng s1) = (xs, g)" by fastforce
  show ?thesis using n wr d b
    by (auto simp: new_buffer_fresh [OF fresh] write_random_def Let_def split: if_splits)
qed

section \<open>One round\<close>

text \<open>The value buffer and its copy; null buffers for a sort of keys alone.\<close>

definition job_values :: "sort_job \<Rightarrow> buffer \<times> buffer" where
  "job_values J = (case sj_values J of None \<Rightarrow> (null_buffer, null_buffer) | Some (v, bytes, v1, v2) \<Rightarrow> (v, v1))"

abbreviation job_input :: "sort_job \<Rightarrow> nat \<times> nat" where
  "job_input J \<equiv> (buf_id (sj_keys J), buf_id (fst (job_values J)))"

abbreviation job_output :: "sort_job \<Rightarrow> nat \<times> nat" where
  "job_output J \<equiv> (buf_id (sj_tmpKeys1 J), buf_id (snd (job_values J)))"

text \<open>A prepared job: the sorter fits the buffers, and all buffers are different.\<close>

definition job_ready :: "sort_job \<Rightarrow> 'a radixsort \<Rightarrow> bool" where
  "job_ready J rs \<longleftrightarrow> rs_wf rs \<and> radix_sizes_ok rs (sj_elements J) \<and> 0 < sj_elements J
     \<and> 0 < sj_bits J \<and> sj_bits J \<le> 8 * rs_keySize rs \<and> sj_keyBytes J = sj_elements J * rs_keySize rs
     \<and> rs_tmpKeys rs = Some (sj_tmpKeys2 J) \<and> buf_size (sj_tmpKeys1 J) = sj_keyBytes J \<and> read_write (sj_tmpKeys1 J)
     \<and> buf_size (sj_tmpKeys2 J) = sj_keyBytes J
     \<and> distinct [rs_histogram rs, buf_id (sj_keys J), buf_id (sj_tmpKeys1 J), buf_id (sj_tmpKeys2 J)]
     \<and> (case sj_values J of
          None \<Rightarrow> rs_valueSize rs = 0
        | Some (v, bytes, v1, v2) \<Rightarrow> rs_valueSize rs \<noteq> 0 \<and> bytes = sj_elements J * rs_valueSize rs
            \<and> rs_tmpValues rs = Some v2 \<and> buf_size v1 = bytes \<and> read_write v1 \<and> buf_size v2 = bytes
            \<and> distinct [rs_histogram rs, buf_id (sj_keys J), buf_id (sj_tmpKeys1 J), buf_id (sj_tmpKeys2 J),
                 buf_id v, buf_id v1, buf_id v2])"

lemma same_sort_temporaries:
  "same_sort rs rs' \<Longrightarrow> rs_tmpKeys rs' = rs_tmpKeys rs \<and> rs_tmpValues rs' = rs_tmpValues rs"
  by (cases rs; cases rs') (simp add: same_sort_def)

lemma job_ready_same: "job_ready J rs \<Longrightarrow> same_sort rs rs' \<Longrightarrow> rs_wf rs' \<Longrightarrow> job_ready J rs'"
  unfolding job_ready_def by (cases "sj_values J") (auto simp: same_sort_fields same_sort_temporaries)

lemma two_orders: "mset ord = {#a, b#} \<Longrightarrow> ord = [a, b] \<or> ord = [b, a]"
proof -
  assume m: "mset ord = {#a, b#}"
  then have "length ord = 2" by (metis size_mset size_add_mset size_empty Suc_1 One_nat_def)
  then obtain x y where "ord = [x, y]" by (auto simp: length_Suc_conv numeral_2_eq_2)
  then show ?thesis using m by (auto simp: add_eq_conv_diff)
qed

lemma legal_no_waits: "\<forall>x\<in>set cs. waits x = [] \<Longrightarrow> legal_order cs cs"
proof -
  have "\<forall>x\<in>set cs. waits x = [] \<Longrightarrow> respects_waits W cs" for W
    by (induction cs arbitrary: W) auto
  then show "\<forall>x\<in>set cs. waits x = [] \<Longrightarrow> legal_order cs cs" by (simp add: legal_order_def)
qed

text \<open>The copies, in whichever order they run.\<close>

lemma copies_run:
  fixes rs :: "'a radixsort" and E :: "('c, 'a, 'r, 'w) bench"
  assumes ready: "job_ready J rs" and drv: "\<forall>x. be_driver E c x = CL_SUCCESS" and q: "cmds q = []"
  shows "\<exists>q1. copy_input E c J q s = (Inr q1, s) \<and> legal_order (cmds q1) (cmds q1) \<and> distinct (map ev (cmds q1))
    \<and> (\<forall>ord D junk view m. legal_order (cmds q1) ord \<longrightarrow>
        (\<exists>m1. run_all (run_radix_command D junk view (rs_keySize rs) (rs_valueSize rs)) ord m = Some m1
          \<and> contents (rs_valueSize rs \<noteq> 0) m1 (job_output J) (sj_elements J) =
              contents (rs_valueSize rs \<noteq> 0) m (job_input J) (sj_elements J)
          \<and> contents (rs_valueSize rs \<noteq> 0) m1 (job_input J) (sj_elements J) =
              contents (rs_valueSize rs \<noteq> 0) m (job_input J) (sj_elements J)))"
proof -
  have ks: "0 < rs_keySize rs" using ready by (auto simp: job_ready_def rs_wf_def)
  define c1 where "c1 = \<lparr>act = CopyBuf (buf_id (sj_keys J)) (buf_id (sj_tmpKeys1 J)) (sj_keyBytes J) :: 'a action,
    waits = [], ev = next_ev q\<rparr>"
  have copy: "copy_buffer E c src dst n q s = (Inr (q\<lparr>cmds := cmds q @ [\<lparr>act = CopyBuf (buf_id src) (buf_id dst) n,
      waits = [], ev = next_ev q\<rparr>], next_ev := Suc (next_ev q)\<rparr>), s)" for src dst n q
    using drv by (simp add: copy_buffer_def enqueueCopyBuffer_def enqueue_action_def Let_def)
  have kb: "sj_keyBytes J div rs_keySize rs = sj_elements J" "sj_keyBytes J = sj_elements J * rs_keySize rs"
    using ready ks by (auto simp: job_ready_def)
  show ?thesis
  proof (cases "sj_values J")
    case None
    have v0: "rs_valueSize rs = 0" using ready None by (simp add: job_ready_def)
    have ci: "copy_input E c J q s = (Inr (q\<lparr>cmds := [c1], next_ev := Suc (next_ev q)\<rparr>), s)"
      by (simp add: copy_input_def bind_tool_def copy None return_tool_def q c1_def)
    have d: "buf_id (sj_keys J) \<noteq> buf_id (sj_tmpKeys1 J)" using ready by (simp add: job_ready_def)
    have "\<exists>m1. run_all (run_radix_command D junk view (rs_keySize rs) (rs_valueSize rs)) ord m = Some m1
          \<and> contents (rs_valueSize rs \<noteq> 0) m1 (job_output J) (sj_elements J) =
              contents (rs_valueSize rs \<noteq> 0) m (job_input J) (sj_elements J)
          \<and> contents (rs_valueSize rs \<noteq> 0) m1 (job_input J) (sj_elements J) =
              contents (rs_valueSize rs \<noteq> 0) m (job_input J) (sj_elements J)"
      if "legal_order [c1] ord" for ord D junk view and m :: "(nat \<Rightarrow> nat \<Rightarrow> nat) \<times> (nat \<Rightarrow> nat \<Rightarrow> 'v)"
    proof -
      have "ord = [c1]" using that by (simp add: legal_order_def)
      then show ?thesis using d kb(1) by (simp add: run_radix_command_def contents_def c1_def v0)
    qed
    then show ?thesis unfolding ci
      by (intro exI [of _ "q\<lparr>cmds := [c1], next_ev := Suc (next_ev q)\<rparr>"] conjI)
        (auto simp: legal_no_waits c1_def)
  next
    case (Some w)
    obtain v bytes v1 v2 where w: "w = (v, bytes, v1, v2)" by (cases w)
    define c2 where "c2 = \<lparr>act = CopyBuf (buf_id v) (buf_id v1) bytes :: 'a action, waits = [], ev = Suc (next_ev q)\<rparr>"
    have vb: "bytes div rs_valueSize rs = sj_elements J" "0 < rs_valueSize rs"
      using ready by (auto simp: job_ready_def Some w)
    have d: "distinct [buf_id (sj_keys J), buf_id (sj_tmpKeys1 J), buf_id v, buf_id v1]"
      using ready by (auto simp: job_ready_def Some w)
    have ci: "copy_input E c J q s = (Inr (q\<lparr>cmds := [c1, c2], next_ev := Suc (Suc (next_ev q))\<rparr>), s)"
      by (simp add: copy_input_def bind_tool_def copy Some w q c1_def c2_def)
    have jv: "job_values J = (v, v1)" by (simp add: job_values_def Some w)
    have "\<exists>m1. run_all (run_radix_command D junk view (rs_keySize rs) (rs_valueSize rs)) ord m = Some m1
          \<and> contents (rs_valueSize rs \<noteq> 0) m1 (job_output J) (sj_elements J) =
              contents (rs_valueSize rs \<noteq> 0) m (job_input J) (sj_elements J)
          \<and> contents (rs_valueSize rs \<noteq> 0) m1 (job_input J) (sj_elements J) =
              contents (rs_valueSize rs \<noteq> 0) m (job_input J) (sj_elements J)"
      if "legal_order [c1, c2] ord" for ord D junk view and m :: "(nat \<Rightarrow> nat \<Rightarrow> nat) \<times> (nat \<Rightarrow> nat \<Rightarrow> 'v)"
    proof -
      have "ord = [c1, c2] \<or> ord = [c2, c1]" using that by (intro two_orders) (simp add: legal_order_def)
      then show ?thesis using d kb(1) vb
        by (elim disjE) (simp_all add: run_radix_command_def contents_def c1_def c2_def jv)
    qed
    then show ?thesis unfolding ci
      by (intro exI [of _ "q\<lparr>cmds := [c1, c2], next_ev := Suc (Suc (next_ev q))\<rparr>"] conjI)
        (auto simp: legal_no_waits c1_def c2_def)
  qed
qed

text \<open>The call of \<^verbatim>\<open>enqueue\<close>: the temporary buffers of the job are used, and nothing is refused.\<close>

lemma job_temporaries:
  assumes "job_ready J rs"
  shows "\<exists>t2. radix_temporaries alloc rs (sj_elements J) = Inr (sj_tmpKeys2 J, t2)
    \<and> radix_apart rs (radix_bufs (sj_tmpKeys1 J) (snd (job_values J)) (sj_tmpKeys2 J, t2))
    \<and> buf_id (sj_keys J) \<notin> {rs_histogram rs, buf_id (sj_tmpKeys1 J), buf_id (sj_tmpKeys2 J)}
    \<and> (rs_valueSize rs \<noteq> 0 \<longrightarrow> {buf_id (snd (job_values J)), buf_id t2} \<inter> {buf_id (sj_keys J), buf_id (fst (job_values J))} = {}
         \<and> buf_id (fst (job_values J)) \<notin> {rs_histogram rs, buf_id (sj_tmpKeys1 J), buf_id (sj_tmpKeys2 J)})"
proof -
  let ?n = "sj_elements J"
  have "rs_keySize rs \<le> 8" "rs_valueSize rs \<le> 128" "?n \<le> 2 ^ 31"
    using assms by (auto simp: job_ready_def rs_wf_def radix_sizes_ok_def)
  then have "?n * rs_keySize rs \<le> 2 ^ 31 * 8" "?n * rs_valueSize rs \<le> 2 ^ 31 * 128" by (intro mult_mono; simp)+
  then have u: "u64 (?n * rs_keySize rs) = ?n * rs_keySize rs" "u64 (?n * rs_valueSize rs) = ?n * rs_valueSize rs"
    by (simp_all add: u64_small)
  show ?thesis
  proof (cases "sj_values J")
    case None
    then show ?thesis using assms u
      by (intro exI [of _ null_buffer]) (auto simp: job_ready_def radix_temporaries_def tmp_buffer_def radix_apart_def)
  next
    case (Some w)
    obtain v bytes v1 v2 where w: "w = (v, bytes, v1, v2)" by (cases w)
    then show ?thesis using assms u Some
      by (intro exI [of _ v2])
        (auto simp: job_ready_def radix_temporaries_def tmp_buffer_def radix_apart_def job_values_def)
  qed
qed

lemma sort_enqueued:
  fixes rs :: "'a radixsort" and K :: "('p, 'c, 'a, 'g, 'v rmem) toolkit"
  assumes ready: "job_ready J rs" and drv: "\<forall>x. be_driver E c x = CL_SUCCESS"
    and alloc: "\<forall>i n. fst (tk_alloc K c i n) = CL_SUCCESS" and q: "cmds q = []"
  shows "\<exists>rs' q1. enqueue_sort K E c J (Some rs, q) s = (Inr (Some rs', q1), s) \<and> same_sort rs rs' \<and> rs_wf rs'
    \<and> legal_order (cmds q1) (cmds q1) \<and> distinct (map ev (cmds q1))
    \<and> (\<forall>ord D junk view (m :: 'v rmem). legal_order (cmds q1) ord \<longrightarrow> (\<forall>x\<in>set (cmds q1). dsched_ok D x) \<longrightarrow>
        (\<forall>i < sj_elements J. fst m (buf_id (sj_tmpKeys1 J)) i < 2 ^ sj_bits J) \<longrightarrow>
        (\<exists>m1. run_all (run_radix_command D junk view (rs_keySize rs) (rs_valueSize rs)) ord m = Some m1
          \<and> contents (rs_valueSize rs \<noteq> 0) m1 (job_output J) (sj_elements J) =
              sort_key fst (contents (rs_valueSize rs \<noteq> 0) m (job_output J) (sj_elements J))
          \<and> contents (rs_valueSize rs \<noteq> 0) m1 (job_input J) (sj_elements J) =
              contents (rs_valueSize rs \<noteq> 0) m (job_input J) (sj_elements J)))"
proof -
  let ?n = "sj_elements J" and ?keys = "sj_tmpKeys1 J" and ?vals = "snd (job_values J)"
  let ?alloc = "\<lambda>i. tk_alloc K c (t_bufs s + i)" and ?drv = "be_driver E c"
  have wf: "rs_wf rs" "radix_sizes_ok rs ?n" "0 < sj_bits J" using ready by (simp_all add: job_ready_def)
  have ok: "\<not> radix_rejected rs ?keys ?vals ?n (sj_bits J)"
    using ready unfolding radix_rejected_def job_ready_def job_values_def by (auto split: option.splits)
  have "succeeds (radix_enqueue ?drv ?alloc ?keys ?vals ?n (sj_bits J) None) (rs, q)"
    by (rule radix_enqueue_success) (use wf ok drv alloc in simp_all)
  then obtain e rs' q1 where en: "radix_enqueue ?drv ?alloc ?keys ?vals ?n (sj_bits J) None (rs, q) = (Inr e, rs', q1)"
    by (auto simp: succeeds_def)
  have nn: "norm_events None = None" by (simp add: norm_events_def)
  have pub: "Radixsort_enqueue ?drv ?alloc ?keys ?vals ?n (sj_bits J) None (Some rs, q) = (Inr e, Some rs', q1)"
    unfolding Radixsort_enqueue_def by (rule xop.public_result) (simp_all only: nn en wait_list_simps list.size, simp)
  obtain t2 where t: "radix_temporaries ?alloc rs ?n = Inr (sj_tmpKeys2 J, t2)"
    and ap: "radix_apart rs (radix_bufs ?keys ?vals (sj_tmpKeys2 J, t2))"
    and kb: "buf_id (sj_keys J) \<notin> {rs_histogram rs, buf_id ?keys, buf_id (sj_tmpKeys2 J)}"
    and vb: "rs_valueSize rs \<noteq> 0 \<Longrightarrow> {buf_id ?vals, buf_id t2} \<inter> {buf_id (sj_keys J), buf_id (fst (job_values J))} = {}
      \<and> buf_id (fst (job_values J)) \<notin> {rs_histogram rs, buf_id ?keys, buf_id (sj_tmpKeys2 J)}"
    using job_temporaries [OF ready, of ?alloc] by blast
  have ap': "radix_apart rs (radix_bufs ?keys ?vals t)" if "radix_temporaries ?alloc rs ?n = Inr t" for t
  proof -
    have t2: "t = (sj_tmpKeys2 J, t2)" using that t by simp
    show ?thesis unfolding t2 by (rule ap)
  qed
  from radix_enqueue_result [OF wf(1,2) ap' en] obtain cs where ad: "adds rs q None e rs' q1 cs" by blast
  have cs: "cmds q1 = cs" and row: "in_row [] (next_ev q) cs" and same: "same_sort rs rs'" "rs_wf rs'"
    using ad q wf(1) by (simp_all add: adds_def)
  have lo: "legal_order cs cs" by (rule in_row_legal [OF row]) simp
  have es: "enqueue_sort K E c J (Some rs, q) s = (Inr (Some rs', q1), s)"
  proof -
    have "(case sj_values J of None \<Rightarrow> null_buffer | Some (v, bytes, v1, v2) \<Rightarrow> v1) = ?vals"
      by (simp add: job_values_def split: option.splits prod.splits)
    then show ?thesis by (simp only: enqueue_sort_def pub from_enqueue_def prod.case sum.case)
  qed
  have "\<exists>m1. run_all (run_radix_command D junk view (rs_keySize rs) (rs_valueSize rs)) ord m = Some m1
      \<and> contents (rs_valueSize rs \<noteq> 0) m1 (job_output J) ?n = sort_key fst (contents (rs_valueSize rs \<noteq> 0) m (job_output J) ?n)
      \<and> contents (rs_valueSize rs \<noteq> 0) m1 (job_input J) ?n = contents (rs_valueSize rs \<noteq> 0) m (job_input J) ?n"
    if ord: "legal_order cs ord" and D: "\<forall>x\<in>set cs. dsched_ok D x" and b: "\<forall>i<?n. fst m (buf_id ?keys) i < 2 ^ sj_bits J"
    for ord D junk view and m :: "'v rmem"
  proof -
    have b': "fst m (buf_id ?keys) i < 2 ^ (if sj_bits J = 0 then 8 * rs_keySize rs else sj_bits J)" if "i < ?n" for i
      using b that wf(3) by simp
    have w: "length (wait_list None) < 2 ^ 32" by simp
    have cq: "cmds (snd (Some rs', q1)) = cmds q @ cs" using cs q by simp
    obtain m1 where m1: "run_all (run_radix_command D junk view (rs_keySize rs) (rs_valueSize rs)) ord m = Some m1"
      "contents (rs_valueSize rs \<noteq> 0) m1 (job_output J) ?n = sort_key fst (contents (rs_valueSize rs \<noteq> 0) m (job_output J) ?n)"
      and oc: "only_changes (rs_histogram rs) {buf_id ?keys, buf_id (sj_tmpKeys2 J)}
        (if rs_valueSize rs \<noteq> 0 then {buf_id ?vals, buf_id t2} else {}) ?n m m1"
      using radix_public_sorts [where J = junk and view = view and D = D, OF wf(1,2) w ap' b' pub cq ord] D t
      by (auto cong: if_cong)
    have "fst m1 (buf_id (sj_keys J)) = fst m (buf_id (sj_keys J))"
      using oc kb vb by (auto simp: only_changes_def)
    moreover have "snd m1 (buf_id (fst (job_values J))) = snd m (buf_id (fst (job_values J)))" if "rs_valueSize rs \<noteq> 0"
      using oc vb that by (auto simp: only_changes_def)
    ultimately show ?thesis using m1 by (auto simp: contents_def)
  qed
  then show ?thesis using es same lo in_row_events [OF row] by (intro exI [of _ rs'] exI [of _ q1]) (auto simp: cs)
qed

lemma commands_finish:
  assumes fin: "finishes K c ks vs" and lo: "legal_order (cmds q) (cmds q)" "distinct (map ev (cmds q))"
    and run: "\<And>ord D junk view. legal_order (cmds q) ord \<Longrightarrow> \<forall>x\<in>set (cmds q). dsched_ok D x \<Longrightarrow>
      \<exists>m1. run_all (run_radix_command D junk view ks vs) ord (t_mem s) = Some m1 \<and> P m1"
  shows "\<exists>m1. queued_commands K c q s = (Inr (q\<lparr>cmds := []\<rparr>), s\<lparr>t_mem := m1\<rparr>) \<and> P m1"
proof -
  from fin lo obtain ord D junk view where o: "legal_order (cmds q) ord" "\<forall>x\<in>set (cmds q). dsched_ok D x"
    and f: "\<And>m'. run_all (run_radix_command D junk view ks vs) ord (t_mem s) = Some m' \<Longrightarrow>
      tk_finish K c (cmds q) (t_mem s) = (Inr (), m')"
    unfolding finishes_def by blast
  obtain m1 where m1: "run_all (run_radix_command D junk view ks vs) ord (t_mem s) = Some m1" "P m1"
    using run [OF o] by blast
  show ?thesis by (rule exI [of _ m1]) (simp add: queued_commands_def f [OF m1(1)] m1(2))
qed

text \<open>A whole round, which leaves the job ready for the next one.\<close>

lemma sort_round_sorts:
  fixes K :: "('p, 'c, 'a, 'g, 'v rmem) toolkit"
  assumes rt: "sort_runtime K E c (rs_keySize rs) (rs_valueSize rs)" and ready: "job_ready J rs" and q: "cmds q = []"
    and bound: "\<forall>i < sj_elements J. fst (t_mem s) (buf_id (sj_keys J)) i < 2 ^ sj_bits J"
  shows "\<exists>rs' q' m. sort_round K E c J (Some rs, q) s = (Inr (Some rs', q'), s\<lparr>t_mem := m\<rparr>) \<and> cmds q' = []
    \<and> same_sort rs rs' \<and> rs_wf rs'
    \<and> contents (rs_valueSize rs \<noteq> 0) m (job_output J) (sj_elements J) =
        sort_key fst (contents (rs_valueSize rs \<noteq> 0) (t_mem s) (job_input J) (sj_elements J))
    \<and> contents (rs_valueSize rs \<noteq> 0) m (job_input J) (sj_elements J) =
        contents (rs_valueSize rs \<noteq> 0) (t_mem s) (job_input J) (sj_elements J)"
proof -
  let ?hv = "rs_valueSize rs \<noteq> 0" and ?n = "sj_elements J"
  have fin: "finishes K c (rs_keySize rs) (rs_valueSize rs)" and drv: "\<forall>x. be_driver E c x = CL_SUCCESS"
    and al: "\<forall>i n. fst (tk_alloc K c i n) = CL_SUCCESS"
    using rt by (simp_all add: sort_runtime_def fresh_buffers_def)
  obtain q1 where c1: "copy_input E c J q s = (Inr q1, s)" "legal_order (cmds q1) (cmds q1)" "distinct (map ev (cmds q1))"
    and r1: "\<And>ord D junk view (m :: 'v rmem). legal_order (cmds q1) ord \<Longrightarrow>
        (\<exists>m1. run_all (run_radix_command D junk view (rs_keySize rs) (rs_valueSize rs)) ord m = Some m1
          \<and> contents ?hv m1 (job_output J) ?n = contents ?hv m (job_input J) ?n
          \<and> contents ?hv m1 (job_input J) ?n = contents ?hv m (job_input J) ?n)"
    using copies_run [OF ready drv q, of s] by blast
  obtain m1 where f1: "queued_commands K c q1 s = (Inr (q1\<lparr>cmds := []\<rparr>), s\<lparr>t_mem := m1\<rparr>)"
    and m1: "contents ?hv m1 (job_output J) ?n = contents ?hv (t_mem s) (job_input J) ?n"
      "contents ?hv m1 (job_input J) ?n = contents ?hv (t_mem s) (job_input J) ?n"
    using commands_finish [OF fin c1(2,3), of s, OF r1] by blast
  have b1: "\<forall>i < ?n. fst m1 (buf_id (sj_tmpKeys1 J)) i < 2 ^ sj_bits J"
    using m1(1) bound by (auto simp: contents_def)
  let ?s1 = "s\<lparr>t_mem := m1\<rparr>" and ?q2 = "q1\<lparr>cmds := []\<rparr>"
  have "cmds ?q2 = []" by simp
  then obtain rs' q3 where e: "enqueue_sort K E c J (Some rs, ?q2) ?s1 = (Inr (Some rs', q3), ?s1)"
    and same: "same_sort rs rs'" "rs_wf rs'"
    and l3: "legal_order (cmds q3) (cmds q3)" "distinct (map ev (cmds q3))"
    and r3: "\<And>ord D junk view (m :: 'v rmem). legal_order (cmds q3) ord \<Longrightarrow> \<forall>x\<in>set (cmds q3). dsched_ok D x \<Longrightarrow>
        \<forall>i < ?n. fst m (buf_id (sj_tmpKeys1 J)) i < 2 ^ sj_bits J \<Longrightarrow>
        (\<exists>m1. run_all (run_radix_command D junk view (rs_keySize rs) (rs_valueSize rs)) ord m = Some m1
          \<and> contents ?hv m1 (job_output J) ?n = sort_key fst (contents ?hv m (job_output J) ?n)
          \<and> contents ?hv m1 (job_input J) ?n = contents ?hv m (job_input J) ?n)"
    using sort_enqueued [OF ready drv al, of ?q2 ?s1] by blast
  have "\<exists>m2. queued_commands K c q3 ?s1 = (Inr (q3\<lparr>cmds := []\<rparr>), ?s1\<lparr>t_mem := m2\<rparr>)
      \<and> (contents ?hv m2 (job_output J) ?n = sort_key fst (contents ?hv m1 (job_output J) ?n)
          \<and> contents ?hv m2 (job_input J) ?n = contents ?hv m1 (job_input J) ?n)"
    by (rule commands_finish [OF fin l3]) (use r3 b1 in simp)
  then obtain m2 where f3: "queued_commands K c q3 ?s1 = (Inr (q3\<lparr>cmds := []\<rparr>), s\<lparr>t_mem := m2\<rparr>)"
    and m2: "contents ?hv m2 (job_output J) ?n = sort_key fst (contents ?hv m1 (job_output J) ?n)"
      "contents ?hv m2 (job_input J) ?n = contents ?hv m1 (job_input J) ?n" by auto
  have "sort_round K E c J (Some rs, q) s = (Inr (Some rs', q3\<lparr>cmds := []\<rparr>), s\<lparr>t_mem := m2\<rparr>)"
    by (simp add: sort_round_def bind_tool_def c1(1) f1 e f3 return_tool_def)
  then show ?thesis using same m1 m2 by (intro exI [of _ rs'] exI [of _ "q3\<lparr>cmds := []\<rparr>"] exI [of _ m2]) simp
qed

section \<open>The benchmark\<close>

lemma lanes_size:
  assumes "t \<in> set type_table" "baseType t \<noteq> TYPE_VOID"
  shows "\<exists>l. lanes t = Inr l \<and> 0 < l * base_size (baseType t) \<and> l * base_size (baseType t) = getSize t"
proof -
  have "make_type (baseType t) 1 = Inr \<lparr>baseType = baseType t, veclen = 1\<rparr>" using assms by (simp add: make_type_def)
  moreover have "veclen t \<in> set vec_sizes" using assms by (auto simp: type_table_iff void_type_def)
  ultimately show ?thesis
    using assms(2) by (cases "baseType t") (auto simp: lanes_def getSize_def getBaseSize_def vec_sizes_def)
qed

lemma cast_unsigned: "radix_key_type t \<Longrightarrow> x < 2 ^ (8 * getSize t) \<Longrightarrow> cast_to (baseType t) x = int x"
  by (cases "baseType t") (simp_all add: radix_key_type_def isIntegral_def isSigned_def cast_to_def getSize_def getBaseSize_def)

lemma stores_keys_at: "stores_keys K ks \<Longrightarrow> i < length xs \<Longrightarrow> fst (tk_fill K b ks xs m) (buf_id b) i = xs ! i"
  unfolding stores_keys_def by blast

lemma stores_keys_other: "stores_keys K ks \<Longrightarrow> i \<noteq> buf_id b \<Longrightarrow> fst (tk_fill K b w xs m) i = fst m i"
  unfolding stores_keys_def by blast

lemma random_keys_result:
  assumes fresh: "fresh_buffers K E c" and draws: "draws_within K" and stores: "stores_keys K (getSize t)"
    and t: "radix_key_type t" "t \<in> set type_table" and lim: "lo \<le> hi" "hi < 2 ^ (8 * getSize t)"
    and run: "random_keys K c n t lo hi s = (Inr b, s')"
  shows "\<exists>m g. b = Some (snd (tk_alloc K c (t_bufs s) (n * getSize t)))
    \<and> s' = s\<lparr>t_bufs := Suc (t_bufs s), t_rng := g, t_mem := m\<rparr>
    \<and> (\<forall>i < n. lo \<le> fst m (buf_id (the b)) i \<and> fst m (buf_id (the b)) i \<le> hi)"
proof -
  let ?lim = "Ints (int lo) (int hi)"
  have int: "base_integral (baseType t)" and nv: "baseType t \<noteq> TYPE_VOID"
    using t(1) by (auto simp: radix_key_type_def isIntegral_def)
  have bs: "base_size (baseType t) = getSize t" using scalar_key [OF t(1)] by (simp add: getBaseSize_def)
  have c: "cast_to (baseType t) lo = int lo" "cast_to (baseType t) hi = int hi"
    using cast_unsigned [OF t(1)] lim by auto
  obtain l where l: "lanes t = Inr l" "0 < l * base_size (baseType t)" "l * base_size (baseType t) = getSize t"
    using lanes_size [OF t(2) nv] by blast
  then have l1: "l = 1" using bs by simp
  from run obtain buf where b: "b = Some buf" and r: "randomBuffer K c (baseType t) n l ?lim s = (Inr buf, s')"
    using l(1) int nv c by (auto simp: random_keys_def bind_tool_Inr tool_steps_Inr)
  from randomBuffer_result [OF fresh l(2) r] obtain xs g where
    d: "draw_all (tk_draw K (baseType t) ?lim) n (t_rng s) = (xs, g)"
    and buf: "buf = snd (tk_alloc K c (t_bufs s) (n * getSize t))"
    and s': "s' = s\<lparr>t_bufs := Suc (t_bufs s), t_rng := g, t_mem := tk_fill K buf (getSize t) xs (t_mem s)\<rparr>"
    by (auto simp: l1 bs)
  have xs: "length xs = n" "\<forall>x\<in>set xs. lo \<le> x \<and> x \<le> hi"
    using draw_all_bounds [OF draws, of "int lo" "int hi"] d lim(1) by auto
  have "lo \<le> fst (tk_fill K buf (getSize t) xs (t_mem s)) (buf_id buf) i
      \<and> fst (tk_fill K buf (getSize t) xs (t_mem s)) (buf_id buf) i \<le> hi" if "i < n" for i
    using stores_keys_at [OF stores, of i xs buf "t_mem s"] xs that by simp
  then show ?thesis unfolding s' b buf
    by (intro exI [of _ "tk_fill K buf (getSize t) xs (t_mem s)"] exI [of _ g]) (simp add: buf)
qed

lemma random_values_result:
  assumes fresh: "fresh_buffers K E c" and stores: "stores_keys K ks" and t: "t \<in> set type_table"
    and run: "random_values K c n t s = (Inr b, s')"
  shows "if baseType t = TYPE_VOID then b = None \<and> s' = s
    else \<exists>m g. b = Some (snd (tk_alloc K c (t_bufs s) (n * getSize t)))
      \<and> s' = s\<lparr>t_bufs := Suc (t_bufs s), t_rng := g, t_mem := m\<rparr>
      \<and> (\<forall>i. i \<noteq> buf_id (the b) \<longrightarrow> fst m i = fst (t_mem s) i)"
proof (cases "baseType t = TYPE_VOID")
  case True
  then show ?thesis using run by (simp add: random_values_def return_tool_def)
next
  case False
  obtain l where l: "lanes t = Inr l" "0 < l * base_size (baseType t)" "l * base_size (baseType t) = getSize t"
    using lanes_size [OF t False] by blast
  from run obtain buf where b: "b = Some buf"
    and r: "randomBuffer K c (baseType t) n l (default_limits (baseType t)) s = (Inr buf, s')"
    using l(1) False by (auto simp: random_values_def bind_tool_Inr tool_steps_Inr)
  have "n * l * base_size (baseType t) = n * getSize t" using l(3) by (simp add: mult.assoc)
  with randomBuffer_result [OF fresh l(2) r] obtain xs g where
    buf: "buf = snd (tk_alloc K c (t_bufs s) (n * getSize t))"
    and s': "s' = s\<lparr>t_bufs := Suc (t_bufs s), t_rng := g, t_mem := tk_fill K buf (base_size (baseType t)) xs (t_mem s)\<rparr>"
    by auto
  have "fst (tk_fill K buf (base_size (baseType t)) xs (t_mem s)) i = fst (t_mem s) i" if "i \<noteq> buf_id buf" for i
    using stores_keys_other [OF stores that] .
  then show ?thesis unfolding s' b if_not_P [OF False]
    by (intro exI [of _ "tk_fill K buf (base_size (baseType t)) xs (t_mem s)"] exI [of _ g]) (simp add: buf)
qed

lemma setTemporaryBuffers_keeps:
  "rs_wf (setTemporaryBuffers a b rs) = rs_wf rs" "rs_keySize (setTemporaryBuffers a b rs) = rs_keySize rs"
  "rs_valueSize (setTemporaryBuffers a b rs) = rs_valueSize rs" "rs_histogram (setTemporaryBuffers a b rs) = rs_histogram rs"
  "rs_tmpKeys (setTemporaryBuffers a b rs) = a" "rs_tmpValues (setTemporaryBuffers a b rs) = b"
  by (simp_all add: setTemporaryBuffers_def rs_wf_def rs_slices_def cong: option.case_cong)

lemma setTemporaryBuffers_public:
  "Radixsort_setTemporaryBuffers a b (Some rs) = Inr (Some (setTemporaryBuffers a b rs))"
  by (simp add: Radixsort_setTemporaryBuffers_def checkNull_def abi_wrap_catch)

text \<open>Buffers are created and filled without the library.\<close>

lemma new_buffer_host: "new_buffer K c n s = (r, s') \<Longrightarrow> t_host s' = t_host s"
  by (auto simp: new_buffer_def split: sum.splits)

lemma randomBuffer_host: "randomBuffer K c b n len lim s = (Inr x, s') \<Longrightarrow> t_host s' = t_host s"
  by (auto simp: randomBuffer_def Let_def bind_tool_Inr tool_steps_Inr write_random_def split: if_splits prod.splits
      dest!: new_buffer_host)

lemma random_host:
  "random_keys K c n t lo hi s = (Inr x, s') \<Longrightarrow> t_host s' = t_host s"
  "random_values K c n t s = (Inr x, s') \<Longrightarrow> t_host s' = t_host s"
  "value_buffers K c b s = (Inr y, s') \<Longrightarrow> t_host s' = t_host s"
  by (auto simp: random_keys_def random_values_def value_buffers_def bind_tool_Inr tool_steps_Inr
      split: if_splits option.splits dest!: new_buffer_host randomBuffer_host)

text \<open>What the preparation leaves: a job that is ready, and keys within their limits.\<close>

lemma sort_setup_ready:
  fixes E :: "('c, 'a, 'r::{linorder, order_bot}, 'w) bench"
  assumes db: "sqlite_ok Q W clogs_schemas" "bench_ok radixsort_cl_accepts ''radixsort.cl'' E" "process_inv W dbo (t_host s)"
    and dev: "device_ok d" "16 \<le> max_work_group_size d"
    and prep: "sort_setup K Q env E c d vm out0 s = (Inr (J, Some rs), s0)"
    and rt: "sort_runtime K E c (rs_keySize rs) (rs_valueSize rs)" and size: "radix_sizes_ok rs (o_items vm)"
    and so: "read_sort vm d = Inr so" "so_min so \<le> so_max so"
  shows "job_ready J rs \<and> sj_elements J = o_items vm \<and> sj_bits J = so_bits so \<and> sj_iterations J = o_iterations vm
    \<and> (\<forall>i < o_items vm. so_min so \<le> fst (t_mem s0) (buf_id (sj_keys J)) i \<and> fst (t_mem s0) (buf_id (sj_keys J)) i \<le> so_max so)"
proof -
  note f = read_sort_Inr [OF so(1)]
  let ?n = "so_elements so" and ?kt = "so_key so" and ?vt = "so_value so" and ?s1 = "s\<lparr>t_rng := tk_seed K\<rparr>"
  from prep obtain kb s2 keys bytes t1 s3 t2 s4 vb s5 vals s6 p rs0 h where
    k: "random_keys K c ?n ?kt (so_min so) (so_max so) ?s1 = (Inr kb, s2)" and kb: "buffer_bytes kb = Inr (keys, bytes)"
    and t1: "new_buffer K c bytes s2 = (Inr t1, s3)" and t2: "new_buffer K c bytes s3 = (Inr t2, s4)"
    and v: "random_values K c ?n ?vt s4 = (Inr vb, s5)" and vals: "value_buffers K c vb s5 = (Inr vals, s6)"
    and p: "RadixsortProblem_setKeyType ?kt new_radix_problem = Inr p"
    and new: "Radixsort_new Q env E c d (RadixsortProblem_setValueType ?vt p) out0 (t_host s6) = (Returns rs0, h)"
    and rs: "rs = setTemporaryBuffers (Some t2) (map_option (\<lambda>(v, bytes, v1, v2). v2) vals) rs0"
    and J: "J = \<lparr>sj_elements = ?n, sj_bits = so_bits so, sj_iterations = so_iterations so,
        sj_keys = keys, sj_keyBytes = bytes, sj_tmpKeys1 = t1, sj_tmpKeys2 = t2, sj_values = vals\<rparr>"
    and s0: "s0 = s6\<lparr>t_host := h\<rparr>"
    unfolding sort_setup_def so(1)
    by (auto simp: bind_tool_Inr tool_steps_Inr start_engine_def setTemporaryBuffers_public)
  have fresh: "fresh_buffers K E c" and draws: "draws_within K" using rt by (simp_all add: sort_runtime_def)
  note nb = new_buffer_fresh [OF fresh]
  have p': "xp_key p = ?kt" using p by (auto simp: RadixsortProblem_setKeyType_def split: if_splits)
  let ?p = "RadixsortProblem_setValueType ?vt p"
  have xp: "xp_key ?p = ?kt" "xp_value ?p = ?vt" using p' by (simp_all add: RadixsortProblem_setValueType_def)
  have ks: "so_max so < 2 ^ (8 * getSize ?kt)"
  proof -
    have "(2 :: nat) ^ so_bits so \<le> 2 ^ (8 * getSize ?kt)" using f(13) by (intro power_increasing) auto
    then show ?thesis using f(15) by (rule less_le_trans [rotated])
  qed
  have host: "t_host s6 = t_host s"
    using random_host(1) [OF k] new_buffer_host [OF t1] new_buffer_host [OF t2] random_host(2) [OF v] random_host(3) [OF vals]
    by simp
  have built: "sort_built E c ?p rs0"
    using sort_constructed [OF db(1,2) _ dev _ new] f(4) db(3) host xp by simp
  have rs_eq: "rs_wf rs" "rs_keySize rs = getSize ?kt" "rs_valueSize rs = getSize ?vt" "rs_tmpKeys rs = Some t2"
    "rs_tmpValues rs = map_option (\<lambda>(v, bytes, v1, v2). v2) vals" "rs_histogram rs = rs_histogram rs0"
    using built xp by (simp_all add: rs setTemporaryBuffers_keeps sort_built_def)
  have stores: "stores_keys K (getSize ?kt)" using rt by (simp add: sort_runtime_def rs_eq)
  let ?id = "\<lambda>i n. buf_id (snd (tk_alloc K c i n))"
  have apart: "\<And>i j m n. i \<noteq> j \<Longrightarrow> ?id i m \<noteq> ?id j n" "\<And>i m. rs_histogram rs \<noteq> ?id i m"
    "\<And>i m. buf_size (snd (tk_alloc K c i m)) = m" "\<And>i m. read_write (snd (tk_alloc K c i m))"
    using fresh built unfolding fresh_buffers_def sort_built_def rs_eq(6) by metis+
  obtain m g where kr: "kb = Some (snd (tk_alloc K c (t_bufs s) (?n * getSize ?kt)))"
    "s2 = ?s1\<lparr>t_bufs := Suc (t_bufs s), t_rng := g, t_mem := m\<rparr>"
    "\<forall>i < ?n. so_min so \<le> fst m (buf_id (the kb)) i \<and> fst m (buf_id (the kb)) i \<le> so_max so"
    using random_keys_result [OF fresh draws stores f(5,3) so(2) ks k] by auto
  have kb': "keys = snd (tk_alloc K c (t_bufs s) (?n * getSize ?kt))" "bytes = ?n * getSize ?kt"
    using kb apart(3) by (auto simp: buffer_bytes_def kr(1))
  have ts: "t1 = snd (tk_alloc K c (Suc (t_bufs s)) bytes)" "t2 = snd (tk_alloc K c (Suc (Suc (t_bufs s))) bytes)"
    "t_bufs s4 = Suc (Suc (Suc (t_bufs s)))" "t_mem s4 = m"
    using t1 t2 by (auto simp: nb kr(2))
  have n: "?n = o_items vm" using f(8) .
  show ?thesis
  proof (cases "baseType ?vt = TYPE_VOID")
    case True
    then have "vb = None" "s5 = s4" using random_values_result [OF fresh stores f(4) v] by simp_all
    then have e: "vals = None" "s6 = s4" using vals by (simp_all add: value_buffers_def return_tool_def)
    have "getSize ?vt = 0" using True by (simp add: getSize_def getBaseSize_def)
    then show ?thesis
      using rs_eq f apart size kb' ts kr(3) by (simp add: job_ready_def J e s0 kr(1) n mult.commute)
  next
    case False
    obtain m' g' where vr: "vb = Some (snd (tk_alloc K c (t_bufs s4) (?n * getSize ?vt)))"
      "s5 = s4\<lparr>t_bufs := Suc (t_bufs s4), t_rng := g', t_mem := m'\<rparr>"
      "\<forall>i. i \<noteq> buf_id (the vb) \<longrightarrow> fst m' i = fst (t_mem s4) i"
      using random_values_result [OF fresh stores f(4) v] False by auto
    let ?v = "\<lambda>i. snd (tk_alloc K c (i + t_bufs s4) (?n * getSize ?vt))"
    have e: "vals = Some (?v 0, ?n * getSize ?vt, ?v 1, ?v 2)" "t_mem s6 = m'"
      using vals by (auto simp: value_buffers_def bind_tool_Inr tool_steps_Inr nb vr apart(3))
    have vs: "0 < getSize ?vt" using lanes_size [OF f(4) False] by metis
    have "fst m' (buf_id keys) = fst m (buf_id keys)" using vr(3) ts apart(1) by (simp add: vr(1) kb')
    then show ?thesis
      using rs_eq f apart size kb' ts kr(3) vs by (simp add: job_ready_def J e s0 kr(1) n mult.commute)
  qed
qed


section \<open>An example\<close>

text \<open>A store through a mapping: scalars of a width, and values of 4 bytes made of them.\<close>

definition demo_fill :: "buffer \<Rightarrow> nat \<Rightarrow> nat list \<Rightarrow> nat list rmem \<Rightarrow> nat list rmem" where
  "demo_fill b w xs m =
     ((fst m)(buf_id b := (\<lambda>i. if i < length xs then xs ! i else fst m (buf_id b) i)),
      (snd m)(buf_id b := (\<lambda>i. take (4 div w) (drop (i * (4 div w)) xs))))"

definition demo_kit ::
  "(nat \<Rightarrow> nat list radix_junk) \<Rightarrow> ((nat \<Rightarrow> nat list) \<Rightarrow> levels) \<Rightarrow> (unit, unit, unit, nat, nat list rmem) toolkit" where
  "demo_kit junk view =
     \<lparr>tk_locale = Inr (), tk_parse = (\<lambda>argv. Inr default_options), tk_usage = [], tk_platforms = Inr [()],
      tk_devices = (\<lambda>p. Inr [\<lparr>dev_info = small_device, dev_available = True, dev_compiler = True\<rparr>]),
      tk_context = (\<lambda>d. Inr ()), tk_queue = (\<lambda>c d. Inr ()),
      tk_alloc = (\<lambda>c i n. (CL_SUCCESS, \<lparr>buf_id = i + 10, buf_size = n, buf_flags = CL_MEM_READ_WRITE\<rparr>)),
      tk_map = (\<lambda>c b n. CL_SUCCESS), tk_unmap = (\<lambda>c b. CL_SUCCESS), tk_seed = 0,
      tk_draw = (\<lambda>b lim g. (case lim of Ints lo hi \<Rightarrow> nat (lo + int (7 * g) mod (hi - lo + 1)) | Reals lo hi \<Rightarrow> 0, Suc g)),
      tk_fill = demo_fill,
      tk_finish = (\<lambda>c cs m. case run_all (run_radix_command (plain_sched cs) junk view 4 4) cs m of
          None \<Rightarrow> (Inl (InternalError ''illegal command''), m) | Some m' \<Rightarrow> (Inr (), m'))\<rparr>"

definition demo_options :: options where
  "demo_options = default_options\<lparr>o_items := 5, o_keyBits := Some 4, o_iterations := 2\<rparr>"

definition demo_tool :: "db_object \<Rightarrow> engine_db \<Rightarrow> (nat, nat list rmem, nat, engine_db) tool" where
  "demo_tool d db = \<lparr>t_rng = 3, t_mem = (\<lambda>b i. 0, \<lambda>b i. []), t_bufs = 0, t_host = demo_host d db\<rparr>"

lemma demo_kit_runtime: "sort_runtime (demo_kit junk view) radix_bench c 4 4"
  unfolding sort_runtime_def
proof (intro conjI)
  show "fresh_buffers (demo_kit junk view) radix_bench c"
    by (simp add: fresh_buffers_def demo_kit_def radix_bench_simps read_write_def CL_MEM_READ_WRITE_def)
  show "draws_within (demo_kit junk view)"
    unfolding draws_within_def
  proof (intro allI impI)
    fix b :: base_type and lo hi :: int and g :: nat
    assume a: "0 \<le> lo" "lo \<le> hi"
    have "0 \<le> int (7 * g) mod (hi - lo + 1)" "int (7 * g) mod (hi - lo + 1) < hi - lo + 1"
      using a by (intro pos_mod_sign pos_mod_bound; simp)+
    then show "lo \<le> int (fst (tk_draw (demo_kit junk view) b (Ints lo hi) g))
        \<and> int (fst (tk_draw (demo_kit junk view) b (Ints lo hi) g)) \<le> hi"
      using a by (simp add: demo_kit_def)
  qed
  show "stores_keys (demo_kit junk view) 4" by (simp add: stores_keys_def demo_kit_def demo_fill_def)
  show "\<forall>x. be_driver radix_bench c x = CL_SUCCESS" by (simp add: radix_bench_simps)
  show "finishes (demo_kit junk view) c 4 4"
    unfolding finishes_def
  proof (intro allI impI)
    fix cs :: "unit command list" and m
    assume cs: "legal_order cs cs" "distinct (map ev cs)"
    then show "\<exists>ord D J vw. legal_order cs ord \<and> (\<forall>x\<in>set cs. dsched_ok D x)
        \<and> (\<forall>m'. run_all (run_radix_command D J vw 4 4) ord m = Some m' \<longrightarrow> tk_finish (demo_kit junk view) c cs m = (Inr (), m'))"
      by (intro exI [of _ cs] exI [of _ "plain_sched cs"] exI [of _ junk] exI [of _ view])
        (auto simp: demo_kit_def intro: plain_sched_ok)
  qed
qed

lemma demo_read: "read_sort demo_options small_device =
  Inr \<lparr>so_key = xp_key small_problem, so_value = xp_value small_problem, so_elements = 5, so_bits = 4, so_min = 0, so_max = 15,
       so_iterations = 2\<rparr>"
proof -
  have m: "matchType ''uint'' = Inr \<lparr>baseType = TYPE_UINT, veclen = 1\<rparr>"
    by (simp add: matchType_iff type_table_iff vec_sizes_def getName_def)
  show ?thesis
    by (simp add: read_sort_def demo_options_def default_options_def m small_problem_def refuse_def isSigned_def isIntegral_def
        isStorable_def isComputable_def sort_bits_def getBaseSize_def sort_max_def upper_correct)
qed

lemma demo_kit_simps:
  "tk_alloc (demo_kit junk view) c i n = (CL_SUCCESS, \<lparr>buf_id = i + 10, buf_size = n, buf_flags = CL_MEM_READ_WRITE\<rparr>)"
  "tk_map (demo_kit junk view) c b n = CL_SUCCESS" "tk_unmap (demo_kit junk view) c b = CL_SUCCESS" "tk_seed (demo_kit junk view) = 0"
  "tk_fill (demo_kit junk view) = demo_fill"
  "tk_draw (demo_kit junk view) ty (Ints lo hi) g = (nat (lo + int (7 * g) mod (hi - lo + 1)), Suc g)"
  by (simp_all add: demo_kit_def)

lemma demo_draws:
  "draw_all (tk_draw (demo_kit junk view) b (Ints 0 15)) 5 0 = ([0, 7, 14, 5, 12], 5)"
  "draw_all (tk_draw (demo_kit junk view) b (Ints 0 4294967295)) 5 5 = ([35, 42, 49, 56, 63], 10)"
  by (simp_all add: numeral_eq_Suc demo_kit_simps)

lemma demo_buffers:
  fixes s :: "(nat, nat list rmem, 'w, 'db) tool"
  defines "t \<equiv> \<lparr>baseType = TYPE_UINT, veclen = 1\<rparr>"
  shows "t_rng s = 0 \<Longrightarrow> random_keys (demo_kit junk view) c 5 t 0 15 s =
      (let b = \<lparr>buf_id = t_bufs s + 10, buf_size = 20, buf_flags = CL_MEM_READ_WRITE\<rparr> in
       (Inr (Some b), s\<lparr>t_bufs := Suc (t_bufs s), t_rng := 5, t_mem := demo_fill b 4 [0, 7, 14, 5, 12] (t_mem s)\<rparr>))"
    and "t_rng s = 5 \<Longrightarrow> random_values (demo_kit junk view) c 5 t s =
      (let b = \<lparr>buf_id = t_bufs s + 10, buf_size = 20, buf_flags = CL_MEM_READ_WRITE\<rparr> in
       (Inr (Some b), s\<lparr>t_bufs := Suc (t_bufs s), t_rng := 10, t_mem := demo_fill b 4 [35, 42, 49, 56, 63] (t_mem s)\<rparr>))"
  by (simp_all add: t_def random_keys_def random_values_def randomBuffer_def bind_tool_def from_stop_def from_result_def refuse_def lanes_def
      make_type_def getSize_def getBaseSize_def cast_to_def default_limits_def return_tool_def new_buffer_def create_buffer_def
      write_random_def Let_def demo_kit_simps(1-5) demo_draws u64_def)

lemma demo_setup:
  assumes d: "demo_db = Some (d, db)"
  shows "\<exists>J rs s0. sort_setup (demo_kit junk view) (engine clogs_schemas) (\<lambda>_. None) radix_bench () small_device demo_options
      (small_params 0 0) (demo_tool d db) = (Inr (J, Some rs), s0)
    \<and> rs_keySize rs = 4 \<and> rs_valueSize rs = 4 \<and> radix_sizes_ok rs 5 \<and> buf_id (sj_keys J) = 10 \<and> buf_id (sj_tmpKeys1 J) = 11
    \<and> map (fst (t_mem s0) 10) [0..<5] = [0, 7, 14, 5, 12]"
proof -
  obtain rs h where new: "Radixsort_new (engine clogs_schemas) (\<lambda>_. None) radix_bench () small_device small_problem
      (small_params 0 0) (demo_host d db) = (Returns rs, h)"
    and rs: "Radixsort_construct radix_bench () small_problem (small_params 1 4) = Inr rs" using small_new [OF d] by blast
  note f = radix_initialize_fields [OF rs [unfolded Radixsort_construct_def]]
  have rf: "rs_keySize rs = 4" "rs_valueSize rs = 4" "radix_sizes_ok (setTemporaryBuffers a b rs) 5" for a b
    using f by (simp_all add: small_problem_def getSize_def getBaseSize_def radix_sizes_ok_def getTileSize_def
        setTemporaryBuffers_def small_params_def u64_def)
  have p: "RadixsortProblem_setKeyType (xp_key small_problem) new_radix_problem = Inr (new_radix_problem\<lparr>xp_key := xp_key small_problem\<rparr>)"
    using small_problem_ok by (simp add: RadixsortProblem_setKeyType_def)
  have q: "RadixsortProblem_setValueType (xp_value small_problem) (new_radix_problem\<lparr>xp_key := xp_key small_problem\<rparr>) = small_problem"
    by (simp add: RadixsortProblem_setValueType_def small_problem_def new_radix_problem_def)
  have ts: "xp_key small_problem = \<lparr>baseType = TYPE_UINT, veclen = 1\<rparr>" "xp_value small_problem = \<lparr>baseType = TYPE_UINT, veclen = 1\<rparr>"
    by (simp_all add: small_problem_def)
  show ?thesis
    by (simp add: sort_setup_def bind_tool_def from_stop_def demo_read start_engine_def demo_kit_simps p q
        demo_buffers(1) [folded ts(1)] demo_buffers(2) [folded ts(2)] Let_def buffer_bytes_def new_buffer_def create_buffer_def value_buffers_def return_tool_def
        from_result_def from_host_def demo_tool_def new setTemporaryBuffers_public rf setTemporaryBuffers_keeps)
      (simp add: demo_fill_def upt_rec)
qed


end
